(* ===== verification/Prelude.thy ===== *)
theory Prelude
  imports Main "HOL-Library.Word" "HOL-Library.Monad_Syntax" "HOL-Library.Multiset"
begin

text \<open>
  Shared material of the development: the names of the machine types, the collections the
  component theories put their rewrite rules into, and the generic facts on lists, options
  and two's complement integers that several components use.

  Conventions.  A C pointer is a \<^typ>\<open>nat\<close> with \<open>0\<close> for \<open>NULL\<close>, or a \<open>ptr option\<close> where the
  code tests for \<open>NULL\<close>.  A computation that may stop the machine (a failed \<open>assert\<close>, which
  calls \<open>exit (-1)\<close>, or an access through \<open>NULL\<close> or through a freed pointer) has an \<open>option\<close>
  result, \<open>None\<close> being the machine that does not come back.
\<close>

type_synonym ptr = nat
type_synonym u64 = "64 word"

named_theorems kernel_simps "unfolding rules of the small kernel operations"

section \<open>Two's complement storage\<close>

text \<open>Storing an \<open>int\<close> into a field of 16, 32 or 64 bits.\<close>

definition int16 :: "int \<Rightarrow> int" where
  "int16 x = signed_take_bit 15 x"

definition int32 :: "int \<Rightarrow> int" where
  "int32 x = signed_take_bit 31 x"

lemma int16_id: "- 32768 \<le> x \<Longrightarrow> x \<le> 32767 \<Longrightarrow> int16 x = x"
  by (simp add: int16_def signed_take_bit_int_eq_self)

lemma int16_bounds: "- 32768 \<le> int16 x \<and> int16 x \<le> 32767"
  using signed_take_bit_int_greater_eq_minus_exp [of 15 x]
    signed_take_bit_int_less_exp [of 15 x]
  by (simp add: int16_def)

lemma int32_id: "- 2147483648 \<le> x \<Longrightarrow> x \<le> 2147483647 \<Longrightarrow> int32 x = x"
  by (simp add: int32_def signed_take_bit_int_eq_self)

section \<open>C division\<close>

text \<open>C's \<open>%\<close> truncates towards zero, so its result has the sign of the dividend.\<close>

definition c_rem :: "int \<Rightarrow> int \<Rightarrow> int" where
  "c_rem a b = sgn a * (\<bar>a\<bar> mod \<bar>b\<bar>)"

text \<open>C's \<open>/\<close> truncates as well.\<close>

definition c_quot :: "int \<Rightarrow> int \<Rightarrow> int" where
  "c_quot a b = sgn a * sgn b * (\<bar>a\<bar> div \<bar>b\<bar>)"

lemma c_quot_0 [simp]: "c_quot 0 b = 0"
  by (simp add: c_quot_def)

lemma c_quot_nonneg: "0 \<le> a \<Longrightarrow> 0 < b \<Longrightarrow> c_quot a b = a div b"
  by (cases "a = 0") (simp_all add: c_quot_def)

lemma c_rem_nonneg: "0 \<le> a \<Longrightarrow> 0 < b \<Longrightarrow> c_rem a b = a mod b"
  by (cases "a = 0") (simp_all add: c_rem_def)

lemma c_quot_abs_less: "2 \<le> b \<Longrightarrow> c_quot a b \<noteq> 0 \<Longrightarrow> \<bar>c_quot a b\<bar> < \<bar>a\<bar>"
  using int_div_less_self [of "\<bar>a\<bar>" b] pos_imp_zdiv_nonneg_iff [of b "\<bar>a\<bar>"]
  by (cases "a = 0") (auto simp: c_quot_def abs_mult abs_sgn_eq)

text \<open>
  The helper \<open>mod\<close> that \<open>msgqueue.c\<close>, \<open>console.c\<close> and \<open>snake\<close> all define in the same way,
  on top of the truncating remainder.
\<close>

definition c_mod :: "int \<Rightarrow> int \<Rightarrow> int" where
  "c_mod a b = (let r = c_rem a b in if r < 0 then r + b else r)"

lemma c_mod_eq_mod: "0 < b \<Longrightarrow> c_mod a b = a mod b"
proof -
  assume b: "0 < b"
  show ?thesis
  proof (cases "0 \<le> a")
    case True
    then show ?thesis
      using b by (cases "a = 0") (simp_all add: c_mod_def c_rem_def Let_def not_less)
  next
    case False
    then have a: "a < 0" by simp
    have r: "c_rem a b = - ((- a) mod b)"
      using a b by (simp add: c_rem_def)
    show ?thesis
    proof (cases "(- a) mod b = 0")
      case True
      then have "a mod b = 0" using zmod_zminus1_eq_if [of "- a" b] by simp
      with True r show ?thesis by (simp add: c_mod_def)
    next
      case nz: False
      then have "0 < (- a) mod b" using b pos_mod_sign [of b "- a"] by linarith
      then have "c_mod a b = b - (- a) mod b"
        using r by (simp add: c_mod_def)
      also have "\<dots> = a mod b"
        using nz zmod_zminus1_eq_if [of "- a" b] by simp
      finally show ?thesis .
    qed
  qed
qed

section \<open>Partial correctness of computations that may stop the machine\<close>

text \<open>
  \<open>post P r\<close>: if the computation comes back, its result satisfies \<open>P\<close>.  The rules below take a
  computation apart at its binds; the component theories add one rule per operation to the
  collection \<open>keeps\<close>.
\<close>

definition post :: "('a \<Rightarrow> bool) \<Rightarrow> 'a option \<Rightarrow> bool" where
  "post P r \<longleftrightarrow> (\<forall>x. r = Some x \<longrightarrow> P x)"

named_theorems keeps "introduction rules for what an operation keeps"

lemma post_simps [simp]: "post P None" "post P (Some x) \<longleftrightarrow> P x"
  by (simp_all add: post_def)

lemma postD: "post P r \<Longrightarrow> r = Some x \<Longrightarrow> P x"
  by (simp add: post_def)

lemma post_bind: "post Q m \<Longrightarrow> (\<And>x. m = Some x \<Longrightarrow> Q x \<Longrightarrow> post P (f x)) \<Longrightarrow> post P (m \<bind> f)"
  by (cases m) (auto simp: post_def)

lemma post_bind_value: "(\<And>x. m = Some x \<Longrightarrow> post P (f x)) \<Longrightarrow> post P (m \<bind> f)"
  by (cases m) auto

lemma post_mono: "post P r \<Longrightarrow> (\<And>x. P x \<Longrightarrow> Q x) \<Longrightarrow> post Q r"
  by (simp add: post_def)

section \<open>Lists\<close>

lemma butlast_snoc_last: "xs \<noteq> [] \<Longrightarrow> xs = butlast xs @ [last xs]"
  by simp

lemma list_last_cases:
  obtains (Nil) "xs = []" | (snoc) ys y where "xs = ys @ [y]"
  by (metis rev_exhaust)

lemma distinct_takeWhile_dropWhile_insert:
  assumes "distinct xs" "x \<notin> set xs"
  shows "distinct (takeWhile P xs @ x # dropWhile P xs)"
proof -
  have "distinct (takeWhile P xs @ dropWhile P xs)" using assms by simp
  then have "set (takeWhile P xs) \<inter> set (dropWhile P xs) = {}"
    by (simp only: distinct_append)
  moreover have "x \<notin> set (takeWhile P xs)" "x \<notin> set (dropWhile P xs)"
    using assms by (auto dest: set_takeWhileD set_dropWhileD)
  ultimately show ?thesis using assms by auto
qed

lemma set_takeWhile_dropWhile: "set (takeWhile P xs) \<union> set (dropWhile P xs) = set xs"
  by (metis set_append takeWhile_dropWhile_id)

lemma filter_takeWhile_dropWhile:
  "filter Q (takeWhile P xs) @ filter Q (dropWhile P xs) = filter Q xs"
  by (metis filter_append takeWhile_dropWhile_id)

lemma sorted_map_dropWhile:
  fixes f :: "'a \<Rightarrow> 'b::linorder"
  assumes "sorted (map f xs)" "x \<in> set (dropWhile (\<lambda>y. f y < k) xs)"
  shows "k \<le> f x"
proof (cases "dropWhile (\<lambda>y. f y < k) xs")
  case Nil
  then show ?thesis using assms(2) by (simp only: Nil) simp
next
  case (Cons z zs)
  then have z: "\<not> f z < k" by (metis dropWhile_eq_Cons_conv)
  have "sorted (map f (z # zs))"
    using assms(1) Cons by (metis sorted_append map_append takeWhile_dropWhile_id)
  then have "f z \<le> f x" using assms(2) Cons by auto
  then show ?thesis using z by auto
qed

end
