(* ===== verification/Prio_Queue.thy ===== *)
theory Prio_Queue
  imports Prelude
begin

text \<open>
  The intrusive priority queue of \<open>src/lib/include/queue.h\<close>: circular doubly linked lists
  threaded through the elements.  The heap maps the address of a \<open>link\<close> to its two fields; an
  element is named by the address of its link (\<open>queue_entry\<close> subtracts the offset of the field
  from it, which is a renaming), and \<open>pr\<close> gives the \<open>priofield\<close> of an element.  The theory
  shows that the pointer operations implement insertion into and removal from a sorted list,
  and that elements leave by decreasing priority, first in first out at equal priority.
\<close>

section \<open>The pointer operations\<close>

record link =
  prev :: ptr
  "next" :: ptr

type_synonym links = "ptr \<Rightarrow> link"

definition INIT_LIST_HEAD :: "links \<Rightarrow> ptr \<Rightarrow> links" where
  "INIT_LIST_HEAD h l = h(l := \<lparr>prev = l, next = l\<rparr>)"

definition INIT_LINK :: "links \<Rightarrow> ptr \<Rightarrow> links" where
  "INIT_LINK h l = h(l := \<lparr>prev = 0, next = 0\<rparr>)"

definition set_next :: "links \<Rightarrow> ptr \<Rightarrow> ptr \<Rightarrow> links" where
  "set_next h l v = h(l := (h l)\<lparr>next := v\<rparr>)"

definition set_prev :: "links \<Rightarrow> ptr \<Rightarrow> ptr \<Rightarrow> links" where
  "set_prev h l v = h(l := (h l)\<lparr>prev := v\<rparr>)"

text \<open>The \<open>do ... while\<close> loop of \<open>queue_add\<close>; on a broken list it need not end.\<close>

partial_function (option) queue_add_scan ::
    "links \<Rightarrow> (ptr \<Rightarrow> int) \<Rightarrow> ptr \<Rightarrow> ptr \<Rightarrow> ptr \<Rightarrow> ptr option" where
  "queue_add_scan h pr head elem cur =
     (let cur' = next (h cur) in
      if cur' \<noteq> head \<and> pr cur' < pr elem then queue_add_scan h pr head elem cur'
      else Some cur')"

text \<open>\<open>None\<close>: the \<open>assert\<close> on a link that is already chained, or a loop that does not end.\<close>

definition queue_add :: "links \<Rightarrow> (ptr \<Rightarrow> int) \<Rightarrow> ptr \<Rightarrow> ptr \<Rightarrow> links option" where
  "queue_add h pr elem head =
     (if prev (h elem) = 0 \<and> next (h elem) = 0 then
        do {
          cur \<leftarrow> queue_add_scan h pr head elem head;
          let h1 = set_next h elem cur;
          let h2 = set_prev h1 elem (prev (h1 cur));
          let h3 = set_next h2 (prev (h2 cur)) elem;
          Some (set_prev h3 cur elem)
        }
      else None)"

definition queue_empty :: "links \<Rightarrow> ptr \<Rightarrow> bool" where
  "queue_empty h head \<longleftrightarrow> next (h head) = head"

definition queue_out :: "links \<Rightarrow> ptr \<Rightarrow> links \<times> ptr option" where
  "queue_out h head =
     (let ptr_link_ret = prev (h head) in
      if queue_empty h head then (h, None)
      else
        let h1 = set_prev h head (prev (h (prev (h head))));
            h2 = set_next h1 (prev (h1 head)) head;
            h3 = set_prev h2 ptr_link_ret 0;
            h4 = set_next h3 ptr_link_ret 0
        in (h4, Some ptr_link_ret))"

definition queue_del :: "links \<Rightarrow> ptr \<Rightarrow> links option" where
  "queue_del h elem =
     (if prev (h elem) \<noteq> 0 \<and> next (h elem) \<noteq> 0 then
        let h1 = set_next h (prev (h elem)) (next (h elem));
            h2 = set_prev h1 (next (h1 elem)) (prev (h1 elem));
            h3 = set_next h2 elem 0
        in Some (set_prev h3 elem 0)
      else None)"

definition queue_top :: "links \<Rightarrow> ptr \<Rightarrow> ptr option" where
  "queue_top h head =
     (let ptr_link_ret = prev (h head) in
      if queue_empty h head then None else Some ptr_link_ret)"

definition queue_bottom :: "links \<Rightarrow> ptr \<Rightarrow> ptr option" where
  "queue_bottom h head =
     (let ptr_link_ret = next (h head) in
      if queue_empty h head then None else Some ptr_link_ret)"

text \<open>The elements a \<open>queue_for_each\<close> loop visits, in order, from the element \<open>cur\<close> on.\<close>

partial_function (option) queue_for_each_from :: "links \<Rightarrow> ptr \<Rightarrow> ptr \<Rightarrow> ptr list option" where
  "queue_for_each_from h head cur =
     (if cur \<noteq> head then
        do { xs \<leftarrow> queue_for_each_from h head (next (h cur)); Some (cur # xs) }
      else Some [])"

definition queue_for_each :: "links \<Rightarrow> ptr \<Rightarrow> ptr list option" where
  "queue_for_each h head = queue_for_each_from h head (next (h head))"

partial_function (option) queue_for_each_prev_from ::
    "links \<Rightarrow> ptr \<Rightarrow> ptr \<Rightarrow> ptr list option" where
  "queue_for_each_prev_from h head cur =
     (if cur \<noteq> head then
        do { xs \<leftarrow> queue_for_each_prev_from h head (prev (h cur)); Some (cur # xs) }
      else Some [])"

definition queue_for_each_prev :: "links \<Rightarrow> ptr \<Rightarrow> ptr list option" where
  "queue_for_each_prev h head = queue_for_each_prev_from h head (prev (h head))"

section \<open>The lists a heap represents\<close>

text \<open>
  \<open>seg h a xs b\<close>: following \<open>next\<close> from \<open>a\<close> visits \<open>xs\<close> and reaches \<open>b\<close>, and the \<open>prev\<close>
  fields of the visited links lead back.
\<close>

fun seg :: "links \<Rightarrow> ptr \<Rightarrow> ptr list \<Rightarrow> ptr \<Rightarrow> bool" where
  "seg h a [] b \<longleftrightarrow> next (h a) = b \<and> prev (h b) = a"
| "seg h a (x # xs) b \<longleftrightarrow> next (h a) = x \<and> prev (h x) = a \<and> seg h x xs b"

definition is_queue :: "links \<Rightarrow> ptr \<Rightarrow> ptr list \<Rightarrow> bool" where
  "is_queue h head xs \<longleftrightarrow> distinct (head # xs) \<and> 0 \<notin> set (head # xs) \<and> seg h head xs head"

definition unlinked :: "links \<Rightarrow> ptr \<Rightarrow> bool" where
  "unlinked h e \<longleftrightarrow> prev (h e) = 0 \<and> next (h e) = 0"

text \<open>The specification: insertion before the first element of no smaller priority.\<close>

definition qinsert :: "('a \<Rightarrow> int) \<Rightarrow> 'a \<Rightarrow> 'a list \<Rightarrow> 'a list" where
  "qinsert pr e xs = takeWhile (\<lambda>x. pr x < pr e) xs @ e # dropWhile (\<lambda>x. pr x < pr e) xs"

lemmas link_ops = set_next_def set_prev_def

lemma distinct_qinsert_aux: "mset xs = mset ys \<Longrightarrow> distinct xs = distinct ys"
  by (metis distinct_count_atmost_1 set_mset_mset)

lemma set_qinsert [simp]: "set (qinsert pr e xs) = insert e (set xs)"
  using set_takeWhile_dropWhile [of "\<lambda>x. pr x < pr e" xs] by (auto simp: qinsert_def)

lemma mset_qinsert [simp]: "mset (qinsert pr e xs) = add_mset e (mset xs)"
proof -
  have "mset (takeWhile (\<lambda>x. pr x < pr e) xs @ dropWhile (\<lambda>x. pr x < pr e) xs) = mset xs"
    by simp
  then show ?thesis unfolding qinsert_def mset_append by simp
qed

lemma length_qinsert [simp]: "length (qinsert pr e xs) = Suc (length xs)"
  by (metis length_Cons mset.simps(2) mset_qinsert size_mset)

lemma distinct_qinsert [simp]: "distinct (qinsert pr e xs) \<longleftrightarrow> e \<notin> set xs \<and> distinct xs"
  by (metis distinct.simps(2) distinct_qinsert_aux mset.simps(2) mset_qinsert)

lemma sorted_qinsert: "sorted (map pr xs) \<Longrightarrow> sorted (map pr (qinsert pr e xs))"
proof -
  assume s: "sorted (map pr xs)"
  then have "sorted (map pr (takeWhile (\<lambda>x. pr x < pr e) xs))"
    "sorted (map pr (dropWhile (\<lambda>x. pr x < pr e) xs))"
    by (metis map_append sorted_append takeWhile_dropWhile_id)+
  moreover have "\<forall>x \<in> set (dropWhile (\<lambda>x. pr x < pr e) xs). pr e \<le> pr x"
    using s by (auto dest: sorted_map_dropWhile)
  moreover have "\<forall>x \<in> set (takeWhile (\<lambda>x. pr x < pr e) xs). pr x < pr e"
    by (auto dest: set_takeWhileD)
  ultimately show ?thesis by (fastforce simp: qinsert_def sorted_append)
qed

lemma seg_append: "seg h a (xs @ y # ys) b \<longleftrightarrow> seg h a xs y \<and> seg h y ys b"
  by (induction xs arbitrary: a) auto

lemma seg_left_part: "seg h a (xs @ ys) b \<Longrightarrow> seg h a xs (hd (ys @ [b]))"
  by (cases ys) (auto simp: seg_append)

lemma seg_set_next: "c \<notin> set (a # xs) \<Longrightarrow> seg (set_next h c v) a xs b = seg h a xs b"
  by (induction xs arbitrary: a) (auto simp: link_ops)

lemma seg_set_prev: "c \<notin> set xs \<Longrightarrow> c \<noteq> b \<Longrightarrow> seg (set_prev h c v) a xs b = seg h a xs b"
  by (induction xs arbitrary: a) (auto simp: link_ops)

lemma seg_cong:
  assumes "\<And>c. c \<in> set (a # xs) \<Longrightarrow> next (h' c) = next (h c)"
    and "\<And>c. c \<in> set (xs @ [b]) \<Longrightarrow> prev (h' c) = prev (h c)"
  shows "seg h' a xs b = seg h a xs b"
  using assms by (induction xs arbitrary: a) auto

text \<open>Cutting a segment open at its end, and closing it elsewhere.\<close>

lemma seg_last_prev: "seg h a xs b \<Longrightarrow> prev (h b) = (if xs = [] then a else last xs)"
  by (induction xs arbitrary: a) auto

lemma seg_last_prev_in: "seg h a xs b \<Longrightarrow> prev (h b) \<in> set (a # xs)"
  using seg_last_prev [of h a xs b] last_in_set [of xs] by (cases "xs = []") auto

lemma seg_first_next: "seg h a xs b \<Longrightarrow> next (h a) = (if xs = [] then b else hd xs)"
  by (cases xs) auto

lemma seg_retarget:
  assumes "seg h a xs b" "distinct (a # xs)" "c \<notin> set xs"
    and "next (h' (last (a # xs))) = c" "prev (h' c) = last (a # xs)"
    and "\<And>d. d \<in> set (butlast (a # xs)) \<Longrightarrow> next (h' d) = next (h d)"
    and "\<And>d. d \<in> set xs \<Longrightarrow> prev (h' d) = prev (h d)"
  shows "seg h' a xs c"
  using assms
proof (induction xs arbitrary: a)
  case Nil
  then show ?case by simp
next
  case (Cons x xs)
  have "seg h' x xs c"
    using Cons.prems by (intro Cons.IH) auto
  then show ?case using Cons.prems by auto
qed

lemma case_hd_append: "(case r of [] \<Rightarrow> z | y # ys \<Rightarrow> y) = hd (r @ [z])"
  by (cases r) auto

lemma scan_seg:
  assumes "seg h cur xs head" "head \<notin> set xs"
  shows "queue_add_scan h pr head e cur =
    Some (case dropWhile (\<lambda>x. pr x < pr e) xs of [] \<Rightarrow> head | y # ys \<Rightarrow> y)"
  using assms
proof (induction xs arbitrary: cur)
  case Nil
  then show ?case by (subst queue_add_scan.simps) simp
next
  case (Cons x xs)
  then show ?case by (subst queue_add_scan.simps) (auto simp: Let_def)
qed

section \<open>Refinement of the sorted list\<close>

text \<open>Adding between \<open>xs\<close> and \<open>ys\<close>: the four assignments of \<open>queue_add\<close>.\<close>

definition link_before :: "links \<Rightarrow> ptr \<Rightarrow> ptr \<Rightarrow> links" where
  "link_before h e cur =
     (let h1 = set_next h e cur;
          h2 = set_prev h1 e (prev (h1 cur));
          h3 = set_next h2 (prev (h2 cur)) e
      in set_prev h3 cur e)"

lemma link_before_fields:
  assumes "e \<noteq> cur" "prev (h cur) = p" "p \<noteq> e"
  shows "next (link_before h e cur a) = (if a = e then cur else if a = p then e else next (h a))"
    and "prev (link_before h e cur a) = (if a = cur then e else if a = e then p else prev (h a))"
  using assms by (auto simp: link_before_def link_ops Let_def)

lemma link_before_seg:
  assumes seg: "seg h head (xs @ ys) head" and d: "distinct (head # xs @ ys)"
    and e: "e \<notin> set (head # xs @ ys)"
  shows "seg (link_before h e (hd (ys @ [head]))) head (xs @ e # ys) head"
proof -
  let ?cur = "hd (ys @ [head])" and ?p = "last (head # xs)"
  let ?h' = "link_before h e ?cur"
  have split: "seg h head xs ?cur \<and> (ys \<noteq> [] \<longrightarrow> seg h ?cur (tl ys) head)"
    using seg by (cases ys) (auto simp: seg_append)
  then have p: "prev (h ?cur) = ?p" using seg_last_prev [of h head xs ?cur] by auto
  have cur: "?cur \<in> set (head # ys)" by (cases ys) auto
  have pin: "?p \<in> set (head # xs)" by (rule last_in_set) simp
  have disj: "set (head # xs) \<inter> set ys = {}" using d by auto
  have ne: "e \<noteq> ?cur" using e cur by auto
  have pe: "?p \<noteq> e" using e by (auto split: if_splits)
  note f = link_before_fields [of e ?cur h ?p, OF ne p pe]
  have left: "seg ?h' head xs e"
  proof (rule seg_retarget [of h _ _ ?cur])
    show "seg h head xs ?cur" using split by simp
    show "next (?h' ?p) = e" using pe by (simp add: f)
    show "prev (?h' e) = ?p" using ne by (simp add: f)
    show "next (?h' d) = next (h d)" if "d \<in> set (butlast (head # xs))" for d
    proof -
      have "distinct (butlast (head # xs) @ [?p])"
        using d by (simp del: butlast.simps last.simps)
      then have "d \<noteq> ?p" using that by auto
      moreover have "d \<noteq> e" using e in_set_butlastD [OF that] by auto
      ultimately show ?thesis by (simp add: f)
    qed
    show "prev (?h' c) = prev (h c)" if "c \<in> set xs" for c
    proof -
      have "c \<noteq> ?cur" using that d cur by auto
      then show ?thesis using that e by (auto simp: f)
    qed
  qed (use d e in auto)
  have e_cur: "next (?h' e) = ?cur" "prev (?h' ?cur) = e"
    using ne by (simp_all add: f)
  have right: "seg ?h' e ys head"
  proof (cases ys)
    case Nil
    then show ?thesis using e_cur by simp
  next
    case (Cons y zs)
    have "seg ?h' y zs head = seg h y zs head"
    proof (rule seg_cong)
      show "next (?h' c) = next (h c)" if "c \<in> set (y # zs)" for c
      proof -
        have "c \<noteq> ?p" using pin disj that unfolding Cons by blast
        moreover have "c \<noteq> e" using that e Cons by auto
        ultimately show ?thesis by (simp add: f)
      qed
      show "prev (?h' c) = prev (h c)" if "c \<in> set (zs @ [head])" for c
      proof -
        have "c \<noteq> ?cur" "c \<noteq> e" using that d e Cons by auto
        then show ?thesis by (simp add: f)
      qed
    qed
    then show ?thesis using split Cons e_cur by simp
  qed
  show ?thesis using left right by (simp add: seg_append)
qed

lemma link_before_frame: "a \<noteq> e \<Longrightarrow> a \<noteq> cur \<Longrightarrow> a \<noteq> prev (h cur) \<Longrightarrow> link_before h e cur a = h a"
  by (auto simp: link_before_def link_ops Let_def)

lemma queue_add_refines:
  assumes q: "is_queue h head xs" and e: "e \<notin> set (head # xs)" "e \<noteq> 0" "unlinked h e"
  shows "\<exists>h'. queue_add h pr e head = Some h' \<and> is_queue h' head (qinsert pr e xs)
           \<and> (\<forall>a. a \<notin> set (e # head # xs) \<longrightarrow> h' a = h a)"
proof -
  let ?l = "takeWhile (\<lambda>x. pr x < pr e) xs" and ?r = "dropWhile (\<lambda>x. pr x < pr e) xs"
  let ?cur = "hd (?r @ [head])"
  have xs: "?l @ ?r = xs" by simp
  have scan: "queue_add_scan h pr head e head = Some ?cur"
    using q scan_seg [of h head xs head pr e] case_hd_append [of head ?r]
    by (simp add: is_queue_def)
  have add: "queue_add h pr e head = Some (link_before h e ?cur)"
    using e scan by (simp add: queue_add_def link_before_def unlinked_def Let_def)
  have "seg (link_before h e ?cur) head (?l @ e # ?r) head"
    using q e by (intro link_before_seg) (auto simp: is_queue_def)
  then have "is_queue (link_before h e ?cur) head (qinsert pr e xs)"
    using q e distinct_takeWhile_dropWhile_insert [of xs e "\<lambda>x. pr x < pr e"]
      set_takeWhile_dropWhile [of "\<lambda>x. pr x < pr e" xs]
    unfolding is_queue_def qinsert_def by (auto dest: set_takeWhileD set_dropWhileD)
  moreover have "link_before h e ?cur a = h a" if a: "a \<notin> set (e # head # xs)" for a
  proof (rule link_before_frame)
    have "?cur \<in> set (?r @ [head])" by (rule hd_in_set) simp
    then have cur: "?cur \<in> set (head # xs)" by (auto dest: set_dropWhileD)
    have "seg h head ?l ?cur"
      using q seg_left_part [of h head ?l ?r head] by (simp add: is_queue_def)
    then have "prev (h ?cur) \<in> set (head # xs)"
      using seg_last_prev_in [of h head ?l ?cur] set_takeWhileD [of _ "\<lambda>x. pr x < pr e" xs]
      by auto
    with cur show "a \<noteq> e" "a \<noteq> ?cur" "a \<noteq> prev (h ?cur)" using a by auto
  qed
  ultimately show ?thesis using add by blast
qed

lemma queue_empty_iff: "is_queue h head xs \<Longrightarrow> queue_empty h head \<longleftrightarrow> xs = []"
  by (cases xs) (auto simp: is_queue_def queue_empty_def)

lemma queue_top_refines:
  "is_queue h head xs \<Longrightarrow> queue_top h head = (if xs = [] then None else Some (last xs))"
  using queue_empty_iff [of h head xs] seg_last_prev [of h head xs head]
  by (auto simp: queue_top_def is_queue_def Let_def)

lemma queue_bottom_refines:
  "is_queue h head xs \<Longrightarrow> queue_bottom h head = (if xs = [] then None else Some (hd xs))"
  using queue_empty_iff [of h head xs] seg_first_next [of h head xs head]
  by (auto simp: queue_bottom_def is_queue_def Let_def)

text \<open>Unlinking the element between \<open>xs\<close> and \<open>ys\<close>, as both \<open>queue_out\<close> and \<open>queue_del\<close> do.\<close>

lemma unlink_seg:
  assumes seg: "seg h head (xs @ e # ys) head" and d: "distinct (head # xs @ e # ys)"
    and n: "\<And>a. next (h' a) =
      (if a = e then 0 else if a = last (head # xs) then hd (ys @ [head]) else next (h a))"
    and p: "\<And>a. prev (h' a) =
      (if a = e then 0 else if a = hd (ys @ [head]) then last (head # xs) else prev (h a))"
  shows "seg h' head (xs @ ys) head"
proof -
  let ?cur = "hd (ys @ [head])" and ?p = "last (head # xs)"
  have s: "seg h head xs e" "seg h e ys head" using seg by (auto simp: seg_append)
  have cur: "?cur \<in> set (head # ys)" by (cases ys) auto
  have pin: "?p \<in> set (head # xs)" by (rule last_in_set) simp
  have ne: "?cur \<noteq> e" "?p \<noteq> e" using cur pin d by auto
  have left: "seg h' head xs ?cur"
  proof (rule seg_retarget [OF s(1)])
    show "next (h' ?p) = ?cur" "prev (h' ?cur) = ?p" using ne by (simp_all add: n p)
    show "next (h' c) = next (h c)" if "c \<in> set (butlast (head # xs))" for c
    proof -
      have "distinct (butlast (head # xs) @ [?p])"
        using d by (simp del: butlast.simps last.simps)
      then have "c \<noteq> ?p" using that by auto
      moreover have "c \<noteq> e" using d in_set_butlastD [OF that] by auto
      ultimately show ?thesis by (simp add: n)
    qed
    show "prev (h' c) = prev (h c)" if "c \<in> set xs" for c
    proof -
      have "c \<noteq> ?cur" "c \<noteq> e" using that d cur by auto
      then show ?thesis by (simp add: p)
    qed
  qed (use d cur in auto)
  show ?thesis
  proof (cases ys)
    case Nil
    then show ?thesis using left by simp
  next
    case (Cons y zs)
    have "seg h' y zs head = seg h y zs head"
    proof (rule seg_cong)
      show "next (h' c) = next (h c)" if "c \<in> set (y # zs)" for c
      proof -
        have "c \<noteq> ?p" "c \<noteq> e" using that d Cons pin by auto
        then show ?thesis by (simp add: n)
      qed
      show "prev (h' c) = prev (h c)" if "c \<in> set (zs @ [head])" for c
      proof -
        have "c \<noteq> y" "c \<noteq> e" using that d Cons by auto
        then show ?thesis using Cons by (simp add: p)
      qed
    qed
    then show ?thesis using left s Cons by (auto simp: seg_append)
  qed
qed

lemma seg_neighbours:
  assumes "seg h head (xs @ e # ys) head"
  shows "prev (h e) = last (head # xs)" and "next (h e) = hd (ys @ [head])"
  using assms seg_last_prev [of h head xs e] seg_first_next [of h e ys head]
  by (auto simp: seg_append)

lemma queue_del_refines:
  assumes q: "is_queue h head (xs @ e # ys)"
  shows "\<exists>h'. queue_del h e = Some h' \<and> is_queue h' head (xs @ ys) \<and> unlinked h' e
           \<and> (\<forall>a. a \<notin> set (head # xs @ e # ys) \<longrightarrow> h' a = h a)"
proof -
  let ?cur = "hd (ys @ [head])" and ?p = "last (head # xs)"
  have seg: "seg h head (xs @ e # ys) head" and d: "distinct (head # xs @ e # ys)"
    and z: "0 \<notin> set (head # xs @ e # ys)"
    using q by (auto simp: is_queue_def)
  note nb = seg_neighbours [OF seg]
  have cur: "?cur \<in> set (head # ys)" by (cases ys) auto
  have pin: "?p \<in> set (head # xs)" by (rule last_in_set) simp
  have nz: "?p \<noteq> 0" "?cur \<noteq> 0" "?p \<noteq> e" "?cur \<noteq> e" using cur pin z d by auto
  define h' where "h' = set_prev (set_next (set_prev (set_next h ?p ?cur) ?cur ?p) e 0) e 0"
  have del: "queue_del h e = Some h'"
    using nz by (simp add: queue_del_def nb h'_def link_ops Let_def)
  have n: "next (h' a) = (if a = e then 0 else if a = ?p then ?cur else next (h a))" for a
    using nz by (auto simp: h'_def link_ops)
  have p: "prev (h' a) = (if a = e then 0 else if a = ?cur then ?p else prev (h a))" for a
    using nz by (auto simp: h'_def link_ops)
  have "is_queue h' head (xs @ ys)"
    using unlink_seg [OF seg d n p] d z by (auto simp: is_queue_def)
  moreover have "unlinked h' e" by (simp add: unlinked_def n p)
  moreover have "h' a = h a" if "a \<notin> set (head # xs @ e # ys)" for a
  proof -
    have "a \<noteq> e" "a \<noteq> ?p" "a \<noteq> ?cur" using that cur pin by auto
    then show ?thesis by (simp add: h'_def link_ops)
  qed
  ultimately show ?thesis using del by blast
qed

lemma queue_out_Nil: "is_queue h head [] \<Longrightarrow> queue_out h head = (h, None)"
  using queue_empty_iff [of h head "[]"] by (simp add: queue_out_def Let_def)

lemma queue_out_refines:
  assumes q: "is_queue h head (xs @ [e])"
  shows "\<exists>h'. queue_out h head = (h', Some e) \<and> is_queue h' head xs \<and> unlinked h' e
           \<and> (\<forall>a. a \<notin> set (head # xs @ [e]) \<longrightarrow> h' a = h a)"
proof -
  let ?p = "last (head # xs)"
  have seg: "seg h head (xs @ e # []) head" and d: "distinct (head # xs @ e # [])"
    and z: "0 \<notin> set (head # xs @ e # [])"
    using q by (auto simp: is_queue_def)
  note nb = seg_neighbours [OF seg]
  have pin: "?p \<in> set (head # xs)" by (rule last_in_set) simp
  have disj: "0 \<notin> set (head # xs)" "e \<notin> set (head # xs)" using z d by auto
  have nz: "?p \<noteq> 0" "head \<noteq> 0" "?p \<noteq> e" "head \<noteq> e"
    using pin disj by (metis, simp, metis, simp)
  have he: "prev (h head) = e" using seg by (auto simp: seg_append)
  have nempty: "\<not> queue_empty h head" using queue_empty_iff [OF q] by simp
  define h' where "h' = set_next (set_prev (set_next (set_prev h head ?p) ?p head) e 0) e 0"
  have out: "queue_out h head = (h', Some e)"
    using nempty nz by (simp add: queue_out_def he nb h'_def link_ops Let_def)
  have n: "next (h' a) =
      (if a = e then 0 else if a = ?p then hd ([] @ [head]) else next (h a))" for a
    using nz by (auto simp: h'_def link_ops)
  have p: "prev (h' a) =
      (if a = e then 0 else if a = hd ([] @ [head]) then ?p else prev (h a))" for a
    using nz by (auto simp: h'_def link_ops)
  have "is_queue h' head xs"
    using unlink_seg [OF seg d n p] d z by (auto simp: is_queue_def)
  moreover have "unlinked h' e" by (simp add: unlinked_def n p)
  moreover have "h' a = h a" if "a \<notin> set (head # xs @ [e])" for a
  proof -
    have "a \<noteq> e" "a \<noteq> ?p" "a \<noteq> head" using that pin by auto
    then show ?thesis by (simp add: h'_def link_ops)
  qed
  ultimately show ?thesis using out by blast
qed

lemma queue_for_each_from_seg:
  "seg h a xs head \<Longrightarrow> head \<notin> set xs \<Longrightarrow> queue_for_each_from h head (next (h a)) = Some xs"
proof (induction xs arbitrary: a)
  case Nil
  then show ?case by (subst queue_for_each_from.simps) simp
next
  case (Cons x xs)
  then show ?case by (subst queue_for_each_from.simps) simp
qed

lemma queue_for_each_prev_from_seg:
  "seg h head xs b \<Longrightarrow> head \<notin> set xs \<Longrightarrow>
   queue_for_each_prev_from h head (prev (h b)) = Some (rev xs)"
proof (induction xs arbitrary: b rule: rev_induct)
  case Nil
  then show ?case by (subst queue_for_each_prev_from.simps) simp
next
  case (snoc x xs)
  then show ?case by (subst queue_for_each_prev_from.simps) (auto simp: seg_append)
qed

section \<open>The queue contract and what its clients get from it\<close>

text \<open>Adding the elements of a list one after another, and taking out \<open>n\<close> elements.\<close>

primrec add_seq :: "('h \<Rightarrow> 'a \<Rightarrow> 'h option) \<Rightarrow> 'h \<Rightarrow> 'a list \<Rightarrow> 'h option" where
  "add_seq add h [] = Some h"
| "add_seq add h (e # es) = do { h' \<leftarrow> add h e; add_seq add h' es }"

primrec out_seq :: "('h \<Rightarrow> 'h \<times> 'a option) \<Rightarrow> nat \<Rightarrow> 'h \<Rightarrow> 'a list" where
  "out_seq out 0 h = []"
| "out_seq out (Suc n) h =
     (case out h of (h', None) \<Rightarrow> [] | (h', Some e) \<Rightarrow> e # out_seq out n h')"

lemma filter_qinsert:
  "filter (\<lambda>x. k = pr x) (qinsert pr e xs) =
     (if pr e = k then [e] else []) @ filter (\<lambda>x. k = pr x) xs"
proof -
  have "filter (\<lambda>x. k = pr x) (takeWhile (\<lambda>x. pr x < pr e) xs) = []" if "pr e = k"
    using that by (auto simp: filter_empty_conv dest: set_takeWhileD)
  then show ?thesis
    using filter_takeWhile_dropWhile [of "\<lambda>x. k = pr x" "\<lambda>x. pr x < pr e" xs]
    by (auto simp: qinsert_def)
qed

lemma filter_fold_qinsert:
  "filter (\<lambda>x. k = pr x) (fold (qinsert pr) es xs) =
     rev (filter (\<lambda>x. k = pr x) es) @ filter (\<lambda>x. k = pr x) xs"
  by (induction es arbitrary: xs) (auto simp: filter_qinsert)

lemma mset_fold_qinsert: "mset (fold (qinsert pr) es xs) = mset es + mset xs"
  by (induction es arbitrary: xs) auto

lemma sorted_fold_qinsert: "sorted (map pr xs) \<Longrightarrow> sorted (map pr (fold (qinsert pr) es xs))"
  by (induction es arbitrary: xs) (auto simp: sorted_qinsert)

lemma rev_fold_qinsert: "rev (fold (qinsert pr) es []) = sort_key (\<lambda>e. - pr e) es"
proof (rule properties_for_sort_key [symmetric])
  show "mset (rev (fold (qinsert pr) es [])) = mset es"
    by (simp add: mset_fold_qinsert)
  show "filter (\<lambda>x. - pr k = - pr x) (rev (fold (qinsert pr) es [])) =
        filter (\<lambda>x. - pr k = - pr x) es" for k
    using filter_fold_qinsert [of "pr k" pr es "[]"] by (simp flip: rev_filter)
  have "sorted (map pr (fold (qinsert pr) es []))"
    by (rule sorted_fold_qinsert) simp
  then show "sorted (map (\<lambda>e. - pr e) (rev (fold (qinsert pr) es [])))"
    by (simp add: sorted_wrt_map sorted_wrt_rev)
qed

text \<open>
  What a client of \<open>queue.h\<close> relies on: \<open>rep h xs\<close> says that the state \<open>h\<close> holds the queue
  \<open>xs\<close> in the order of the list (the next element to leave is the last one), \<open>free h e\<close> that
  \<open>e\<close> may be added.
\<close>

locale prio_fifo =
  fixes rep :: "'h \<Rightarrow> 'a list \<Rightarrow> bool"
    and free :: "'h \<Rightarrow> 'a \<Rightarrow> bool"
    and add :: "'h \<Rightarrow> 'a \<Rightarrow> 'h option"
    and out :: "'h \<Rightarrow> 'h \<times> 'a option"
    and pr :: "'a \<Rightarrow> int"
  assumes add_law: "rep h xs \<Longrightarrow> free h e \<Longrightarrow>
      \<exists>h'. add h e = Some h' \<and> rep h' (qinsert pr e xs)
         \<and> (\<forall>e'. e' \<noteq> e \<longrightarrow> free h e' \<longrightarrow> free h' e')"
    and out_snoc: "rep h (xs @ [e]) \<Longrightarrow> \<exists>h'. out h = (h', Some e) \<and> rep h' xs"
begin

lemma add_seq_law:
  "rep h xs \<Longrightarrow> distinct es \<Longrightarrow> \<forall>e \<in> set es. free h e \<Longrightarrow>
   \<exists>h'. add_seq add h es = Some h' \<and> rep h' (fold (qinsert pr) es xs)"
proof (induction es arbitrary: h xs)
  case Nil
  then show ?case by simp
next
  case (Cons e es)
  then obtain h1 where h1: "add h e = Some h1" "rep h1 (qinsert pr e xs)"
      "\<forall>e'. e' \<noteq> e \<longrightarrow> free h e' \<longrightarrow> free h1 e'"
    using add_law [of h xs e] by auto
  have "\<forall>e' \<in> set es. free h1 e'"
    using Cons.prems h1(3) by auto
  then show ?case using Cons.IH [OF h1(2)] Cons.prems(2) h1(1) by auto
qed

lemma out_seq_law: "rep h xs \<Longrightarrow> out_seq out (length xs) h = rev xs"
proof (induction xs arbitrary: h rule: rev_induct)
  case Nil
  then show ?case by simp
next
  case (snoc x xs)
  then obtain h' where "out h = (h', Some x)" "rep h' xs" using out_snoc by blast
  then show ?case using snoc.IH by simp
qed

lemma priority_fifo:
  assumes "rep h []" "distinct es" "\<forall>e \<in> set es. free h e"
  shows "\<exists>h'. add_seq add h es = Some h' \<and>
           out_seq out (length es) h' = sort_key (\<lambda>e. - pr e) es"
proof -
  obtain h' where h': "add_seq add h es = Some h'" "rep h' (fold (qinsert pr) es [])"
    using add_seq_law [OF assms] by blast
  have "length (fold (qinsert pr) es []) = length es"
    using arg_cong [OF mset_fold_qinsert [of pr es "[]"], of size] by simp
  then show ?thesis using h' out_seq_law [OF h'(2)] rev_fold_qinsert [of pr es] by auto
qed

end

text \<open>The heap implements the contract.\<close>

definition may_add :: "ptr \<Rightarrow> links \<Rightarrow> ptr \<Rightarrow> bool" where
  "may_add head h e \<longleftrightarrow> e \<noteq> 0 \<and> e \<noteq> head \<and> unlinked h e"

lemma linked_in_queue: "is_queue h head xs \<Longrightarrow> e \<in> set xs \<Longrightarrow> \<not> unlinked h e"
proof -
  assume q: "is_queue h head xs" and e: "e \<in> set xs"
  obtain ys zs where xs: "xs = ys @ e # zs" using e by (meson split_list)
  have "prev (h e) = last (head # ys)"
    using q seg_neighbours [of h head ys e zs] by (simp add: xs is_queue_def)
  moreover have "last (head # ys) \<in> set (head # ys)" by (rule last_in_set) simp
  ultimately show ?thesis using q by (auto simp: xs is_queue_def unlinked_def)
qed

interpretation heap_queue: prio_fifo
  "\<lambda>h xs. is_queue h head xs" "may_add head" "\<lambda>h e. queue_add h pr e head"
  "\<lambda>h. queue_out h head" pr for head pr
proof
  show "\<exists>h'. queue_add h pr e head = Some h' \<and> is_queue h' head (qinsert pr e xs) \<and>
          (\<forall>e'. e' \<noteq> e \<longrightarrow> may_add head h e' \<longrightarrow> may_add head h' e')"
    if q: "is_queue h head xs" and f: "may_add head h e" for h xs e
  proof -
    have "e \<notin> set (head # xs)" "e \<noteq> 0" "unlinked h e"
      using q f linked_in_queue [OF q] by (auto simp: may_add_def)
    from queue_add_refines [OF q this]
    obtain h' where h': "queue_add h pr e head = Some h'" "is_queue h' head (qinsert pr e xs)"
      "\<And>a. a \<notin> set (e # head # xs) \<Longrightarrow> h' a = h a" by blast
    have "may_add head h' e'" if "e' \<noteq> e" "may_add head h e'" for e'
    proof -
      have "e' \<notin> set (e # head # xs)"
        using that linked_in_queue [OF q] by (auto simp: may_add_def)
      then show ?thesis using that h'(3) by (simp add: may_add_def unlinked_def)
    qed
    then show ?thesis using h' by blast
  qed
  show "\<exists>h'. queue_out h head = (h', Some e) \<and> is_queue h' head xs"
    if "is_queue h head (xs @ [e])" for h xs e
    using queue_out_refines [OF that] by blast
qed

section \<open>Properties\<close>

text \<open>
  C7.  Elements put one by one into an empty queue leave it by decreasing priority and, at
  equal priority, in the order in which they were added: what \<open>queue_out\<close> returns is the
  stable sort of the insertion order by decreasing priority.
\<close>

theorem queue_priority_fifo:
  assumes "is_queue h head []" "distinct es"
    and "\<forall>e \<in> set es. e \<noteq> 0 \<and> e \<noteq> head \<and> prev (h e) = 0 \<and> next (h e) = 0"
  shows "\<exists>h'. add_seq (\<lambda>h e. queue_add h pr e head) h es = Some h' \<and>
           out_seq (\<lambda>h. queue_out h head) (length es) h' = sort_key (\<lambda>e. - pr e) es"
  by (rule heap_queue.priority_fifo) (use assms in \<open>auto simp: may_add_def unlinked_def\<close>)

theorem queue_priority_fifo_witness:
  "\<exists>h'. add_seq (\<lambda>h e. queue_add h (\<lambda>e. if e = 2 then 5 else 1) e 9)
          (INIT_LIST_HEAD (\<lambda>_. \<lparr>prev = 0, next = 0\<rparr>) 9) [1, 2, 3] = Some h' \<and>
        out_seq (\<lambda>h. queue_out h 9) 3 h' = [2, 1, 3]"
proof -
  let ?h = "INIT_LIST_HEAD (\<lambda>_. \<lparr>prev = 0, next = 0\<rparr>) 9" and ?pr = "\<lambda>e. if e = 2 then 5 else 1 :: int"
  have q: "is_queue ?h 9 []" "distinct [1, 2, 3 :: nat]"
    "\<forall>e \<in> set [1, 2, 3]. e \<noteq> 0 \<and> e \<noteq> 9 \<and> prev (?h e) = 0 \<and> next (?h e) = 0"
    by (simp_all add: is_queue_def INIT_LIST_HEAD_def)
  have "sort_key (\<lambda>e. - ?pr e) [1, 2, 3] = [2, 1, 3 :: nat]" "length [1, 2, 3 :: nat] = 3"
    by simp_all
  with queue_priority_fifo [OF q, of ?pr] show ?thesis by (simp only:)
qed

text \<open>
  \<open>queue_del\<close> undoes \<open>queue_add\<close> on any well-formed queue: both succeed, the list comes
  back, the element is unlinked again, and no link outside the queue is written.
\<close>

lemma queue_add_del_roundtrip:
  assumes "is_queue h head xs" "e \<notin> set (head # xs)" "e \<noteq> 0" "unlinked h e"
  shows "\<exists>h1 h2. queue_add h pr e head = Some h1 \<and> is_queue h1 head (qinsert pr e xs) \<and>
           queue_del h1 e = Some h2 \<and> is_queue h2 head xs \<and> unlinked h2 e \<and>
           (\<forall>a. a \<notin> set (e # head # xs) \<longrightarrow> h2 a = h a)"
proof -
  let ?l = "takeWhile (\<lambda>x. pr x < pr e) xs" and ?r = "dropWhile (\<lambda>x. pr x < pr e) xs"
  from queue_add_refines [OF assms] obtain h1 where h1: "queue_add h pr e head = Some h1"
      "is_queue h1 head (qinsert pr e xs)" "\<forall>a. a \<notin> set (e # head # xs) \<longrightarrow> h1 a = h a"
    by blast
  from h1(2) have q1: "is_queue h1 head (?l @ e # ?r)" by (simp add: qinsert_def)
  from queue_del_refines [OF q1] obtain h2 where h2: "queue_del h1 e = Some h2"
      "is_queue h2 head (?l @ ?r)" "unlinked h2 e"
      "\<forall>a. a \<notin> set (head # ?l @ e # ?r) \<longrightarrow> h2 a = h1 a"
    by blast
  have "set (head # ?l @ e # ?r) = set (e # head # xs)"
    using set_takeWhile_dropWhile [of "\<lambda>x. pr x < pr e" xs] by auto
  then show ?thesis using h1 h2 by auto
qed

text \<open>
  The two traversal macros visit exactly the elements of the queue, in order and in
  reverse order, and both loops end.
\<close>

lemma queue_traversals:
  assumes "is_queue h head xs"
  shows "queue_for_each h head = Some xs \<and> queue_for_each_prev h head = Some (rev xs)"
  using assms queue_for_each_from_seg [of h head xs head]
    queue_for_each_prev_from_seg [of h head xs head]
  by (simp add: is_queue_def queue_for_each_def queue_for_each_prev_def)

end
