(* ===== verification/C_String.thy ===== *)
theory C_String
  imports Prelude
begin

text \<open>
  The string and memory routines of \<open>src/lib/string\<close>.  A pointer argument is the list of the
  bytes from it to the end of the object it points into, so a read or a write past that end has
  no result (\<open>None\<close>).  \<open>char\<close> is unsigned, as on this target.  A routine that writes returns the
  destination object; source and destination are different objects.  The theory shows what the
  routines compute on terminated strings, how far they write, and that \<open>strcmp\<close> decides equality.
\<close>

type_synonym bytes = "8 word list"

section \<open>The code\<close>

fun strlen :: "bytes \<Rightarrow> nat option" where
  "strlen [] = None"
| "strlen (c # s) = (if c = 0 then Some 0 else map_option Suc (strlen s))"

fun strcmp :: "bytes \<Rightarrow> bytes \<Rightarrow> int option" where
  "strcmp (a # s1) (b # s2) =
     (if a \<noteq> 0 \<and> b \<noteq> 0 \<and> a = b then strcmp s1 s2 else Some (uint a - uint b))"
| "strcmp s1 s2 = None"

fun strncmp :: "bytes \<Rightarrow> bytes \<Rightarrow> nat \<Rightarrow> int option" where
  "strncmp (a # s1) (b # s2) n =
     (if n > 0 \<and> a \<noteq> 0 \<and> b \<noteq> 0 \<and> a = b then strncmp s1 s2 (n - 1)
      else Some (uint a - uint b))"
| "strncmp s1 s2 n = None"

fun memcmp :: "bytes \<Rightarrow> bytes \<Rightarrow> nat \<Rightarrow> int option" where
  "memcmp s1 s2 0 = Some 0"
| "memcmp (a # s1) (b # s2) (Suc n) = (if a \<noteq> b then Some (uint a - uint b) else memcmp s1 s2 n)"
| "memcmp s1 s2 (Suc n) = None"

fun memcpy :: "bytes \<Rightarrow> bytes \<Rightarrow> nat \<Rightarrow> bytes option" where
  "memcpy dest src 0 = Some dest"
| "memcpy (d # dest) (s # src) (Suc n) = map_option (Cons s) (memcpy dest src n)"
| "memcpy dest src (Suc n) = None"

fun memset :: "bytes \<Rightarrow> int \<Rightarrow> nat \<Rightarrow> bytes option" where
  "memset dest c 0 = Some dest"
| "memset (d # dest) c (Suc n) = map_option (Cons (word_of_int c)) (memset dest c n)"
| "memset [] c (Suc n) = None"

text \<open>\<open>memchr\<close> and \<open>strchr\<close> return an offset, or \<open>Some None\<close> for \<open>NULL\<close>.\<close>

fun memchr :: "bytes \<Rightarrow> int \<Rightarrow> nat \<Rightarrow> nat option option" where
  "memchr s c 0 = Some None"
| "memchr (a # s) c (Suc n) =
     (if uint a = c then Some (Some 0) else map_option (map_option Suc) (memchr s c n))"
| "memchr [] c (Suc n) = None"

fun strchr :: "bytes \<Rightarrow> int \<Rightarrow> nat option option" where
  "strchr [] c = None"
| "strchr (a # s) c =
     (if a = 0 then Some None
      else if uint a = c then Some (Some 0)
      else map_option (map_option Suc) (strchr s c))"

text \<open>The two loops of \<open>strncpy\<close>: copying up to the terminator, then filling with zeroes.\<close>

fun strncpy :: "bytes \<Rightarrow> bytes \<Rightarrow> nat \<Rightarrow> bytes option" where
  "strncpy dst src 0 = Some dst"
| "strncpy dst [] (Suc n) = None"
| "strncpy [] (s # src) (Suc n) = None"
| "strncpy (d # dst) (s # src) (Suc n) =
     (if s = 0 then memset (d # dst) 0 (Suc n) else map_option (Cons s) (strncpy dst src n))"

definition strcpy :: "bytes \<Rightarrow> bytes \<Rightarrow> bytes option" where
  "strcpy dst src = do { l \<leftarrow> strlen src; strncpy dst src (l + 1) }"

section \<open>Terminated strings\<close>

text \<open>A string without its terminator; the bytes of the object that holds it.\<close>

typedef cstring = "{s :: bytes. 0 \<notin> set s}"
  by (intro exI [of _ "[]"]) simp

definition chars :: "cstring \<Rightarrow> bytes" where
  "chars s = Rep_cstring s"

definition c_str :: "cstring \<Rightarrow> bytes" where
  "c_str s = chars s @ [0]"

lemma chars_nonzero [simp]: "0 \<notin> set (chars s)"
  using Rep_cstring [of s] by (simp add: chars_def)

lemma chars_inject: "chars s = chars t \<longleftrightarrow> s = t"
  by (simp add: chars_def Rep_cstring_inject)

lemma strlen_terminated: "0 \<notin> set s \<Longrightarrow> strlen (s @ 0 # rest) = Some (length s)"
  by (induction s) auto

lemma strcmp_zero_iff:
  "0 \<notin> set s \<Longrightarrow> 0 \<notin> set t \<Longrightarrow>
   \<exists>r. strcmp (s @ 0 # x) (t @ 0 # y) = Some r \<and> (r = 0 \<longleftrightarrow> s = t)"
proof (induction s arbitrary: t)
  case Nil
  then show ?case by (cases t) (auto simp: uint_0_iff)
next
  case (Cons a s)
  then show ?case
    by (cases t) (auto simp: uint_0_iff, metis word_uint_eqI)
qed

lemma memset_eq:
  "memset dst c n = (if n \<le> length dst then Some (replicate n (word_of_int c) @ drop n dst) else None)"
  by (induction dst c n rule: memset.induct) auto

lemma memcpy_eq:
  "memcpy dst src n =
     (if n \<le> length dst \<and> n \<le> length src then Some (take n src @ drop n dst) else None)"
  by (induction dst src n rule: memcpy.induct) auto

lemma memcmp_zero_iff:
  "n \<le> length s \<Longrightarrow> n \<le> length t \<Longrightarrow>
   \<exists>r. memcmp s t n = Some r \<and> (r = 0 \<longleftrightarrow> take n s = take n t)"
proof (induction s t n rule: memcmp.induct)
  case (2 a s1 b s2 n)
  then show ?case by (auto, metis word_uint_eqI)
qed auto

lemma strncpy_terminated:
  assumes "0 \<notin> set s" "n \<le> length dst"
  shows "strncpy dst (s @ 0 # rest) n =
    Some (take n s @ replicate (n - length s) 0 @ drop n dst)"
  using assms
proof (induction s arbitrary: dst n)
  case Nil
  then show ?case by (cases n; cases dst) (auto simp: memset_eq)
next
  case (Cons a s)
  then show ?case by (cases n; cases dst) auto
qed

lemma strncpy_overflow:
  assumes "0 \<notin> set s" "length dst < n"
  shows "strncpy dst (s @ 0 # rest) n = None"
  using assms
proof (induction s arbitrary: dst n)
  case Nil
  then show ?case by (cases n; cases dst) (auto simp: memset_eq)
next
  case (Cons a s)
  then show ?case by (cases n; cases dst) auto
qed

lemma strcpy_terminated:
  assumes "0 \<notin> set s" "length s < length dst"
  shows "strcpy dst (s @ [0]) = Some (s @ 0 # drop (Suc (length s)) dst)"
  using assms strncpy_terminated [of s "Suc (length s)" dst "[]"] strlen_terminated [of s "[]"]
  by (simp add: strcpy_def Suc_le_eq)

lemma strchr_terminated:
  assumes "0 \<notin> set s"
  shows "strchr (s @ 0 # rest) c =
    Some (if c \<in> uint ` set s then Some (length (takeWhile (\<lambda>a. uint a \<noteq> c) s)) else None)"
  using assms by (induction s) auto

section \<open>Properties\<close>

text \<open>
  \<open>strcmp\<close> on two terminated strings ends inside them and returns zero exactly when the
  strings are equal.
\<close>

lemma strcmp_decides_equality:
  "\<exists>r. strcmp (c_str s) (c_str t) = Some r \<and> (r = 0 \<longleftrightarrow> s = t)"
  using strcmp_zero_iff [of "chars s" "chars t" "[]" "[]"]
  by (simp add: c_str_def chars_inject)

text \<open>
  \<open>strcpy\<close> of a terminated string writes exactly its bytes and its terminator at the start
  of the destination, leaves the rest alone, and overruns the destination (no result)
  exactly when that has no more bytes than the string has characters: a destination of
  \<open>strlen src\<close> bytes is too small.
\<close>

lemma strcpy_writes:
  "strcpy dst (c_str s) =
     (if length (chars s) < length dst
      then Some (chars s @ 0 # drop (Suc (length (chars s))) dst) else None)"
  using strncpy_terminated [of "chars s" "Suc (length (chars s))" dst "[]"]
    strncpy_overflow [of "chars s" dst "Suc (length (chars s))" "[]"]
    strlen_terminated [of "chars s" "[]"]
  by (auto simp: strcpy_def c_str_def Suc_le_eq not_less less_Suc_eq_le)

text \<open>
  \<open>strncmp\<close> compares one character too many: on two strings that agree on their first
  \<open>n\<close> characters, both longer than that, it returns the difference of the characters at index
  \<open>n\<close> instead of zero.
\<close>

lemma strncmp_reads_past_n:
  assumes "length p = n" "0 \<notin> set p"
  shows "strncmp (p @ a # s) (p @ b # t) n = Some (uint a - uint b)"
  using assms by (induction p arbitrary: n) auto

end
