(* ===== verification/Hash_Table.thy ===== *)
theory Hash_Table
  imports C_String
begin

unbundle bit_operations_syntax

text \<open>
  The open-addressing hash table of \<open>src/lib/hash/hash.c\<close> and \<open>src/lib/include/hash.h\<close>.  A
  \<open>void *\<close> key or value is an element of the type \<open>'k\<close> or \<open>'v\<close>, or \<open>None\<close> for \<open>NULL\<close>; a string
  key is the string it points to, so that equal pointers are equal keys.  Hash codes and the
  probe indices are 64-bit words, as the code computes them.  The outcome of \<open>mem_alloc\<close> (the
  vendored allocator of \<open>src/lib/stdlib/malloc.c\<close>) is the argument \<open>ok\<close> of the operations that
  allocate.  The theory shows that probing visits every slot, hence ends, and that the table
  implements a finite map.
\<close>

section \<open>The code\<close>

datatype slot_mode = SL_EMPTY | SL_ACTIVE | SL_DELETED

record ('k, 'v) hash_slot =
  key :: "'k option"
  "value" :: "'v option"
  hash :: u64
  mode :: slot_mode

record ('k, 'v) hash_t =
  fill :: int
  count :: int
  mask :: u64
  table :: "('k, 'v) hash_slot list"
  hfunc :: "'k \<Rightarrow> u64"
  cmp :: "'k \<Rightarrow> 'k \<Rightarrow> bool"

definition HASH_MINSIZE :: int where
  "HASH_MINSIZE = 8"

definition empty_slot :: "('k, 'v) hash_slot" where
  "empty_slot = \<lparr>key = None, value = None, hash = 0, mode = SL_EMPTY\<rparr>"

definition hash_initialize ::
    "bool \<Rightarrow> ('k, 'v) hash_t \<Rightarrow> int \<Rightarrow> int \<times> ('k, 'v) hash_t" where
  "hash_initialize ok m sz =
     (if \<not> ok then (- 1, m)
      else (0, m\<lparr>fill := 0, count := 0, mask := word_of_int (sz - 1),
                    table := replicate (nat sz) empty_slot\<rparr>))"

text \<open>The slot index of a probe, and the loop of \<open>hash_lookup\<close>, which returns a slot index.\<close>

definition slot_index :: "('k, 'v) hash_t \<Rightarrow> u64 \<Rightarrow> nat" where
  "slot_index m index = unat (index AND mask m)"

partial_function (option) hash_probe ::
    "('k, 'v) hash_t \<Rightarrow> 'k \<Rightarrow> u64 \<Rightarrow> u64 \<Rightarrow> u64 \<Rightarrow> nat option \<Rightarrow> nat option" where
  "hash_probe m k h index perturb freeslot =
     (let i = slot_index m index; slot = table m ! i in
      if \<not> i < length (table m) then None
      else if mode slot = SL_EMPTY then
        Some (case freeslot of None \<Rightarrow> i | Some j \<Rightarrow> j)
      else if mode slot = SL_ACTIVE \<and>
              (key slot = Some k \<or>
               hash slot = h \<and> (case key slot of None \<Rightarrow> False | Some k' \<Rightarrow> cmp m k' k)) then
        Some i
      else
        hash_probe m k h (5 * index + perturb + 1) (drop_bit 5 perturb)
          (if mode slot = SL_DELETED \<and> freeslot = None then Some i else freeslot))"

definition hash_lookup :: "('k, 'v) hash_t \<Rightarrow> 'k \<Rightarrow> u64 \<Rightarrow> nat option" where
  "hash_lookup m k h = hash_probe m k h (h AND mask m) h None"

definition put_slot :: "('k, 'v) hash_t \<Rightarrow> nat \<Rightarrow> ('k, 'v) hash_slot \<Rightarrow> ('k, 'v) hash_t" where
  "put_slot m i s = m\<lparr>table := (table m)[i := s]\<rparr>"

fun hash_copy ::
    "('k, 'v) hash_t \<Rightarrow> ('k, 'v) hash_slot list \<Rightarrow> ('k, 'v) hash_t option" where
  "hash_copy m [] = Some m"
| "hash_copy m (old # rest) =
     (if mode old \<noteq> SL_ACTIVE then hash_copy m rest
      else case key old of
        None \<Rightarrow> None
      | Some k \<Rightarrow> do {
          new \<leftarrow> hash_lookup m k (hfunc m k);
          hash_copy
            ((put_slot m new \<lparr>key = Some k, value = value old, hash = hash old,
                mode = SL_ACTIVE\<rparr>)\<lparr>fill := fill m + 1, count := count m + 1\<rparr>) rest
        })"

definition hash_update :: "bool \<Rightarrow> ('k, 'v) hash_t \<Rightarrow> (int \<times> ('k, 'v) hash_t) option" where
  "hash_update ok m =
     (let old_size = sint (mask m + 1);
          resize = (\<lambda>new_size.
            let old_table = table m; (r, m') = hash_initialize ok m new_size in
            if r = - 1 then Some (- 1, m')
            else do { m2 \<leftarrow> hash_copy m' old_table; Some (0, m2) })
      in
      if 3 * fill m \<ge> 2 * old_size then
        (let new_size = signed_take_bit 63 (2 * old_size) in
         if new_size < old_size then Some (- 1, m) else resize new_size)
      else if old_size > HASH_MINSIZE \<and> 4 * count m \<le> old_size then resize (old_size div 2)
      else Some (0, m))"

definition hash_init ::
    "bool \<Rightarrow> ('k, 'v) hash_t \<Rightarrow> ('k \<Rightarrow> u64) \<Rightarrow> ('k \<Rightarrow> 'k \<Rightarrow> bool) \<Rightarrow> int \<times> ('k, 'v) hash_t" where
  "hash_init ok m hf cm =
     (let (r, m') = hash_initialize ok m HASH_MINSIZE in
      if r = - 1 then (- 1, m') else (0, m'\<lparr>hfunc := hf, cmp := cm\<rparr>))"

definition hash_isset :: "('k, 'v) hash_t option \<Rightarrow> 'k \<Rightarrow> bool option" where
  "hash_isset mo k =
     (case mo of None \<Rightarrow> Some False
      | Some m \<Rightarrow> do {
          slot \<leftarrow> hash_lookup m k (hfunc m k);
          Some (mode (table m ! slot) = SL_ACTIVE) })"

definition hash_get :: "('k, 'v) hash_t option \<Rightarrow> 'k \<Rightarrow> 'v option \<Rightarrow> 'v option option" where
  "hash_get mo k default_value =
     (case mo of None \<Rightarrow> Some default_value
      | Some m \<Rightarrow> do {
          slot \<leftarrow> hash_lookup m k (hfunc m k);
          Some (if mode (table m ! slot) = SL_ACTIVE then value (table m ! slot)
                else default_value) })"

definition hash_set ::
    "bool \<Rightarrow> ('k, 'v) hash_t option \<Rightarrow> 'k \<Rightarrow> 'v option \<Rightarrow>
     (int \<times> ('k, 'v) hash_t option) option" where
  "hash_set ok mo k v =
     (case mo of None \<Rightarrow> Some (- 1, None)
      | Some m \<Rightarrow>
     (let h = hfunc m k in
      do {
        i \<leftarrow> hash_lookup m k h;
        let slot = table m ! i;
        if mode slot = SL_ACTIVE then Some (0, Some (put_slot m i (slot\<lparr>value := v\<rparr>)))
        else do {
          (r, m') \<leftarrow> hash_update ok
            ((put_slot m i \<lparr>key = Some k, value = v, hash = h, mode = SL_ACTIVE\<rparr>)
              \<lparr>fill := (if mode slot = SL_EMPTY then fill m + 1 else fill m),
               count := count m + 1\<rparr>);
          Some (r, Some m') }
      }))"

definition hash_del ::
    "bool \<Rightarrow> ('k, 'v) hash_t option \<Rightarrow> 'k \<Rightarrow> (int \<times> ('k, 'v) hash_t option) option" where
  "hash_del ok mo k =
     (case mo of None \<Rightarrow> Some (- 1, None)
      | Some m \<Rightarrow> do {
       i \<leftarrow> hash_lookup m k (hfunc m k);
       if mode (table m ! i) \<noteq> SL_ACTIVE then Some (0, Some m)
       else do {
         (r, m') \<leftarrow> hash_update ok
           ((put_slot m i \<lparr>key = None, value = None, hash = 0, mode = SL_DELETED\<rparr>)
             \<lparr>count := count m - 1\<rparr>);
         Some (r, Some m') }
     })"

text \<open>The two predefined key types.  A direct key is the pointer value itself.\<close>

definition hash_direct_cmp :: "u64 \<Rightarrow> u64 \<Rightarrow> bool" where
  "hash_direct_cmp key1 key2 \<longleftrightarrow> key1 = key2"

definition hash_direct_hfunc :: "u64 \<Rightarrow> u64" where
  "hash_direct_hfunc k = k"

definition hash_string_hfunc :: "cstring \<Rightarrow> u64" where
  "hash_string_hfunc k =
     foldl (\<lambda>h c. (push_bit 5 h + h) XOR word_of_int (uint c)) 5381 (chars k)"

definition hash_string_cmp :: "cstring \<Rightarrow> cstring \<Rightarrow> bool" where
  "hash_string_cmp key1 key2 \<longleftrightarrow> strcmp (c_str key1) (c_str key2) = Some 0"

definition hash_init_direct :: "bool \<Rightarrow> (u64, 'v) hash_t \<Rightarrow> int \<times> (u64, 'v) hash_t" where
  "hash_init_direct ok m = hash_init ok m hash_direct_hfunc hash_direct_cmp"

definition hash_init_string ::
    "bool \<Rightarrow> (cstring, 'v) hash_t \<Rightarrow> int \<times> (cstring, 'v) hash_t" where
  "hash_init_string ok m = hash_init ok m hash_string_hfunc hash_string_cmp"

text \<open>
  After \<open>hash_destroy\<close> the array and the two function pointers are \<open>NULL\<close>; the empty array stands
  for all three, since every operation of the destroyed table stops the machine on it.
\<close>

definition hash_destroy :: "('k, 'v) hash_t \<Rightarrow> ('k, 'v) hash_t" where
  "hash_destroy m = m\<lparr>fill := 0, count := 0, mask := 0, table := []\<rparr>"

section \<open>The probe sequence visits every slot\<close>

text \<open>
  Once the perturbation is used up the index follows \<open>x \<mapsto> 5 x + 1\<close>, which runs through all
  residues modulo a power of two.
\<close>

lemma five_pow_mod8: "(5 :: nat) ^ (2 * e + 1) mod 8 = 5"
proof (induction e)
  case 0
  then show ?case by simp
next
  case (Suc e)
  have "(5 :: nat) ^ (2 * Suc e + 1) = 25 * 5 ^ (2 * e + 1)" by simp
  then show ?case using Suc.IH by presburger
qed

lemma five_pow_mod4: "(5 :: nat) ^ e mod 4 = 1"
proof (induction e)
  case 0
  then show ?case by simp
next
  case (Suc e)
  have "(5 :: nat) ^ Suc e = 5 * 5 ^ e" by simp
  then show ?case using Suc.IH by presburger
qed

lemma coprime_pow2_odd: "odd (c :: nat) \<Longrightarrow> coprime (2 ^ n) c"
  by (cases "n = 0") (simp_all add: coprime_left_2_iff_odd)

lemma five_pow_dvd: "(2 :: nat) ^ (k + 2) dvd 5 ^ d - 1 \<Longrightarrow> 2 ^ k dvd d"
proof (induction k arbitrary: d)
  case 0
  then show ?case by simp
next
  case (Suc k)
  have "even d"
  proof (rule ccontr)
    assume "odd d"
    then obtain e where d: "d = 2 * e + 1" by (rule oddE)
    have "(8 :: nat) dvd 2 ^ (Suc k + 2)" by (simp add: power_add)
    then have "(8 :: nat) dvd 5 ^ d - 1" using Suc.prems by (rule dvd_trans)
    moreover have "(5 :: nat) ^ d mod 8 = 5" unfolding d by (rule five_pow_mod8)
    ultimately show False by presburger
  qed
  then obtain e where d: "d = 2 * e" by (rule evenE)
  define a where "a = (5 :: nat) ^ e"
  have a: "a mod 4 = 1" unfolding a_def by (rule five_pow_mod4)
  then have "even (a + 1)" by presburger
  then obtain c where c: "a + 1 = 2 * c" by (rule evenE)
  have odd: "odd c" using a c by presburger
  have "(5 :: nat) ^ d - 1 = a * a - 1"
    by (simp add: d a_def power_mult power2_eq_square mult.commute [of 2] flip: power_mult_distrib)
  also have "\<dots> = (a - 1) * (a + 1)" by (cases a) simp_all
  also have "\<dots> = 2 * ((a - 1) * c)" unfolding c by simp
  finally have "(2 :: nat) ^ (k + 2) dvd (a - 1) * c"
    using Suc.prems by (simp add: mult.commute)
  then have "(2 :: nat) ^ (k + 2) dvd a - 1"
    using coprime_pow2_odd [OF odd, of "k + 2"] by (simp only: coprime_dvd_mult_left_iff)
  then show ?case using Suc.IH [of e] by (simp add: d a_def)
qed

fun lcg :: "nat \<Rightarrow> nat \<Rightarrow> nat" where
  "lcg x 0 = x"
| "lcg x (Suc n) = 5 * lcg x n + 1"

lemma lcg_closed: "4 * lcg x n + 1 = 5 ^ n * (4 * x + 1)"
  by (induction n) (auto simp: algebra_simps)

lemma lcg_inj:
  assumes "lcg x n mod 2 ^ k = lcg x m mod 2 ^ k" "m \<le> n"
  shows "(2 :: nat) ^ k dvd n - m"
proof -
  have le: "lcg x m \<le> lcg x n"
    using assms(2) by (induction n) (auto simp: le_Suc_eq)
  have "(2 :: nat) ^ k dvd lcg x n - lcg x m"
    using assms(1) le by (simp add: mod_eq_dvd_iff_nat)
  then have "(4 :: nat) * 2 ^ k dvd 4 * (lcg x n - lcg x m)" by simp
  also have "4 * (lcg x n - lcg x m) = (4 * lcg x n + 1) - (4 * lcg x m + 1)" by simp
  also have "\<dots> = 5 ^ m * (4 * x + 1) * (5 ^ (n - m) - 1)"
  proof -
    have "(5 :: nat) ^ n = 5 ^ m * 5 ^ (n - m)"
      using assms(2) by (simp flip: power_add)
    then show ?thesis unfolding lcg_closed by (simp add: algebra_simps)
  qed
  finally have "(2 :: nat) ^ (k + 2) dvd (5 ^ m * (4 * x + 1)) * (5 ^ (n - m) - 1)"
    by (simp add: power_add mult.commute)
  moreover have "coprime ((2 :: nat) ^ (k + 2)) (5 ^ m * (4 * x + 1))"
    by (rule coprime_pow2_odd) simp
  ultimately have "(2 :: nat) ^ (k + 2) dvd 5 ^ (n - m) - 1"
    by (simp only: coprime_dvd_mult_right_iff)
  then show ?thesis by (rule five_pow_dvd)
qed

lemma lcg_full_cycle:
  assumes "j < 2 ^ k"
  shows "\<exists>n < 2 ^ k. lcg x n mod 2 ^ k = j"
proof -
  let ?f = "\<lambda>n. lcg x n mod 2 ^ k"
  have "inj_on ?f {..<2 ^ k}"
  proof (rule linorder_inj_onI)
    fix m n assume mn: "m < n" "m \<in> {..<2 ^ k}" "n \<in> {..<(2::nat) ^ k}"
    show "?f m \<noteq> ?f n"
    proof
      assume "?f m = ?f n"
      then have "2 ^ k dvd n - m" using lcg_inj [of x n k m] mn by simp
      then have "2 ^ k \<le> n - m" using mn by (intro dvd_imp_le) auto
      then show False using mn by auto
    qed
  qed auto
  moreover have "?f ` {..<2 ^ k} \<subseteq> {..<2 ^ k}" by auto
  ultimately have "?f ` {..<2 ^ k} = {..<2 ^ k}"
    by (intro endo_inj_surj) (rule finite_lessThan)
  then have "j \<in> ?f ` {..<2 ^ k}" using assms by (simp only: lessThan_iff)
  then show ?thesis by (elim imageE) auto
qed

text \<open>The index and the perturbation after \<open>n\<close> turns of the loop.\<close>

fun probe_index :: "u64 \<Rightarrow> u64 \<Rightarrow> nat \<Rightarrow> u64" where
  "probe_index mk h 0 = h AND mk"
| "probe_index mk h (Suc n) = 5 * probe_index mk h n + drop_bit (5 * n) h + 1"

lemma drop_bit_perturb: "drop_bit 5 (drop_bit (5 * n) (h :: u64)) = drop_bit (5 * Suc n) h"
  by (simp add: add.commute)

lemma perturb_used_up: "13 \<le> n \<Longrightarrow> drop_bit (5 * n) (h :: u64) = 0"
  by (rule bit_eqI) (auto simp: bit_simps dest: bit_imp_le_length)

lemma probe_index_lcg: "probe_index mk h (13 + n) = of_nat (lcg (unat (probe_index mk h 13)) n)"
proof (induction n)
  case 0
  then show ?case by (simp del: probe_index.simps)
next
  case (Suc n)
  have "probe_index mk h (13 + Suc n) = 5 * probe_index mk h (13 + n) + 1"
    using perturb_used_up [of "13 + n" h] by (simp only: add_Suc_right probe_index.simps) simp
  then show ?case using Suc.IH by simp
qed

lemma slot_index_mod:
  assumes "mask m = 2 ^ k - 1" "k < 64"
  shows "slot_index m x = unat x mod 2 ^ k"
proof -
  have "x AND mask m = take_bit k x"
    by (simp add: assms(1) take_bit_eq_mask mask_eq_exp_minus_1)
  then have "slot_index m x = take_bit k (unat x)"
    by (simp only: slot_index_def unsigned_take_bit_eq)
  then show ?thesis by (simp only: take_bit_eq_mod)
qed

lemma probe_visits_every_slot:
  assumes "mask m = 2 ^ k - 1" "k < 64" "j < 2 ^ k"
  shows "\<exists>n < 13 + 2 ^ k. slot_index m (probe_index (mask m) h n) = j"
proof -
  obtain n where n: "n < 2 ^ k" "lcg (unat (probe_index (mask m) h 13)) n mod 2 ^ k = j"
    using lcg_full_cycle [OF assms(3)] by blast
  have "unat (probe_index (mask m) h (13 + n)) mod 2 ^ k = j"
  proof -
    have "(2 :: nat) ^ k dvd 2 ^ LENGTH(64)" using assms(2) by (intro le_imp_power_dvd) simp
    then show ?thesis unfolding probe_index_lcg unat_of_nat using n by (simp only: mod_mod_cancel)
  qed
  then show ?thesis
    using slot_index_mod [OF assms(1,2)] n by (intro exI [of _ "13 + n"]) simp
qed

section \<open>What a table stands for\<close>

definition entries :: "('k, 'v) hash_slot list \<Rightarrow> ('k \<times> 'v option) list" where
  "entries t = map (\<lambda>s. (the (key s), value s)) (filter (\<lambda>s. mode s = SL_ACTIVE) t)"

text \<open>The map of a table; a key may be bound to \<open>NULL\<close>, hence the option of an option.\<close>

definition hash_map :: "('k, 'v) hash_t \<Rightarrow> 'k \<Rightarrow> 'v option option" where
  "hash_map m = map_of (entries (table m))"

definition holds :: "('k, 'v) hash_t \<Rightarrow> 'k \<Rightarrow> nat \<Rightarrow> bool" where
  "holds m k i \<longleftrightarrow> i < length (table m) \<and> mode (table m ! i) = SL_ACTIVE \<and> key (table m ! i) = Some k"

abbreviation probe_slot :: "('k, 'v) hash_t \<Rightarrow> 'k \<Rightarrow> nat \<Rightarrow> nat" where
  "probe_slot m k n \<equiv> slot_index m (probe_index (mask m) (hfunc m k) n)"

text \<open>
  The structural invariant of a table of \<open>2 ^ b\<close> slots: the counters count, a slot of the
  table is still \<open>SL_EMPTY\<close>, the active slots carry distinct keys and their hash codes, and
  each of them is reached by its probe sequence before an \<open>SL_EMPTY\<close> slot is.
\<close>

definition reachable_slot :: "('k, 'v) hash_t \<Rightarrow> 'k \<Rightarrow> nat \<Rightarrow> bool" where
  "reachable_slot m k i \<longleftrightarrow>
     (\<exists>n. probe_slot m k n = i \<and> (\<forall>n' < n. mode (table m ! probe_slot m k n') \<noteq> SL_EMPTY))"

definition hash_struct :: "('k, 'v) hash_t \<Rightarrow> nat \<Rightarrow> bool" where
  "hash_struct m b \<longleftrightarrow>
     b < 63 \<and> mask m = 2 ^ b - 1 \<and> length (table m) = 2 ^ b \<and>
     fill m = int (length (filter (\<lambda>s. mode s \<noteq> SL_EMPTY) (table m))) \<and>
     count m = int (length (filter (\<lambda>s. mode s = SL_ACTIVE) (table m))) \<and>
     fill m < 2 ^ b \<and>
     (\<forall>i < length (table m). mode (table m ! i) = SL_ACTIVE \<longrightarrow> key (table m ! i) \<noteq> None) \<and>
     (\<forall>k i j. holds m k i \<longrightarrow> holds m k j \<longrightarrow> i = j) \<and>
     (\<forall>k i. holds m k i \<longrightarrow> hash (table m ! i) = hfunc m k \<and> reachable_slot m k i) \<and>
     (\<forall>x y. cmp m x y \<longleftrightarrow> x = y)"

lemma length_filter_update:
  "i < length xs \<Longrightarrow>
   int (length (filter P (xs[i := s]))) =
     int (length (filter P xs)) + of_bool (P s) - of_bool (P (xs ! i))"
proof (induction xs arbitrary: i)
  case Nil
  then show ?case by simp
next
  case (Cons x xs)
  then show ?case by (cases i) auto
qed

lemma struct_slot_index: "hash_struct m b \<Longrightarrow> slot_index m x < length (table m)"
  using slot_index_mod [of m b x] by (simp add: hash_struct_def)

lemma struct_empty_slot:
  assumes "hash_struct m b"
  shows "\<exists>i < length (table m). mode (table m ! i) = SL_EMPTY"
proof (rule ccontr)
  assume "\<not> ?thesis"
  then have "filter (\<lambda>s. mode s \<noteq> SL_EMPTY) (table m) = table m"
    by (auto simp: filter_id_conv in_set_conv_nth)
  then have "fill m = 2 ^ b" using assms by (auto simp: hash_struct_def)
  then show False using assms by (simp add: hash_struct_def)
qed

lemma distinct_active_keys:
  assumes "\<And>i j. i < length xs \<Longrightarrow> j < length xs \<Longrightarrow> mode (xs ! i) = SL_ACTIVE \<Longrightarrow>
        mode (xs ! j) = SL_ACTIVE \<Longrightarrow> the (key (xs ! i)) = the (key (xs ! j)) \<Longrightarrow> i = j"
  shows "distinct (map fst (entries xs))"
  using assms
proof (induction xs)
  case Nil
  then show ?case by (simp add: entries_def)
next
  case (Cons x xs)
  have "distinct (map fst (entries xs))"
    using Cons.prems [of "Suc _" "Suc _"] by (intro Cons.IH) auto
  moreover have "the (key x) \<noteq> the (key y)"
    if "mode x = SL_ACTIVE" "y \<in> set xs" "mode y = SL_ACTIVE" for y
    using that Cons.prems [of 0 "Suc _"] by (fastforce simp: in_set_conv_nth)
  ultimately show ?case by (auto simp: entries_def)
qed

lemma active_key:
  "hash_struct m b \<Longrightarrow> s \<in> set (table m) \<Longrightarrow> mode s = SL_ACTIVE \<Longrightarrow> key s = Some (the (key s))"
  by (auto simp: hash_struct_def in_set_conv_nth)

lemma distinct_entries:
  assumes "hash_struct m b"
  shows "distinct (map fst (entries (table m)))"
proof (rule distinct_active_keys)
  fix i j
  assume ij: "i < length (table m)" "j < length (table m)"
    "mode (table m ! i) = SL_ACTIVE" "mode (table m ! j) = SL_ACTIVE"
    "the (key (table m ! i)) = the (key (table m ! j))"
  then have "holds m (the (key (table m ! i))) i" "holds m (the (key (table m ! i))) j"
    using active_key [OF assms, of "table m ! i"] active_key [OF assms, of "table m ! j"]
    by (auto simp: holds_def)
  then show "i = j" using assms by (simp add: hash_struct_def)
qed

lemma map_of_entries:
  assumes "hash_struct m b"
  shows "hash_map m k = Some v \<longleftrightarrow> (\<exists>i. holds m k i \<and> value (table m ! i) = v)"
proof -
  have "hash_map m k = Some v \<longleftrightarrow> (k, v) \<in> set (entries (table m))"
    using distinct_entries [OF assms] by (simp add: hash_map_def)
  also have "\<dots> \<longleftrightarrow> (\<exists>i. holds m k i \<and> value (table m ! i) = v)"
    using active_key [OF assms] by (fastforce simp: entries_def holds_def in_set_conv_nth image_iff)
  finally show ?thesis .
qed

lemma hash_map_None_iff:
  assumes "hash_struct m b"
  shows "hash_map m k = None \<longleftrightarrow> (\<nexists>i. holds m k i)"
  using map_of_entries [OF assms, of k] by (metis not_None_eq)

section \<open>Lookup\<close>

definition stops :: "('k, 'v) hash_t \<Rightarrow> 'k \<Rightarrow> nat \<Rightarrow> bool" where
  "stops m k n \<longleftrightarrow> mode (table m ! probe_slot m k n) = SL_EMPTY \<or> holds m k (probe_slot m k n)"

lemma probe_loop:
  assumes s: "hash_struct m b" and N: "stops m k N" "\<And>n. n < N \<Longrightarrow> \<not> stops m k n"
    and "n \<le> N"
    and "f = None \<or> (\<exists>j < n. f = Some (probe_slot m k j) \<and> mode (table m ! probe_slot m k j) = SL_DELETED)"
  shows "\<exists>j \<le> N. hash_probe m k (hfunc m k) (probe_index (mask m) (hfunc m k) n)
             (drop_bit (5 * n) (hfunc m k)) f = Some (probe_slot m k j) \<and>
           (if mode (table m ! probe_slot m k N) = SL_ACTIVE then j = N
            else mode (table m ! probe_slot m k j) \<noteq> SL_ACTIVE)"
  using assms(4,5)
proof (induction "N - n" arbitrary: n f)
  case 0
  then have n: "n = N" by simp
  have lt: "probe_slot m k N < length (table m)" using struct_slot_index [OF s] .
  show ?case
  proof (cases "mode (table m ! probe_slot m k N) = SL_EMPTY")
    case True
    then have r: "hash_probe m k (hfunc m k) (probe_index (mask m) (hfunc m k) N)
        (drop_bit (5 * N) (hfunc m k)) f =
        Some (case f of None \<Rightarrow> probe_slot m k N | Some j \<Rightarrow> j)"
      using lt by (subst hash_probe.simps) (simp add: Let_def)
    show ?thesis
    proof (cases f)
      case None
      then show ?thesis using True r unfolding n by (intro exI [of _ N]) simp
    next
      case (Some i)
      with 0(3) obtain j where "j < N" "i = probe_slot m k j"
        "mode (table m ! probe_slot m k j) = SL_DELETED" unfolding n by auto
      then show ?thesis using True r Some unfolding n by (intro exI [of _ j]) simp
    qed
  next
    case False
    then have "holds m k (probe_slot m k N)" using N(1) by (simp add: stops_def)
    then show ?thesis using lt unfolding n
      by (subst hash_probe.simps) (auto simp: Let_def holds_def)
  qed
next
  case (Suc d)
  let ?i = "probe_slot m k n"
  have lt: "?i < length (table m)" using struct_slot_index [OF s] .
  have ns: "\<not> stops m k n" using N(2) [of n] Suc(2) by simp
  have noteq: "mode (table m ! ?i) = SL_ACTIVE \<Longrightarrow> key (table m ! ?i) \<noteq> Some k"
    using ns lt by (auto simp: stops_def holds_def)
  have cmp: "cmp m x y \<longleftrightarrow> x = y" for x y using s by (simp add: hash_struct_def)
  let ?f = "if mode (table m ! ?i) = SL_DELETED \<and> f = None then Some ?i else f"
  have step: "hash_probe m k (hfunc m k) (probe_index (mask m) (hfunc m k) n)
      (drop_bit (5 * n) (hfunc m k)) f =
    hash_probe m k (hfunc m k) (probe_index (mask m) (hfunc m k) (Suc n))
      (drop_bit (5 * Suc n) (hfunc m k)) ?f"
    using ns lt noteq unfolding drop_bit_perturb [symmetric]
    by (subst hash_probe.simps)
      (auto simp: Let_def stops_def cmp holds_def simp del: drop_bit_drop_bit split: option.splits)
  have "?f = None \<or> (\<exists>j < Suc n. ?f = Some (probe_slot m k j) \<and>
      mode (table m ! probe_slot m k j) = SL_DELETED)"
    using Suc.prems(2) less_SucI by auto
  with Suc(1) [of "Suc n" ?f] Suc(2) show ?case unfolding step by simp
qed

text \<open>
  Lookup ends; it returns the slot that holds the key when there is one, and otherwise a slot
  that is not active and to which the probe sequence of the key leads.
\<close>

lemma hash_lookup_correct:
  assumes s: "hash_struct m b"
  shows "\<exists>i. hash_lookup m k (hfunc m k) = Some i \<and> i < length (table m) \<and>
           reachable_slot m k i \<and>
           (if hash_map m k = None then mode (table m ! i) \<noteq> SL_ACTIVE else holds m k i)"
proof -
  obtain e where e: "e < length (table m)" "mode (table m ! e) = SL_EMPTY"
    using struct_empty_slot [OF s] by blast
  have "mask m = 2 ^ b - 1" "b < 64" "e < 2 ^ b" using s e by (auto simp: hash_struct_def)
  from probe_visits_every_slot [OF this, of "hfunc m k"]
  have "\<exists>n. probe_slot m k n = e" by blast
  then have ex: "\<exists>n. stops m k n" using e by (auto simp: stops_def)
  define N where "N = (LEAST n. stops m k n)"
  have N: "stops m k N" "\<And>n. n < N \<Longrightarrow> \<not> stops m k n"
    using LeastI_ex [OF ex] not_less_Least by (auto simp: N_def)
  obtain j where j: "j \<le> N" "hash_lookup m k (hfunc m k) = Some (probe_slot m k j)"
    "if mode (table m ! probe_slot m k N) = SL_ACTIVE then j = N
     else mode (table m ! probe_slot m k j) \<noteq> SL_ACTIVE"
    using probe_loop [OF s N, of 0 None] by (auto simp: hash_lookup_def)
  have reach: "reachable_slot m k (probe_slot m k j)"
    unfolding reachable_slot_def using N(2) j(1) by (intro exI [of _ j]) (auto simp: stops_def)
  show ?thesis
  proof (cases "hash_map m k")
    case None
    then have "\<not> holds m k (probe_slot m k N)" using hash_map_None_iff [OF s] by blast
    then have "mode (table m ! probe_slot m k N) = SL_EMPTY" using N(1) by (simp add: stops_def)
    then show ?thesis using None j reach struct_slot_index [OF s] by auto
  next
    case (Some v)
    then obtain i where i: "holds m k i" using map_of_entries [OF s] by blast
    then have "reachable_slot m k i" using s by (simp add: hash_struct_def)
    then obtain n where n: "probe_slot m k n = i"
      "\<forall>n' < n. mode (table m ! probe_slot m k n') \<noteq> SL_EMPTY"
      by (auto simp: reachable_slot_def)
    have "N \<le> n" using N(2) [of n] n(1) i by (auto simp: stops_def not_less [symmetric])
    then have hN: "holds m k (probe_slot m k N)"
      using N(1) n i by (cases "N = n") (auto simp: stops_def)
    then have "j = N" using j(3) by (simp add: holds_def split: if_splits)
    then show ?thesis using Some hN j(2) reach struct_slot_index [OF s] by auto
  qed
qed

section \<open>Writing a slot\<close>

definition with_slot ::
    "('k, 'v) hash_t \<Rightarrow> nat \<Rightarrow> ('k, 'v) hash_slot \<Rightarrow> int \<Rightarrow> int \<Rightarrow> ('k, 'v) hash_t" where
  "with_slot m i s f c = (put_slot m i s)\<lparr>fill := f, count := c\<rparr>"

lemma with_slot_simps [simp]:
  "mask (with_slot m i s f c) = mask m" "hfunc (with_slot m i s f c) = hfunc m"
  "cmp (with_slot m i s f c) = cmp m" "fill (with_slot m i s f c) = f"
  "count (with_slot m i s f c) = c" "table (with_slot m i s f c) = (table m)[i := s]"
  "slot_index (with_slot m i s f c) x = slot_index m x"
  by (simp_all add: with_slot_def put_slot_def slot_index_def)

lemma holds_with_slot:
  "i < length (table m) \<Longrightarrow>
   holds (with_slot m i s f c) k j \<longleftrightarrow>
     (if j = i then mode s = SL_ACTIVE \<and> key s = Some k else holds m k j)"
  by (auto simp: holds_def)

lemma reachable_with_slot:
  "i < length (table m) \<Longrightarrow> mode s \<noteq> SL_EMPTY \<Longrightarrow> reachable_slot m k j \<Longrightarrow>
   reachable_slot (with_slot m i s f c) k j"
  unfolding reachable_slot_def by (auto simp: nth_list_update)

lemma struct_with_slot:
  assumes st: "hash_struct m b" and i: "i < length (table m)" and ne: "mode s \<noteq> SL_EMPTY"
    and act: "mode s = SL_ACTIVE \<Longrightarrow> \<exists>k. key s = Some k \<and> hash s = hfunc m k \<and>
      reachable_slot m k i \<and> (\<forall>j. holds m k j \<longrightarrow> j = i)"
    and f: "f = fill m + of_bool (mode (table m ! i) = SL_EMPTY)" "f < 2 ^ b"
    and c: "c = count m + of_bool (mode s = SL_ACTIVE) - of_bool (mode (table m ! i) = SL_ACTIVE)"
  shows "hash_struct (with_slot m i s f c) b"
proof -
  let ?m = "with_slot m i s f c"
  have "b < 63 \<and> mask ?m = 2 ^ b - 1 \<and> length (table ?m) = 2 ^ b"
    using st by (simp add: hash_struct_def)
  moreover have "fill ?m = int (length (filter (\<lambda>s. mode s \<noteq> SL_EMPTY) (table ?m)))"
    using st i ne f by (simp add: length_filter_update hash_struct_def)
  moreover have "count ?m = int (length (filter (\<lambda>s. mode s = SL_ACTIVE) (table ?m)))"
    using st i c by (simp add: length_filter_update hash_struct_def)
  moreover have "\<forall>j < length (table ?m). mode (table ?m ! j) = SL_ACTIVE \<longrightarrow> key (table ?m ! j) \<noteq> None"
  proof (intro allI impI)
    fix j assume j: "j < length (table ?m)" "mode (table ?m ! j) = SL_ACTIVE"
    show "key (table ?m ! j) \<noteq> None"
      using st act j i by (cases "j = i") (auto simp: hash_struct_def)
  qed
  moreover have "\<forall>k j j'. holds ?m k j \<longrightarrow> holds ?m k j' \<longrightarrow> j = j'"
    using st act i by (auto simp: holds_with_slot hash_struct_def)
  moreover have "hash (table ?m ! j) = hfunc ?m k \<and> reachable_slot ?m k j" if "holds ?m k j" for k j
  proof (cases "j = i")
    case True
    then have "mode s = SL_ACTIVE" "key s = Some k"
      using that i by (auto simp: holds_with_slot)
    then have "hash s = hfunc m k" "reachable_slot m k i" using act by auto
    then show ?thesis using True i reachable_with_slot [OF i ne] by simp
  next
    case False
    then have "holds m k j" using that i by (simp add: holds_with_slot)
    then have "hash (table m ! j) = hfunc m k" "reachable_slot m k j"
      using st by (auto simp: hash_struct_def)
    then show ?thesis using False reachable_with_slot [OF i ne] by simp
  qed
  moreover have "\<forall>x y. cmp ?m x y \<longleftrightarrow> x = y" using st by (simp add: hash_struct_def)
  ultimately show ?thesis using f(2) by (simp add: hash_struct_def)
qed

text \<open>Equality of the represented maps, from equality of what the slots hold.\<close>

lemma hash_map_eqI:
  assumes "hash_struct m b" "\<And>x v. (\<exists>i. holds m x i \<and> value (table m ! i) = v) \<longleftrightarrow> g x = Some v"
  shows "hash_map m = g"
proof
  fix x show "hash_map m x = g x"
  proof (cases "g x")
    case None
    then have "\<nexists>i. holds m x i" using assms(2) [of x] by fastforce
    then show ?thesis using None hash_map_None_iff [OF assms(1)] by simp
  next
    case (Some v)
    then show ?thesis using assms(2) [of x v] map_of_entries [OF assms(1)] by simp
  qed
qed

lemma insert_new:
  assumes st: "hash_struct m b" and new: "hash_map m k = None"
    and i: "i < length (table m)" "mode (table m ! i) \<noteq> SL_ACTIVE" "reachable_slot m k i"
    and s: "s = \<lparr>key = Some k, value = v, hash = hfunc m k, mode = SL_ACTIVE\<rparr>"
    and f: "f = fill m + of_bool (mode (table m ! i) = SL_EMPTY)" "f < 2 ^ b"
    and c: "c = count m + 1"
  shows "hash_struct (with_slot m i s f c) b \<and>
         hash_map (with_slot m i s f c) = (hash_map m)(k \<mapsto> v)"
proof
  have none: "\<not> holds m k j" for j using new hash_map_None_iff [OF st] by blast
  show st': "hash_struct (with_slot m i s f c) b"
    using assms none by (intro struct_with_slot) auto
  show "hash_map (with_slot m i s f c) = (hash_map m)(k \<mapsto> v)"
  proof (rule hash_map_eqI [OF st'])
    fix x w
    have "\<not> holds m x i" using i by (simp add: holds_def)
    then have "(\<exists>j. holds (with_slot m i s f c) x j \<and> value (table (with_slot m i s f c) ! j) = w) \<longleftrightarrow>
        x = k \<and> w = v \<or> (\<exists>j. holds m x j \<and> value (table m ! j) = w)"
      using i by (auto simp: holds_with_slot s nth_list_update split: if_splits)
    then show "(\<exists>j. holds (with_slot m i s f c) x j \<and> value (table (with_slot m i s f c) ! j) = w) \<longleftrightarrow>
        ((hash_map m)(k \<mapsto> v)) x = Some w"
      using none map_of_entries [OF st, of x w] by auto
  qed
qed

lemma overwrite_value:
  assumes st: "hash_struct m b" and i: "holds m k i"
  shows "hash_struct (put_slot m i ((table m ! i)\<lparr>value := v\<rparr>)) b \<and>
         hash_map (put_slot m i ((table m ! i)\<lparr>value := v\<rparr>)) = (hash_map m)(k \<mapsto> v)"
proof
  let ?s = "(table m ! i)\<lparr>value := v\<rparr>"
  have eq: "put_slot m i ?s = with_slot m i ?s (fill m) (count m)"
    by (simp add: with_slot_def put_slot_def)
  have lt: "i < length (table m)" "mode (table m ! i) = SL_ACTIVE" "key (table m ! i) = Some k"
    using i by (auto simp: holds_def)
  have h: "hash (table m ! i) = hfunc m k" "reachable_slot m k i" "\<forall>j. holds m k j \<longrightarrow> j = i"
    using st i by (auto simp: hash_struct_def)
  show st': "hash_struct (put_slot m i ?s) b"
    unfolding eq using st lt h by (intro struct_with_slot) (auto simp: hash_struct_def)
  show "hash_map (put_slot m i ?s) = (hash_map m)(k \<mapsto> v)"
  proof (rule hash_map_eqI [OF st'])
    fix x w
    have "holds m x i \<longleftrightarrow> x = k" using lt by (auto simp: holds_def)
    then show "(\<exists>j. holds (put_slot m i ?s) x j \<and> value (table (put_slot m i ?s) ! j) = w) \<longleftrightarrow>
        ((hash_map m)(k \<mapsto> v)) x = Some w"
      using lt h(3) map_of_entries [OF st, of x w] unfolding eq
      by (auto simp: holds_with_slot nth_list_update split: if_splits)
  qed
qed

lemma delete_slot:
  assumes st: "hash_struct m b" and i: "holds m k i"
    and s: "s = \<lparr>key = None, value = None, hash = 0, mode = SL_DELETED\<rparr>"
  shows "hash_struct (with_slot m i s (fill m) (count m - 1)) b \<and>
         hash_map (with_slot m i s (fill m) (count m - 1)) = (hash_map m)(k := None)"
proof
  let ?m = "with_slot m i s (fill m) (count m - 1)"
  have lt: "i < length (table m)" "mode (table m ! i) = SL_ACTIVE" "key (table m ! i) = Some k"
    using i by (auto simp: holds_def)
  have only: "\<forall>j. holds m k j \<longrightarrow> j = i" using st i by (auto simp: hash_struct_def)
  show st': "hash_struct ?m b"
    using st lt s by (intro struct_with_slot) (auto simp: hash_struct_def)
  show "hash_map ?m = (hash_map m)(k := None)"
  proof (rule hash_map_eqI [OF st'])
    fix x w
    have "holds m x i \<longleftrightarrow> x = k" using lt by (auto simp: holds_def)
    then show "(\<exists>j. holds ?m x j \<and> value (table ?m ! j) = w) \<longleftrightarrow>
        ((hash_map m)(k := None)) x = Some w"
      using lt only map_of_entries [OF st, of x w] s
      by (auto simp: holds_with_slot nth_list_update split: if_splits)
  qed
qed

section \<open>Resizing\<close>

lemma fresh_table:
  assumes "b < 63" "\<forall>x y. cmp m x y \<longleftrightarrow> x = y"
    and "hash_initialize True m (2 ^ b) = (0, m')"
  shows "hash_struct m' b \<and> hash_map m' = Map.empty \<and> fill m' = 0 \<and> hfunc m' = hfunc m"
proof -
  have m': "m' = m\<lparr>fill := 0, count := 0, mask := 2 ^ b - 1, table := replicate (2 ^ b) empty_slot\<rparr>"
    using assms(3) by (auto simp: hash_initialize_def nat_power_eq)
  have h: "\<not> holds m' x i" for x i by (auto simp: holds_def m' empty_slot_def)
  have "hash_struct m' b"
    using assms(1,2) h by (auto simp: hash_struct_def m' empty_slot_def)
  moreover have "hash_map m' = Map.empty"
    using hash_map_None_iff [OF calculation] h by auto
  ultimately show ?thesis by (simp add: m')
qed

lemma hash_copy_correct:
  assumes "hash_struct m b" "\<forall>s \<in> set (table m). mode s \<noteq> SL_DELETED"
    and "fill m + int (length (entries olds)) < 2 ^ b"
    and "distinct (map fst (entries olds))" "\<forall>x \<in> fst ` set (entries olds). hash_map m x = None"
    and "\<forall>s \<in> set olds. mode s = SL_ACTIVE \<longrightarrow> (\<exists>x. key s = Some x \<and> hash s = hfunc m x)"
  shows "\<exists>m'. hash_copy m olds = Some m' \<and> hash_struct m' b \<and>
     hash_map m' = hash_map m ++ map_of (entries olds) \<and>
     fill m' = fill m + int (length (entries olds)) \<and> hfunc m' = hfunc m"
  using assms
proof (induction olds arbitrary: m)
  case Nil
  then show ?case by (simp add: entries_def)
next
  case (Cons old olds)
  show ?case
  proof (cases "mode old = SL_ACTIVE")
    case False
    then have "entries (old # olds) = entries olds" by (simp add: entries_def)
    then show ?thesis using False Cons by simp
  next
    case True
    then obtain x where x: "key old = Some x" "hash old = hfunc m x" using Cons.prems(6) by auto
    have en: "entries (old # olds) = (x, value old) # entries olds"
      using True x by (simp add: entries_def)
    have new: "hash_map m x = None" using Cons.prems(5) en by simp
    obtain i where i: "hash_lookup m x (hfunc m x) = Some i" "i < length (table m)"
      "reachable_slot m x i" "mode (table m ! i) \<noteq> SL_ACTIVE"
      using hash_lookup_correct [OF Cons.prems(1), of x] new by auto
    have empty: "mode (table m ! i) = SL_EMPTY"
      using Cons.prems(2) i by (cases "mode (table m ! i)") auto
    define s where "s = \<lparr>key = Some x, value = value old, hash = hfunc m x, mode = SL_ACTIVE\<rparr>"
    define m1 where "m1 = with_slot m i s (fill m + 1) (count m + 1)"
    have m1: "hash_struct m1 b" "hash_map m1 = (hash_map m)(x \<mapsto> value old)"
      using insert_new [OF Cons.prems(1) new i(2,4,3) s_def, of "fill m + 1" "count m + 1"]
        empty Cons.prems(3) en by (auto simp: m1_def)
    have "\<forall>s \<in> set (table m1). mode s \<noteq> SL_DELETED"
      using Cons.prems(2) set_update_subset_insert [of "table m" i s]
      by (auto simp: m1_def s_def)
    moreover have "fill m1 + int (length (entries olds)) < 2 ^ b"
      using Cons.prems(3) en by (simp add: m1_def)
    moreover have "distinct (map fst (entries olds))"
      "\<forall>x \<in> fst ` set (entries olds). hash_map m1 x = None"
      using Cons.prems(4,5) en m1(2) by auto
    moreover have "\<forall>s \<in> set olds. mode s = SL_ACTIVE \<longrightarrow> (\<exists>x. key s = Some x \<and> hash s = hfunc m1 x)"
      using Cons.prems(6) by (simp add: m1_def)
    ultimately obtain m' where m': "hash_copy m1 olds = Some m'" "hash_struct m' b"
      "hash_map m' = hash_map m1 ++ map_of (entries olds)"
      "fill m' = fill m1 + int (length (entries olds))" "hfunc m' = hfunc m1"
      using Cons.IH [OF m1(1)] by blast
    have "hash_copy m (old # olds) = hash_copy m1 olds"
      using True x i by (simp add: m1_def with_slot_def s_def)
    moreover have "hash_map m1 ++ map_of (entries olds) = hash_map m ++ map_of ((x, value old) # entries olds)"
    proof -
      have "x \<notin> fst ` set (entries olds)" using Cons.prems(4) en by simp
      then have "map_of (entries olds) x = None" by (simp add: map_of_eq_None_iff)
      then show ?thesis by (auto simp: en m1(2) map_add_def fun_eq_iff split: option.splits)
    qed
    ultimately have "hash_copy m (old # olds) = Some m' \<and> hash_struct m' b \<and>
        hash_map m' = hash_map m ++ map_of (entries (old # olds)) \<and>
        fill m' = fill m + int (length (entries (old # olds))) \<and> hfunc m' = hfunc m"
      using m' unfolding en by (simp only: m1_def with_slot_simps list.size) simp
    then show ?thesis by blast
  qed
qed

lemma entries_length: "int (length (entries (table m))) = count m" if "hash_struct m b"
  using that by (simp add: hash_struct_def entries_def)

lemma count_le_fill: "hash_struct m b \<Longrightarrow> count m \<le> fill m"
proof -
  have "length (filter (\<lambda>s. mode s = SL_ACTIVE) t) \<le> length (filter (\<lambda>s. mode s \<noteq> SL_EMPTY) t)"
    for t :: "('a, 'b) hash_slot list"
    by (induction t) auto
  then show "hash_struct m b \<Longrightarrow> count m \<le> fill m" by (simp add: hash_struct_def)
qed

text \<open>Moving the entries of a table into a new one of \<open>2 ^ b'\<close> slots.\<close>

lemma resize_correct:
  assumes st: "hash_struct m b" and b': "b' < 63" "count m < 2 ^ b'"
    and ini: "hash_initialize True m (2 ^ b') = (0, m0)"
  shows "\<exists>m'. hash_copy m0 (table m) = Some m' \<and> hash_struct m' b' \<and>
           hash_map m' = hash_map m \<and> fill m' = count m \<and> hfunc m' = hfunc m"
proof -
  have "\<forall>x y. cmp m x y \<longleftrightarrow> x = y" using st by (simp add: hash_struct_def)
  note fresh = fresh_table [OF b'(1) this ini]
  have "\<forall>s \<in> set (table m0). mode s \<noteq> SL_DELETED"
    using ini by (auto simp: hash_initialize_def empty_slot_def)
  moreover have "fill m0 + int (length (entries (table m))) < 2 ^ b'"
    using fresh b'(2) entries_length [OF st] by simp
  moreover have "distinct (map fst (entries (table m)))" by (rule distinct_entries [OF st])
  moreover have "\<exists>x. key s = Some x \<and> hash s = hfunc m0 x"
    if "s \<in> set (table m)" "mode s = SL_ACTIVE" for s
  proof -
    from that(1) obtain i where i: "i < length (table m)" "s = table m ! i"
      by (metis in_set_conv_nth)
    obtain x where x: "key s = Some x" using active_key [OF st \<open>s \<in> set (table m)\<close> \<open>mode s = SL_ACTIVE\<close>] by blast
    then have "holds m x i" using i that by (simp add: holds_def)
    then have "hash s = hfunc m x" using st i by (simp add: hash_struct_def)
    then show ?thesis using fresh x by simp
  qed
  ultimately show ?thesis
    using hash_copy_correct [of m0 b' "table m"] fresh entries_length [OF st]
    by (auto simp: hash_map_def)
qed

text \<open>
  The load invariant: less than two thirds of the slots are in use.  It holds as long as the
  allocations of \<open>hash_update\<close> succeed.
\<close>

definition hash_inv :: "('k, 'v) hash_t \<Rightarrow> bool" where
  "hash_inv m \<longleftrightarrow> (\<exists>b. 3 \<le> b \<and> hash_struct m b \<and> 3 * fill m < 2 * 2 ^ b)"

lemma sint_pow2: "b < 63 \<Longrightarrow> sint ((2 :: u64) ^ b) = 2 ^ b"
proof -
  assume b: "b < 63"
  have "(2 :: u64) ^ b = word_of_int (2 ^ b)" by simp
  then have "sint ((2 :: u64) ^ b) = signed_take_bit 63 (2 ^ b)"
    by (simp only: sint_sbintrunc') simp
  moreover have "(2::int) ^ b < 2 ^ 63" using b by (intro power_strict_increasing) auto
  moreover have "- (2 ^ 63) \<le> (2::int) ^ b" by (rule order_trans [of _ 0]) simp_all
  ultimately show ?thesis by (simp add: signed_take_bit_int_eq_self)
qed

lemma struct_size: "hash_struct m b \<Longrightarrow> sint (mask m + 1) = 2 ^ b"
  by (simp add: hash_struct_def sint_pow2)

text \<open>
  \<open>hash_update\<close> on a table one insertion or deletion away from the load invariant: the map is
  unchanged, the structure stays sound even when the allocation fails, and a result of \<open>0\<close>
  means that the load invariant holds again.
\<close>

lemma initialize_ok: "hash_initialize True m n = (0, snd (hash_initialize True m n))"
  by (simp add: hash_initialize_def)

lemma hash_update_correct:
  assumes st: "hash_struct m b" and b: "3 \<le> b" and load: "3 * (fill m - 1) < 2 * 2 ^ b"
  shows "\<exists>r m' b'. hash_update ok m = Some (r, m') \<and> hash_struct m' b' \<and> 3 \<le> b' \<and>
     hash_map m' = hash_map m \<and> hfunc m' = hfunc m \<and> (r = 0 \<or> r = - 1) \<and>
     (r = 0 \<longrightarrow> 3 * fill m' < 2 * 2 ^ b') \<and> (ok \<and> b < 62 \<longrightarrow> r = 0)"
proof -
  have sz: "sint (mask m + 1) = 2 ^ b" by (rule struct_size [OF st])
  have cf: "count m \<le> fill m" by (rule count_le_fill [OF st])
  have p8: "(8 :: int) \<le> 2 ^ b" using power_increasing [OF b, of "2 :: int"] by simp
  have bmax: "b < 63" using st by (simp add: hash_struct_def)
  have half: "(2 :: int) ^ b div 2 = 2 ^ (b - 1)" using b by (cases b) auto
  consider (fail) "\<not> ok" | (over) "ok" "b = 62" "3 * fill m \<ge> 2 * 2 ^ b"
    | (grow) "ok" "b < 62" "3 * fill m \<ge> 2 * 2 ^ b"
    | (shrink) "ok" "3 * fill m < 2 * 2 ^ b" "2 ^ b > (8::int)" "4 * count m \<le> 2 ^ b"
    | (keep) "ok" "3 * fill m < 2 * 2 ^ b" "\<not> (2 ^ b > (8::int) \<and> 4 * count m \<le> 2 ^ b)"
    using bmax by (cases "b = 62") linarith+
  then show ?thesis
  proof cases
    case fail
    have "hash_update ok m = Some (0, m) \<and> 3 * fill m < 2 * 2 ^ b \<or> hash_update ok m = Some (- 1, m)"
      using fail by (auto simp: hash_update_def sz Let_def hash_initialize_def)
    then show ?thesis using fail st b by auto
  next
    case over
    have "signed_take_bit 63 (2 * 2 ^ b) = (- (2 ^ 63) :: int)"
      by (simp add: over(2) signed_take_bit_eq_take_bit_shift)
    then have "hash_update ok m = Some (- 1, m)"
      using over by (simp add: hash_update_def sz Let_def)
    then show ?thesis using over st b by auto
  next
    case grow
    have new: "signed_take_bit 63 (2 * 2 ^ b) = (2 ^ Suc b :: int)"
    proof -
      have "(2 :: int) ^ Suc b < 2 ^ 63" using grow(2) by (intro power_strict_increasing) auto
      moreover have "- (2 ^ 63) \<le> (2 :: int) ^ Suc b" by (rule order_trans [of _ 0]) simp_all
      ultimately show ?thesis by (simp add: signed_take_bit_int_eq_self)
    qed
    have c: "count m < 2 ^ Suc b" using cf load p8 by simp
    obtain m' where m': "hash_copy (snd (hash_initialize True m (2 ^ Suc b))) (table m) = Some m'"
      "hash_struct m' (Suc b)" "hash_map m' = hash_map m" "fill m' = count m" "hfunc m' = hfunc m"
      using resize_correct [OF st _ c initialize_ok] grow(2) by auto
    have "hash_update ok m = Some (0, m')"
      using grow m'(1) initialize_ok [of m "2 ^ Suc b"]
      by (auto simp: hash_update_def sz Let_def new
          split: prod.splits simp del: power_Suc)
    moreover have "3 * fill m' < 2 * 2 ^ Suc b" using m'(4) cf load p8 by simp
    ultimately show ?thesis using m' b by (intro exI [of _ 0] exI [of _ m'] exI [of _ "Suc b"]) auto
  next
    case shrink
    have b4: "4 \<le> b"
    proof (rule ccontr)
      assume "\<not> 4 \<le> b"
      then have "b = 3" using b by simp
      then show False using shrink by simp
    qed
    have pb: "(2 :: int) ^ b = 2 * 2 ^ (b - 1)" using b by (cases b) auto
    have c: "count m < 2 ^ (b - 1)"
      using shrink(4) pb zero_less_power [of "2 :: int" "b - 1"] by linarith
    obtain m' where m': "hash_copy (snd (hash_initialize True m (2 ^ (b - 1)))) (table m) = Some m'"
      "hash_struct m' (b - 1)" "hash_map m' = hash_map m" "fill m' = count m" "hfunc m' = hfunc m"
      using resize_correct [OF st _ c initialize_ok] bmax by (metis less_imp_diff_less)
    have "hash_update ok m = Some (0, m')"
      using shrink m'(1) initialize_ok [of m "2 ^ (b - 1)"]
      by (auto simp: hash_update_def sz Let_def half HASH_MINSIZE_def split: prod.splits)
    moreover have "3 * fill m' < 2 * 2 ^ (b - 1)"
      using m'(4) shrink(4) pb zero_less_power [of "2 :: int" "b - 1"] by linarith
    ultimately show ?thesis
      using m' b4 by (intro exI [of _ 0] exI [of _ m'] exI [of _ "b - 1"]) auto
  next
    case keep
    then have "hash_update ok m = Some (0, m)"
      by (auto simp: hash_update_def sz Let_def HASH_MINSIZE_def)
    then show ?thesis using keep st b by auto
  qed
qed

section \<open>The operations implement a map\<close>

lemma hash_get_correct:
  "hash_struct m b \<Longrightarrow>
   hash_get (Some m) k d = Some (case hash_map m k of None \<Rightarrow> d | Some v \<Rightarrow> v)"
  using hash_lookup_correct [of m b k] map_of_entries [of m b k]
  by (fastforce simp: hash_get_def holds_def split: option.splits if_splits)

lemma hash_isset_correct:
  "hash_struct m b \<Longrightarrow> hash_isset (Some m) k = Some (hash_map m k \<noteq> None)"
  using hash_lookup_correct [of m b k]
  by (auto simp: hash_isset_def holds_def split: if_splits)

lemma hash_set_correct:
  assumes inv: "hash_inv m"
  shows "\<exists>r m' b'. hash_set ok (Some m) k v = Some (r, Some m') \<and> hash_struct m' b' \<and>
     hash_map m' = (hash_map m)(k \<mapsto> v) \<and> hfunc m' = hfunc m \<and> (r = 0 \<or> r = - 1) \<and>
     (r = 0 \<longrightarrow> hash_inv m') \<and> (ok \<and> length (table m) < 2 ^ 62 \<longrightarrow> r = 0)"
proof -
  obtain b where b: "3 \<le> b" "hash_struct m b" "3 * fill m < 2 * 2 ^ b"
    using inv by (auto simp: hash_inv_def)
  have b62: "b < 62" if "length (table m) < 2 ^ 62"
    using b(2) that by (auto simp: hash_struct_def intro: power_less_imp_less_exp [of "2 :: nat"])
  have p8: "(8 :: int) \<le> 2 ^ b" using power_increasing [OF b(1), of "2 :: int"] by simp
  obtain i where i: "hash_lookup m k (hfunc m k) = Some i" "i < length (table m)"
    "reachable_slot m k i"
    "if hash_map m k = None then mode (table m ! i) \<noteq> SL_ACTIVE else holds m k i"
    using hash_lookup_correct [OF b(2)] by blast
  show ?thesis
  proof (cases "hash_map m k")
    case (Some w)
    let ?m = "put_slot m i ((table m ! i)\<lparr>value := v\<rparr>)"
    have "holds m k i" using Some i(4) by simp
    then have "hash_set ok (Some m) k v = Some (0, Some ?m)"
      "hash_struct ?m b" "hash_map ?m = (hash_map m)(k \<mapsto> v)"
      using i(1) overwrite_value [OF b(2), of k i v] by (simp_all add: hash_set_def holds_def)
    moreover have "hash_inv ?m" "hfunc ?m = hfunc m"
      using b calculation(2) by (auto simp: hash_inv_def put_slot_def)
    ultimately show ?thesis by auto
  next
    case None
    define s where "s = \<lparr>key = Some k, value = v, hash = hfunc m k, mode = SL_ACTIVE\<rparr>"
    define f where "f = fill m + of_bool (mode (table m ! i) = SL_EMPTY)"
    define m1 where "m1 = with_slot m i s f (count m + 1)"
    have na: "mode (table m ! i) \<noteq> SL_ACTIVE" using None i(4) by simp
    have f: "f < 2 ^ b" "3 * (f - 1) < 2 * 2 ^ b" using b(3) p8 by (auto simp: f_def)
    have m1: "hash_struct m1 b" "hash_map m1 = (hash_map m)(k \<mapsto> v)"
      using insert_new [OF b(2) None i(2) na i(3) s_def f_def f(1) refl] by (auto simp: m1_def)
    have "3 * (fill m1 - 1) < 2 * 2 ^ b" using f(2) by (simp add: m1_def)
    then obtain r m' b' where u: "hash_update ok m1 = Some (r, m')" "hash_struct m' b'" "3 \<le> b'"
      "hash_map m' = hash_map m1" "hfunc m' = hfunc m1" "r = 0 \<or> r = - 1"
      "r = 0 \<longrightarrow> 3 * fill m' < 2 * 2 ^ b'" "ok \<and> b < 62 \<longrightarrow> r = 0"
      using hash_update_correct [OF m1(1) b(1)] by blast
    have "(put_slot m i s)\<lparr>fill := (if mode (table m ! i) = SL_EMPTY then fill m + 1 else fill m),
        count := count m + 1\<rparr> = m1"
      by (simp add: m1_def with_slot_def f_def)
    then have "hash_set ok (Some m) k v = Some (r, Some m')"
      using i(1) na u(1) by (simp add: hash_set_def flip: s_def)
    moreover have "hfunc m' = hfunc m" using u(5) by (simp add: m1_def)
    ultimately show ?thesis using u m1(2) b62 by (auto simp: hash_inv_def)
  qed
qed

lemma hash_del_correct:
  assumes inv: "hash_inv m"
  shows "\<exists>r m' b'. hash_del ok (Some m) k = Some (r, Some m') \<and> hash_struct m' b' \<and>
     hash_map m' = (hash_map m)(k := None) \<and> hfunc m' = hfunc m \<and> (r = 0 \<or> r = - 1) \<and>
     (r = 0 \<longrightarrow> hash_inv m') \<and> (ok \<and> length (table m) < 2 ^ 62 \<longrightarrow> r = 0)"
proof -
  obtain b where b: "3 \<le> b" "hash_struct m b" "3 * fill m < 2 * 2 ^ b"
    using inv by (auto simp: hash_inv_def)
  have b62: "b < 62" if "length (table m) < 2 ^ 62"
    using b(2) that by (auto simp: hash_struct_def intro: power_less_imp_less_exp [of "2 :: nat"])
  obtain i where i: "hash_lookup m k (hfunc m k) = Some i" "i < length (table m)"
    "if hash_map m k = None then mode (table m ! i) \<noteq> SL_ACTIVE else holds m k i"
    using hash_lookup_correct [OF b(2)] by blast
  show ?thesis
  proof (cases "hash_map m k")
    case None
    then have "hash_del ok (Some m) k = Some (0, Some m)" "(hash_map m)(k := None) = hash_map m"
      using i by (auto simp: hash_del_def)
    then show ?thesis using b inv by auto
  next
    case (Some w)
    define s :: "('a, 'b) hash_slot" where
      "s = \<lparr>key = None, value = None, hash = 0, mode = SL_DELETED\<rparr>"
    define m1 where "m1 = with_slot m i s (fill m) (count m - 1)"
    have hd: "holds m k i" using Some i(3) by simp
    note m1 = delete_slot [OF b(2) hd s_def, folded m1_def]
    have "3 * (fill m1 - 1) < 2 * 2 ^ b" using b(3) by (simp add: m1_def)
    then obtain r m' b' where u: "hash_update ok m1 = Some (r, m')" "hash_struct m' b'" "3 \<le> b'"
      "hash_map m' = hash_map m1" "hfunc m' = hfunc m1" "r = 0 \<or> r = - 1"
      "r = 0 \<longrightarrow> 3 * fill m' < 2 * 2 ^ b'" "ok \<and> b < 62 \<longrightarrow> r = 0"
      using hash_update_correct [OF _ b(1), of m1 ok] m1 by blast
    have "(put_slot m i s)\<lparr>count := count m - 1\<rparr> = m1"
      by (simp add: m1_def with_slot_def put_slot_def)
    then have "hash_del ok (Some m) k = Some (r, Some m')"
      using i(1) hd u(1) by (simp add: hash_del_def holds_def flip: s_def)
    moreover have "hfunc m' = hfunc m" using u(5) by (simp add: m1_def)
    ultimately show ?thesis using u m1 b62 by (auto simp: hash_inv_def)
  qed
qed

text \<open>A table whose slots are all in use and that lacks the key is searched forever.\<close>

definition no_match :: "('k, 'v) hash_t \<Rightarrow> 'k \<Rightarrow> bool" where
  "no_match m k \<longleftrightarrow> (\<forall>s \<in> set (table m). mode s \<noteq> SL_EMPTY \<and> key s \<noteq> Some k) \<and>
     (\<forall>x y. cmp m x y \<longleftrightarrow> x = y)"

lemma hash_probe_diverges:
  "hash_probe m k h index perturb f = Some i \<Longrightarrow> \<not> no_match m k"
proof (induction m k h index perturb f i rule: hash_probe.raw_induct [rotated, consumes 1])
  case (1 probe m k h index perturb f r)
  let ?i = "slot_index m index"
  show ?case
  proof
    assume nm: "no_match m k"
    have slot: "?i < length (table m) \<Longrightarrow> table m ! ?i \<in> set (table m)" by simp
    have "probe m k h (5 * index + perturb + 1) (drop_bit 5 perturb)
        (if mode (table m ! ?i) = SL_DELETED \<and> f = None then Some ?i else f) = Some r"
      using 1(2) slot nm unfolding no_match_def
      by (auto simp: Let_def split: if_splits option.splits)
    from 1(1) [OF this] nm show False ..
  qed
qed

section \<open>The interface of a map\<close>

text \<open>
  What a client of the table relies on: \<open>abs s\<close> is the map the state \<open>s\<close> stands for.  An
  update returns \<open>0\<close>, or an error when memory runs out; it has changed the map in both cases,
  and after \<open>0\<close> the invariant holds again.  The boolean is the outcome of the allocation the
  update may make.
\<close>

datatype ('k, 'w) map_op = SetOp bool 'k 'w | DelOp bool 'k

primrec map_effect :: "('k, 'w) map_op \<Rightarrow> ('k \<rightharpoonup> 'w) \<Rightarrow> ('k \<rightharpoonup> 'w)" where
  "map_effect (SetOp ok k v) f = f(k \<mapsto> v)"
| "map_effect (DelOp ok k) f = f(k := None)"

fun run_ops ::
    "(bool \<Rightarrow> 's \<Rightarrow> 'k \<Rightarrow> 'w \<Rightarrow> (int \<times> 's) option) \<Rightarrow> (bool \<Rightarrow> 's \<Rightarrow> 'k \<Rightarrow> (int \<times> 's) option) \<Rightarrow>
     ('k, 'w) map_op list \<Rightarrow> 's \<Rightarrow> (int \<times> 's) option" where
  "run_ops put del [] s = Some (0, s)"
| "run_ops put del (op # ops) s =
     do {
       (r, s') \<leftarrow> (case op of SetOp ok k v \<Rightarrow> put ok s k v | DelOp ok k \<Rightarrow> del ok s k);
       if r = 0 then run_ops put del ops s' else Some (r, s')
     }"

locale map_impl =
  fixes inv :: "'s \<Rightarrow> bool"
    and abs :: "'s \<Rightarrow> 'k \<rightharpoonup> 'w"
    and get :: "'s \<Rightarrow> 'k \<Rightarrow> 'w \<Rightarrow> 'w option"
    and isset :: "'s \<Rightarrow> 'k \<Rightarrow> bool option"
    and put :: "bool \<Rightarrow> 's \<Rightarrow> 'k \<Rightarrow> 'w \<Rightarrow> (int \<times> 's) option"
    and del :: "bool \<Rightarrow> 's \<Rightarrow> 'k \<Rightarrow> (int \<times> 's) option"
  assumes get_law: "inv s \<Longrightarrow> get s k d = Some (case abs s k of None \<Rightarrow> d | Some v \<Rightarrow> v)"
    and isset_law: "inv s \<Longrightarrow> isset s k = Some (abs s k \<noteq> None)"
    and put_law: "inv s \<Longrightarrow> \<exists>r s'. put ok s k v = Some (r, s') \<and> abs s' = (abs s)(k \<mapsto> v) \<and>
      (r = 0 \<longrightarrow> inv s')"
    and del_law: "inv s \<Longrightarrow> \<exists>r s'. del ok s k = Some (r, s') \<and> abs s' = (abs s)(k := None) \<and>
      (r = 0 \<longrightarrow> inv s')"
begin

lemma op_law:
  assumes "inv s"
  shows "\<exists>r s'. (case op of SetOp ok k v \<Rightarrow> put ok s k v | DelOp ok k \<Rightarrow> del ok s k) = Some (r, s') \<and>
    abs s' = map_effect op (abs s) \<and> (r = 0 \<longrightarrow> inv s')"
  using put_law [OF assms] del_law [OF assms] by (cases op) auto

lemma run_ops_law:
  "inv s \<Longrightarrow> \<exists>r s'. run_ops put del ops s = Some (r, s') \<and>
     (r = 0 \<longrightarrow> inv s' \<and> abs s' = fold map_effect ops (abs s))"
proof (induction ops arbitrary: s)
  case Nil
  then show ?case by simp
next
  case (Cons op ops)
  obtain r s' where "(case op of SetOp ok k v \<Rightarrow> put ok s k v | DelOp ok k \<Rightarrow> del ok s k) = Some (r, s')"
    "abs s' = map_effect op (abs s)" "r = 0 \<longrightarrow> inv s'"
    using op_law [OF Cons.prems] by blast
  then show ?case using Cons.IH [of s'] by (cases "r = 0") auto
qed

lemma observe_after_ops:
  assumes "inv s"
  shows "\<exists>r s'. run_ops put del ops s = Some (r, s') \<and>
     (r = 0 \<longrightarrow> (\<forall>k d. get s' k d =
         Some (case fold map_effect ops (abs s) k of None \<Rightarrow> d | Some v \<Rightarrow> v) \<and>
         isset s' k = Some (fold map_effect ops (abs s) k \<noteq> None)))"
  using run_ops_law [OF assms, of ops] get_law isset_law by force

end

definition hash_ok :: "('k, 'v) hash_t option \<Rightarrow> bool" where
  "hash_ok mo \<longleftrightarrow> (\<exists>m. mo = Some m \<and> hash_inv m)"

interpretation hash_impl: map_impl hash_ok "\<lambda>mo. hash_map (the mo)"
  hash_get hash_isset hash_set hash_del
proof
  fix mo :: "('k, 'v) hash_t option" and k d v ok
  assume "hash_ok mo"
  then obtain m b where m: "mo = Some m" "hash_inv m" "hash_struct m b"
    by (auto simp: hash_ok_def hash_inv_def)
  show "hash_get mo k d = Some (case hash_map (the mo) k of None \<Rightarrow> d | Some v \<Rightarrow> v)"
    "hash_isset mo k = Some (hash_map (the mo) k \<noteq> None)"
    using hash_get_correct [OF m(3)] hash_isset_correct [OF m(3)] m(1) by auto
  show "\<exists>r s'. hash_set ok mo k v = Some (r, s') \<and>
      hash_map (the s') = (hash_map (the mo))(k \<mapsto> v) \<and> (r = 0 \<longrightarrow> hash_ok s')"
    using hash_set_correct [OF m(2), of ok k v] unfolding m(1) hash_ok_def by force
  show "\<exists>r s'. hash_del ok mo k = Some (r, s') \<and>
      hash_map (the s') = (hash_map (the mo))(k := None) \<and> (r = 0 \<longrightarrow> hash_ok s')"
    using hash_del_correct [OF m(2), of ok k] unfolding m(1) hash_ok_def by force
qed

lemma hash_init_correct:
  assumes "hash_init ok m hf cm = (0, m')" "\<forall>x y. cm x y \<longleftrightarrow> x = y"
  shows "hash_inv m' \<and> hash_map m' = Map.empty \<and> hfunc m' = hf"
proof -
  have m': "m' = m\<lparr>fill := 0, count := 0, mask := 2 ^ 3 - 1,
      table := replicate (2 ^ 3) empty_slot, hfunc := hf, cmp := cm\<rparr>"
    using assms(1)
    by (auto simp: hash_init_def hash_initialize_def HASH_MINSIZE_def split: if_splits)
  have h: "\<not> holds m' x i" for x i by (auto simp: holds_def m' empty_slot_def)
  have "hash_struct m' 3"
    using assms(2) h by (auto simp: hash_struct_def m' empty_slot_def)
  moreover have "hash_map m' = Map.empty"
    using hash_map_None_iff [OF calculation] h by auto
  ultimately show ?thesis by (auto simp: hash_inv_def m')
qed

section \<open>Properties\<close>

text \<open>
  C8.  A table made by \<open>hash_init\<close> with a comparison that decides equality behaves as a finite
  map: after any sequence of \<open>hash_set\<close> and \<open>hash_del\<close> calls that all return \<open>0\<close>, whatever the
  resizings and whatever the hash function, \<open>hash_get\<close> and \<open>hash_isset\<close> answer what the map
  updated in the same way answers.  Every call returns.
\<close>

theorem hash_table_refines_map:
  assumes "hash_init True m0 hf cm = (0, m)" "\<forall>x y. cm x y \<longleftrightarrow> x = y"
  shows "\<exists>r mo. run_ops hash_set hash_del ops (Some m) = Some (r, mo) \<and>
     (r = 0 \<longrightarrow> (\<forall>k d. hash_get mo k d =
         Some (case fold map_effect ops Map.empty k of None \<Rightarrow> d | Some v \<Rightarrow> v) \<and>
         hash_isset mo k = Some (fold map_effect ops Map.empty k \<noteq> None)))"
proof -
  have "hash_ok (Some m)" "hash_map m = Map.empty"
    using hash_init_correct [OF assms] by (auto simp: hash_ok_def)
  then show ?thesis using hash_impl.observe_after_ops [of "Some m" ops] by simp
qed

theorem hash_table_refines_map_witness:
  "\<exists>m. hash_init_direct True \<lparr>fill = 0, count = 0, mask = 0, table = [],
          hfunc = (\<lambda>_. 0), cmp = (\<lambda>_ _. False)\<rparr> = (0, m) \<and>
     (\<exists>r mo. run_ops hash_set hash_del [SetOp True 7 (Some (1 :: nat)), DelOp True 7] (Some m) =
         Some (r, mo) \<and> (r = 0 \<longrightarrow> hash_isset mo 7 = Some False))"
proof -
  let ?m0 = "\<lparr>fill = 0, count = 0, mask = 0, table = [],
          hfunc = (\<lambda>_. 0), cmp = (\<lambda>_ _. False)\<rparr> :: (u64, nat) hash_t"
  obtain m where m: "hash_init True ?m0 hash_direct_hfunc hash_direct_cmp = (0, m)"
    by (auto simp: hash_init_def hash_initialize_def)
  have "\<forall>x y. hash_direct_cmp x y \<longleftrightarrow> x = y" by (simp add: hash_direct_cmp_def)
  from hash_table_refines_map [OF m this, of "[SetOp True 7 (Some 1), DelOp True 7]"] m
  show ?thesis by (auto simp: hash_init_direct_def)
qed

text \<open>
  \<open>hash_lookup\<close> ends on every table in which a slot is still empty, and the slot it returns
  is the one that holds the key when there is one.
\<close>

lemma hash_lookup_total:
  assumes "hash_struct m b"
  shows "\<exists>i. hash_lookup m k (hfunc m k) = Some i \<and> i < length (table m) \<and>
     (mode (table m ! i) = SL_ACTIVE \<longleftrightarrow> hash_map m k \<noteq> None) \<and>
     (\<forall>v. hash_map m k = Some v \<longrightarrow> key (table m ! i) = Some k \<and> value (table m ! i) = v)"
proof -
  obtain i where i: "hash_lookup m k (hfunc m k) = Some i" "i < length (table m)"
    "if hash_map m k = None then mode (table m ! i) \<noteq> SL_ACTIVE else holds m k i"
    using hash_lookup_correct [OF assms, of k] by auto
  have "key (table m ! i) = Some k \<and> value (table m ! i) = v" if "hash_map m k = Some v" for v
  proof -
    from that obtain j where j: "holds m k j" "value (table m ! j) = v"
      unfolding map_of_entries [OF assms] by blast
    have h: "holds m k i" using i(3) that by simp
    then have "i = j" using assms j(1) unfolding hash_struct_def by blast
    then show ?thesis using h j(2) by (simp add: holds_def)
  qed
  then show ?thesis using i by (auto simp: holds_def split: if_splits)
qed

text \<open>
  A table without an empty slot is searched forever for a key it does not hold.
  \<open>hash_set\<close> inserts before it tries to grow and keeps the insertion when the allocation fails,
  so enough failed allocations lead to such a table.
\<close>

lemma hash_lookup_full_table_diverges:
  assumes "\<forall>s \<in> set (table m). mode s \<noteq> SL_EMPTY" "\<forall>s \<in> set (table m). key s \<noteq> Some k"
    and "\<forall>x y. cmp m x y \<longleftrightarrow> x = y"
  shows "hash_lookup m k h = None"
  using assms hash_probe_diverges [of m k h] unfolding hash_lookup_def no_match_def
  by (cases "hash_probe m k h (h AND mask m) h None") blast+

end
