(* ===== verification/Frame_Alloc.thy ===== *)
theory Frame_Alloc
  imports Prelude
begin

unbundle bit_operations_syntax

text \<open>
  The physical memory and its frame allocator (\<open>src/kernel/memory/frame_dist.c\<close>), and the
  \<open>sbrk\<close> of the kernel heap (\<open>src/kernel/memory/mem.c\<close>).  Memory is read and written in double
  words: \<open>mem a\<close> holds the eight bytes from the address \<open>a\<close> on, where the code uses multiples of
  eight only.  The linker symbols \<open>_free_memory_start\<close>, \<open>_memory_end\<close>, \<open>_heap_start\<close> and
  \<open>_heap_end\<close> are fields of the state, since the linker script chooses them.

  The free frames form a linked list through their own first double words; the list ends in a
  frame that holds \<open>0\<close> and that is never handed out.  The theory shows that frames in use and
  free frames never overlap, whatever the sequence of operations.
\<close>

section \<open>The code\<close>

record memory =
  mem :: "u64 \<Rightarrow> u64"
  mem_ptr :: u64
  free_memory_start :: u64
  memory_end :: u64
  curptr :: u64
  heap_end :: u64

definition FRAME_SIZE :: u64 where
  "FRAME_SIZE = 4096"

partial_function (option) init_frames_loop ::
    "u64 \<Rightarrow> (u64 \<Rightarrow> u64) \<Rightarrow> u64 \<Rightarrow> ((u64 \<Rightarrow> u64) \<times> u64) option" where
  "init_frames_loop stop m cur =
     (if cur + FRAME_SIZE < stop
      then init_frames_loop stop (m(cur := cur + FRAME_SIZE)) (cur + FRAME_SIZE)
      else Some (m, cur))"

definition init_frames :: "memory \<Rightarrow> memory option" where
  "init_frames s =
     do {
       (m, cur) \<leftarrow> init_frames_loop (memory_end s) (mem s) (free_memory_start s);
       let m' = m(cur := 0);
       if cur < memory_end s \<and> cur + FRAME_SIZE \<ge> memory_end s \<and> m' cur = 0
       then Some (s\<lparr>mem := m', mem_ptr := free_memory_start s\<rparr>) else None
     }"

definition get_frame :: "memory \<Rightarrow> u64 option \<times> memory" where
  "get_frame s =
     (if mem s (mem_ptr s) = 0 then (None, s)
      else (Some (mem_ptr s), s\<lparr>mem_ptr := mem s (mem_ptr s)\<rparr>))"

definition release_frame :: "u64 \<Rightarrow> memory \<Rightarrow> memory" where
  "release_frame frame s =
     (if frame < free_memory_start s \<or> frame > memory_end s then s
      else if frame AND 0xFFF \<noteq> 0 then s
      else s\<lparr>mem := (mem s)(frame := mem_ptr s), mem_ptr := frame\<rparr>)"

text \<open>\<open>sbrk\<close> returns \<open>-1\<close>, all ones, when the heap is exhausted.\<close>

definition sbrk :: "int \<Rightarrow> memory \<Rightarrow> u64 \<times> memory" where
  "sbrk diff s =
     (let c = curptr s + word_of_int diff in
      if c < curptr s \<or> c > heap_end s then (- 1, s) else (curptr s, s\<lparr>curptr := c\<rparr>))"

section \<open>The free list\<close>

text \<open>\<open>chain m p fs z\<close>: the frames \<open>fs\<close> are linked from \<open>p\<close> on, and the last one leads to \<open>z\<close>.\<close>

fun chain :: "(u64 \<Rightarrow> u64) \<Rightarrow> u64 \<Rightarrow> u64 list \<Rightarrow> u64 \<Rightarrow> bool" where
  "chain m p [] z \<longleftrightarrow> p = z \<and> m z = 0"
| "chain m p (f # fs) z \<longleftrightarrow> p = f \<and> m f \<noteq> 0 \<and> chain m (m f) fs z"

lemma chain_cong:
  "\<forall>a \<in> set (fs @ [z]). m' a = m a \<Longrightarrow> chain m' p fs z = chain m p fs z"
  by (induction fs arbitrary: p) auto

lemma chain_upd: "a \<notin> set (fs @ [z]) \<Longrightarrow> chain (m(a := v)) p fs z = chain m p fs z"
  by (rule chain_cong) auto

definition frame_addr :: "memory \<Rightarrow> nat \<Rightarrow> u64" where
  "frame_addr s n = free_memory_start s + of_nat n * FRAME_SIZE"

text \<open>
  What the linker script provides: the free memory starts at a frame boundary above \<open>0\<close>, and
  consists of \<open>N\<close> frames, the last one possibly cut short by \<open>_memory_end\<close>.
\<close>

definition layout :: "memory \<Rightarrow> nat \<Rightarrow> bool" where
  "layout s N \<longleftrightarrow> 0 < N \<and> 0 < unat (free_memory_start s) \<and>
     4096 dvd unat (free_memory_start s) \<and>
     unat (free_memory_start s) + 4096 * (N - 1) < unat (memory_end s) \<and>
     unat (memory_end s) \<le> unat (free_memory_start s) + 4096 * N \<and>
     unat (free_memory_start s) + 4096 * N < 2 ^ 64"

lemma unat_frame_addr:
  assumes "layout s N" "n \<le> N"
  shows "unat (frame_addr s n) = unat (free_memory_start s) + 4096 * n"
proof -
  have "4096 * n \<le> 4096 * N" using assms by simp
  then have lt: "unat (free_memory_start s) + 4096 * n < 2 ^ 64"
    using assms by (simp add: layout_def)
  have "frame_addr s n = of_nat (unat (free_memory_start s) + 4096 * n)"
    by (simp add: frame_addr_def FRAME_SIZE_def mult.commute)
  then have "unat (frame_addr s n) = (unat (free_memory_start s) + 4096 * n) mod 2 ^ LENGTH(64)"
    by (simp only: unat_of_nat)
  with lt show ?thesis by simp
qed

lemma frame_addr_inj: "layout s N \<Longrightarrow> inj_on (frame_addr s) {..N}"
  by (rule inj_onI) (metis atMost_iff unat_frame_addr add_left_cancel mult_cancel1 zero_neq_numeral)

lemma frame_addr_Suc: "frame_addr s n + FRAME_SIZE = frame_addr s (Suc n)"
  by (simp add: frame_addr_def algebra_simps)

lemma frame_addr_in_range:
  assumes "layout s N" "n < N"
  shows "free_memory_start s \<le> frame_addr s n" "frame_addr s n < memory_end s"
    and "frame_addr s n AND 0xFFF = 0" "frame_addr s n \<noteq> 0"
proof -
  have u: "unat (frame_addr s n) = unat (free_memory_start s) + 4096 * n"
    using assms by (intro unat_frame_addr) auto
  have "4096 * n \<le> 4096 * (N - 1)" using assms(2) by simp
  then show "frame_addr s n < memory_end s" "free_memory_start s \<le> frame_addr s n"
    using assms u by (auto simp: word_less_nat_alt word_le_nat_alt layout_def)
  show "frame_addr s n \<noteq> 0" using assms u by (auto simp: layout_def)
  have "unat (take_bit 12 (frame_addr s n)) = take_bit 12 (unat (frame_addr s n))"
    by (simp only: unsigned_take_bit_eq)
  also have "\<dots> = 0" using assms u by (auto simp: take_bit_eq_mod layout_def)
  finally show "frame_addr s n AND 0xFFF = 0"
    using unat_eq_zero [of "take_bit 12 (frame_addr s n)"]
    by (simp add: take_bit_eq_mask mask_eq_exp_minus_1)
qed

lemma init_loop:
  assumes "layout s N" "n < N"
  shows "init_frames_loop (memory_end s) m (frame_addr s n) =
    Some (\<lambda>a. if a \<in> frame_addr s ` {n..<N - 1} then a + FRAME_SIZE else m a, frame_addr s (N - 1))"
  using assms(2)
proof (induction "N - 1 - n" arbitrary: n m)
  case 0
  then have n: "n = N - 1" by simp
  have "\<not> frame_addr s (Suc (N - 1)) < memory_end s"
    using assms unat_frame_addr [OF assms(1), of N]
    by (auto simp: word_less_nat_alt layout_def)
  then show ?case
    by (subst init_frames_loop.simps) (simp add: frame_addr_Suc n)
next
  case (Suc d)
  then have n: "Suc n < N" by simp
  have lt: "frame_addr s (Suc n) < memory_end s" using frame_addr_in_range [OF assms(1) n] by simp
  have "{n..<N - 1} = insert n {Suc n..<N - 1}" using n by auto
  then have eq: "(\<lambda>a. if a \<in> frame_addr s ` {Suc n..<N - 1} then a + FRAME_SIZE
      else (m(frame_addr s n := frame_addr s (Suc n))) a) =
    (\<lambda>a. if a \<in> frame_addr s ` {n..<N - 1} then a + FRAME_SIZE else m a)"
    by (auto simp: fun_eq_iff frame_addr_Suc)
  have "d = N - 1 - Suc n" using Suc(2) n by simp
  note IH = Suc(1) [OF this n, of "m(frame_addr s n := frame_addr s (Suc n))", unfolded eq]
  show ?case
    by (subst init_frames_loop.simps) (simp add: frame_addr_Suc lt IH)
qed

lemma chain_frames:
  assumes "layout s N" "n < N" "\<forall>i \<in> {n..<N - 1}. m (frame_addr s i) = frame_addr s (Suc i)"
    and "m (frame_addr s (N - 1)) = 0"
  shows "chain m (frame_addr s n) (map (frame_addr s) [n..<N - 1]) (frame_addr s (N - 1))"
  using assms(2,3)
proof (induction "N - 1 - n" arbitrary: n)
  case 0
  then have "n = N - 1" by simp
  then show ?case using assms(4) by simp
next
  case (Suc d)
  then have n: "n < N - 1" "Suc n < N" by auto
  have "frame_addr s (Suc n) \<noteq> 0" by (rule frame_addr_in_range(4) [OF assms(1) n(2)])
  moreover have "chain m (frame_addr s (Suc n)) (map (frame_addr s) [Suc n..<N - 1]) (frame_addr s (N - 1))"
    using Suc n by (intro Suc.hyps(1)) auto
  ultimately show ?case using Suc.prems(2) n by (simp add: upt_conv_Cons)
qed

section \<open>The allocator and its clients as a transition system\<close>

text \<open>
  A state pairs the memory with the set of frames in use.  A client takes a frame, gives back a
  frame it uses, writes into a frame it uses, or writes outside the managed memory.
\<close>

definition in_frame :: "u64 \<Rightarrow> u64 \<Rightarrow> bool" where
  "in_frame f a \<longleftrightarrow> unat f \<le> unat a \<and> unat a < unat f + 4096"

inductive falloc_step :: "memory \<times> u64 set \<Rightarrow> memory \<times> u64 set \<Rightarrow> bool" where
  take: "get_frame s = (Some f, s') \<Longrightarrow> falloc_step (s, U) (s', insert f U)"
| exhausted: "get_frame s = (None, s') \<Longrightarrow> falloc_step (s, U) (s', U)"
| give_back: "f \<in> U \<Longrightarrow> falloc_step (s, U) (release_frame f s, U - {f})"
| write_used: "f \<in> U \<Longrightarrow> in_frame f a \<Longrightarrow>
    falloc_step (s, U) (s\<lparr>mem := (mem s)(a := v)\<rparr>, U)"
| write_below: "a < free_memory_start s \<Longrightarrow>
    falloc_step (s, U) (s\<lparr>mem := (mem s)(a := v)\<rparr>, U)"

definition falloc_inv :: "nat \<Rightarrow> memory \<times> u64 set \<Rightarrow> bool" where
  "falloc_inv N st \<longleftrightarrow> (case st of (s, U) \<Rightarrow> layout s N \<and>
     (\<exists>fs z. chain (mem s) (mem_ptr s) fs z \<and> distinct (fs @ [z]) \<and>
        set (fs @ [z]) \<inter> U = {} \<and> set (fs @ [z]) \<union> U = frame_addr s ` {..<N}))"

lemma in_frame_first:
  assumes "layout s N" "i < N" "j < N" "in_frame (frame_addr s i) (frame_addr s j)"
  shows "i = j"
proof -
  have "4096 * i \<le> 4096 * j" "4096 * j < 4096 * i + 4096"
    using assms unat_frame_addr [OF assms(1), of i] unat_frame_addr [OF assms(1), of j]
    by (auto simp: in_frame_def)
  then show ?thesis by simp
qed

lemma falloc_write:
  assumes inv: "falloc_inv N (s, U)"
    and a: "\<And>i. i < N \<Longrightarrow> frame_addr s i \<notin> U \<Longrightarrow> a \<noteq> frame_addr s i"
  shows "falloc_inv N (s\<lparr>mem := (mem s)(a := v)\<rparr>, U)"
proof -
  obtain fs z where c: "layout s N" "chain (mem s) (mem_ptr s) fs z" "distinct (fs @ [z])"
    "set (fs @ [z]) \<inter> U = {}" "set (fs @ [z]) \<union> U = frame_addr s ` {..<N}"
    using inv by (auto simp: falloc_inv_def)
  have "a \<notin> set (fs @ [z])"
  proof
    assume b: "a \<in> set (fs @ [z])"
    then obtain i where i: "i < N" "a = frame_addr s i" using c(5) by blast
    have "a \<notin> U" using b c(4) by blast
    then show False using a [OF i(1)] i(2) by simp
  qed
  then have "chain ((mem s)(a := v)) (mem_ptr s) fs z" using c(2) by (rule chain_upd [THEN iffD2])
  moreover have "layout (s\<lparr>mem := (mem s)(a := v)\<rparr>) N" using c(1) by (simp add: layout_def)
  ultimately show ?thesis using c(3-5)
    by (auto simp: falloc_inv_def frame_addr_def intro!: exI [of _ fs] exI [of _ z])
qed

lemma falloc_step_inv:
  assumes "falloc_step st st'" "falloc_inv N st"
  shows "falloc_inv N st'"
  using assms
proof (induction rule: falloc_step.induct)
  case (take s f s' U)
  then obtain fs z where c: "layout s N" "chain (mem s) (mem_ptr s) fs z" "distinct (fs @ [z])"
    "set (fs @ [z]) \<inter> U = {}" "set (fs @ [z]) \<union> U = frame_addr s ` {..<N}"
    by (auto simp: falloc_inv_def)
  have g: "mem s (mem_ptr s) \<noteq> 0" "f = mem_ptr s" "s' = s\<lparr>mem_ptr := mem s (mem_ptr s)\<rparr>"
    using take.hyps by (auto simp: get_frame_def split: if_splits)
  then obtain gs where fs: "fs = f # gs" using c(2) by (cases fs) auto
  have "chain (mem s') (mem_ptr s') gs z" using c(2) fs g by simp
  moreover have "layout s' N" using c(1) g by (simp add: layout_def)
  moreover have "set (gs @ [z]) \<union> insert f U = frame_addr s' ` {..<N}"
    using c(5) fs g by (auto simp: frame_addr_def)
  moreover have "set (gs @ [z]) \<inter> insert f U = {}" "distinct (gs @ [z])"
    using c(3,4) fs by auto
  ultimately show ?case unfolding falloc_inv_def by blast
next
  case (exhausted s s' U)
  then have "s' = s" by (simp add: get_frame_def split: if_splits)
  then show ?case using exhausted by simp
next
  case (give_back f U s)
  then obtain fs z where c: "layout s N" "chain (mem s) (mem_ptr s) fs z" "distinct (fs @ [z])"
    "set (fs @ [z]) \<inter> U = {}" "set (fs @ [z]) \<union> U = frame_addr s ` {..<N}"
    by (auto simp: falloc_inv_def)
  let ?s = "s\<lparr>mem := (mem s)(f := mem_ptr s), mem_ptr := f\<rparr>"
  obtain i where i: "i < N" "f = frame_addr s i" using c(5) give_back.hyps by blast
  note r = frame_addr_in_range [OF c(1) i(1)]
  have rel: "release_frame f s = ?s"
    using r i by (auto simp: release_frame_def not_less order.strict_implies_order)
  have nf: "f \<notin> set (fs @ [z])" using c(4) give_back.hyps by blast
  have p: "mem_ptr s \<in> set (fs @ [z])" using c(2) by (cases fs) auto
  then obtain j where "j < N" "mem_ptr s = frame_addr s j" using c(5) by blast
  then have "mem_ptr s \<noteq> 0" using frame_addr_in_range(4) [OF c(1)] by simp
  moreover have "chain (mem ?s) (mem_ptr s) fs z"
    using c(2) chain_upd [OF nf, of "mem s" "mem_ptr s" "mem_ptr s"] by simp
  ultimately have "chain (mem ?s) (mem_ptr ?s) (f # fs) z" by simp
  moreover have "layout ?s N" using c(1) by (simp add: layout_def)
  moreover have "set ((f # fs) @ [z]) \<union> (U - {f}) = frame_addr ?s ` {..<N}"
  proof -
    have "frame_addr ?s = frame_addr s" by (rule ext) (simp add: frame_addr_def)
    then show ?thesis using c(5) give_back.hyps by auto
  qed
  moreover have "set ((f # fs) @ [z]) \<inter> (U - {f}) = {}" "distinct ((f # fs) @ [z])"
    using c(3,4) nf by auto
  ultimately show ?case unfolding rel falloc_inv_def prod.case by blast
next
  case (write_used f U a s v)
  have "a \<noteq> frame_addr s i" if "i < N" "frame_addr s i \<notin> U" for i
  proof
    assume eq: "a = frame_addr s i"
    obtain j where j: "j < N" "f = frame_addr s j" "layout s N"
      using write_used by (auto simp: falloc_inv_def)
    then have "j = i" using in_frame_first [OF j(3,1) that(1)] write_used.hyps eq by simp
    then show False using that j write_used.hyps by simp
  qed
  then show ?case using write_used.prems by (rule_tac falloc_write)
next
  case (write_below a s U v)
  have "a \<noteq> frame_addr s i" if "i < N" for i
    using write_below frame_addr_in_range(1) [of s N i] that by (auto simp: falloc_inv_def)
  then show ?case using write_below.prems by (rule_tac falloc_write)
qed

lemma falloc_reachable_inv:
  "falloc_step\<^sup>*\<^sup>* st st' \<Longrightarrow> falloc_inv N st \<Longrightarrow> falloc_inv N st'"
  by (induction rule: rtranclp_induct) (auto intro: falloc_step_inv)

lemma init_frames_inv:
  assumes "layout s N"
  shows "\<exists>s'. init_frames s = Some s' \<and> falloc_inv N (s', {}) \<and>
    free_memory_start s' = free_memory_start s \<and> memory_end s' = memory_end s"
proof -
  have N: "0 < N" using assms by (simp add: layout_def)
  define m where "m = (\<lambda>a. if a \<in> frame_addr s ` {0..<N - 1} then a + FRAME_SIZE else mem s a)"
  define z where "z = frame_addr s (N - 1)"
  define s' where "s' = s\<lparr>mem := m(z := 0), mem_ptr := free_memory_start s\<rparr>"
  have f0: "frame_addr s 0 = free_memory_start s" by (simp add: frame_addr_def)
  have loop: "init_frames_loop (memory_end s) (mem s) (free_memory_start s) = Some (m, z)"
    using init_loop [OF assms N, of "mem s"] by (simp add: m_def z_def f0)
  have zr: "z < memory_end s" using frame_addr_in_range(2) [OF assms] N by (simp add: z_def)
  have "memory_end s \<le> z + FRAME_SIZE"
    using assms unat_frame_addr [OF assms, of N] N
    by (simp add: z_def frame_addr_Suc word_le_nat_alt layout_def)
  then have ini: "init_frames s = Some s'" using loop zr by (simp add: init_frames_def s'_def)
  have inj: "inj_on (frame_addr s) {..N}" by (rule frame_addr_inj [OF assms])
  have ne: "frame_addr s i \<noteq> z" if "i < N - 1" for i
    using inj_onD [OF inj, of i "N - 1"] that unfolding z_def by fastforce
  have "\<forall>i \<in> {0..<N - 1}. (m(z := 0)) (frame_addr s i) = frame_addr s (Suc i)"
    using ne by (auto simp: m_def frame_addr_Suc)
  then have "chain (m(z := 0)) (free_memory_start s) (map (frame_addr s) [0..<N - 1]) z"
    using chain_frames [OF assms N, of "m(z := 0)"] unfolding z_def [symmetric] f0 by simp
  moreover have "distinct (map (frame_addr s) [0..<N - 1] @ [z])"
    using ne inj_on_subset [OF inj, of "{0..<N - 1}"] by (fastforce simp: distinct_map)
  moreover have "set (map (frame_addr s) [0..<N - 1] @ [z]) = frame_addr s ` {..<N}"
  proof -
    have "{..<N} = insert (N - 1) {0..<N - 1}" using N by auto
    then show ?thesis by (simp add: z_def)
  qed
  moreover have "layout s' N" "frame_addr s' = frame_addr s"
    using assms by (auto simp: s'_def layout_def frame_addr_def)
  ultimately have "falloc_inv N (s', {})"
    unfolding falloc_inv_def prod.case
    by (intro conjI exI [of _ "map (frame_addr s) [0..<N - 1]"] exI [of _ z]) (simp_all add: s'_def)
  then show ?thesis using ini by (simp add: s'_def)
qed

section \<open>Properties\<close>


definition demo_memory :: memory where
  "demo_memory = \<lparr>mem = (\<lambda>_. 0), mem_ptr = 0, free_memory_start = 0x1000, memory_end = 0x4000,
     curptr = 0, heap_end = 0\<rparr>"


text \<open>
  \<open>get_frame\<close> and \<open>release_frame\<close> are last in, first out: a frame of the free memory that is
  released is the next one handed out, and the allocator's pointer is then back where it was.
\<close>

lemma release_get_roundtrip:
  assumes "free_memory_start s \<le> f" "f \<le> memory_end s" "f AND 0xFFF = 0" "mem_ptr s \<noteq> 0"
  shows "get_frame (release_frame f s) = (Some f, s\<lparr>mem := (mem s)(f := mem_ptr s)\<rparr>)"
  using assms by (auto simp: release_frame_def get_frame_def)

end
