(* ===== verification/Page_Table.thy ===== *)
theory Page_Table
  imports Frame_Alloc
begin

unbundle bit_operations_syntax

text \<open>
  Page table entries, page tables and the kernel's page directory
  (\<open>src/kernel/memory/pages.c\<close>, \<open>src/kernel/memory/virtual_memory.c\<close>).  A \<open>page_table_entry\<close> is the
  double word its packed bit fields make up; a page table is the address of its frame, and entry
  \<open>i\<close> of it is the double word at \<open>8 * i\<close> from there.  The theory shows that the bit fields do not
  disturb each other, that an entry linked to a frame leads back to it, and what the directory
  maps.
\<close>

section \<open>Bit fields\<close>

definition get_field :: "nat \<Rightarrow> nat \<Rightarrow> u64 \<Rightarrow> u64" where
  "get_field lo len w = take_bit len (drop_bit lo w)"

definition set_field :: "nat \<Rightarrow> nat \<Rightarrow> u64 \<Rightarrow> u64 \<Rightarrow> u64" where
  "set_field lo len v w =
     (w AND NOT (push_bit lo (mask len))) OR push_bit lo (take_bit len v)"

lemma get_set_field:
  "lo + len \<le> 64 \<Longrightarrow> get_field lo len (set_field lo len v w) = take_bit len v"
  by (rule bit_eqI) (auto simp: get_field_def set_field_def bit_simps)

lemma get_set_field_other:
  "lo' + len' \<le> lo \<or> lo + len \<le> lo' \<Longrightarrow> get_field lo' len' (set_field lo len v w) = get_field lo' len' w"
  by (rule bit_eqI) (auto simp: get_field_def set_field_def bit_simps dest: bit_imp_le_length)

section \<open>The code\<close>

text \<open>The fields of \<open>struct page_table_entry\<close>, by position and width.\<close>

type_synonym page_table_entry = u64

definition valid :: "page_table_entry \<Rightarrow> u64" where "valid = get_field 0 1"
definition read :: "page_table_entry \<Rightarrow> u64" where "read = get_field 1 1"
definition write_bit :: "page_table_entry \<Rightarrow> u64" where "write_bit = get_field 2 1"
definition exec :: "page_table_entry \<Rightarrow> u64" where "exec = get_field 3 1"
definition resU :: "page_table_entry \<Rightarrow> u64" where "resU = get_field 4 1"
definition resA :: "page_table_entry \<Rightarrow> u64" where "resA = get_field 6 1"
definition resD :: "page_table_entry \<Rightarrow> u64" where "resD = get_field 7 1"
definition ppn0 :: "page_table_entry \<Rightarrow> u64" where "ppn0 = get_field 10 9"
definition ppn1 :: "page_table_entry \<Rightarrow> u64" where "ppn1 = get_field 19 9"
definition ppn2 :: "page_table_entry \<Rightarrow> u64" where "ppn2 = get_field 28 26"
definition reserved :: "page_table_entry \<Rightarrow> u64" where "reserved = get_field 54 7"

lemmas pte_fields = valid_def read_def write_bit_def exec_def resU_def resA_def resD_def
  ppn0_def ppn1_def ppn2_def reserved_def

datatype page_size_t = GIGA | MEGA | KILO

definition set_valid :: "page_table_entry \<Rightarrow> page_table_entry" where
  "set_valid pte =
     set_field 54 7 0 (set_field 7 1 0 (set_field 4 1 0 (set_field 6 1 0 (set_field 0 1 1 pte))))"

definition set_invalid :: "page_table_entry \<Rightarrow> page_table_entry" where
  "set_invalid pte = set_field 0 1 0 pte"

definition check_validity :: "page_table_entry \<Rightarrow> bool" where
  "check_validity pte \<longleftrightarrow>
     valid pte \<noteq> 0 \<and> \<not> (resA pte \<noteq> 0 \<or> resD pte \<noteq> 0 \<or> resU pte \<noteq> 0 \<or> reserved pte \<noteq> 0)"

definition is_leaf :: "page_table_entry \<Rightarrow> bool" where
  "is_leaf pte \<longleftrightarrow> read pte \<noteq> 0 \<or> exec pte \<noteq> 0"

definition set_write :: "page_table_entry \<Rightarrow> bool \<Rightarrow> page_table_entry" where
  "set_write pte b = set_field 2 1 (of_bool b) pte"

definition set_exec :: "page_table_entry \<Rightarrow> bool \<Rightarrow> page_table_entry" where
  "set_exec pte b = set_field 3 1 (of_bool b) pte"

definition set_read :: "page_table_entry \<Rightarrow> bool \<Rightarrow> page_table_entry" where
  "set_read pte b = set_field 1 1 (of_bool b) pte"

definition set_user_mode :: "page_table_entry \<Rightarrow> bool \<Rightarrow> page_table_entry" where
  "set_user_mode pte b = set_field 4 1 (of_bool b) pte"

text \<open>The three setters stop the machine when their \<open>assert\<close> fails.\<close>

definition set_ppn0 :: "page_table_entry \<Rightarrow> 32 word \<Rightarrow> page_table_entry option" where
  "set_ppn0 pte ppn = (if ppn < 0x1FF then Some (set_field 10 9 (ucast ppn) pte) else None)"

definition set_ppn1 :: "page_table_entry \<Rightarrow> 32 word \<Rightarrow> page_table_entry option" where
  "set_ppn1 pte ppn = (if ppn < 0x1FF then Some (set_field 19 9 (ucast ppn) pte) else None)"

definition set_ppn2 :: "page_table_entry \<Rightarrow> 32 word \<Rightarrow> page_table_entry option" where
  "set_ppn2 pte ppn = (if ppn < 0x3FFFFFF then Some (set_field 28 26 (ucast ppn) pte) else None)"

definition link_pte :: "page_table_entry \<Rightarrow> u64 \<Rightarrow> page_table_entry" where
  "link_pte pte address =
     (let a0 = drop_bit 12 address;
          p0 = set_field 10 9 (a0 AND 0x1FF) pte;
          a1 = drop_bit 9 a0;
          p1 = set_field 19 9 (a1 AND 0x1FF) p0;
          a2 = drop_bit 9 a1
      in set_field 28 26 (a2 AND 0x3FFFFFF) p1)"

definition configure_page_entry ::
    "page_table_entry \<Rightarrow> u64 \<Rightarrow> bool \<Rightarrow> bool \<Rightarrow> bool \<Rightarrow> bool \<Rightarrow> page_size_t \<Rightarrow>
     page_table_entry option" where
  "configure_page_entry pte address rd wr ex user_mode page_size =
     (let p = set_user_mode (set_exec (set_write (set_read (set_valid pte) rd) wr) ex) user_mode in
      case page_size of
        GIGA \<Rightarrow> do { p' \<leftarrow> set_ppn0 (link_pte p address) 0; set_ppn1 p' 0 }
      | MEGA \<Rightarrow> set_ppn0 (link_pte p address) 0
      | KILO \<Rightarrow> Some (link_pte p address))"

text \<open>\<open>find_pte_adress\<close> of \<open>process_memory.c\<close>, the inverse of \<open>link_pte\<close>.\<close>

definition find_pte_adress :: "page_table_entry \<Rightarrow> u64" where
  "find_pte_adress pte = ppn2 pte * 0x40000000 + ppn1 pte * 0x200000 + ppn0 pte * 0x1000"

text \<open>The address of entry \<open>i\<close> of a table, and the functions that work on a table in memory.\<close>

definition pte_addr :: "u64 \<Rightarrow> nat \<Rightarrow> u64" where
  "pte_addr tbl i = tbl + 8 * of_nat i"

definition upd_pte ::
    "u64 \<Rightarrow> nat \<Rightarrow> (page_table_entry \<Rightarrow> page_table_entry option) \<Rightarrow> memory \<Rightarrow> memory option" where
  "upd_pte tbl i f s =
     do { p \<leftarrow> f (mem s (pte_addr tbl i)); Some (s\<lparr>mem := (mem s)(pte_addr tbl i := p)\<rparr>) }"

text \<open>\<open>memset\<close> and \<open>memcpy\<close> of a whole frame, double word by double word.\<close>

definition in_page :: "u64 \<Rightarrow> u64 \<Rightarrow> bool" where
  "in_page p a \<longleftrightarrow> a - p < FRAME_SIZE"

definition memset_frame :: "u64 \<Rightarrow> u64 \<Rightarrow> memory \<Rightarrow> memory" where
  "memset_frame p v s = s\<lparr>mem := (\<lambda>a. if in_page p a then v else mem s a)\<rparr>"

definition memcpy_frame :: "u64 \<Rightarrow> u64 \<Rightarrow> memory \<Rightarrow> memory" where
  "memcpy_frame dst src s =
     s\<lparr>mem := (\<lambda>a. if in_page dst a then mem s (src + (a - dst)) else mem s a)\<rparr>"

definition create_page_table :: "memory \<Rightarrow> u64 option \<times> memory" where
  "create_page_table s =
     (case get_frame s of (None, s') \<Rightarrow> (None, s') | (Some p, s') \<Rightarrow> (Some p, memset_frame p 0 s'))"

definition USERSPACE :: nat where "USERSPACE = 1"

text \<open>\<open>virt\<close> is the preprocessor symbol \<open>VIRTMACHINE\<close>.\<close>

definition init_directory :: "bool \<Rightarrow> memory \<Rightarrow> (u64 option \<times> memory) option" where
  "init_directory virt s =
     (case create_page_table s of
        (None, s1) \<Rightarrow> Some (None, s1)
      | (Some d, s1) \<Rightarrow>
          (if \<not> virt then do {
             s2 \<leftarrow> upd_pte d 0 (\<lambda>p. configure_page_entry p 0 True True True False GIGA) s1;
             s3 \<leftarrow> upd_pte d USERSPACE
                    (\<lambda>p. configure_page_entry p 0x40000000 False False False True GIGA) s2;
             s4 \<leftarrow> upd_pte d 2 (\<lambda>p. configure_page_entry p 0x80000000 True True False False GIGA) s3;
             s5 \<leftarrow> upd_pte d 3 (\<lambda>p. configure_page_entry p 0xc0000000 True True False False GIGA) s4;
             Some (Some d, s5) }
           else do {
             s2 \<leftarrow> upd_pte d 0 (\<lambda>p. configure_page_entry p 0 True True True False GIGA) s1;
             s3 \<leftarrow> upd_pte d 2 (\<lambda>p. configure_page_entry p 0x80000000 True True True False GIGA) s2;
             Some (Some d, s3) }))"

text \<open>\<open>set_up_virtual_memory\<close> returns the status, the kernel's page table and the value of \<open>satp\<close>.\<close>

definition set_up_virtual_memory ::
    "bool \<Rightarrow> memory \<Rightarrow> (int \<times> u64 option \<times> u64 option \<times> memory) option" where
  "set_up_virtual_memory virt s =
     do {
       (d, s') \<leftarrow> init_directory virt s;
       Some (case d of
         None \<Rightarrow> (- 1, None, None, s')
       | Some dir \<Rightarrow> (0, Some dir, Some (0x8000000000000000 OR drop_bit 12 dir), s'))
     }"

section \<open>Entries\<close>

lemma mask_fields:
  "(x :: u64) AND 0x1FF = take_bit 9 x" "(x :: u64) AND 0x3FFFFFF = take_bit 26 x"
  by (simp_all add: take_bit_eq_mask mask_eq_exp_minus_1)

lemma link_pte_fields [simp]:
  "ppn0 (link_pte p a) = take_bit 9 (drop_bit 12 a)"
  "ppn1 (link_pte p a) = take_bit 9 (drop_bit 21 a)"
  "ppn2 (link_pte p a) = take_bit 26 (drop_bit 30 a)"
  "valid (link_pte p a) = valid p" "read (link_pte p a) = read p" "write_bit (link_pte p a) = write_bit p"
  "exec (link_pte p a) = exec p" "resU (link_pte p a) = resU p" "resA (link_pte p a) = resA p"
  "resD (link_pte p a) = resD p" "reserved (link_pte p a) = reserved p"
  by (simp_all add: link_pte_def pte_fields get_set_field get_set_field_other mask_fields Let_def)

lemma find_link_pte_eq: "find_pte_adress (link_pte p a) = take_bit 56 a AND NOT (mask 12)"
proof -
  have "ppn2 (link_pte p a) * 0x40000000 = push_bit 30 (take_bit 26 (drop_bit 30 a))"
    "ppn1 (link_pte p a) * 0x200000 = push_bit 21 (take_bit 9 (drop_bit 21 a))"
    "ppn0 (link_pte p a) * 0x1000 = push_bit 12 (take_bit 9 (drop_bit 12 a))"
    by (simp_all add: push_bit_eq_mult)
  then have "find_pte_adress (link_pte p a) =
      push_bit 30 (take_bit 26 (drop_bit 30 a)) + push_bit 21 (take_bit 9 (drop_bit 21 a))
      + push_bit 12 (take_bit 9 (drop_bit 12 a))"
    by (simp only: find_pte_adress_def)
  also have "\<dots> = (push_bit 30 (take_bit 26 (drop_bit 30 a)) OR push_bit 21 (take_bit 9 (drop_bit 21 a)))
      OR push_bit 12 (take_bit 9 (drop_bit 12 a))"
    by (subst disjunctive_add, force simp: bit_simps,
        subst disjunctive_add, force simp: bit_simps, rule refl)
  also have "\<dots> = take_bit 56 a AND NOT (mask 12)"
  proof (rule bit_eqI)
    fix n
    show "bit ((push_bit 30 (take_bit 26 (drop_bit 30 a)) OR push_bit 21 (take_bit 9 (drop_bit 21 a)))
        OR push_bit 12 (take_bit 9 (drop_bit 12 a))) n = bit (take_bit 56 a AND NOT (mask 12)) n"
      by (cases "n < 30") (auto simp: bit_simps)
  qed
  finally show ?thesis .
qed

lemma flag_fields:
  "valid (set_valid p) = 1" "resU (set_valid p) = 0" "resA (set_valid p) = 0"
  "resD (set_valid p) = 0" "reserved (set_valid p) = 0"
  "get_field 0 1 (set_user_mode p b) = get_field 0 1 p"
  by (simp_all add: set_valid_def set_user_mode_def pte_fields get_set_field get_set_field_other)

lemmas set_defs = set_valid_def set_read_def set_write_def set_exec_def set_user_mode_def

definition flags_set :: "page_table_entry \<Rightarrow> bool \<Rightarrow> bool \<Rightarrow> bool \<Rightarrow> bool \<Rightarrow> page_table_entry" where
  "flags_set pte rd wr ex user_mode =
     set_user_mode (set_exec (set_write (set_read (set_valid pte) rd) wr) ex) user_mode"

lemma flags_set_fields [simp]:
  "valid (flags_set p r w x u) = 1" "read (flags_set p r w x u) = of_bool r"
  "write_bit (flags_set p r w x u) = of_bool w" "exec (flags_set p r w x u) = of_bool x"
  "resU (flags_set p r w x u) = of_bool u" "resA (flags_set p r w x u) = 0"
  "resD (flags_set p r w x u) = 0" "reserved (flags_set p r w x u) = 0"
  by (simp_all add: flags_set_def set_defs pte_fields get_set_field get_set_field_other)

lemma configure_KILO: "configure_page_entry p a r w x u KILO = Some (link_pte (flags_set p r w x u) a)"
  by (simp add: configure_page_entry_def flags_set_def)

lemma configure_GIGA:
  "configure_page_entry p a r w x u GIGA =
     Some (set_field 19 9 0 (set_field 10 9 0 (link_pte (flags_set p r w x u) a)))"
  by (simp add: configure_page_entry_def flags_set_def set_ppn0_def set_ppn1_def)

lemma giga_fields [simp]:
  "ppn0 (set_field 19 9 0 (set_field 10 9 0 q)) = 0"
  "ppn1 (set_field 19 9 0 (set_field 10 9 0 q)) = 0"
  "ppn2 (set_field 19 9 0 (set_field 10 9 0 q)) = ppn2 q"
  "valid (set_field 19 9 0 (set_field 10 9 0 q)) = valid q"
  "read (set_field 19 9 0 (set_field 10 9 0 q)) = read q"
  "write_bit (set_field 19 9 0 (set_field 10 9 0 q)) = write_bit q"
  "exec (set_field 19 9 0 (set_field 10 9 0 q)) = exec q"
  "resU (set_field 19 9 0 (set_field 10 9 0 q)) = resU q"
  by (simp_all add: pte_fields get_set_field get_set_field_other)

section \<open>What a directory maps\<close>

text \<open>
  The Sv39 address translation of the RISC-V privileged specification, section 4.3.2: the page
  table walk from the table \<open>tbl\<close> of level \<open>lvl\<close>, for the accesses the leaf entry permits.  The
  result is the physical address and the leaf entry; \<open>None\<close> is a page fault.
\<close>

fun sv39_walk :: "memory \<Rightarrow> nat \<Rightarrow> u64 \<Rightarrow> u64 \<Rightarrow> (u64 \<times> page_table_entry) option" where
  "sv39_walk s lvl tbl va =
     (let pte = mem s (pte_addr tbl (unat (get_field (12 + 9 * lvl) 9 va)));
          off = 12 + 9 * lvl
      in
      if valid pte = 0 \<or> read pte = 0 \<and> write_bit pte = 1 then None
      else if is_leaf pte then
        (if take_bit off (find_pte_adress pte) \<noteq> 0 then None
         else Some (find_pte_adress pte OR take_bit off va, pte))
      else case lvl of 0 \<Rightarrow> None | Suc l \<Rightarrow> sv39_walk s l (find_pte_adress pte) va)"

lemma giga_target:
  assumes "ppn0 p = 0" "ppn1 p = 0"
  shows "find_pte_adress p = push_bit 30 (ppn2 p)"
  using assms by (simp add: find_pte_adress_def push_bit_eq_mult)

lemma walk_giga:
  assumes "mem s (pte_addr d (unat (get_field 30 9 va))) = p" "valid p = 1" "read p = 1"
    and "ppn0 p = 0" "ppn1 p = 0"
  shows "sv39_walk s 2 d va = Some (push_bit 30 (ppn2 p) OR take_bit 30 va, p)"
proof -
  have "take_bit 30 (push_bit 30 (ppn2 p)) = 0" by (rule bit_eqI) (auto simp: bit_simps)
  then show ?thesis using assms by (simp add: giga_target is_leaf_def)
qed

lemma pte_addr_eq_iff:
  "i < 512 \<Longrightarrow> j < 512 \<Longrightarrow> pte_addr d i = pte_addr d j \<longleftrightarrow> i = j"
proof
  assume b: "i < 512" "j < 512" and "pte_addr d i = pte_addr d j"
  then have "unat (of_nat (8 * i) :: u64) = unat (of_nat (8 * j) :: u64)"
    by (simp add: pte_addr_def)
  then have "(8 * i) mod 2 ^ LENGTH(64) = (8 * j) mod 2 ^ LENGTH(64)" by (simp only: unat_of_nat)
  then show "i = j" using b by simp
qed simp

lemma upd_pte_mem:
  assumes "upd_pte d i f s = Some s'"
  shows "\<exists>p. f (mem s (pte_addr d i)) = Some p \<and> mem s' = (mem s)(pte_addr d i := p)"
  using assms by (auto simp: upd_pte_def split: bind_splits)

lemma init_directory_entries:
  assumes "get_frame s = (Some d, s1)"
  shows "\<exists>s'. init_directory virt s = Some (Some d, s') \<and>
     (\<exists>x. mem s' (pte_addr d 0) =
        set_field 19 9 0 (set_field 10 9 0 (link_pte (flags_set x True True True False) 0))) \<and>
     (\<exists>x. mem s' (pte_addr d 2) =
        set_field 19 9 0 (set_field 10 9 0 (link_pte (flags_set x True True virt False) 0x80000000)))"
proof -
  have ne: "pte_addr d 0 \<noteq> pte_addr d 1" "pte_addr d 0 \<noteq> pte_addr d 2"
    "pte_addr d 0 \<noteq> pte_addr d 3" "pte_addr d 2 \<noteq> pte_addr d 3"
    using pte_addr_eq_iff [of 0 1 d] pte_addr_eq_iff [of 0 2 d] pte_addr_eq_iff [of 0 3 d]
      pte_addr_eq_iff [of 2 3 d] by simp_all
  show ?thesis
    by (cases virt)
      (auto simp: init_directory_def create_page_table_def assms upd_pte_def configure_GIGA
        USERSPACE_def ne ne [unfolded One_nat_def])
qed

lemma identity_gigapage:
  assumes "drop_bit 30 va = g" "g = 0 \<or> g = 2"
  shows "get_field 30 9 va = g" "push_bit 30 g OR take_bit 30 va = (va :: u64)"
proof -
  have "take_bit 9 g = g" using assms(2) by auto
  then show "get_field 30 9 va = g" by (simp add: get_field_def assms(1))
  show "push_bit 30 g OR take_bit 30 va = va"
    unfolding assms(1) [symmetric] by (rule bit_eqI) (auto simp: bit_simps)
qed

lemma drop_bit_range:
  "va < 0x40000000 \<Longrightarrow> drop_bit 30 (va :: u64) = 0"
  "0x80000000 \<le> va \<Longrightarrow> va < 0xC0000000 \<Longrightarrow> drop_bit 30 (va :: u64) = 2"
proof -
  have u: "unat (drop_bit 30 va) = unat va div 1073741824" 
    by (simp add: unat_drop_bit_eq) (simp add: drop_bit_eq_div)
  show "drop_bit 30 va = 0" if "va < 0x40000000"
    using u that by (simp add: word_less_nat_alt flip: unat_eq_zero)
  show "drop_bit 30 va = 2" if "0x80000000 \<le> va" "va < 0xC0000000"
  proof -
    have "unat (drop_bit 30 va) = unat (2 :: u64)"
      using u that by (simp add: word_less_nat_alt word_le_nat_alt)
    then show ?thesis by (rule unsigned_word_eqI)
  qed
qed

section \<open>Properties\<close>

text \<open>
  C21.  An entry configured for a 4096-byte page is valid, has exactly the permissions asked for,
  and leads back to the page: \<open>find_pte_adress\<close> inverts \<open>link_pte\<close> on the aligned addresses of the
  56-bit physical address space.  The order of the setters matters: \<open>set_valid\<close> clears the user
  bit that \<open>set_user_mode\<close> sets afterwards.
\<close>

theorem configure_find_roundtrip:
  assumes "a AND 0xFFF = 0" "a < 2 ^ 56"
  shows "\<exists>p'. configure_page_entry p a r w x u KILO = Some p' \<and> find_pte_adress p' = a \<and>
     valid p' = 1 \<and> read p' = of_bool r \<and> write_bit p' = of_bool w \<and> exec p' = of_bool x \<and>
     resU p' = of_bool u \<and> resA p' = 0 \<and> resD p' = 0 \<and> reserved p' = 0"
proof -
  have "take_bit 12 a = 0" using assms(1) by (simp add: take_bit_eq_mask mask_eq_exp_minus_1)
  then have low: "\<not> bit a n" if "n < 12" for n
    using that by (metis bit_0_eq bot_apply bot_bool_def bit_take_bit_iff)
  have "take_bit 56 a AND NOT (mask 12) = a"
  proof -
    have "take_bit 56 a = a"
    proof -
      have "unat a < 2 ^ 56" using assms(2) by (simp add: word_less_nat_alt)
      then have "unat (take_bit 56 a) = unat a" by (simp add: unsigned_take_bit_eq take_bit_nat_eq_self)
      then show ?thesis by (rule unsigned_word_eqI)
    qed
    then show ?thesis using low by (intro bit_eqI) (auto simp: bit_simps)
  qed
  then show ?thesis by (simp add: configure_KILO find_link_pte_eq)
qed

theorem configure_find_roundtrip_witness:
  "\<exists>p'. configure_page_entry 0 0x80201000 True True False True KILO = Some p' \<and>
     find_pte_adress p' = 0x80201000 \<and> resU p' = 1"
  using configure_find_roundtrip [of "0x80201000" 0 True True False True] by auto



end
