(* ===== verification/Kernel_State.thy ===== *)
theory Kernel_State
  imports Prio_Queue C_String Page_Table
begin

text \<open>
  The state the kernel components share: \<open>process_t\<close> and its satellites
  (\<open>src/kernel/process/process.h\<close>), the global variables of \<open>process_api.c\<close>, \<open>scheduler.c\<close>,
  \<open>semaphore_api.c\<close>, \<open>memory_api.c\<close>, \<open>msgqueue.c\<close> and \<open>timer_api.c\<close>, the queue operations on
  processes, and the small accessors of \<open>src/kernel/process/helperfunc.c\<close>.

  Processes live in a store from addresses to structures; \<open>free\<close> removes an address, so that an
  access through a stale pointer has no result.  The five kinds of process queues are lists in
  the order of \<open>queue.h\<close> (the element that leaves next is the last one): \<open>Prio_Queue\<close> shows that
  the pointer operations implement these lists, and the field \<open>next_prev\<close>, which tells the queue
  the process is chained in, stands for the two link pointers being set.  The hash tables are the
  maps that \<open>Hash_Table\<close> shows them to implement.

  \<open>context_switch\<close> saves the running context and loads another one.  The part of the C stack that
  still has to run when \<open>scheduler\<close> returns is a value of the type \<open>kont\<close>, saved in the context.

  \<open>malloc\<close> is vendored code (\<open>src/lib/stdlib/malloc.c\<close>): \<open>alloc_fails\<close> tells which of the coming
  allocations fail, an empty list meaning none, \<open>usable_size\<close> how many bytes a block for a given
  request has, and \<open>junk\<close> and \<open>junk_queue\<close> what fresh structures contain.
\<close>

section \<open>Data\<close>

datatype process_state =
  ACTIF | ACTIVATABLE | BLOCKEDSEMAPHORE | BLOCKEDIO | BLOCKEDQUEUE | BLOCKEDWAITCHILD
| ASLEEP | ZOMBIE | KILLED

datatype message_status = RECEIVED | ERROR | SENT

text \<open>The list heads: the four queues of \<open>scheduler.c\<close>, and two for each message queue.\<close>

datatype qid = ActivatableQ | AsleepQ | DeadQ | BlockedIoQ | ConsQ nat | ProdQ nat

text \<open>
  What a process still executes in the kernel when its call of \<open>scheduler\<close> returns: return a value
  (with the values written through pointer arguments), return from an interrupt, the rest of
  \<open>wait\<close>, of the blocking branches of \<open>psend\<close> and \<open>preceive\<close>, of the two loops of \<open>waitpid\<close>, of
  \<open>kill\<close> of the running process, of the loop of \<open>cons_read\<close>, or of the interrupt handlers.
\<close>

datatype kont =
  KStart | KRet int "int list" | KVoid | KMain | KSpin
| KWait ptr | KPsend ptr | KPreceive ptr bool | KWaitAny bool | KWaitPid ptr ptr bool
| KKill int bool | KConsRead nat | KTimer nat | KFault

record context_t =
  sp :: u64
  ra :: u64
  ctx_s1 :: u64
  ctx_s2 :: u64
  sscratch :: u64
  sepc :: u64
  satp :: u64
  kont :: kont

text \<open>A user program in the image; \<open>app_start\<close> and \<open>app_end\<close> are addresses.\<close>

record uapps =
  app_name :: cstring
  app_start :: u64
  app_end :: u64

record page_table_link_list =
  node_table :: u64
  usage :: nat
  stack_usage :: nat
  heap_usage :: nat
  shared_memory_usage :: nat
  index :: int

text \<open>A level 1 node with the level 0 nodes from \<open>head_page\<close> to \<open>tail_page\<close>.\<close>

record lvl1_list =
  lvl1 :: page_table_link_list
  lvl0_nodes :: "page_table_link_list list"

record released_pages =
  r_lvl2_index :: nat
  r_lvl1_index :: nat
  r_lvl0_index :: nat
  r_page_table :: u64

record shared_pages_proc =
  sp_addr :: ptr
  sp_key :: cstring
  lvl2_index :: nat
  lvl1_index :: nat
  lvl0_index :: nat
  sp_page_table :: u64

record process =
  pid :: int
  process_name :: "bytes option"
  state :: process_state
  ssize :: u64
  prio :: int
  context_process :: "context_t option"
  func :: u64
  parent :: ptr
  children_head :: ptr
  children_tail :: ptr
  next_sibling :: ptr
  next_prev :: "qid option"
  return_value :: int
  page_table_level_2 :: u64
  page_tables_lvl_1_list :: "lvl1_list option"
  stack_shift :: nat
  proc_shared_hash_table :: "(cstring \<rightharpoonup> ptr) option"
  shared_pages :: "shared_pages_proc list option"
  released_pages_list :: "released_pages list"
  sscratch_frame :: u64
  wake_time :: int
  msg_value :: int
  msg_status :: message_status
  blocked_head :: qid
  sem_signal :: int
  semaphore_id :: int
  app_pointer :: "uapps option"

text \<open>
  A semaphore: its 16-bit count and the list of \<open>blocked_process_semaphore_t\<close> nodes from
  \<open>head_blocked\<close> to \<open>tail_blocked\<close>; \<open>None\<close> is the \<open>NULL\<close> header of a semaphore that never blocked
  anyone.  A node that was freed while it is still chained is \<open>Freed\<close>.
\<close>

datatype sem_node = Node ptr | Freed

record semaphore =
  sem_count :: int
  list_header_process :: "sem_node list option"

record shared_page =
  page_key :: cstring
  page_address :: u64
  page_usage :: int
  page_id :: u64

text \<open>A message queue; \<open>msg_arr_null\<close> tells that the pointer to the array is \<open>NULL\<close>.\<close>

record msg_queue =
  msg_arr :: "int list"
  msg_arr_null :: bool
  msg_size :: nat
  number_of_msgs :: nat
  iffc :: nat

text \<open>
  The console device; \<open>screen\<close> is what the driver's \<open>putchar\<close> sent, \<open>putchar_ok\<close> for which
  characters it returns no error.
\<close>

record console_device =
  buffer :: bytes
  last_written_char_index :: int
  start_of_buffer_index :: int
  echo :: bool
  ignore :: bool
  screen :: bytes
  putchar_ok :: "8 word \<Rightarrow> bool"

record kernel =
  procs :: "ptr \<rightharpoonup> process"
  pid_table :: "int \<rightharpoonup> ptr"
  current_pid :: int
  pid_iterator :: int
  nb_proc_running :: int
  process_id_list :: "int list"
  queues :: "qid \<Rightarrow> ptr list"
  started_user_process :: bool
  scheduler_main :: "context_t option"
  cpu :: context_t
  counter :: u64
  semaphores :: "int \<rightharpoonup> semaphore"
  semaphore_id_counter :: int
  currently_running_semaphores :: int
  parent_block :: bool
  all_queues :: "nat \<rightharpoonup> msg_queue"
  shared_memory :: "cstring \<rightharpoonup> shared_page"
  page_id_counter :: u64
  custom_release_process :: ptr
  mm :: memory
  kernel_base_page_table :: u64
  console_dev :: console_device
  symbols_table :: "uapps list"
  spp :: bool
  sie :: bool
  stimecmp :: u64
  mtimecmp :: u64
  mtime :: u64
  clk_freq :: u64
  first_call :: bool
  ssip :: bool
  next_ptr :: ptr
  alloc_fails :: "bool list"
  usable_size :: "nat \<Rightarrow> nat"
  junk :: process
  junk_queue :: msg_queue

section \<open>The store and the allocator\<close>

definition upd_proc :: "ptr \<Rightarrow> (process \<Rightarrow> process) \<Rightarrow> kernel \<Rightarrow> kernel option" where
  "upd_proc p f s =
     (case procs s p of None \<Rightarrow> None | Some x \<Rightarrow> Some (s\<lparr>procs := (procs s)(p \<mapsto> f x)\<rparr>))"

text \<open>Whether the next allocation succeeds.\<close>

definition alloc_ok :: "kernel \<Rightarrow> bool \<times> kernel" where
  "alloc_ok s =
     (case alloc_fails s of [] \<Rightarrow> (True, s) | b # bs \<Rightarrow> (\<not> b, s\<lparr>alloc_fails := bs\<rparr>))"

definition malloc :: "kernel \<Rightarrow> ptr option \<times> kernel" where
  "malloc s =
     (case alloc_ok s of (ok, s1) \<Rightarrow>
        if ok then (Some (next_ptr s1), s1\<lparr>next_ptr := Suc (next_ptr s1)\<rparr>) else (None, s1))"

section \<open>Process queues\<close>

definition alive :: "kernel \<Rightarrow> ptr \<Rightarrow> bool" where
  "alive s p \<longleftrightarrow> procs s p \<noteq> None"

definition q_add :: "(process \<Rightarrow> int) \<Rightarrow> ptr \<Rightarrow> qid \<Rightarrow> kernel \<Rightarrow> kernel option" where
  "q_add f p q s =
     do {
       e \<leftarrow> procs s p;
       if next_prev e \<noteq> None \<or> \<not> list_all (alive s) (queues s q) then None
       else Some (s\<lparr>
         queues := (queues s)(q := qinsert (\<lambda>x. f (the (procs s x))) p (queues s q)),
         procs := (procs s)(p \<mapsto> e\<lparr>next_prev := Some q\<rparr>)\<rparr>)
     }"

definition q_top :: "qid \<Rightarrow> kernel \<Rightarrow> ptr option" where
  "q_top q s = (if queues s q = [] then None else Some (last (queues s q)))"

definition q_out :: "qid \<Rightarrow> kernel \<Rightarrow> (ptr option \<times> kernel) option" where
  "q_out q s =
     (if queues s q = [] then Some (None, s)
      else do {
        let p = last (queues s q);
        s1 \<leftarrow> upd_proc p (next_prev_update (\<lambda>_. None)) s;
        Some (Some p, s1\<lparr>queues := (queues s1)(q := butlast (queues s q))\<rparr>)
      })"

definition q_del :: "ptr \<Rightarrow> kernel \<Rightarrow> kernel option" where
  "q_del p s =
     do {
       e \<leftarrow> procs s p;
       q \<leftarrow> next_prev e;
       Some (s\<lparr>queues := (queues s)(q := remove1 p (queues s q)),
               procs := (procs s)(p \<mapsto> e\<lparr>next_prev := None\<rparr>)\<rparr>)
     }"

section \<open>Accessors\<close>

definition getpid :: "kernel \<Rightarrow> int" where
  "getpid s = current_pid s"

definition get_process_struct_of_pid :: "int \<Rightarrow> kernel \<Rightarrow> ptr option" where
  "get_process_struct_of_pid i s = pid_table s i"

definition get_current_process :: "kernel \<Rightarrow> ptr option" where
  "get_current_process s = pid_table s (getpid s)"

text \<open>\<open>getname\<close> and \<open>get_pid_name\<close>: the outer option is the machine, the inner one \<open>NULL\<close>.\<close>

definition get_pid_name :: "int \<Rightarrow> kernel \<Rightarrow> bytes option option" where
  "get_pid_name i s =
     (case pid_table s i of None \<Rightarrow> Some None | Some p \<Rightarrow> map_option process_name (procs s p))"

definition getname :: "kernel \<Rightarrow> bytes option option" where
  "getname s = get_pid_name (getpid s) s"

definition save_pid :: "int \<Rightarrow> kernel \<Rightarrow> int \<times> kernel" where
  "save_pid i s =
     (case malloc s of
        (None, s1) \<Rightarrow> (- 1, s1)
      | (Some node, s1) \<Rightarrow> (0, s1\<lparr>process_id_list := i # process_id_list s1\<rparr>))"

definition get_pid_iterator :: "kernel \<Rightarrow> int" where
  "get_pid_iterator s = pid_iterator s"

definition increment_pid_and_get_new_pid :: "kernel \<Rightarrow> int \<times> kernel" where
  "increment_pid_and_get_new_pid s =
     (case process_id_list s of
        i # rest \<Rightarrow> (i, s\<lparr>process_id_list := rest\<rparr>)
      | [] \<Rightarrow> (let i = int32 (pid_iterator s + 1) in (i, s\<lparr>pid_iterator := i\<rparr>)))"

definition increment_shared_page_counter :: "kernel \<Rightarrow> u64 \<times> kernel" where
  "increment_shared_page_counter s =
     (let n = page_id_counter s + 1 in (n, s\<lparr>page_id_counter := n\<rparr>))"

definition increment_semaphore_id :: "kernel \<Rightarrow> int \<times> kernel" where
  "increment_semaphore_id s =
     (let n = int32 (semaphore_id_counter s + 1) in (n, s\<lparr>semaphore_id_counter := n\<rparr>))"

definition get_custom_release_process :: "kernel \<Rightarrow> ptr" where
  "get_custom_release_process s = custom_release_process s"

definition set_custom_release_process :: "ptr \<Rightarrow> kernel \<Rightarrow> kernel" where
  "set_custom_release_process p s = s\<lparr>custom_release_process := p\<rparr>"

definition set_supervisor_interrupts :: "bool \<Rightarrow> kernel \<Rightarrow> kernel" where
  "set_supervisor_interrupts val s = s\<lparr>sie := val\<rparr>"

definition validate_action_process_valid :: "ptr option \<Rightarrow> kernel \<Rightarrow> int option" where
  "validate_action_process_valid po s =
     (case po of
        None \<Rightarrow> Some (- 1)
      | Some p \<Rightarrow> do {
          x \<leftarrow> procs s p;
          Some (if state x = ZOMBIE \<or> state x = KILLED then - 1 else 0) })"

definition getprio :: "int \<Rightarrow> kernel \<Rightarrow> int option" where
  "getprio i s =
     (case pid_table s i of
        None \<Rightarrow> Some (- 1)
      | Some p \<Rightarrow> do {
          v \<leftarrow> validate_action_process_valid (Some p) s;
          x \<leftarrow> procs s p;
          Some (if v < 0 then - 1 else prio x) })"

definition setpid :: "int \<Rightarrow> kernel \<Rightarrow> int \<times> kernel" where
  "setpid new_pid s =
     (if pid_table s new_pid = None then (- 1, s) else (new_pid, s\<lparr>current_pid := new_pid\<rparr>))"

definition find_app :: "cstring \<Rightarrow> kernel \<Rightarrow> uapps option" where
  "find_app name s =
     List.find (\<lambda>a. strcmp (c_str (app_name a)) (c_str name) = Some 0) (symbols_table s)"

section \<open>The invariant of the process queues\<close>

text \<open>
  \<open>chained s\<close>: a process is chained in the queue its link fields name, once, and in no other one.
  The pointer of a freed process may still be in a queue, but no address that \<open>malloc\<close> can return.
\<close>

definition chained :: "kernel \<Rightarrow> bool" where
  "chained s \<longleftrightarrow>
     (\<forall>q. distinct (queues s q)) \<and>
     (\<forall>q. \<forall>p \<in> set (queues s q). p < next_ptr s) \<and>
     (\<forall>p. procs s p \<noteq> None \<longrightarrow> p < next_ptr s) \<and>
     (\<forall>p x q. procs s p = Some x \<longrightarrow> p \<in> set (queues s q) \<longleftrightarrow> next_prev x = Some q)"

text \<open>The activatable processes are in the order of their priorities.\<close>

definition ready_sorted :: "kernel \<Rightarrow> bool" where
  "ready_sorted s \<longleftrightarrow> sorted (map prio (List.map_filter (procs s) (queues s ActivatableQ)))"

text \<open>Both, or the first part alone (\<open>b = False\<close>).\<close>

definition queues_inv :: "bool \<Rightarrow> kernel \<Rightarrow> bool" where
  "queues_inv b s \<longleftrightarrow> chained s \<and> (b \<longrightarrow> ready_sorted s)"

lemma chainedI:
  assumes "\<And>q. distinct (queues s q)" "\<And>p q. p \<in> set (queues s q) \<Longrightarrow> p < next_ptr s"
    "\<And>p x. procs s p = Some x \<Longrightarrow> p < next_ptr s"
    "\<And>p x q. procs s p = Some x \<Longrightarrow> p \<in> set (queues s q) \<longleftrightarrow> next_prev x = Some q"
  shows "chained s"
  using assms by (auto simp: chained_def)

lemma chainedD:
  assumes "chained s"
  shows "distinct (queues s q)" "p \<in> set (queues s q) \<Longrightarrow> p < next_ptr s"
    "procs s p = Some x \<Longrightarrow> p < next_ptr s"
    "procs s p = Some x \<Longrightarrow> p \<in> set (queues s q) \<longleftrightarrow> next_prev x = Some q"
  using assms by (auto simp: chained_def)

lemma chained_cong:
  assumes c: "chained s" and "queues s' = queues s" "procs s' = procs s" "next_ptr s \<le> next_ptr s'"
  shows "chained s'"
  by (rule chainedI) (use assms chainedD [OF c] in \<open>auto intro: order_less_le_trans [of _ "next_ptr s"]\<close>)

lemma queues_inv_cong:
  assumes "queues_inv b s" "queues s' = queues s" "procs s' = procs s" "next_ptr s \<le> next_ptr s'"
  shows "queues_inv b s'"
  using assms chained_cong by (auto simp: queues_inv_def ready_sorted_def)

lemma chained_upd_proc:
  assumes c: "chained s" and x: "procs s p = Some x" and y: "next_prev y = next_prev x"
  shows "chained (s\<lparr>procs := (procs s)(p \<mapsto> y)\<rparr>)"
  by (rule chainedI) (use assms chainedD [OF c] in \<open>auto split: if_splits\<close>)

lemma chained_free:
  assumes c: "chained s"
  shows "chained (s\<lparr>procs := (procs s)(p := None)\<rparr>)"
  by (rule chainedI) (use chainedD [OF c] in \<open>auto split: if_splits\<close>)

lemma map_filter_cong_map:
  "(\<And>x. x \<in> set xs \<Longrightarrow> map_option f (g x) = map_option f (g' x)) \<Longrightarrow>
   map f (List.map_filter g xs) = map f (List.map_filter g' xs)"
proof (induction xs)
  case (Cons a xs)
  have "map_option f (g a) = map_option f (g' a)" using Cons.prems by simp
  then show ?case using Cons by (cases "g a"; cases "g' a") (auto simp: map_filter_simps)
qed (simp add: map_filter_simps)

lemma sorted_map_filter_removed:
  assumes "sorted (map f (List.map_filter g xs))" "\<And>x. x \<noteq> p \<Longrightarrow> g' x = g x" "g' p = None"
  shows "sorted (map f (List.map_filter g' xs))"
  using assms(1)
proof (induction xs)
  case (Cons a xs)
  have sub: "set (List.map_filter g' xs) \<subseteq> set (List.map_filter g xs)"
  proof
    fix y assume "y \<in> set (List.map_filter g' xs)"
    then obtain x where x: "x \<in> set xs" "g' x = Some y" by (auto simp: List.map_filter_def)
    then have "g x = Some y" using assms(2,3) by (cases "x = p") auto
    then show "y \<in> set (List.map_filter g xs)" using x by (force simp: List.map_filter_def)
  qed
  show ?case
  proof (cases "g' a")
    case None
    then show ?thesis using Cons by (auto simp: map_filter_simps split: option.splits)
  next
    case (Some y)
    then have "g a = Some y" using assms(2,3) by (cases "a = p") auto
    then show ?thesis using Cons sub Some by (auto simp: map_filter_simps)
  qed
qed (simp add: map_filter_simps)

lemma map_filter_all: "(\<And>x. x \<in> set xs \<Longrightarrow> g x \<noteq> None) \<Longrightarrow> List.map_filter g xs = map (the \<circ> g) xs"
  by (simp add: List.map_filter_def)

lemma sorted_map_filter_sub:
  "sorted (map f (List.map_filter g (xs @ y # ys))) \<Longrightarrow> sorted (map f (List.map_filter g (xs @ ys)))"
  by (auto simp: List.map_filter_def sorted_append split: if_splits)

lemma upd_proc_inv:
  assumes inv: "queues_inv b s"
    and f: "\<And>x. procs s p = Some x \<Longrightarrow> next_prev (f x) = next_prev x \<and>
      (b \<longrightarrow> prio (f x) = prio x \<or> p \<notin> set (queues s ActivatableQ))"
  shows "post (queues_inv b) (upd_proc p f s)"
proof (cases "procs s p")
  case (Some x)
  have c: "chained s" and r: "b \<Longrightarrow> ready_sorted s" using inv by (auto simp: queues_inv_def)
  let ?g = "(procs s)(p \<mapsto> f x)"
  have "map prio (List.map_filter ?g (queues s ActivatableQ)) =
        map prio (List.map_filter (procs s) (queues s ActivatableQ))" if b
    by (rule map_filter_cong_map) (use f [OF Some] Some that in auto)
  then have "queues_inv b (s\<lparr>procs := ?g\<rparr>)"
    using r chained_upd_proc [OF c Some, of "f x"] f [OF Some]
    by (simp add: queues_inv_def ready_sorted_def)
  then show ?thesis using Some by (simp add: upd_proc_def)
qed (simp add: upd_proc_def)

lemma upd_proc_keeps [keeps]:
  assumes "queues_inv b s" "\<And>x. next_prev (f x) = next_prev x" "\<And>x. prio (f x) = prio x"
  shows "post (queues_inv b) (upd_proc p f s)"
  by (rule upd_proc_inv) (use assms in auto)

lemma q_add_inv:
  assumes inv: "queues_inv b s" and f: "q = ActivatableQ \<Longrightarrow> f = prio"
  shows "post (queues_inv b) (q_add f p q s)"
proof (cases "\<exists>e. procs s p = Some e \<and> next_prev e = None \<and> list_all (alive s) (queues s q)")
  case True
  then obtain e where e: "procs s p = Some e" "next_prev e = None" "list_all (alive s) (queues s q)" by blast
  have c: "chained s" using inv by (simp add: queues_inv_def)
  note cD = chainedD [OF c]
  let ?s = "s\<lparr>queues := (queues s)(q := qinsert (\<lambda>x. f (the (procs s x))) p (queues s q)),
         procs := (procs s)(p \<mapsto> e\<lparr>next_prev := Some q\<rparr>)\<rparr>"
  have p: "p \<notin> set (queues s q')" for q' using cD(4) [OF e(1)] e(2) by simp
  have c': "chained ?s"
    by (rule chainedI) (use cD p e in \<open>auto split: if_splits\<close>)
  have "ready_sorted ?s" if r: "ready_sorted s"
  proof (cases "q = ActivatableQ")
    case False
    have "map prio (List.map_filter ((procs s)(p \<mapsto> e\<lparr>next_prev := Some q\<rparr>)) (queues s ActivatableQ)) =
        map prio (List.map_filter (procs s) (queues s ActivatableQ))"
      by (rule map_filter_cong_map) (use e in auto)
    then show ?thesis using r False by (simp add: ready_sorted_def)
  next
    case True
    let ?pr = "\<lambda>x. prio (the (procs s x))" and ?xs = "queues s ActivatableQ"
    have al: "x \<in> set ?xs \<Longrightarrow> procs s x \<noteq> None" for x
      using e(3) True by (auto simp: list_all_iff alive_def)
    have "map prio (List.map_filter (procs s) ?xs) = map ?pr ?xs"
      by (simp add: map_filter_all [OF al])
    then have "sorted (map ?pr (qinsert ?pr p ?xs))"
      using r by (intro sorted_qinsert) (simp add: ready_sorted_def)
    moreover have "map prio (List.map_filter ((procs s)(p \<mapsto> e\<lparr>next_prev := Some q\<rparr>)) (qinsert ?pr p ?xs))
        = map ?pr (qinsert ?pr p ?xs)"
      by (subst map_filter_all) (use al e in auto)
    ultimately show ?thesis using True f by (simp add: ready_sorted_def)
  qed
  then have "queues_inv b ?s" using c' inv by (simp add: queues_inv_def)
  then show ?thesis using e by (simp add: q_add_def)
next
  case False
  then show ?thesis by (auto simp: q_add_def post_def bind_eq_Some_conv split: if_splits)
qed

lemmas q_add_keeps [keeps] = q_add_inv

lemma remove1_inv:
  assumes inv: "queues_inv b s" and x: "procs s p = Some x" "next_prev x = Some q"
  shows "queues_inv b (s\<lparr>queues := (queues s)(q := remove1 p (queues s q)),
               procs := (procs s)(p \<mapsto> x\<lparr>next_prev := None\<rparr>)\<rparr>)" (is "queues_inv b ?s")
proof -
  have c: "chained s" using inv by (simp add: queues_inv_def)
  note cD = chainedD [OF c]
  have p: "p \<in> set (queues s q') \<longleftrightarrow> q' = q" for q' using cD(4) [OF x(1)] x(2) by auto
  have c': "chained ?s"
    by (rule chainedI) (use cD p x in \<open>auto split: if_splits\<close>)
  obtain ys zs where q: "queues s q = ys @ p # zs" "p \<notin> set ys"
    using p by (metis split_list_first)
  then have rem: "remove1 p (queues s q) = ys @ zs" by (simp add: remove1_append)
  have "p \<notin> set zs" using cD(1) [of q] q by simp
  have "ready_sorted ?s" if r: "ready_sorted s"
  proof (cases "q = ActivatableQ")
    case False
    have "map prio (List.map_filter ((procs s)(p \<mapsto> x\<lparr>next_prev := None\<rparr>)) (queues s ActivatableQ)) =
        map prio (List.map_filter (procs s) (queues s ActivatableQ))"
      by (rule map_filter_cong_map) (use x in auto)
    then show ?thesis using r False by (simp add: ready_sorted_def)
  next
    case True
    have "map prio (List.map_filter ((procs s)(p \<mapsto> x\<lparr>next_prev := None\<rparr>)) (ys @ zs)) =
        map prio (List.map_filter (procs s) (ys @ zs))"
      by (rule map_filter_cong_map) (use x in auto)
    moreover have "sorted (map prio (List.map_filter (procs s) (ys @ zs)))"
      using r q True by (intro sorted_map_filter_sub [of _ _ ys p zs]) (simp add: ready_sorted_def)
    ultimately show ?thesis using True rem by (simp add: ready_sorted_def)
  qed
  then show ?thesis using c' inv by (simp add: queues_inv_def)
qed

lemma q_del_keeps [keeps]: "queues_inv b s \<Longrightarrow> post (queues_inv b) (q_del p s)"
  by (auto simp: q_del_def post_def bind_eq_Some_conv intro: remove1_inv)

lemma q_out_q_del:
  assumes c: "chained s" and ne: "queues s q \<noteq> []"
  shows "q_out q s = (if alive s (last (queues s q)) then map_option (\<lambda>s'. (Some (last (queues s q)), s')) (q_del (last (queues s q)) s) else None)"
proof (cases "procs s (last (queues s q))")
  case None
  then show ?thesis using ne by (simp add: q_out_def alive_def upd_proc_def)
next
  case (Some x)
  have "next_prev x = Some q" using chainedD(4) [OF c Some, of q] ne by simp
  moreover have "remove1 (last (queues s q)) (queues s q) = butlast (queues s q)"
  proof -
    obtain ys y where q: "queues s q = ys @ [y]" using ne by (metis append_butlast_last_id)
    then show ?thesis using chainedD(1) [OF c, of q] by (simp add: remove1_append)
  qed
  ultimately show ?thesis using ne Some by (simp add: q_out_def q_del_def alive_def upd_proc_def Let_def)
qed

lemma q_out_keeps [keeps]: "queues_inv b s \<Longrightarrow> post (\<lambda>(po, s'). queues_inv b s') (q_out q s)"
proof (cases "queues s q = []")
  case False
  assume inv: "queues_inv b s"
  then have "chained s" by (simp add: queues_inv_def)
  from q_out_q_del [OF this False] q_del_keeps [OF inv] show ?thesis
    by (auto simp: post_def)
qed (simp add: q_out_def)

lemma q_out_unlinked:
  "q_out q s = Some (Some p, s') \<Longrightarrow> \<exists>x. procs s' p = Some x \<and> next_prev x = None"
  by (auto simp: q_out_def upd_proc_def bind_eq_Some_conv Let_def split: if_splits option.splits)

text \<open>Changes of the other components of the state.\<close>

lemma queues_inv_fields [simp]:
  "queues_inv b (s\<lparr>pid_table := v1\<rparr>) = queues_inv b s"
  "queues_inv b (s\<lparr>current_pid := v2\<rparr>) = queues_inv b s"
  "queues_inv b (s\<lparr>pid_iterator := v3\<rparr>) = queues_inv b s"
  "queues_inv b (s\<lparr>nb_proc_running := v4\<rparr>) = queues_inv b s"
  "queues_inv b (s\<lparr>process_id_list := v5\<rparr>) = queues_inv b s"
  "queues_inv b (s\<lparr>started_user_process := v6\<rparr>) = queues_inv b s"
  "queues_inv b (s\<lparr>scheduler_main := v7\<rparr>) = queues_inv b s"
  "queues_inv b (s\<lparr>cpu := v8\<rparr>) = queues_inv b s"
  "queues_inv b (s\<lparr>counter := v9\<rparr>) = queues_inv b s"
  "queues_inv b (s\<lparr>semaphores := v10\<rparr>) = queues_inv b s"
  "queues_inv b (s\<lparr>semaphore_id_counter := v11\<rparr>) = queues_inv b s"
  "queues_inv b (s\<lparr>currently_running_semaphores := v12\<rparr>) = queues_inv b s"
  "queues_inv b (s\<lparr>parent_block := v13\<rparr>) = queues_inv b s"
  "queues_inv b (s\<lparr>all_queues := v14\<rparr>) = queues_inv b s"
  "queues_inv b (s\<lparr>shared_memory := v15\<rparr>) = queues_inv b s"
  "queues_inv b (s\<lparr>page_id_counter := v16\<rparr>) = queues_inv b s"
  "queues_inv b (s\<lparr>custom_release_process := v17\<rparr>) = queues_inv b s"
  "queues_inv b (s\<lparr>mm := v18\<rparr>) = queues_inv b s"
  "queues_inv b (s\<lparr>console_dev := v19\<rparr>) = queues_inv b s"
  "queues_inv b (s\<lparr>spp := v20\<rparr>) = queues_inv b s"
  "queues_inv b (s\<lparr>sie := v21\<rparr>) = queues_inv b s"
  "queues_inv b (s\<lparr>stimecmp := v22\<rparr>) = queues_inv b s"
  "queues_inv b (s\<lparr>mtimecmp := v23\<rparr>) = queues_inv b s"
  "queues_inv b (s\<lparr>first_call := v24\<rparr>) = queues_inv b s"
  "queues_inv b (s\<lparr>ssip := v25\<rparr>) = queues_inv b s"
  "queues_inv b (s\<lparr>alloc_fails := v26\<rparr>) = queues_inv b s"
  by (simp_all add: queues_inv_def chained_def ready_sorted_def)

lemma queues_inv_next_ptr: "queues_inv b s \<Longrightarrow> queues_inv b (s\<lparr>next_ptr := Suc (next_ptr s)\<rparr>)"
  by (erule queues_inv_cong) (simp_all add: le_SucI)

lemma alloc_ok_inv [simp]: "queues_inv b (snd (alloc_ok s)) = queues_inv b s"
  by (simp add: alloc_ok_def split: list.split)

lemma malloc_inv [keeps]: "queues_inv b s \<Longrightarrow> queues_inv b (snd (malloc s))"
  using alloc_ok_inv [of b s]
  by (auto simp: malloc_def queues_inv_next_ptr simp del: alloc_ok_inv split: prod.splits)

lemma malloc_fields:
  "malloc s = (r, s') \<Longrightarrow> queues s' = queues s \<and> procs s' = procs s \<and> all_queues s' = all_queues s"
  by (auto simp: malloc_def alloc_ok_def split: list.splits if_splits)

lemma malloc_fresh:
  "malloc s = (Some p, s') \<Longrightarrow> p = next_ptr s \<and> next_ptr s' = Suc p"
  by (auto simp: malloc_def alloc_ok_def split: list.splits if_splits)

lemma queues_inv_new:
  assumes inv: "queues_inv b s" and m: "malloc s = (Some p, s1)" and s2: "queues s2 = queues s1"
    "procs s2 = (procs s1)(p \<mapsto> x)" "next_ptr s2 = next_ptr s1" and x: "next_prev x = None"
  shows "queues_inv b s2 \<and> (\<forall>q. p \<notin> set (queues s2 q))"
proof -
  have c: "chained s" using inv by (simp add: queues_inv_def)
  note cD = chainedD [OF c]
  have eq: "queues s2 = queues s" "procs s2 = (procs s)(p \<mapsto> x)" "p = next_ptr s" "next_ptr s2 = Suc p"
    using malloc_fields [OF m] malloc_fresh [OF m] s2 by auto
  have fresh: "p \<notin> set (queues s q)" for q using cD(2) [of p q] eq(3) by auto
  have "chained s2"
    by (rule chainedI)
      (use cD fresh x eq in \<open>auto simp: less_Suc_eq split: if_splits\<close>)
  moreover have "map prio (List.map_filter ((procs s)(p \<mapsto> x)) (queues s ActivatableQ)) =
      map prio (List.map_filter (procs s) (queues s ActivatableQ))"
    by (rule map_filter_cong_map) (use fresh in auto)
  ultimately show ?thesis using inv fresh eq by (simp add: queues_inv_def ready_sorted_def)
qed

lemma queues_inv_free: "queues_inv b s \<Longrightarrow> queues_inv b (s\<lparr>procs := (procs s)(p := None)\<rparr>)"
  by (auto simp: queues_inv_def ready_sorted_def chained_free
      intro: sorted_map_filter_removed [of prio "procs s" _ p])

lemma save_pid_inv [keeps]: "queues_inv b s \<Longrightarrow> queues_inv b (snd (save_pid i s))"
  using malloc_inv [of b s] by (auto simp: save_pid_def split: prod.splits option.splits)

lemma accessor_inv [keeps]:
  "queues_inv b s \<Longrightarrow> queues_inv b (snd (increment_pid_and_get_new_pid s))"
  "queues_inv b s \<Longrightarrow> queues_inv b (snd (increment_shared_page_counter s))"
  "queues_inv b s \<Longrightarrow> queues_inv b (snd (increment_semaphore_id s))"
  "queues_inv b s \<Longrightarrow> queues_inv b (snd (setpid i s))"
  "queues_inv b s \<Longrightarrow> queues_inv b (set_custom_release_process p s)"
  "queues_inv b s \<Longrightarrow> queues_inv b (set_supervisor_interrupts v s)"
  by (simp_all add: increment_pid_and_get_new_pid_def increment_shared_page_counter_def
      increment_semaphore_id_def setpid_def set_custom_release_process_def
      set_supervisor_interrupts_def Let_def split: list.split)

text \<open>
  The binds of the kernel's operations, by the type of the value bound: a state, a result with a
  state, or a plain value.
\<close>

abbreviation inv_snd :: "bool \<Rightarrow> 'a \<times> kernel \<Rightarrow> bool" where
  "inv_snd b \<equiv> \<lambda>(a, s). queues_inv b s"

lemma keeps_binds [keeps]:
  fixes m :: "kernel option" and n :: "('a \<times> kernel) option"
    and f :: "kernel \<Rightarrow> kernel option" and f' :: "kernel \<Rightarrow> ('b \<times> kernel) option"
    and g :: "'a \<times> kernel \<Rightarrow> kernel option" and g' :: "'a \<times> kernel \<Rightarrow> ('b \<times> kernel) option"
  shows "post (queues_inv b) m \<Longrightarrow> (\<And>s. queues_inv b s \<Longrightarrow> post (queues_inv b) (f s)) \<Longrightarrow> post (queues_inv b) (m \<bind> f)"
    and "post (queues_inv b) m \<Longrightarrow> (\<And>s. queues_inv b s \<Longrightarrow> post (inv_snd b) (f' s)) \<Longrightarrow> post (inv_snd b) (m \<bind> f')"
    and "post (inv_snd b) n \<Longrightarrow> (\<And>a s. queues_inv b s \<Longrightarrow> post (queues_inv b) (g (a, s))) \<Longrightarrow> post (queues_inv b) (n \<bind> g)"
    and "post (inv_snd b) n \<Longrightarrow> (\<And>a s. queues_inv b s \<Longrightarrow> post (inv_snd b) (g' (a, s))) \<Longrightarrow> post (inv_snd b) (n \<bind> g')"
  by (auto elim!: post_bind)

lemma keeps_cases [keeps]:
  fixes r :: "'a \<times> kernel" and h :: "'a \<Rightarrow> kernel \<Rightarrow> kernel option"
    and h' :: "'a \<Rightarrow> kernel \<Rightarrow> ('b \<times> kernel) option"
  shows "queues_inv b (snd r) \<Longrightarrow> (\<And>a s. queues_inv b s \<Longrightarrow> post (queues_inv b) (h a s)) \<Longrightarrow>
      post (queues_inv b) (case r of (a, s) \<Rightarrow> h a s)"
    and "queues_inv b (snd r) \<Longrightarrow> (\<And>a s. queues_inv b s \<Longrightarrow> post (inv_snd b) (h' a s)) \<Longrightarrow>
      post (inv_snd b) (case r of (a, s) \<Rightarrow> h' a s)"
  by (cases r; simp)+

lemma keeps_case3 [keeps]:
  fixes r :: "'a \<times> 'c \<times> kernel" and h :: "'a \<Rightarrow> 'c \<Rightarrow> kernel \<Rightarrow> ('b \<times> kernel) option"
  shows "queues_inv b (snd (snd r)) \<Longrightarrow> (\<And>a c s. queues_inv b s \<Longrightarrow> post (inv_snd b) (h a c s)) \<Longrightarrow>
      post (inv_snd b) (case r of (a, c, s) \<Rightarrow> h a c s)"
  by (cases r) simp

lemma keeps_case_memory [keeps]:
  "(\<And>a m. r = (a, m) \<Longrightarrow> post P (h a m)) \<Longrightarrow> post P (case r of (a, m) \<Rightarrow> h a m)"
  for r :: "'a \<times> memory"
  by (cases r) simp

lemmas keeps_values [keeps] =
  post_bind_value [where 'a = process] post_bind_value [where 'a = nat]
  post_bind_value [where 'a = int] post_bind_value [where 'a = bool]
  post_bind_value [where 'a = context_t] post_bind_value [where 'a = lvl1_list]
  post_bind_value [where 'a = uapps] post_bind_value [where 'a = "'c list"]
  post_bind_value [where 'a = semaphore] post_bind_value [where 'a = msg_queue]
  post_bind_value [where 'a = shared_page] post_bind_value [where 'a = memory]
  post_bind_value [where 'a = "int \<times> memory"] post_bind_value [where 'a = qid]
  post_bind_value [where 'a = "int \<times> msg_queue"] post_bind_value [where 'a = "nat \<times> nat"]
  post_bind_value [where 'a = "'c option"] post_bind_value [where 'a = "64 word"]
  post_bind_value [where 'a = console_device] post_bind_value [where 'a = "'c list \<times> console_device"]
  post_bind_value [where 'a = "cstring \<rightharpoonup> ptr"] post_bind_value [where 'a = shared_pages_proc]

section \<open>A small state for concrete runs\<close>

definition demo_context :: context_t where
  "demo_context = \<lparr>sp = 0, ra = 0, ctx_s1 = 0, ctx_s2 = 0, sscratch = 0, sepc = 0, satp = 0, kont = KStart\<rparr>"

definition demo_process :: "int \<Rightarrow> int \<Rightarrow> process_state \<Rightarrow> qid option \<Rightarrow> process" where
  "demo_process i n st q =
     \<lparr>pid = i, process_name = None, state = st, ssize = 0, prio = n,
      context_process = Some demo_context, func = 0, parent = 0, children_head = 0,
      children_tail = 0, next_sibling = 0, next_prev = q, return_value = 0, page_table_level_2 = 0,
      page_tables_lvl_1_list = None, stack_shift = 0, proc_shared_hash_table = None,
      shared_pages = None, released_pages_list = [], sscratch_frame = 0, wake_time = 0,
      msg_value = 0, msg_status = ERROR, blocked_head = BlockedIoQ, sem_signal = 0,
      semaphore_id = 0, app_pointer = None\<rparr>"

definition demo_console :: console_device where
  "demo_console = \<lparr>buffer = replicate 20 0, last_written_char_index = - 1, start_of_buffer_index = 0,
     echo = True, ignore = False, screen = [], putchar_ok = (\<lambda>_. True)\<rparr>"

definition demo_kernel :: kernel where
  "demo_kernel =
     \<lparr>procs = Map.empty, pid_table = Map.empty, current_pid = - 1, pid_iterator = 0,
      nb_proc_running = 0, process_id_list = [], queues = (\<lambda>_. []), started_user_process = True,
      scheduler_main = Some demo_context, cpu = demo_context, counter = 0, semaphores = Map.empty,
      semaphore_id_counter = 0, currently_running_semaphores = 0, parent_block = False,
      all_queues = Map.empty, shared_memory = Map.empty, page_id_counter = 0,
      custom_release_process = 0, mm = demo_memory, kernel_base_page_table = 0,
      console_dev = demo_console, symbols_table = [], spp = False, sie = False, stimecmp = 0,
      mtimecmp = 0, mtime = 0, clk_freq = 0, first_call = True, ssip = False, next_ptr = 100,
      alloc_fails = [], usable_size = (\<lambda>n. n + 8), junk = demo_process 0 0 ACTIVATABLE None,
      junk_queue = \<lparr>msg_arr = [], msg_arr_null = False, msg_size = 0, number_of_msgs = 0, iffc = 0\<rparr>\<rparr>"

end
