(* ===== verification/Proc_Memory.thy ===== *)
theory Proc_Memory
  imports Kernel_State
begin

text \<open>
  The memory of a process (\<open>src/kernel/process/process_memory.c\<close>, allocation): its three levels of
  page tables, the frames behind them, and the copy of the program into the first frames.  The
  level 1 node of a process carries its level 0 nodes in a list, which replaces the pointers
  \<open>head_page\<close>, \<open>tail_page\<close>, \<open>next_page\<close> and \<open>parent_page\<close>.  The configuration is
  \<open>USER_PROCESSES_ON\<close>.
\<close>

section \<open>The code\<close>

datatype page_t = STACK_CODE_PAGE | HEAP_PAGE | SHARED_PAGE

definition PT_SIZE :: nat where "PT_SIZE = 512"
definition STACK_FRAME_SIZE :: nat where "STACK_FRAME_SIZE = 128"
definition HEAP_FRAME_SIZE :: nat where "HEAP_FRAME_SIZE = 128"
definition SHARED_FRAME_SIZE :: nat where "SHARED_FRAME_SIZE = 256"

primrec space_start :: "page_t \<Rightarrow> nat" where
  "space_start STACK_CODE_PAGE = 0"
| "space_start HEAP_PAGE = 128"
| "space_start SHARED_PAGE = 256"

primrec space_end :: "page_t \<Rightarrow> nat" where
  "space_end STACK_CODE_PAGE = 127"
| "space_end HEAP_PAGE = 255"
| "space_end SHARED_PAGE = 511"

text \<open>The usage counter of the parent that a new node of the given kind takes its index from.\<close>

primrec take_index :: "page_t \<Rightarrow> page_table_link_list \<Rightarrow> nat \<times> page_table_link_list" where
  "take_index STACK_CODE_PAGE par = (stack_usage par, par\<lparr>stack_usage := stack_usage par + 1\<rparr>)"
| "take_index HEAP_PAGE par = (heap_usage par, par\<lparr>heap_usage := heap_usage par + 1\<rparr>)"
| "take_index SHARED_PAGE par =
     (shared_memory_usage par, par\<lparr>shared_memory_usage := shared_memory_usage par + 1\<rparr>)"

text \<open>Returns the new node and the updated parent, or \<open>None\<close> for a negative status.\<close>

definition configure_page_table_linked_list_entry ::
    "u64 \<Rightarrow> page_table_link_list option \<Rightarrow> page_t \<Rightarrow> int \<Rightarrow> kernel \<Rightarrow>
     (page_table_link_list \<times> page_table_link_list option) option \<times> kernel" where
  "configure_page_table_linked_list_entry tbl parent_page page_type custom_index s =
     (if tbl = 0 then (None, s)
      else case malloc s of
        (None, s1) \<Rightarrow> (None, s1)
      | (Some a, s1) \<Rightarrow>
          (let node = \<lparr>node_table = tbl, usage = 0, stack_usage = 0, heap_usage = 0,
                       shared_memory_usage = 0, index = custom_index\<rparr> in
           case parent_page of
             None \<Rightarrow> (Some (node, None), s1)
           | Some par \<Rightarrow>
               (case take_index page_type par of (n, par') \<Rightarrow>
                  (Some (node\<lparr>index := int (space_start page_type + n)\<rparr>,
                         Some (par'\<lparr>usage := usage par' + 1\<rparr>)), s1))))"

definition create_page_table_k :: "kernel \<Rightarrow> u64 option \<times> kernel" where
  "create_page_table_k s = (case create_page_table (mm s) of (t, m) \<Rightarrow> (t, s\<lparr>mm := m\<rparr>))"

definition upd_pte_k ::
    "u64 \<Rightarrow> nat \<Rightarrow> (page_table_entry \<Rightarrow> page_table_entry option) \<Rightarrow> kernel \<Rightarrow> kernel option" where
  "upd_pte_k tbl i f s = do { m \<leftarrow> upd_pte tbl i f (mm s); Some (s\<lparr>mm := m\<rparr>) }"

text \<open>\<open>add_child_node_page_table\<close> returns the status and the level 1 node with its children.\<close>

definition add_child_node_page_table ::
    "lvl1_list \<Rightarrow> page_t \<Rightarrow> kernel \<Rightarrow> int \<times> lvl1_list \<times> kernel" where
  "add_child_node_page_table l page_type s =
     (let par = lvl1 l in
      if usage par \<ge> PT_SIZE \<or> stack_usage par \<ge> STACK_FRAME_SIZE \<or>
         heap_usage par \<ge> HEAP_FRAME_SIZE \<or> shared_memory_usage par \<ge> SHARED_FRAME_SIZE
      then (- 1, l, s)
      else case create_page_table_k s of
        (None, s1) \<Rightarrow> (- 1, l, s1)
      | (Some t, s1) \<Rightarrow>
          (case configure_page_table_linked_list_entry t (Some par) page_type (- 1) s1 of
             (Some (node, Some par'), s2) \<Rightarrow>
               (0, l\<lparr>lvl1 := par', lvl0_nodes := lvl0_nodes l @ [node]\<rparr>, s2)
           | (_, s2) \<Rightarrow> (- 1, l, s2)))"

definition link_lvl1_table_shared_page ::
    "lvl1_list option \<Rightarrow> nat \<Rightarrow> nat \<Rightarrow> u64 \<Rightarrow> kernel \<Rightarrow> (int \<times> kernel) option" where
  "link_lvl1_table_shared_page lo lvl2i lvl1i lvl0_table s =
     (case lo of
        None \<Rightarrow> Some (- 1, s)
      | Some l \<Rightarrow>
          if lvl0_table = 0 then Some (- 1, s)
          else if index (lvl1 l) \<noteq> int lvl2i then None
          else do {
            s1 \<leftarrow> upd_pte_k (node_table (lvl1 l)) lvl1i
              (\<lambda>p. configure_page_entry p lvl0_table False False False True KILO) s;
            Some (0, s1) })"

text \<open>The position a shared page gets in the page tables, written to the tail of the list.\<close>

definition place_shared ::
    "nat \<Rightarrow> nat \<Rightarrow> nat \<Rightarrow> u64 \<Rightarrow> shared_pages_proc list option \<Rightarrow> shared_pages_proc list option" where
  "place_shared l2 l1 l0 tbl so =
     (case so of
        None \<Rightarrow> None
      | Some xs \<Rightarrow>
          if xs = [] then None
          else Some (butlast xs @ [(last xs)\<lparr>lvl2_index := l2, lvl1_index := l1, lvl0_index := l0,
                                            sp_page_table := tbl\<rparr>]))"

text \<open>The first level 0 node of the right region that still has a free entry.\<close>

definition has_room :: "page_t \<Rightarrow> page_table_link_list \<Rightarrow> bool" where
  "has_room page_type n \<longleftrightarrow>
     int (space_start page_type) \<le> index n \<and> index n \<le> int (space_end page_type) \<and> usage n < PT_SIZE"

fun find_room :: "page_t \<Rightarrow> nat \<Rightarrow> page_table_link_list list \<Rightarrow> nat option" where
  "find_room page_type i [] = None"
| "find_room page_type i (n # ns) =
     (if has_room page_type n then Some i else find_room page_type (Suc i) ns)"

definition put_lvl1 :: "ptr \<Rightarrow> lvl1_list \<Rightarrow> kernel \<Rightarrow> kernel option" where
  "put_lvl1 p l = upd_proc p (page_tables_lvl_1_list_update (\<lambda>_. Some l))"

definition bump_usage :: "nat \<Rightarrow> lvl1_list \<Rightarrow> lvl1_list" where
  "bump_usage i l =
     l\<lparr>lvl0_nodes := (lvl0_nodes l)[i := (lvl0_nodes l ! i)\<lparr>usage := usage (lvl0_nodes l ! i) + 1\<rparr>]\<rparr>"

definition add_frame_to_process :: "ptr \<Rightarrow> page_t \<Rightarrow> kernel \<Rightarrow> (int \<times> kernel) option" where
  "add_frame_to_process p page_type s =
     do {
       x \<leftarrow> procs s p;
       case page_tables_lvl_1_list x of
         None \<Rightarrow> Some (- 1, s)
       | Some l \<Rightarrow>
           (case find_room page_type 0 (lvl0_nodes l) of
              Some i \<Rightarrow>
                (let n = lvl0_nodes l ! i in
                 if page_type = SHARED_PAGE then
                   (case place_shared USERSPACE (nat (index n)) (usage n) (node_table n) (shared_pages x) of
                      None \<Rightarrow> Some (- 1, s)
                    | Some ys \<Rightarrow> do {
                        s1 \<leftarrow> upd_proc p (shared_pages_update (\<lambda>_. Some ys)) s;
                        s2 \<leftarrow> put_lvl1 p (bump_usage i l) s1;
                        Some (0, s2) })
                 else do { s1 \<leftarrow> put_lvl1 p (bump_usage i l) s; Some (0, s1) })
            | None \<Rightarrow>
                (case add_child_node_page_table l page_type s of
                   (r, l1, s1) \<Rightarrow>
                     if r < 0 then Some (- 1, s1)
                     else do {
                       s2 \<leftarrow> put_lvl1 p l1 s1;
                       let i = length (lvl0_nodes l1) - 1;
                       let n = lvl0_nodes l1 ! i;
                       if page_type = SHARED_PAGE then
                         (case place_shared USERSPACE (nat (index n)) (usage n) (node_table n)
                                 (shared_pages x) of
                            None \<Rightarrow> Some (- 1, s2)
                          | Some ys \<Rightarrow> do {
                              s3 \<leftarrow> upd_proc p (shared_pages_update (\<lambda>_. Some ys)) s2;
                              (r', s4) \<leftarrow> link_lvl1_table_shared_page (Some l1) USERSPACE
                                (nat (index n)) (node_table n) s3;
                              if r' < 0 then Some (- 1, s4)
                              else do { s5 \<leftarrow> put_lvl1 p (bump_usage i l1) s4; Some (0, s5) } })
                       else do { s3 \<leftarrow> put_lvl1 p (bump_usage i l1) s2; Some (0, s3) }
                     }))
     }"

text \<open>
  The inner loop of \<open>allocate_memory_final\<close>: a frame for each of the \<open>n\<close> entries of a level 0 table
  from entry \<open>i\<close> on, filled with the program while \<open>writing_data\<close> holds.  An inner \<open>None\<close> is the
  return of \<open>-1\<close> when no frame is left.
\<close>

type_synonym data_state = "bool \<times> u64 \<times> int"

fun allocate_frames ::
    "u64 \<Rightarrow> nat \<Rightarrow> nat \<Rightarrow> data_state \<Rightarrow> memory \<Rightarrow> (data_state option \<times> memory) option" where
  "allocate_frames tbl i 0 w m = Some (Some w, m)"
| "allocate_frames tbl i (Suc n) (writing_data, data_pointer, data_left) m =
     (case get_frame m of
        (None, m1) \<Rightarrow> Some (None, m1)
      | (Some f, m1) \<Rightarrow>
          (let (w, m2) =
             (if writing_data then
                (if data_left < 0 then ((False, data_pointer, data_left), m1)
                 else ((True, data_pointer + FRAME_SIZE, data_left - 4096),
                       memcpy_frame f data_pointer m1))
              else ((False, data_pointer, data_left), memset_frame f 0 m1))
           in do {
             m3 \<leftarrow> upd_pte tbl i (\<lambda>p. configure_page_entry p f True True (fst w) True KILO) m2;
             allocate_frames tbl (Suc i) n w m3 }))"

text \<open>
  The outer loop: \<open>n\<close> entries of the level 1 table from entry \<open>i\<close> on, with the level 0 nodes that
  follow.  Running out of nodes is an access through \<open>NULL\<close>, a node with another index the failed
  assertion.
\<close>

fun allocate_tables ::
    "u64 \<Rightarrow> page_table_link_list list \<Rightarrow> nat \<Rightarrow> nat \<Rightarrow> data_state \<Rightarrow> memory \<Rightarrow>
     (int \<times> memory) option" where
  "allocate_tables tbl1 nodes i 0 w m = Some (0, m)"
| "allocate_tables tbl1 [] i (Suc n) w m = None"
| "allocate_tables tbl1 (nd # nodes) i (Suc n) w m =
     (if index nd \<noteq> int i then None
      else if node_table nd = 0 then Some (- 1, m)
      else do {
        m1 \<leftarrow> upd_pte tbl1 i
          (\<lambda>p. configure_page_entry p (node_table nd) False False False True KILO) m;
        (r, m2) \<leftarrow> allocate_frames (node_table nd) 0 (usage nd) w m1;
        case r of None \<Rightarrow> Some (- 1, m2) | Some w' \<Rightarrow> allocate_tables tbl1 nodes (Suc i) n w' m2
      })"

definition allocate_memory_final ::
    "lvl1_list option \<Rightarrow> nat \<Rightarrow> nat \<Rightarrow> u64 \<Rightarrow> int \<Rightarrow> kernel \<Rightarrow> (int \<times> kernel) option" where
  "allocate_memory_final lo start_index end_index data data_size s =
     (case lo of
        None \<Rightarrow> Some (- 1, s)
      | Some l \<Rightarrow>
          (let w = (if data \<noteq> 0 \<and> data_size \<noteq> 0 then (True, data, data_size) else (False, 0, 0));
               nodes = dropWhile (\<lambda>n. index n \<noteq> int start_index) (lvl0_nodes l)
           in if nodes = [] then Some (- 1, s)
              else do {
                (r, m) \<leftarrow> allocate_tables (node_table (lvl1 l)) nodes start_index
                  (end_index - start_index) w (mm s);
                Some (r, s\<lparr>mm := m\<rparr>) }))"

definition code_size :: "uapps \<Rightarrow> int" where
  "code_size a = int32 (sint (app_end a - app_start a))"

definition process_frames_alloc :: "ptr \<Rightarrow> kernel \<Rightarrow> (int \<times> kernel) option" where
  "process_frames_alloc p s =
     do {
       x \<leftarrow> procs s p;
       a \<leftarrow> app_pointer x;
       l \<leftarrow> page_tables_lvl_1_list x;
       (r, s1) \<leftarrow> allocate_memory_final (Some l) 0 (stack_usage (lvl1 l)) (app_start a)
         (code_size a) s;
       if r < 0 then Some (- 1, s1)
       else do {
         (r', s2) \<leftarrow> allocate_memory_final (Some l) 128 (128 + heap_usage (lvl1 l)) 0 0 s1;
         if r' < 0 then Some (- 1, s2) else Some (0, s2) }
     }"

text \<open>The three \<open>do ... while\<close> loops of \<open>add_frames_process\<close>; two of them count \<open>stack_shift\<close>.\<close>

function add_frames_loop ::
    "page_t \<Rightarrow> bool \<Rightarrow> int \<Rightarrow> ptr \<Rightarrow> kernel \<Rightarrow> (int \<times> kernel) option" where
  "add_frames_loop page_type shift sz p s =
     do {
       (r, s1) \<leftarrow> add_frame_to_process p page_type s;
       if r < 0 then Some (- 1, s1)
       else do {
         s2 \<leftarrow> (if shift then upd_proc p (\<lambda>x. x\<lparr>stack_shift := stack_shift x + 1\<rparr>) s1 else Some s1);
         if sz - 4096 > 0 then add_frames_loop page_type shift (sz - 4096) p s2 else Some (0, s2) }
     }"
  by pat_completeness auto
termination
  by (relation "measure (\<lambda>(page_type, shift, sz, p, s). nat sz)") auto

declare add_frames_loop.simps [simp del]

definition add_frames_process ::
    "ptr \<Rightarrow> int \<Rightarrow> int \<Rightarrow> int \<Rightarrow> kernel \<Rightarrow> (int \<times> kernel) option" where
  "add_frames_process p temp_code_size heap_size size_stack s =
     do {
       (r, s1) \<leftarrow> add_frames_loop STACK_CODE_PAGE True temp_code_size p s;
       if r < 0 then Some (- 1, s1)
       else do {
         (r', s2) \<leftarrow> add_frames_loop STACK_CODE_PAGE True size_stack p s1;
         if r' < 0 then Some (- 1, s2)
         else do {
           (r'', s3) \<leftarrow> add_frames_loop HEAP_PAGE False heap_size p s2;
           if r'' < 0 then Some (- 1, s3) else Some (0, s3) } }
     }"

definition process_memory_allocator :: "ptr \<Rightarrow> u64 \<Rightarrow> kernel \<Rightarrow> (int \<times> kernel) option" where
  "process_memory_allocator p sz s =
     (if sz > 0x40000000 then Some (- 1, s)
      else do {
        s0 \<leftarrow> upd_proc p (stack_shift_update (\<lambda>_. 0)) s;
        case create_page_table_k s0 of
          (None, s1) \<Rightarrow> Some (- 1, s1)
        | (Some t2, s1) \<Rightarrow> do {
            s2 \<leftarrow> upd_proc p (page_table_level_2_update (\<lambda>_. t2)) s1;
            let s3 = s2\<lparr>mm := memcpy_frame t2 (kernel_base_page_table s2) (mm s2)\<rparr>;
            case create_page_table_k s3 of
              (None, s4) \<Rightarrow> Some (- 1, s4)
            | (Some t1, s4) \<Rightarrow>
                (case configure_page_table_linked_list_entry t1 None STACK_CODE_PAGE
                        (int USERSPACE) s4 of
                   (conf, s5) \<Rightarrow> do {
                     s6 \<leftarrow> (case conf of
                              None \<Rightarrow> Some s5
                            | Some (n, _) \<Rightarrow> put_lvl1 p \<lparr>lvl1 = n, lvl0_nodes = []\<rparr> s5);
                     s7 \<leftarrow> upd_pte_k t2 USERSPACE
                       (\<lambda>e. configure_page_entry e t1 False False False True KILO) s6;
                     x \<leftarrow> procs s7 p;
                     case app_pointer x of
                       None \<Rightarrow> Some (- 1, s7)
                     | Some a \<Rightarrow> do {
                         (r, s8) \<leftarrow> add_frames_process p (code_size a) 1 (int32 (uint sz)) s7;
                         if r < 0 then Some (- 1, s8)
                         else do {
                           (r', s9) \<leftarrow> process_frames_alloc p s8;
                           if r' < 0 then Some (- 1, s9) else Some (0, s9) } } }) } })"

section \<open>The process queues are left alone\<close>

lemma page_tables_keep [keeps]:
  "queues_inv b s \<Longrightarrow> queues_inv b (snd (create_page_table_k s))"
  "queues_inv b s \<Longrightarrow> post (queues_inv b) (upd_pte_k t i g s)"
  "queues_inv b s \<Longrightarrow> post (queues_inv b) (put_lvl1 p l s)"
  by (auto simp: create_page_table_k_def upd_pte_k_def put_lvl1_def intro!: keeps split: prod.split)

lemma configure_entry_keeps [keeps]:
  "queues_inv b s \<Longrightarrow> queues_inv b (snd (configure_page_table_linked_list_entry t po ty i s))"
  using malloc_inv [of b s]
  by (auto simp: configure_page_table_linked_list_entry_def Let_def split: prod.split option.split)

lemma add_child_keeps [keeps]:
  assumes "queues_inv b s"
  shows "queues_inv b (snd (snd (add_child_node_page_table l ty s)))"
proof -
  obtain t s1 where t: "create_page_table_k s = (t, s1)" by fastforce
  then have "queues_inv b s1" using page_tables_keep(1) [OF assms] by simp
  note keep = configure_entry_keeps [OF this]
  have "queues_inv b s2" if "configure_page_table_linked_list_entry (the t) (Some (lvl1 l)) ty (- 1) s1 = (r, s2)" for r s2
    using keep [of "the t" "Some (lvl1 l)" ty "- 1"] that by simp
  then show ?thesis using assms \<open>queues_inv b s1\<close> t
    by (fastforce simp: add_child_node_page_table_def Let_def split: prod.splits option.splits)
qed

lemma link_lvl1_keeps [keeps]:
  "queues_inv b s \<Longrightarrow> post (inv_snd b) (link_lvl1_table_shared_page lo i j t s)"
  by (auto simp: link_lvl1_table_shared_page_def intro!: keeps split: option.split)

lemma add_frame_keeps [keeps]:
  "queues_inv b s \<Longrightarrow> post (inv_snd b) (add_frame_to_process p ty s)"
  unfolding add_frame_to_process_def
  by (auto simp: Let_def intro!: keeps split: option.split)

lemma add_frames_loop_keeps [keeps]:
  "queues_inv b s \<Longrightarrow> post (inv_snd b) (add_frames_loop ty shift sz p s)"
proof (induction ty shift sz p s rule: add_frames_loop.induct)
  case (1 ty shift sz p s)
  have "post (inv_snd b) (add_frames_loop ty shift (sz - 4096) p s2)"
    if "add_frame_to_process p ty s = Some (r, s1)" "\<not> r < 0" "sz - 4096 > 0" "queues_inv b s2"
      "(if shift then upd_proc p (\<lambda>x. x\<lparr>stack_shift := stack_shift x + 1\<rparr>) s1 else Some s1) = Some s2"
    for r s1 s2
    using 1(1) [OF that(1) refl that(2) that(5,3,4)] .
  then show ?case using 1(2)
    by (subst add_frames_loop.simps)
      (auto intro!: post_bind [OF add_frame_keeps] post_bind [OF upd_proc_keeps])
qed

lemma allocate_final_keeps [keeps]:
  "queues_inv b s \<Longrightarrow> post (inv_snd b) (allocate_memory_final lo i j d n s)"
  by (auto simp: allocate_memory_final_def Let_def intro!: keeps split: option.split)

lemma add_frames_process_keeps [keeps]:
  "queues_inv b s \<Longrightarrow> post (inv_snd b) (add_frames_process p c h z s)"
  by (auto simp: add_frames_process_def intro!: keeps)

lemma process_frames_keeps [keeps]:
  "queues_inv b s \<Longrightarrow> post (inv_snd b) (process_frames_alloc p s)"
  by (auto simp: process_frames_alloc_def intro!: keeps)

lemma process_memory_allocator_keeps [keeps]:
  "queues_inv b s \<Longrightarrow> post (inv_snd b) (process_memory_allocator p sz s)"
  by (auto simp: process_memory_allocator_def Let_def intro!: keeps split: option.split)

section \<open>Loading a program\<close>

definition aligned :: "u64 \<Rightarrow> bool" where
  "aligned p \<longleftrightarrow> take_bit 12 p = 0"

lemma in_page_base:
  assumes "aligned p" "in_page p a"
  shows "p = a AND NOT (mask 12)"
proof -
  define off where "off = a - p"
  have "off < 2 ^ 12" using assms(2) by (simp add: off_def in_page_def FRAME_SIZE_def)
  then have off: "take_bit 12 off = off" by (simp add: take_bit_eq_mod mod_word_less)
  have "\<not> bit p n \<or> \<not> bit off n" for n
  proof (cases "n < 12")
    case True
    then show ?thesis using assms(1) bit_take_bit_iff [of 12 p n] by (simp add: aligned_def)
  next
    case False
    then show ?thesis using off bit_take_bit_iff [of 12 off n] by simp
  qed
  then have "a = p OR off" using disjunctive_add [of p off] by (simp add: off_def)
  moreover have "(p OR off) AND NOT (mask 12) = p"
  proof (rule bit_word_eqI)
    fix n
    assume "n < LENGTH(64)"
    then show "bit ((p OR off) AND NOT (mask 12)) n = bit p n"
      using off assms(1) bit_take_bit_iff [of 12 off n] bit_take_bit_iff [of 12 p n]
      by (auto simp: bit_simps aligned_def)
  qed
  ultimately show ?thesis by simp
qed

lemma in_page_unique: "aligned p \<Longrightarrow> aligned q \<Longrightarrow> in_page p a \<Longrightarrow> in_page q a \<Longrightarrow> p = q"
  using in_page_base by metis

lemma in_page_self [simp]: "in_page p p"
  by (simp add: in_page_def FRAME_SIZE_def)

lemma in_page_pte: "i < 512 \<Longrightarrow> in_page tbl (pte_addr tbl i)"
proof -
  assume i: "i < 512"
  have "unat (8 * of_nat i :: u64) = 8 * i"
    using i by (simp add: unat_word_ariths unat_of_nat)
  then show ?thesis using i by (simp add: in_page_def pte_addr_def FRAME_SIZE_def word_less_nat_alt)
qed

text \<open>The effect of one turn of \<open>allocate_frames\<close> while it copies the program.\<close>

lemma copy_turn:
  assumes "mem m (mem_ptr m) \<noteq> 0" "0 \<le> left"
  obtains m1 p where "allocate_frames tbl i (Suc n) (True, data, left) m =
      allocate_frames tbl (Suc i) n (True, data + FRAME_SIZE, left - 4096) m1"
    "mem_ptr m1 = mem m (mem_ptr m)"
    "mem m1 (pte_addr tbl i) = link_pte (flags_set p True True True True) (mem_ptr m)"
    "\<And>a. a \<noteq> pte_addr tbl i \<Longrightarrow> mem m1 a = (if in_page (mem_ptr m) a then mem m (data + (a - mem_ptr m)) else mem m a)"
proof -
  let ?m = "memcpy_frame (mem_ptr m) data (m\<lparr>mem_ptr := mem m (mem_ptr m)\<rparr>)"
  let ?p = "mem ?m (pte_addr tbl i)"
  let ?m1 = "?m\<lparr>mem := (mem ?m)(pte_addr tbl i := link_pte (flags_set ?p True True True True) (mem_ptr m))\<rparr>"
  have "allocate_frames tbl i (Suc n) (True, data, left) m =
      allocate_frames tbl (Suc i) n (True, data + FRAME_SIZE, left - 4096) ?m1"
    using assms by (simp add: get_frame_def upd_pte_def configure_KILO)
  then show thesis by (rule that) (simp_all add: memcpy_frame_def)
qed

text \<open>
  The free list starts with the frames \<open>fs\<close>; neither they nor the page table hold the program
  from \<open>data\<close> on.
\<close>

definition load_setup :: "u64 \<Rightarrow> u64 \<Rightarrow> u64 list \<Rightarrow> u64 list \<Rightarrow> u64 \<Rightarrow> memory \<Rightarrow> bool" where
  "load_setup tbl data fs rest z m \<longleftrightarrow>
     chain (mem m) (mem_ptr m) (fs @ rest) z \<and> distinct (tbl # fs @ rest @ [z]) \<and>
     (\<forall>g \<in> set (tbl # fs @ rest @ [z]). aligned g) \<and>
     (\<forall>k < 4096 * length fs. \<forall>g \<in> set (tbl # fs). \<not> in_page g (data + of_nat k))"

lemma in_page_offset: "in_page p a \<Longrightarrow> \<exists>k < 4096. a = p + of_nat k"
  by (rule exI [of _ "unat (a - p)"]) (simp add: in_page_def FRAME_SIZE_def word_less_nat_alt)

lemma load_setup_step:
  assumes "load_setup tbl data (f # fs) rest z m" "i < 512" "mem_ptr m1 = mem m f"
    "\<And>a. a \<noteq> pte_addr tbl i \<Longrightarrow> mem m1 a = (if in_page f a then mem m (data + (a - f)) else mem m a)"
  shows "load_setup tbl (data + FRAME_SIZE) fs rest z m1"
proof -
  have al: "aligned g" if "g \<in> set (tbl # (f # fs) @ rest @ [z])" for g
    using assms(1) that by (auto simp: load_setup_def)
  have d: "distinct (tbl # (f # fs) @ rest @ [z])" using assms(1) by (simp add: load_setup_def)
  have "mem m1 g = mem m g" if "g \<in> set (fs @ rest @ [z])" for g
  proof -
    have "g \<noteq> f" "g \<noteq> tbl" using d that by auto
    moreover have "in_page g g" "in_page tbl (pte_addr tbl i)" using in_page_pte [OF assms(2)] by auto
    ultimately have "\<not> in_page f g" "g \<noteq> pte_addr tbl i"
      using in_page_unique al that by (metis Un_iff list.set_intros(1,2) set_append)+
    then show ?thesis using assms(4) by simp
  qed
  then have "chain (mem m1) (mem_ptr m1) (fs @ rest) z"
    using assms(1,3) chain_cong [of "fs @ rest" z "mem m1" "mem m"] by (simp add: load_setup_def)
  moreover have "\<not> in_page g (data + FRAME_SIZE + of_nat k)" if "k < 4096 * length fs" "g \<in> set (tbl # fs)" for k g
  proof -
    have "k + 4096 < 4096 * length (f # fs)" using that(1) by simp
    moreover have "data + of_nat (k + 4096) = data + FRAME_SIZE + of_nat k" by (simp add: FRAME_SIZE_def)
    ultimately show ?thesis using assms(1) that(2) unfolding load_setup_def by (metis list.set_intros(1,2) set_ConsD)
  qed
  ultimately show ?thesis using assms(1) by (auto simp: load_setup_def)
qed

lemma load_frames:
  assumes "load_setup tbl data fs rest z m" "i + length fs \<le> 512" "4096 * (int (length fs) - 1) \<le> left"
  shows "\<exists>m'. allocate_frames tbl i (length fs) (True, data, left) m =
      Some (Some (True, data + of_nat (4096 * length fs), left - 4096 * int (length fs)), m') \<and>
    (\<forall>k < length fs. \<exists>p. mem m' (pte_addr tbl (i + k)) = link_pte (flags_set p True True True True) (fs ! k)) \<and>
    (\<forall>k < length fs. \<forall>a. in_page (fs ! k) a \<longrightarrow> mem m' a = mem m (data + of_nat (4096 * k) + (a - fs ! k))) \<and>
    (\<forall>a. (\<forall>g \<in> set fs. \<not> in_page g a) \<longrightarrow> (\<forall>j < length fs. a \<noteq> pte_addr tbl (i + j)) \<longrightarrow> mem m' a = mem m a) \<and>
    chain (mem m') (mem_ptr m') rest z"
  using assms
proof (induction fs arbitrary: i data left m)
  case Nil
  then show ?case by (auto simp: load_setup_def)
next
  case (Cons f fs)
  note st = Cons.prems(1)
  have f: "mem_ptr m = f" "mem m (mem_ptr m) \<noteq> 0" and left: "0 \<le> left" and i: "i < 512"
    using Cons.prems by (auto simp: load_setup_def)
  obtain m1 p where m1: "allocate_frames tbl i (Suc (length fs)) (True, data, left) m =
      allocate_frames tbl (Suc i) (length fs) (True, data + FRAME_SIZE, left - 4096) m1"
    "mem_ptr m1 = mem m f"
    "mem m1 (pte_addr tbl i) = link_pte (flags_set p True True True True) f"
    "\<And>a. a \<noteq> pte_addr tbl i \<Longrightarrow> mem m1 a = (if in_page f a then mem m (data + (a - f)) else mem m a)"
    using copy_turn [OF f(2) left, of tbl i "length fs" data] unfolding f(1) by metis
  note st1 = load_setup_step [OF st i m1(2,4)]
  obtain m' where m': "allocate_frames tbl (Suc i) (length fs) (True, data + FRAME_SIZE, left - 4096) m1 =
      Some (Some (True, data + FRAME_SIZE + of_nat (4096 * length fs), left - 4096 - 4096 * int (length fs)), m')"
    "\<forall>k < length fs. \<exists>p. mem m' (pte_addr tbl (Suc i + k)) = link_pte (flags_set p True True True True) (fs ! k)"
    "\<forall>k < length fs. \<forall>a. in_page (fs ! k) a \<longrightarrow> mem m' a = mem m1 (data + FRAME_SIZE + of_nat (4096 * k) + (a - fs ! k))"
    "\<forall>a. (\<forall>g \<in> set fs. \<not> in_page g a) \<longrightarrow> (\<forall>j < length fs. a \<noteq> pte_addr tbl (Suc i + j)) \<longrightarrow> mem m' a = mem m1 a"
    "chain (mem m') (mem_ptr m') rest z"
    using Cons.IH [OF st1, of "Suc i" "left - 4096"] Cons.prems(2,3) by auto
  have al: "aligned g" "g \<noteq> tbl" if "g \<in> set (f # fs)" for g
    using st that by (auto simp: load_setup_def)
  have off: "\<not> in_page g (pte_addr tbl j)" if "g \<in> set (f # fs)" "j < 512" for g j
    using in_page_unique [of g tbl] in_page_pte [OF that(2)] al that(1) st
    by (auto simp: load_setup_def)
  have 1: "\<exists>p. mem m' (pte_addr tbl (i + k)) = link_pte (flags_set p True True True True) ((f # fs) ! k)"
    if "k < Suc (length fs)" for k
  proof (cases k)
    case 0
    have "mem m' (pte_addr tbl i) = mem m1 (pte_addr tbl i)"
      using m'(4) off [OF _ i] pte_addr_eq_iff [OF i] Cons.prems(2) by auto
    then show ?thesis using 0 m1(3) by auto
  next
    case (Suc k')
    then show ?thesis using m'(2) that by auto
  qed
  have 2: "mem m' a = mem m (data + of_nat (4096 * k) + (a - (f # fs) ! k))"
    if k: "k < Suc (length fs)" and a: "in_page ((f # fs) ! k) a" for k a
  proof (cases k)
    case 0
    have nf: "\<not> in_page g a" if "g \<in> set fs" for g
      using in_page_unique [of f g a] a 0 al that st by (auto simp: load_setup_def)
    have nt: "a \<noteq> pte_addr tbl j" if "j < 512" for j using off [of f j] that a 0 by auto
    have "mem m' a = mem m1 a" using m'(4) nf nt Cons.prems(2) by auto
    then show ?thesis using m1(4) [OF nt [OF i]] a 0 by simp
  next
    case (Suc k')
    have k': "k' < length fs" "in_page (fs ! k') a" using k a Suc by auto
    obtain r where r: "r < 4096" "a = fs ! k' + of_nat r" using in_page_offset [OF k'(2)] by blast
    let ?q = "4096 * k + r"
    have q: "data + FRAME_SIZE + of_nat (4096 * k') + (a - fs ! k') = data + of_nat ?q"
      using r(2) Suc by (simp add: FRAME_SIZE_def)
    have "?q < 4096 * length (f # fs)" using k r(1) by simp
    then have "\<not> in_page f (data + of_nat ?q)" "\<not> in_page tbl (data + of_nat ?q)"
      using st unfolding load_setup_def by (metis list.set_intros(1,2))+
    then have "mem m1 (data + of_nat ?q) = mem m (data + of_nat ?q)"
      using m1(4) in_page_pte [OF i, of tbl] by metis
    then show ?thesis using m'(3) k' q r(2) Suc by (simp add: add.assoc)
  qed
  have 3: "mem m' a = mem m a" if "\<forall>g \<in> set (f # fs). \<not> in_page g a" "\<forall>j < Suc (length fs). a \<noteq> pte_addr tbl (i + j)" for a
  proof -
    have "mem m' a = mem m1 a" using m'(4) that by (metis add_Suc_right add_Suc list.set_intros(2) not_less_eq)
    then show ?thesis using m1(4) [of a] that by force
  qed
  have "data + FRAME_SIZE + of_nat (4096 * length fs) = data + of_nat (4096 * length (f # fs))"
    by (simp add: FRAME_SIZE_def algebra_simps)
  then show ?case using m1(1) m'(1,5) 1 2 3 by (auto simp: algebra_simps)
qed

lemma find_link_aligned: "aligned f \<Longrightarrow> f < 2 ^ 56 \<Longrightarrow> find_pte_adress (link_pte p f) = f"
proof -
  assume f: "aligned f" "f < 2 ^ 56"
  have "take_bit 56 f = f" using f(2) by (simp add: take_bit_eq_mod mod_word_less)
  then show ?thesis using in_page_base [OF f(1) in_page_self] by (simp add: find_link_pte_eq)
qed

lemma in_page_add: "r < 4096 \<Longrightarrow> in_page p (p + of_nat r)"
  by (simp add: in_page_def FRAME_SIZE_def word_less_nat_alt unat_of_nat)

text \<open>The definitions by which the allocation of process memory is evaluated on concrete states.\<close>

lemmas alloc_eval = process_memory_allocator_def upd_proc_def create_page_table_k_def create_page_table_def
  get_frame_def configure_page_table_linked_list_entry_def malloc_def alloc_ok_def put_lvl1_def
  add_frames_process_def add_frames_loop.simps add_frame_to_process_def code_size_def int32_id
  add_child_node_page_table_def PT_SIZE_def STACK_FRAME_SIZE_def HEAP_FRAME_SIZE_def SHARED_FRAME_SIZE_def
  bump_usage_def has_room_def upd_pte_k_def upd_pte_def configure_KILO memset_frame_def memcpy_frame_def
  process_frames_alloc_def allocate_memory_final_def in_page_def FRAME_SIZE_def pte_addr_def USERSPACE_def Let_def

text \<open>
  C24.  Loading a program: the entries of the level 0 table map the first free frames for the user,
  in order, readable, writable and executable, and these frames hold the program image, page by
  page; the free list goes on behind them.
\<close>

theorem program_is_loaded:
  assumes "load_setup tbl data fs rest z m" "i + length fs \<le> 512"
    "4096 * (int (length fs) - 1) \<le> left" "\<forall>f \<in> set fs. f < 2 ^ 56"
  shows "\<exists>w m'. allocate_frames tbl i (length fs) (True, data, left) m = Some (Some w, m') \<and>
    chain (mem m') (mem_ptr m') rest z \<and>
    (\<forall>k < length fs. let e = mem m' (pte_addr tbl (i + k)) in
       valid e = 1 \<and> resU e = 1 \<and> read e = 1 \<and> write_bit e = 1 \<and> exec e = 1 \<and>
       find_pte_adress e = fs ! k \<and>
       (\<forall>r < 4096. mem m' (fs ! k + of_nat r) = mem m (data + of_nat (4096 * k + r))))"
proof -
  obtain w m' where m': "allocate_frames tbl i (length fs) (True, data, left) m = Some (Some w, m')"
    "\<And>k. k < length fs \<Longrightarrow> \<exists>p. mem m' (pte_addr tbl (i + k)) = link_pte (flags_set p True True True True) (fs ! k)"
    "\<And>k a. k < length fs \<Longrightarrow> in_page (fs ! k) a \<Longrightarrow> mem m' a = mem m (data + of_nat (4096 * k) + (a - fs ! k))"
    "chain (mem m') (mem_ptr m') rest z"
    using load_frames [OF assms(1-3)] by blast
  have "let e = mem m' (pte_addr tbl (i + k)) in
      valid e = 1 \<and> resU e = 1 \<and> read e = 1 \<and> write_bit e = 1 \<and> exec e = 1 \<and>
      find_pte_adress e = fs ! k \<and>
      (\<forall>r < 4096. mem m' (fs ! k + of_nat r) = mem m (data + of_nat (4096 * k + r)))"
    if k: "k < length fs" for k
  proof -
    obtain p where e: "mem m' (pte_addr tbl (i + k)) = link_pte (flags_set p True True True True) (fs ! k)"
      using m'(2) [OF k] by blast
    have "find_pte_adress (link_pte q (fs ! k)) = fs ! k" for q
      using assms(1,4) k by (intro find_link_aligned) (auto simp: load_setup_def)
    moreover have "mem m' (fs ! k + of_nat r) = mem m (data + of_nat (4096 * k + r))" if "r < 4096" for r
      using m'(3) [OF k in_page_add [OF that]] by (simp add: add.assoc)
    ultimately show ?thesis by (simp only: Let_def e) simp
  qed
  then show ?thesis using m'(1,4) by blast
qed

definition demo_load :: memory where
  "demo_load = \<lparr>mem = (\<lambda>_. 0)(0x80001000 := 0x80002000, 0x1000 := 7), mem_ptr = 0x80001000,
     free_memory_start = 0x80000000, memory_end = 0x80003000, curptr = 0, heap_end = 0\<rparr>"

theorem program_is_loaded_witness:
  "\<exists>w m'. allocate_frames 0x80000000 3 1 (True, 0x1000, 100) demo_load = Some (Some w, m') \<and>
     mem m' 0x80001000 = 7 \<and> find_pte_adress (mem m' (pte_addr 0x80000000 3)) = 0x80001000"
proof -
  have al: "aligned 0x80000000" "aligned 0x80001000" "aligned 0x80002000" "aligned 0x1000"
    by (simp_all add: aligned_def)
  have "\<not> in_page g (0x1000 + of_nat k)" if "k < 4096" "g \<in> {0x80000000, 0x80001000}" for g k
    using in_page_unique [of g "0x1000", OF _ al(4) _ in_page_add [OF that(1)]] that(2) al by auto
  then have "load_setup 0x80000000 0x1000 [0x80001000] [] 0x80002000 demo_load"
    using al by (auto simp: load_setup_def demo_load_def)
  from program_is_loaded [OF this, of 3 100] obtain w m' where
    "allocate_frames 0x80000000 3 1 (True, 0x1000, 100) demo_load = Some (Some w, m')"
    "find_pte_adress (mem m' (pte_addr 0x80000000 3)) = 0x80001000"
    "\<forall>r < 4096. mem m' (0x80001000 + of_nat r) = mem demo_load (0x1000 + of_nat r)"
    by (auto simp: Let_def)
  moreover from this(3) have "mem m' 0x80001000 = 7" by (auto simp: demo_load_def dest: spec [of _ 0])
  ultimately show ?thesis by blast
qed

text \<open>
  The frame behind the program is not cleared: in the turn that notices the end of the program
  the frame is neither copied to nor zeroed, so that the process gets it, readable and writable,
  with the data its previous owner left there.
\<close>

lemma frame_behind_program_not_cleared:
  assumes "mem m f \<noteq> 0" "mem_ptr m = f" "left < 0" "i < 512" "aligned f" "aligned tbl" "f \<noteq> tbl" "f < 2 ^ 56"
  shows "\<exists>m'. allocate_frames tbl i 1 (True, data, left) m = Some (Some (False, data, left), m') \<and>
    (\<forall>r < 4096. mem m' (f + of_nat r) = mem m (f + of_nat r)) \<and>
    (let e = mem m' (pte_addr tbl i) in
      valid e = 1 \<and> resU e = 1 \<and> read e = 1 \<and> write_bit e = 1 \<and> find_pte_adress e = f)"
proof -
  have "f + of_nat r \<noteq> pte_addr tbl i" if "r < 4096" for r
    using in_page_unique [OF assms(5,6) in_page_add [OF that]] in_page_pte [OF assms(4), of tbl] assms(7) by metis
  then show ?thesis
    using assms find_link_aligned [OF assms(5,8)]
    by (auto simp: get_frame_def upd_pte_def configure_KILO Let_def)
qed

end
