(* ===== verification/Shared_Memory.thy ===== *)
theory Shared_Memory
  imports Proc_Memory
begin

text \<open>
  Shared memory pages (\<open>src/kernel/process/memory_api.c\<close>) and the release of the memory of a
  process (\<open>free_process_memory\<close> of \<open>process_memory.c\<close>), which uses them.  A key is the string it
  points to.  \<open>hash_set\<close> and \<open>hash_del\<close> change the table even when they report a failed allocation
  (theory \<open>Hash_Table\<close>), so the model takes the report from \<open>alloc_ok\<close> and makes the change in both
  cases.  \<open>key_buffer\<close> is the one place where the size of a heap block matters.
\<close>

section \<open>The code\<close>

definition get_shared_page :: "cstring \<Rightarrow> kernel \<Rightarrow> shared_page option" where
  "get_shared_page page_string s = shared_memory s page_string"

definition get_shared_page_proc :: "process \<Rightarrow> cstring \<Rightarrow> ptr option" where
  "get_shared_page_proc x page_string =
     (case proc_shared_hash_table x of None \<Rightarrow> None | Some tbl \<Rightarrow> tbl page_string)"

definition map_address_for_process :: "nat \<Rightarrow> nat \<Rightarrow> nat \<Rightarrow> u64" where
  "map_address_for_process l2 l1 l0 =
     of_nat l2 * 0x40000000 + of_nat l1 * 0x200000 + of_nat l0 * 0x1000"

text \<open>
  \<open>malloc (strlen s)\<close> followed by \<open>strcpy\<close> into the block: the terminator needs one byte more than
  was asked for, and the copy overruns a block of exactly \<open>strlen s\<close> bytes.
\<close>

definition key_buffer :: "cstring \<Rightarrow> kernel \<Rightarrow> bytes option" where
  "key_buffer k s = strcpy (replicate (usable_size s (length (chars k))) 0) (c_str k)"

text \<open>The key of a table entry is the malloced copy, whose content is the string \<open>key\<close>.\<close>

definition create_shared_page :: "cstring \<Rightarrow> kernel \<Rightarrow> shared_page option \<times> kernel" where
  "create_shared_page k s =
     (case get_frame (mm s) of (fo, m) \<Rightarrow>
        (let page_frame = (case fo of None \<Rightarrow> 0 | Some f \<Rightarrow> f); s1 = s\<lparr>mm := m\<rparr> in
         case malloc s1 of
           (None, s2) \<Rightarrow> (None, s2)
         | (Some a, s2) \<Rightarrow>
             (case increment_shared_page_counter s2 of (n, s3) \<Rightarrow>
                (let info = \<lparr>page_key = k, page_address = page_frame, page_usage = 0, page_id = n\<rparr>;
                     s4 = s3\<lparr>shared_memory := (shared_memory s3)(k \<mapsto> info)\<rparr>
                 in case alloc_ok s4 of
                      (ok, s5) \<Rightarrow>
                        if \<not> ok then (None, s5\<lparr>mm := release_frame page_frame (mm s5)\<rparr>)
                        else (Some info, s5)))))"

definition link_shared_page_to_process ::
    "ptr \<Rightarrow> cstring \<Rightarrow> kernel \<Rightarrow> (int \<times> kernel) option" where
  "link_shared_page_to_process p k s =
     do {
       x \<leftarrow> procs s p;
       if shared_pages x = None then Some (- 1, s)
       else (case malloc s of
         (None, s1) \<Rightarrow> None
       | (Some a, s1) \<Rightarrow>
           (case malloc s1 of
              (None, s2) \<Rightarrow> Some (- 1, s2)
            | (Some b, s2) \<Rightarrow> do {
                key_buffer k s2;
                let node = \<lparr>sp_addr = a, sp_key = k, lvl2_index = 0, lvl1_index = 0, lvl0_index = 0,
                            sp_page_table = 0\<rparr>;
                let ys = the (shared_pages x) @ [node];
                s3 \<leftarrow> upd_proc p (shared_pages_update (\<lambda>_. Some ys)) s2;
                (r, s4) \<leftarrow> (case released_pages_list x of
                    rp # rest \<Rightarrow> do {
                      s4 \<leftarrow> upd_proc p (\<lambda>x. x\<lparr>released_pages_list := rest,
                        shared_pages := place_shared (r_lvl2_index rp) (r_lvl1_index rp)
                          (r_lvl0_index rp) (r_page_table rp) (shared_pages x)\<rparr>) s3;
                      Some (0, s4) }
                  | [] \<Rightarrow> add_frame_to_process p SHARED_PAGE s3);
                if r < 0 then Some (- 1, s4)
                else do {
                  x4 \<leftarrow> procs s4 p;
                  tbl \<leftarrow> proc_shared_hash_table x4;
                  s5 \<leftarrow> upd_proc p (proc_shared_hash_table_update (\<lambda>_. Some (tbl(k \<mapsto> a)))) s4;
                  let s6 = snd (alloc_ok s5);
                  info \<leftarrow> shared_memory s6 k;
                  let s7 = s6\<lparr>shared_memory := (shared_memory s6)
                    (k \<mapsto> info\<lparr>page_usage := page_usage info + 1\<rparr>)\<rparr>;
                  ys' \<leftarrow> shared_pages x4;
                  let tail = last ys';
                  s8 \<leftarrow> upd_pte_k (sp_page_table tail) (lvl0_index tail)
                    (\<lambda>e. configure_page_entry e (page_address info) True True False True KILO) s7;
                  Some (0, s8) } }))
     }"

text \<open>Creating the table and the list of a process that has none yet.\<close>

definition create_hash_table_and_shared_pages_wrapper ::
    "ptr \<Rightarrow> kernel \<Rightarrow> (int \<times> kernel) option" where
  "create_hash_table_and_shared_pages_wrapper p s =
     do {
       x \<leftarrow> procs s p;
       (r, s1) \<leftarrow> (if proc_shared_hash_table x \<noteq> None then Some (0 :: int, s)
          else (case malloc s of
            (None, s1) \<Rightarrow> Some (- 1, s1)
          | (Some a, s1) \<Rightarrow>
              (case alloc_ok s1 of
                 (ok, s2) \<Rightarrow> do {
                   s3 \<leftarrow> upd_proc p (proc_shared_hash_table_update (\<lambda>_. Some Map.empty)) s2;
                   Some (if ok then 0 else - 1, s3) })));
       if r \<noteq> 0 then Some (- 1, s1)
       else if shared_pages x \<noteq> None then Some (0, s1)
       else (case malloc s1 of
         (None, s2) \<Rightarrow> Some (- 1, s2)
       | (Some a, s2) \<Rightarrow> do {
           s3 \<leftarrow> upd_proc p (shared_pages_update (\<lambda>_. Some [])) s2;
           Some (0, s3) })
     }"

text \<open>The tail of the list gives the address that \<open>shm_create\<close> and \<open>shm_acquire\<close> return.\<close>

definition mapped_address :: "ptr \<Rightarrow> kernel \<Rightarrow> u64 option" where
  "mapped_address p s =
     do {
       x \<leftarrow> procs s p;
       ys \<leftarrow> shared_pages x;
       if ys = [] then None
       else Some (map_address_for_process (lvl2_index (last ys)) (lvl1_index (last ys))
                    (lvl0_index (last ys)))
     }"

text \<open>The result \<open>0\<close> is \<open>NULL\<close>.\<close>

definition shm_acquire :: "cstring option \<Rightarrow> kernel \<Rightarrow> (u64 \<times> kernel) option" where
  "shm_acquire ko s =
     (case ko of
        None \<Rightarrow> Some (0, s)
      | Some k \<Rightarrow>
          (case get_shared_page k s of
             None \<Rightarrow> Some (0, s)
           | Some info \<Rightarrow>
               (case get_current_process s of
                  None \<Rightarrow> Some (0, s)
                | Some p \<Rightarrow> do {
                    (r, s1) \<leftarrow> create_hash_table_and_shared_pages_wrapper p s;
                    if r < 0 then Some (0, s1)
                    else do {
                      x \<leftarrow> procs s1 p;
                      if get_shared_page_proc x k \<noteq> None then Some (0, s1)
                      else do {
                        (r', s2) \<leftarrow> link_shared_page_to_process p k s1;
                        if r' < 0 then Some (0, s2)
                        else do { a \<leftarrow> mapped_address p s2; Some (a, s2) } } } })))"

definition shm_create :: "cstring option \<Rightarrow> kernel \<Rightarrow> (u64 \<times> kernel) option" where
  "shm_create ko s =
     (case ko of
        None \<Rightarrow> Some (0, s)
      | Some k \<Rightarrow>
          (case malloc s of
             (None, s1) \<Rightarrow> None
           | (Some b, s1) \<Rightarrow> do {
               key_buffer k s1;
               if get_shared_page k s1 \<noteq> None then Some (0, s1)
               else (case create_shared_page k s1 of
                 (None, s2) \<Rightarrow> Some (0, s2)
               | (Some info, s2) \<Rightarrow>
                   (case get_current_process s2 of
                      None \<Rightarrow> Some (0, s2)
                    | Some p \<Rightarrow> do {
                        (r, s3) \<leftarrow> create_hash_table_and_shared_pages_wrapper p s2;
                        if r < 0 then Some (0, s3)
                        else do {
                          (r', s4) \<leftarrow> link_shared_page_to_process p k s3;
                          if r' < 0 then Some (0, s4)
                          else do { a \<leftarrow> mapped_address p s4; Some (a, s4) } } })) }))"

definition shm_release :: "cstring option \<Rightarrow> kernel \<Rightarrow> kernel option" where
  "shm_release ko s =
     (case ko of
        None \<Rightarrow> Some s
      | Some k \<Rightarrow>
          (case get_shared_page k s of
             None \<Rightarrow> Some s
           | Some info \<Rightarrow>
               (let custom = get_custom_release_process s;
                    po = (if custom = 0 then get_current_process s else Some custom);
                    s1 = (if custom = 0 then s else set_custom_release_process 0 s)
                in case po of
                     None \<Rightarrow> Some s1
                   | Some p \<Rightarrow> do {
                       x \<leftarrow> procs s1 p;
                       case proc_shared_hash_table x of
                         None \<Rightarrow> Some s1
                       | Some tbl \<Rightarrow>
                           (case get_shared_page_proc x k of
                              None \<Rightarrow> Some s1
                            | Some a \<Rightarrow>
                                (case malloc s1 of
                                   (None, s2) \<Rightarrow> None
                                 | (Some b, s2) \<Rightarrow> do {
                                     ys \<leftarrow> shared_pages x;
                                     nd \<leftarrow> List.find (\<lambda>n. sp_addr n = a) ys;
                                     let rp = \<lparr>r_lvl2_index = lvl2_index nd, r_lvl1_index = lvl1_index nd,
                                       r_lvl0_index = lvl0_index nd, r_page_table = sp_page_table nd\<rparr>;
                                     s3 \<leftarrow> upd_proc p (\<lambda>x. x\<lparr>
                                       released_pages_list := rp # released_pages_list x,
                                       shared_pages := Some (filter (\<lambda>n. sp_addr n \<noteq> a) ys)\<rparr>) s2;
                                     s4 \<leftarrow> upd_pte_k (sp_page_table nd) (lvl0_index nd)
                                       (\<lambda>e. Some (set_invalid e)) s3;
                                     s5 \<leftarrow> upd_pte_k (sp_page_table nd) (lvl0_index nd)
                                       (\<lambda>e. configure_page_entry e 0 False False False False KILO) s4;
                                     s6 \<leftarrow> upd_proc p
                                       (proc_shared_hash_table_update (\<lambda>_. Some (tbl(k := None)))) s5;
                                     case alloc_ok s6 of
                                       (ok, s7) \<Rightarrow>
                                         if \<not> ok then Some s7
                                         else if page_usage info - 1 = 0 then
                                           Some ((snd (alloc_ok (s7\<lparr>
                                             mm := release_frame (page_address info) (mm s7),
                                             shared_memory := (shared_memory s7)(k := None)\<rparr>))))
                                         else Some (s7\<lparr>shared_memory := (shared_memory s7)
                                           (k \<mapsto> info\<lparr>page_usage := page_usage info - 1\<rparr>)\<rparr>) })) })))"

section \<open>Releasing the memory of a process\<close>

definition free_frames_indexed :: "u64 \<Rightarrow> nat \<Rightarrow> nat \<Rightarrow> memory \<Rightarrow> memory" where
  "free_frames_indexed tbl start_index end_index m =
     fold (\<lambda>i m. release_frame (find_pte_adress (mem m (pte_addr tbl i))) m)
       [start_index..<end_index] m"

definition free_frames_page_table :: "page_table_link_list \<Rightarrow> memory \<Rightarrow> memory" where
  "free_frames_page_table n m =
     (if stack_usage n = 0 \<and> heap_usage n = 0 \<and> shared_memory_usage n = 0 then
        (if index n \<ge> 256 then m else free_frames_indexed (node_table n) 0 (usage n) m)
      else
        free_frames_indexed (node_table n) 256 (256 + shared_memory_usage n)
          (free_frames_indexed (node_table n) 128 (128 + heap_usage n)
            (free_frames_indexed (node_table n) 0 (stack_usage n) m)))"

text \<open>The loop over the shared pages of the process, by their keys.\<close>

fun release_all :: "ptr \<Rightarrow> cstring list \<Rightarrow> kernel \<Rightarrow> kernel option" where
  "release_all p [] s = Some s"
| "release_all p (k # ks) s =
     do {
       s1 \<leftarrow> shm_release (Some k) (set_custom_release_process p s);
       release_all p ks (set_custom_release_process 0 s1)
     }"

text \<open>
  The shared pages of the process.  The loop over \<open>released_pages_list\<close> frees its first node in
  every turn, so a second turn frees it twice.
\<close>

definition free_shared_pages :: "ptr \<Rightarrow> process \<Rightarrow> kernel \<Rightarrow> kernel option" where
  "free_shared_pages p x s =
     (if proc_shared_hash_table x = None then Some s
      else do {
        ys \<leftarrow> shared_pages x;
        s1 \<leftarrow> release_all p (map sp_key ys) s;
        x1 \<leftarrow> procs s1 p;
        if length (released_pages_list x1) > 1 then None else Some s1 })"

text \<open>The frames behind the page tables and the tables themselves.\<close>

definition free_page_tables :: "process \<Rightarrow> memory \<Rightarrow> memory option" where
  "free_page_tables x m =
     (if page_table_level_2 x = 0 then Some m
      else do {
        l \<leftarrow> page_tables_lvl_1_list x;
        let m1 = fold free_frames_page_table (lvl0_nodes l @ [lvl1 l]) m;
        Some (release_frame (sscratch_frame x)
          (release_frame (page_table_level_2 x) (release_frame (node_table (lvl1 l)) m1))) })"

definition free_process_memory :: "ptr \<Rightarrow> kernel \<Rightarrow> (int \<times> kernel) option" where
  "free_process_memory p s =
     do {
       x \<leftarrow> procs s p;
       s1 \<leftarrow> free_shared_pages p x (s\<lparr>nb_proc_running := nb_proc_running s - 1\<rparr>);
       x1 \<leftarrow> procs s1 p;
       m \<leftarrow> free_page_tables x1 (mm s1);
       case alloc_ok (s1\<lparr>mm := m, pid_table := (pid_table s1)(pid x1 := None)\<rparr>) of
         (ok, s2) \<Rightarrow>
           if \<not> ok then Some (- 1, s2)
           else
             (let s3 = snd (save_pid (pid x1) s2) in
              Some (0, s3\<lparr>procs := (procs s3)(p := None)\<rparr>))
     }"

section \<open>The process queues are left alone\<close>

lemma create_shared_page_keeps [keeps]:
  assumes "queues_inv b s"
  shows "queues_inv b (snd (create_shared_page k s))"
proof -
  obtain fo m where f: "get_frame (mm s) = (fo, m)" by fastforce
  obtain a s2 where m: "malloc (s\<lparr>mm := m\<rparr>) = (a, s2)" by fastforce
  then have "queues_inv b s2" using malloc_inv [of b "s\<lparr>mm := m\<rparr>"] assms by simp
  then show ?thesis using f m
    by (auto simp: create_shared_page_def Let_def increment_shared_page_counter_def alloc_ok_def
        split: option.split list.split)
qed

lemma shm_wrapper_keeps [keeps]:
  "queues_inv b s \<Longrightarrow> post (inv_snd b) (create_hash_table_and_shared_pages_wrapper p s)"
  by (auto simp: create_hash_table_and_shared_pages_wrapper_def intro!: keeps split: option.split)

lemma link_shared_page_keeps [keeps]:
  "queues_inv b s \<Longrightarrow> post (inv_snd b) (link_shared_page_to_process p k s)"
  by (auto simp: link_shared_page_to_process_def Let_def intro!: keeps split: option.split list.split)

lemma shm_acquire_keeps [keeps]: "queues_inv b s \<Longrightarrow> post (inv_snd b) (shm_acquire ko s)"
  by (auto simp: shm_acquire_def intro!: keeps split: option.split)

lemma shm_create_keeps [keeps]: "queues_inv b s \<Longrightarrow> post (inv_snd b) (shm_create ko s)"
  by (auto simp: shm_create_def intro!: keeps split: option.split)

lemma shm_release_keeps [keeps]: "queues_inv b s \<Longrightarrow> post (queues_inv b) (shm_release ko s)"
  by (auto simp: shm_release_def Let_def set_custom_release_process_def intro!: keeps split: option.split)

lemma release_all_keeps [keeps]: "queues_inv b s \<Longrightarrow> post (queues_inv b) (release_all p ks s)"
  by (induction ks arbitrary: s) (auto intro!: keeps)

lemma free_shared_pages_keeps [keeps]: "queues_inv b s \<Longrightarrow> post (queues_inv b) (free_shared_pages p x s)"
  by (auto simp: free_shared_pages_def intro!: keeps)

lemma free_process_memory_keeps [keeps]:
  "queues_inv b s \<Longrightarrow> post (inv_snd b) (free_process_memory p s)"
  by (auto simp: free_process_memory_def Let_def intro!: keeps queues_inv_free split: option.split)

section \<open>What the release of memory leaves alone\<close>

text \<open>The fields of a process that the scheduler and the process tree look at.\<close>

definition core_fields_of :: "process \<Rightarrow> (int \<times> int \<times> process_state \<times> qid option \<times> context_t option \<times> int)
    \<times> (ptr \<times> ptr \<times> ptr \<times> ptr \<times> int)" where
  "core_fields_of x = ((pid x, prio x, state x, next_prev x, context_process x, wake_time x),
     (parent x, children_head x, children_tail x, next_sibling x, return_value x))"

definition core :: "kernel \<Rightarrow> ptr \<Rightarrow> ((int \<times> int \<times> process_state \<times> qid option \<times> context_t option \<times> int)
    \<times> (ptr \<times> ptr \<times> ptr \<times> ptr \<times> int)) option" where
  "core s p = map_option core_fields_of (procs s p)"

definition same_core :: "kernel \<Rightarrow> kernel \<Rightarrow> bool" where
  "same_core s0 s \<longleftrightarrow> core s = core s0 \<and> queues s = queues s0 \<and> pid_table s = pid_table s0 \<and>
     current_pid s = current_pid s0 \<and> scheduler_main s = scheduler_main s0 \<and>
     started_user_process s = started_user_process s0 \<and> counter s = counter s0 \<and> cpu s = cpu s0 \<and>
     all_queues s = all_queues s0 \<and> semaphores s = semaphores s0"

lemma same_core_refl [simp]: "same_core s s"
  by (simp add: same_core_def)

lemma core_fields:
  "core (s\<lparr>mm := m\<rparr>) = core s" "core (s\<lparr>alloc_fails := fs\<rparr>) = core s" "core (s\<lparr>next_ptr := n\<rparr>) = core s"
  "core (s\<lparr>shared_memory := sh\<rparr>) = core s" "core (s\<lparr>custom_release_process := p\<rparr>) = core s"
  "core (s\<lparr>process_id_list := ids\<rparr>) = core s" "core (s\<lparr>nb_proc_running := nb\<rparr>) = core s"
  "core (s\<lparr>pid_table := tbl\<rparr>) = core s" "core (s\<lparr>spp := v\<rparr>) = core s"
  by (simp_all add: core_def fun_eq_iff)

lemma same_core_fields [simp]:
  "same_core s0 (s\<lparr>mm := m\<rparr>) = same_core s0 s" "same_core s0 (s\<lparr>alloc_fails := fs\<rparr>) = same_core s0 s"
  "same_core s0 (s\<lparr>next_ptr := n\<rparr>) = same_core s0 s" "same_core s0 (s\<lparr>shared_memory := sh\<rparr>) = same_core s0 s"
  "same_core s0 (s\<lparr>custom_release_process := p\<rparr>) = same_core s0 s"
  "same_core s0 (s\<lparr>process_id_list := ids\<rparr>) = same_core s0 s"
  "same_core s0 (s\<lparr>nb_proc_running := nb\<rparr>) = same_core s0 s" "same_core s0 (s\<lparr>spp := v\<rparr>) = same_core s0 s"
  by (simp_all add: same_core_def core_fields)

lemma same_core_alloc_ok [simp]: "same_core s0 (snd (alloc_ok s)) = same_core s0 s"
  by (simp add: alloc_ok_def split: list.split)

lemma same_core_alloc_ok_eq: "alloc_ok s = (r, s') \<Longrightarrow> same_core s0 s' = same_core s0 s"
  using same_core_alloc_ok [of s0 s] by simp

lemma same_core_malloc: "malloc s = (r, s') \<Longrightarrow> same_core s0 s' = same_core s0 s"
  by (auto simp: malloc_def alloc_ok_def split: list.splits if_splits)

lemma same_core_upd_proc:
  assumes "same_core s0 s" "\<And>x. core_fields_of (f x) = core_fields_of x"
  shows "post (same_core s0) (upd_proc p f s)"
proof (cases "procs s p")
  case (Some x)
  then have "core (s\<lparr>procs := (procs s)(p \<mapsto> f x)\<rparr>) = core s"
    using assms(2) by (simp add: core_def fun_eq_iff)
  then show ?thesis using assms(1) Some by (simp add: upd_proc_def same_core_def)
qed (simp add: upd_proc_def)

lemma same_core_upd_pte: "same_core s0 s \<Longrightarrow> post (same_core s0) (upd_pte_k t i g s)"
  by (auto simp: upd_pte_k_def post_def bind_eq_Some_conv)

lemma same_core_release: "same_core s0 s \<Longrightarrow> post (same_core s0) (shm_release ko s)"
  by (auto simp: shm_release_def Let_def set_custom_release_process_def same_core_malloc same_core_alloc_ok_eq
      intro!: post_bind [OF same_core_upd_proc] post_bind [OF same_core_upd_pte] keeps_values
      simp: core_fields_of_def split: option.split prod.split)

lemma same_core_release_all: "same_core s0 s \<Longrightarrow> post (same_core s0) (release_all p ks s)"
proof (induction ks arbitrary: s)
  case (Cons k ks)
  then show ?case
    by (auto simp: set_custom_release_process_def intro!: post_bind [OF same_core_release])
qed simp

text \<open>
  The effect of \<open>free_process_memory\<close> on the scheduler's view: the identifier is free again and the
  process is gone, unless removing it from the table failed.
\<close>

lemma free_process_memory_effect:
  assumes "free_process_memory p s = Some (r, s')"
  shows "\<exists>x. procs s p = Some x \<and> core s' = (if r < 0 then core s else (core s)(p := None)) \<and>
    same_core (s\<lparr>procs := procs s', pid_table := (pid_table s)(pid x := None)\<rparr>) s'"
proof -
  obtain x s1 x1 m where x: "procs s p = Some x"
    and s1: "free_shared_pages p x (s\<lparr>nb_proc_running := nb_proc_running s - 1\<rparr>) = Some s1"
    and x1: "procs s1 p = Some x1"
    and rest: "(case alloc_ok (s1\<lparr>mm := m, pid_table := (pid_table s1)(pid x1 := None)\<rparr>) of
         (ok, s2) \<Rightarrow>
           if \<not> ok then Some (- 1, s2)
           else
             (let s3 = snd (save_pid (pid x1) s2) in
              Some (0, s3\<lparr>procs := (procs s3)(p := None)\<rparr>))) = Some (r, s')"
    using assms unfolding free_process_memory_def by (auto simp: bind_eq_Some_conv)
  have sc: "same_core s s1"
    using s1 postD [OF same_core_release_all [of s "s\<lparr>nb_proc_running := nb_proc_running s - 1\<rparr>"]]
    by (auto simp: free_shared_pages_def bind_eq_Some_conv split: if_splits)
  have "core s p = core s1 p" using sc by (simp add: same_core_def)
  then have i: "pid x1 = pid x" using x x1 by (simp add: core_def core_fields_of_def)
  obtain s2 ok where s2: "alloc_ok (s1\<lparr>mm := m, pid_table := (pid_table s1)(pid x1 := None)\<rparr>) = (ok, s2)"
    by fastforce
  let ?t = "s\<lparr>pid_table := (pid_table s)(pid x := None)\<rparr>"
  have "same_core ?t (s1\<lparr>mm := m, pid_table := (pid_table s1)(pid x1 := None)\<rparr>)"
    using sc i by (simp add: same_core_def core_fields)
  then have sc2: "same_core ?t s2" using same_core_alloc_ok_eq [OF s2] by simp
  obtain mo s3 where "malloc s2 = (mo, s3)" by fastforce
  then have "same_core ?t (snd (save_pid (pid x1) s2))"
    using sc2 same_core_malloc [of s2 mo s3] by (simp add: save_pid_def split: option.split)
  then have "core s' = (if r < 0 then core s else (core s)(p := None)) \<and>
    same_core (s\<lparr>procs := procs s', pid_table := (pid_table s)(pid x := None)\<rparr>) s'"
    using rest s2 sc2
    by (auto simp: Let_def same_core_def core_fields fun_eq_iff core_def split: if_splits)
  then show ?thesis using x by blast
qed

end
