(* ===== verification/Scheduler.thy ===== *)
theory Scheduler
  imports Shared_Memory
begin

text \<open>
  The scheduler (\<open>src/kernel/process/scheduler.c\<close>) and the clock functions that put a process to
  sleep (\<open>src/kernel/process/timer_api.c\<close>).  \<open>scheduler k\<close> is a call of \<open>scheduler\<close> from a place
  whose continuation is \<open>k\<close>: afterwards the processor context holds \<open>k\<close> when the call returned, or
  the context of the process that was switched to, while \<open>k\<close> waits in the context of the caller.
\<close>

section \<open>The code\<close>

definition current_clock :: "kernel \<Rightarrow> u64" where
  "current_clock s = counter s"

text \<open>\<open>wake_time\<close> holds the negated time, so that the sleeper with the earliest time comes first.\<close>

definition get_next_wake_time :: "kernel \<Rightarrow> u64 option" where
  "get_next_wake_time s =
     (case q_top AsleepQ s of
        None \<Rightarrow> Some 0
      | Some p \<Rightarrow> do {
          x \<leftarrow> procs s p;
          let t = - (word_of_int (wake_time x) :: u64);
          if sint t \<ge> 0 then Some t else None })"

text \<open>The loop of \<open>awake_sleeping_process\<close>; every turn takes a process out of the asleep queue.\<close>

fun awake_loop :: "nat \<Rightarrow> kernel \<Rightarrow> kernel option" where
  "awake_loop n s =
     do {
       t \<leftarrow> get_next_wake_time s;
       if t \<noteq> 0 \<and> current_clock s > t then
         (case n of
            0 \<Rightarrow> None
          | Suc n' \<Rightarrow> do {
              (po, s1) \<leftarrow> q_out AsleepQ s;
              p \<leftarrow> po;
              s2 \<leftarrow> q_add prio p ActivatableQ s1;
              awake_loop n' s2 })
       else Some s
     }"

declare awake_loop.simps [simp del]

definition awake_sleeping_process :: "kernel \<Rightarrow> kernel option" where
  "awake_sleeping_process s = awake_loop (length (queues s AsleepQ)) s"

fun free_dead_loop :: "nat \<Rightarrow> kernel \<Rightarrow> kernel option" where
  "free_dead_loop n s =
     (if queues s DeadQ = [] then Some s
      else case n of
        0 \<Rightarrow> None
      | Suc n' \<Rightarrow> do {
          (po, s1) \<leftarrow> q_out DeadQ s;
          p \<leftarrow> po;
          (r, s2) \<leftarrow> free_process_memory p s1;
          free_dead_loop n' s2 })"

declare free_dead_loop.simps [simp del]

definition free_dead_process :: "kernel \<Rightarrow> kernel option" where
  "free_dead_process s = free_dead_loop (length (queues s DeadQ)) s"

text \<open>The two assembly routines that switch contexts.\<close>

definition save_context :: "kont \<Rightarrow> kernel \<Rightarrow> context_t" where
  "save_context k s = (cpu s)\<lparr>kont := k\<rparr>"

definition load_context :: "ptr \<Rightarrow> kernel \<Rightarrow> kernel option" where
  "load_context p s =
     do { x \<leftarrow> procs s p; c \<leftarrow> context_process x; Some (s\<lparr>cpu := c\<rparr>) }"

definition direct_context_swap :: "ptr \<Rightarrow> kernel \<Rightarrow> kernel option" where
  "direct_context_swap p s = load_context p s"

definition context_switch :: "kont \<Rightarrow> ptr \<Rightarrow> ptr \<Rightarrow> kernel \<Rightarrow> kernel option" where
  "context_switch k p q s =
     do {
       x \<leftarrow> procs s p;
       context_process x;
       s1 \<leftarrow> upd_proc p (context_process_update (\<lambda>_. Some (save_context k s))) s;
       load_context q s1
     }"

definition stay :: "kont \<Rightarrow> kernel \<Rightarrow> kernel" where
  "stay k s = s\<lparr>cpu := (cpu s)\<lparr>kont := k\<rparr>\<rparr>"

text \<open>
  The part of \<open>scheduler\<close> that runs when a process is active, after the sleeping processes were
  woken and the dead ones freed.
\<close>

definition swap_process :: "kont \<Rightarrow> ptr \<Rightarrow> ptr \<Rightarrow> kernel \<Rightarrow> kernel option" where
  "swap_process k cur tp s =
     do {
       x \<leftarrow> procs s cur;
       y \<leftarrow> procs s tp;
       if state x = ACTIF then
         (if prio y \<ge> prio x then do {
            (po, s1) \<leftarrow> q_out ActivatableQ s;
            (case setpid (pid y) s1 of
               (r, s2) \<Rightarrow>
                 if r < 0 then Some (stay k s2)
                 else do {
                   s3 \<leftarrow> upd_proc cur (state_update (\<lambda>_. ACTIVATABLE)) s2;
                   s4 \<leftarrow> upd_proc tp (state_update (\<lambda>_. ACTIF)) s3;
                   s5 \<leftarrow> q_add prio cur ActivatableQ s4;
                   context_switch k cur tp s5 })
          }
          else Some (stay k s))
       else if state x = KILLED then do {
         s1 \<leftarrow> q_add prio cur DeadQ s;
         (po, s2) \<leftarrow> q_out ActivatableQ s1;
         (case setpid (pid y) s2 of
            (r, s3) \<Rightarrow>
              if r < 0 then Some (stay k s3)
              else do {
                s4 \<leftarrow> upd_proc tp (state_update (\<lambda>_. ACTIF)) s3;
                direct_context_swap tp s4 })
       }
       else do {
         (po, s1) \<leftarrow> q_out ActivatableQ s;
         (case setpid (pid y) s1 of
            (r, s2) \<Rightarrow>
              if r < 0 then Some (stay k s2)
              else do {
                s3 \<leftarrow> upd_proc tp (state_update (\<lambda>_. ACTIF)) s2;
                context_switch k cur tp s3 })
       }
     }"

definition switch_from_main :: "kont \<Rightarrow> ptr \<Rightarrow> kernel \<Rightarrow> kernel option" where
  "switch_from_main k p s =
     load_context p (s\<lparr>scheduler_main := Some (save_context k s)\<rparr>)"

text \<open>The first process ever started, and the choice among the cases.\<close>

definition first_switch :: "kont \<Rightarrow> ptr \<Rightarrow> kernel \<Rightarrow> kernel option" where
  "first_switch k tp s =
     do {
       (po, s1) \<leftarrow> q_out ActivatableQ s;
       y \<leftarrow> procs s1 tp;
       (case setpid (pid y) s1 of
          (r, s2) \<Rightarrow>
            if r < 0 then Some (stay k s2)
            else do {
              s3 \<leftarrow> upd_proc tp (state_update (\<lambda>_. ACTIF)) s2;
              switch_from_main k tp (s3\<lparr>started_user_process := True\<rparr>) })
     }"

definition choose_process :: "kont \<Rightarrow> kernel \<Rightarrow> kernel option" where
  "choose_process k s =
     (if scheduler_main s = None then Some (stay k s)
      else if getpid s = - 1 then
        (case q_top ActivatableQ s of
           None \<Rightarrow> Some (stay k s)
         | Some tp \<Rightarrow> first_switch k tp s)
      else if \<not> started_user_process s then
        (case get_process_struct_of_pid (getpid s) s of
           None \<Rightarrow> Some (stay k s)
         | Some tp \<Rightarrow> switch_from_main k tp (s\<lparr>started_user_process := True\<rparr>))
      else
        (case (get_current_process s, q_top ActivatableQ s) of
           (Some cur, Some tp) \<Rightarrow> swap_process k cur tp s
         | _ \<Rightarrow> Some (stay k s)))"

definition scheduler :: "kont \<Rightarrow> kernel \<Rightarrow> kernel option" where
  "scheduler k s =
     do {
       s1 \<leftarrow> awake_sleeping_process (s\<lparr>spp := False\<rparr>);
       s2 \<leftarrow> free_dead_process s1;
       choose_process k s2
     }"

definition TIC_PER :: u64 where "TIC_PER = 50"

definition wait_clock :: "u64 \<Rightarrow> kernel \<Rightarrow> kernel option" where
  "wait_clock clock s =
     do {
       p \<leftarrow> get_current_process s;
       s1 \<leftarrow> upd_proc p (\<lambda>x. x\<lparr>wake_time := sint (- (current_clock s + clock)), state := ASLEEP\<rparr>) s;
       s2 \<leftarrow> q_add wake_time p AsleepQ s1;
       scheduler (KRet 0 []) s2
     }"

definition sleep :: "u64 \<Rightarrow> kernel \<Rightarrow> kernel option" where
  "sleep nbr_ms s = wait_clock (nbr_ms div TIC_PER) s"

text \<open>
  The timer registers (\<open>src/kernel/timer.c\<close>): \<open>mtime\<close> stands for the time counter that
  \<open>get_mtime\<close> and \<open>get_stime\<close> read, \<open>clk_freq\<close> for the frequency of the platform.
\<close>

definition set_machine_timer_interrupt :: "u64 \<Rightarrow> kernel \<Rightarrow> kernel" where
  "set_machine_timer_interrupt delta_ms s =
     s\<lparr>mtimecmp := mtime s + (delta_ms * clk_freq s) div 1000\<rparr>"

definition set_supervisor_timer_interrupt :: "u64 \<Rightarrow> kernel \<Rightarrow> kernel" where
  "set_supervisor_timer_interrupt delta_ms s =
     s\<lparr>stimecmp := mtime s + (delta_ms * clk_freq s) div 1000\<rparr>"

text \<open>The two values \<open>clock_settings\<close> writes through its arguments.\<close>

definition clock_settings :: "kernel \<Rightarrow> u64 \<times> u64" where
  "clock_settings s = (clk_freq s, clk_freq s div 1000 * TIC_PER)"

section \<open>Invariants of the scheduler\<close>

text \<open>
  What a property of the state has to survive for the scheduler to keep it: changes of the state
  and the context of a process, moves between the scheduler's own queues, the release of a dead
  process, and changes of the processor and of the scheduler's variables.
\<close>

locale sched_inv =
  fixes I :: "kernel \<Rightarrow> bool"
  assumes upd_state: "I s \<Longrightarrow> post I (upd_proc p (state_update f) s)"
    and upd_context: "I s \<Longrightarrow> post I (upd_proc p (context_process_update g) s)"
    and add_ready: "I s \<Longrightarrow> post I (q_add prio p ActivatableQ s)"
    and add_dead: "I s \<Longrightarrow> post I (q_add prio p DeadQ s)"
    and out: "I s \<Longrightarrow> q = ActivatableQ \<or> q = AsleepQ \<or> q = DeadQ \<Longrightarrow> post (\<lambda>(po, s'). I s') (q_out q s)"
    and free: "I s \<Longrightarrow> post (\<lambda>(r, s'). I s') (free_process_memory p s)"
    and fields [simp]: "I (s\<lparr>cpu := c\<rparr>) = I s" "I (s\<lparr>current_pid := i\<rparr>) = I s" "I (s\<lparr>spp := v\<rparr>) = I s"
      "I (s\<lparr>scheduler_main := m\<rparr>) = I s" "I (s\<lparr>started_user_process := v\<rparr>) = I s"
begin

lemma bind_state: "post I m \<Longrightarrow> (\<And>s. I s \<Longrightarrow> post I (f s)) \<Longrightarrow> post I (m \<bind> f)"
  by (rule post_bind)

lemma bind_pair:
  "post (\<lambda>(a, s). I s) m \<Longrightarrow> (\<And>a s. I s \<Longrightarrow> post I (f (a, s))) \<Longrightarrow> post I (m \<bind> f)"
  by (erule post_bind) auto

lemma case_setpid: "I s \<Longrightarrow> (\<And>r s'. I s' \<Longrightarrow> post I (f r s')) \<Longrightarrow> post I (case setpid i s of (r, s') \<Rightarrow> f r s')"
  by (auto simp: setpid_def)

lemmas inv_rules = bind_state bind_pair case_setpid keeps_values
  upd_state upd_context add_ready add_dead out free

lemma stay_post [simp]: "I (stay k s) = I s"
  by (simp add: stay_def)

lemma awake_loop_post: "I s \<Longrightarrow> post I (awake_loop n s)"
  by (induction n arbitrary: s; subst awake_loop.simps) (auto simp: Let_def intro!: inv_rules)

lemma free_dead_loop_post: "I s \<Longrightarrow> post I (free_dead_loop n s)"
  by (induction n arbitrary: s; subst free_dead_loop.simps) (auto intro!: inv_rules)

lemma context_post:
  "I s \<Longrightarrow> post I (load_context p s)"
  "I s \<Longrightarrow> post I (direct_context_swap p s)"
  "I s \<Longrightarrow> post I (context_switch k p q s)"
  "I s \<Longrightarrow> post I (switch_from_main k p s)"
  by (auto simp: load_context_def direct_context_swap_def context_switch_def switch_from_main_def
      intro!: inv_rules)

lemma choose_process_post: "I s \<Longrightarrow> post I (choose_process k s)"
  by (auto simp: choose_process_def first_switch_def swap_process_def intro!: inv_rules context_post
      split: option.split)

lemma scheduler_post: "I s \<Longrightarrow> post I (scheduler k s)"
  by (auto simp: scheduler_def awake_sleeping_process_def free_dead_process_def
      intro!: bind_state awake_loop_post free_dead_loop_post choose_process_post)

end

interpretation queues_sched: sched_inv "queues_inv b" for b
  by unfold_locales (auto intro!: keeps)

lemma stay_inv: "queues_inv b (stay k s) = queues_inv b s"
  by (rule queues_sched.stay_post)

lemmas scheduler_keeps [keeps] = queues_sched.scheduler_post
lemmas awake_loop_keeps = queues_sched.awake_loop_post
lemmas free_dead_loop_keeps = queues_sched.free_dead_loop_post

lemma wait_clock_keeps [keeps]: "queues_inv b s \<Longrightarrow> post (queues_inv b) (wait_clock c s)"
  by (auto simp: wait_clock_def intro!: keeps)

section \<open>The running process has the highest priority\<close>


definition queued :: "kernel \<Rightarrow> ptr set" where
  "queued s = (\<Union>q. set (queues s q))"

text \<open>What the scheduler's steps leave alone, and the identifier and priority of every process.\<close>

definition pid_prio :: "kernel \<Rightarrow> ptr \<Rightarrow> (int \<times> int) option" where
  "pid_prio s p = map_option (\<lambda>x. (pid x, prio x)) (procs s p)"

definition same_pids :: "kernel \<Rightarrow> kernel \<Rightarrow> bool" where
  "same_pids s s' \<longleftrightarrow> pid_prio s' = pid_prio s \<and> pid_table s' = pid_table s"

definition pids_ok :: "kernel \<Rightarrow> bool" where
  "pids_ok s \<longleftrightarrow> (\<forall>p i n. p \<in> queued s \<longrightarrow> pid_prio s p = Some (i, n) \<longrightarrow> 0 \<le> i \<and> pid_table s i = Some p)"

lemma same_pids_trans: "same_pids s s1 \<Longrightarrow> same_pids s1 s2 \<Longrightarrow> same_pids s s2"
  by (simp add: same_pids_def)

lemma pids_ok_mono: "pids_ok s \<Longrightarrow> same_pids s s' \<Longrightarrow> queued s' \<subseteq> queued s \<Longrightarrow> pids_ok s'"
  by (auto simp: pids_ok_def same_pids_def)

text \<open>
  \<open>dispatched s i A\<close>: seen from \<open>s\<close>, only the running process (identifier \<open>i\<close>), states, contexts
  and links changed, and the activatable processes are among \<open>A\<close>.
\<close>

definition dispatched :: "kernel \<Rightarrow> int \<Rightarrow> ptr set \<Rightarrow> kernel \<Rightarrow> bool" where
  "dispatched s i A s' \<longleftrightarrow> same_pids s s' \<and> current_pid s' = i \<and> set (queues s' ActivatableQ) \<subseteq> A"

lemma pid_prio_fields [simp]:
  "pid_prio (s\<lparr>queues := qs\<rparr>) = pid_prio s" "pid_prio (s\<lparr>cpu := c\<rparr>) = pid_prio s"
  "pid_prio (s\<lparr>scheduler_main := m\<rparr>) = pid_prio s" "pid_prio (s\<lparr>started_user_process := v\<rparr>) = pid_prio s"
  "pid_prio (s\<lparr>current_pid := i\<rparr>) = pid_prio s" "pid_prio (s\<lparr>spp := w\<rparr>) = pid_prio s"
  by (simp_all add: pid_prio_def fun_eq_iff)

lemma pid_prio_upd [simp]:
  "procs s p = Some x \<Longrightarrow> pid x' = pid x \<Longrightarrow> prio x' = prio x \<Longrightarrow>
   pid_prio (s\<lparr>procs := (procs s)(p \<mapsto> x')\<rparr>) = pid_prio s"
  "procs s p = Some x \<Longrightarrow> pid x' = pid x \<Longrightarrow> prio x' = prio x \<Longrightarrow>
   pid_prio (s\<lparr>procs := (procs s)(p \<mapsto> x'), queues := qs\<rparr>) = pid_prio s"
  "procs s p = Some x \<Longrightarrow> pid x' = pid x \<Longrightarrow> prio x' = prio x \<Longrightarrow>
   pid_prio (s\<lparr>queues := qs, procs := (procs s)(p \<mapsto> x')\<rparr>) = pid_prio s"
  by (simp_all add: pid_prio_def fun_eq_iff)

lemma dispatched_upd_proc:
  "dispatched s0 i A s \<Longrightarrow> (\<And>x. pid (f x) = pid x) \<Longrightarrow> (\<And>x. prio (f x) = prio x) \<Longrightarrow>
   post (dispatched s0 i A) (upd_proc p f s)"
  by (auto simp: upd_proc_def dispatched_def same_pids_def split: option.splits)

lemma dispatched_q_out:
  "dispatched s0 i A s \<Longrightarrow> post (\<lambda>(po, s'). dispatched s0 i A s') (q_out q s)"
  by (auto simp: q_out_def upd_proc_def dispatched_def same_pids_def post_def
      bind_eq_Some_conv Let_def dest: in_set_butlastD split: option.splits if_splits)

lemma dispatched_q_add:
  "dispatched s0 i A s \<Longrightarrow> (q = ActivatableQ \<Longrightarrow> p \<in> A) \<Longrightarrow> post (dispatched s0 i A) (q_add f p q s)"
  by (auto simp: q_add_def dispatched_def same_pids_def post_def
      bind_eq_Some_conv split: option.splits if_splits)

lemma dispatched_context:
  "dispatched s0 i A s \<Longrightarrow> post (dispatched s0 i A) (load_context p s)"
  "dispatched s0 i A s \<Longrightarrow> post (dispatched s0 i A) (direct_context_swap p s)"
  "dispatched s0 i A s \<Longrightarrow> post (dispatched s0 i A) (context_switch k p q s)"
  "dispatched s0 i A s \<Longrightarrow> post (dispatched s0 i A) (switch_from_main k p s)"
  by (auto simp: load_context_def direct_context_swap_def context_switch_def switch_from_main_def upd_proc_def
      dispatched_def same_pids_def post_def bind_eq_Some_conv split: option.splits)

lemma dispatched_start [simp]: "dispatched s0 i A (s\<lparr>started_user_process := v\<rparr>) = dispatched s0 i A s"
  by (simp add: dispatched_def same_pids_def)

lemmas dispatched_binds =
  post_bind [OF dispatched_upd_proc] post_bind [OF dispatched_q_add] dispatched_context

lemma q_out_effect:
  "q_out q s = Some (po, s') \<Longrightarrow> same_pids s s' \<and> queues s' = (queues s)(q := butlast (queues s q)) \<and> po = q_top q s"
  by (auto simp: q_out_def q_top_def upd_proc_def same_pids_def bind_eq_Some_conv Let_def
      split: option.splits if_splits)

lemma ready_max:
  assumes "ready_sorted s" "q_top ActivatableQ s = Some t" "pid_prio s t = Some (i, n)"
    "p \<in> set (queues s ActivatableQ)" "pid_prio s p = Some (j, m)"
  shows "m \<le> n"
proof -
  obtain ys where q: "queues s ActivatableQ = ys @ [t]"
    using assms(2) by (auto simp: q_top_def split: if_splits) (metis append_butlast_last_id)
  obtain x y where "procs s t = Some y" "prio y = n" "procs s p = Some x" "prio x = m"
    using assms(3,5) by (auto simp: pid_prio_def)
  moreover have "x \<in> set (List.map_filter (procs s) (ys @ [t]))"
    using \<open>procs s p = Some x\<close> assms(4) q by (force simp: List.map_filter_def)
  ultimately show ?thesis
    using assms(1) q by (auto simp: ready_sorted_def List.map_filter_def sorted_append)
qed

text \<open>No process in the queue \<open>ActivatableQ\<close> has a higher priority than the running one.\<close>

definition runs_highest :: "kernel \<Rightarrow> bool" where
  "runs_highest s \<longleftrightarrow>
     (\<forall>r x. get_current_process s = Some r \<longrightarrow> procs s r = Some x \<longrightarrow>
        (\<forall>p \<in> set (queues s ActivatableQ). \<forall>y. procs s p = Some y \<longrightarrow> prio y \<le> prio x))"

lemma runs_highest_alt:
  "runs_highest s \<longleftrightarrow> (\<forall>r i n. pid_table s (current_pid s) = Some r \<longrightarrow> pid_prio s r = Some (i, n) \<longrightarrow>
     (\<forall>p \<in> set (queues s ActivatableQ). \<forall>j m. pid_prio s p = Some (j, m) \<longrightarrow> m \<le> n))"
  by (auto simp: runs_highest_def get_current_process_def getpid_def pid_prio_def)

lemma runs_highest_top:
  assumes "ready_sorted s" "q_top ActivatableQ s = Some t" "same_pids s s'" "pid_prio s t = Some (i, n)"
    "pid_table s' (current_pid s') = Some t"
    "\<And>p. p \<in> set (queues s' ActivatableQ) \<Longrightarrow> p \<in> set (queues s ActivatableQ) \<or> (\<exists>j m. pid_prio s p = Some (j, m) \<and> m \<le> n)"
  shows "runs_highest s'"
  unfolding runs_highest_alt
proof (intro allI impI ballI)
  fix r i' n' p j m
  assume a: "pid_table s' (current_pid s') = Some r" "pid_prio s' r = Some (i', n')"
    "p \<in> set (queues s' ActivatableQ)" "pid_prio s' p = Some (j, m)"
  have "r = t" "n' = n" "pid_prio s p = Some (j, m)"
    using a assms(3,4,5) by (auto simp: same_pids_def)
  then show "m \<le> n'" using assms(6) [OF a(3)] ready_max [OF assms(1,2,4)] by auto
qed

lemma setpid_effect:
  assumes "0 \<le> i" "pid_table s i = Some t" "setpid i s = (r, s')"
  shows "\<not> r < 0 \<and> s' = s\<lparr>current_pid := i\<rparr>"
  using assms by (auto simp: setpid_def split: if_splits)

lemma top_tabled:
  assumes "pids_ok s" "q_top q s = Some t" "procs s t = Some y"
  shows "0 \<le> pid y \<and> pid_table s (pid y) = Some t"
proof -
  have "t \<in> set (queues s q)" using assms(2) by (auto simp: q_top_def split: if_splits)
  then have "t \<in> queued s" by (auto simp: queued_def)
  then show ?thesis using assms(1,3) by (auto simp: pids_ok_def pid_prio_def)
qed

lemma dispatched_highest:
  assumes s: "ready_sorted s" "pids_ok s" "q_top ActivatableQ s = Some t" "procs s t = Some y"
    and d: "dispatched s (pid y) A s'"
    and A: "\<And>p. p \<in> A \<Longrightarrow> p \<in> set (queues s ActivatableQ) \<or> (\<exists>x. procs s p = Some x \<and> prio x \<le> prio y)"
  shows "runs_highest s'"
proof (rule runs_highest_top [OF s(1,3)])
  show "same_pids s s'" using d by (simp add: dispatched_def)
  show "pid_prio s t = Some (pid y, prio y)" using s(4) by (simp add: pid_prio_def)
  show "pid_table s' (current_pid s') = Some t"
    using top_tabled [OF s(2-4)] d by (simp add: dispatched_def same_pids_def)
  show "p \<in> set (queues s ActivatableQ) \<or> (\<exists>j m. pid_prio s p = Some (j, m) \<and> m \<le> prio y)"
    if "p \<in> set (queues s' ActivatableQ)" for p
    using A [of p] that d by (fastforce simp: dispatched_def pid_prio_def)
qed

text \<open>Taking the next process out of the queue and making it the current one.\<close>

lemma dispatch_step:
  assumes s: "pids_ok s" "q_top ActivatableQ s = Some t" "procs s t = Some y"
    and s1: "same_pids s s1" "set (queues s1 ActivatableQ) \<subseteq> A" and sp: "setpid (pid y) s1 = (r, s2)"
  shows "\<not> r < 0 \<and> dispatched s (pid y) A s2"
  using top_tabled [OF s] s1 setpid_effect [OF _ _ sp, of t]
  by (auto simp: dispatched_def same_pids_def pid_prio_def fun_eq_iff)

lemma swap_keep:
  assumes s: "ready_sorted s" "q_top ActivatableQ s = Some t" "get_current_process s = Some cur"
    "procs s cur = Some x" "procs s t = Some y" "prio y < prio x"
  shows "runs_highest (stay k s)"
proof -
  have pp: "pid_prio s cur = Some (pid x, prio x)" "pid_prio s t = Some (pid y, prio y)"
    using s by (simp_all add: pid_prio_def)
  have "m \<le> prio x" if "p \<in> set (queues s ActivatableQ)" "pid_prio s p = Some (j, m)" for p j m
    using ready_max [OF s(1,2) pp(2) that] s(6) by simp
  then show ?thesis using s(3) pp(1)
    by (auto simp: runs_highest_alt stay_def get_current_process_def getpid_def pid_prio_def)
qed

lemma dispatch_highest:
  assumes s: "ready_sorted s" "pids_ok s" "q_top ActivatableQ s = Some t" "procs s t = Some y"
    and s1: "same_pids s s1" "queues s1 ActivatableQ = queues s ActivatableQ" "set (queues s ActivatableQ) \<subseteq> A"
    and A: "\<And>p. p \<in> A \<Longrightarrow> p \<in> set (queues s ActivatableQ) \<or> (\<exists>x. procs s p = Some x \<and> prio x \<le> prio y)"
    and f: "\<And>s3. dispatched s (pid y) A s3 \<Longrightarrow> post (dispatched s (pid y) A) (f s3)"
  shows "post runs_highest (q_out ActivatableQ s1 \<bind> (\<lambda>(po, s2). case setpid (pid y) s2 of (r, s3) \<Rightarrow>
        if r < 0 then Some (stay k s3) else f s3))"
proof (rule post_bind_value, clarify)
  fix po s2 assume s2: "q_out ActivatableQ s1 = Some (po, s2)"
  obtain r s3 where sp: "setpid (pid y) s2 = (r, s3)" by fastforce
  have "\<not> r < 0 \<and> dispatched s (pid y) A s3"
    by (rule dispatch_step [OF s(2-4) _ _ sp])
      (use q_out_effect [OF s2] s1 in \<open>auto simp: same_pids_def dest: in_set_butlastD\<close>)
  moreover from this f have "post (dispatched s (pid y) A) (f s3)" by blast
  then have "post runs_highest (f s3)" using dispatched_highest [OF s _ A] by (blast intro: post_mono)
  ultimately show "post runs_highest (case setpid (pid y) s2 of (r, s3) \<Rightarrow> if r < 0 then Some (stay k s3) else f s3)"
    using sp by simp
qed

lemma swap_highest:
  assumes s: "ready_sorted s" "pids_ok s" "q_top ActivatableQ s = Some t" "get_current_process s = Some cur"
  shows "post runs_highest (swap_process k cur t s)"
proof (cases "procs s cur"; cases "procs s t")
  fix x y assume x: "procs s cur = Some x" and y: "procs s t = Some y"
  let ?Q = "set (queues s ActivatableQ)"
  note go = dispatch_highest [OF s(1-3) y]
  consider (keep) "state x = ACTIF" "prio y < prio x" | (yield) "state x = ACTIF" "prio x \<le> prio y"
    | (dead) "state x = KILLED" | (blocked) "state x \<noteq> ACTIF" "state x \<noteq> KILLED" by force
  then show ?thesis
  proof cases
    case keep
    then show ?thesis using swap_keep [OF s(1,3,4) x y] x y by (simp add: swap_process_def)
  next
    case yield
    have "post runs_highest (q_out ActivatableQ s \<bind> (\<lambda>(po, s2). case setpid (pid y) s2 of (r, s3) \<Rightarrow>
        if r < 0 then Some (stay k s3) else do {
                   s3 \<leftarrow> upd_proc cur (state_update (\<lambda>_. ACTIVATABLE)) s3;
                   s4 \<leftarrow> upd_proc t (state_update (\<lambda>_. ACTIF)) s3;
                   s5 \<leftarrow> q_add prio cur ActivatableQ s4;
                   context_switch k cur t s5 }))"
      by (rule go [where A = "insert cur ?Q"])
        (use x yield in \<open>auto simp: same_pids_def intro!: dispatched_binds\<close>)
    then show ?thesis using x y yield by (simp add: swap_process_def)
  next
    case dead
    have "post runs_highest (q_out ActivatableQ s1 \<bind> (\<lambda>(po, s2). case setpid (pid y) s2 of (r, s3) \<Rightarrow>
        if r < 0 then Some (stay k s3) else do {
                s4 \<leftarrow> upd_proc t (state_update (\<lambda>_. ACTIF)) s3;
                direct_context_swap t s4 }))" if "q_add prio cur DeadQ s = Some s1" for s1
      by (rule go [where A = ?Q])
        (use that in \<open>auto simp: q_add_def bind_eq_Some_conv same_pids_def intro!: dispatched_binds split: if_splits\<close>)
    then show ?thesis using x y dead by (auto simp: swap_process_def intro!: post_bind_value [where 'a = kernel])
  next
    case blocked
    have "post runs_highest (q_out ActivatableQ s \<bind> (\<lambda>(po, s2). case setpid (pid y) s2 of (r, s3) \<Rightarrow>
        if r < 0 then Some (stay k s3) else do {
                s3 \<leftarrow> upd_proc t (state_update (\<lambda>_. ACTIF)) s3;
                context_switch k cur t s3 }))"
      by (rule go [where A = ?Q]) (auto simp: same_pids_def intro!: dispatched_binds)
    then show ?thesis using x y blocked by (simp add: swap_process_def)
  qed
qed (auto simp: swap_process_def)

text \<open>Waking sleepers and freeing dead processes keeps the table of identifiers in order.\<close>

definition same_env :: "kernel \<Rightarrow> kernel \<Rightarrow> bool" where
  "same_env s s' \<longleftrightarrow> scheduler_main s' = scheduler_main s \<and>
     started_user_process s' = started_user_process s \<and> current_pid s' = current_pid s"

lemma same_env_upd: "post (same_env s) (upd_proc p f s)"
  by (simp add: upd_proc_def same_env_def split: option.split)

lemma q_out_env:
  assumes "q_out q s = Some (po, s')"
  shows "same_env s s' \<and> queued s' \<subseteq> queued s \<and> (\<forall>p. po = Some p \<longrightarrow> p \<in> queued s)"
proof -
  have "same_env s s'"
    using assms by (auto simp: q_out_def upd_proc_def same_env_def bind_eq_Some_conv Let_def split: option.splits if_splits)
  moreover have "queues s' = (queues s)(q := butlast (queues s q))" "po = q_top q s"
    using q_out_effect [OF assms] by auto
  moreover from this have "set (queues s' q') \<subseteq> set (queues s q')" for q'
    by (auto dest: in_set_butlastD)
  then have "queued s' \<subseteq> queued s" unfolding queued_def by blast
  moreover have "p \<in> queued s" if "q_top q s = Some p" for p
  proof -
    have "p \<in> set (queues s q)" using that by (auto simp: q_top_def split: if_splits)
    then show ?thesis unfolding queued_def by blast
  qed
  ultimately show ?thesis by simp
qed

lemma q_add_env:
  "q_add f p q s = Some s' \<Longrightarrow> same_env s s' \<and> same_pids s s' \<and> queued s' = insert p (queued s)"
  by (auto simp: q_add_def same_env_def same_pids_def queued_def bind_eq_Some_conv split: if_splits)

lemma awake_loop_env:
  "post (\<lambda>s'. same_env s s' \<and> same_pids s s' \<and> queued s' \<subseteq> queued s) (awake_loop n s)"
proof (induction n arbitrary: s)
  case 0
  show ?case by (subst awake_loop.simps) (auto simp: same_env_def same_pids_def intro!: keeps_values)
next
  case (Suc n)
  have "post (\<lambda>s'. same_env s s' \<and> same_pids s s' \<and> queued s' \<subseteq> queued s) (awake_loop n s2)"
    if "q_out AsleepQ s = Some (Some p, s1)" "q_add prio p ActivatableQ s1 = Some s2" for p s1 s2
    using q_out_env [OF that(1)] q_add_env [OF that(2)] q_out_effect [OF that(1)]
    by (intro post_mono [OF Suc]) (auto simp: same_env_def same_pids_def)
  then show ?case
    by (subst awake_loop.simps) (auto simp: same_env_def same_pids_def Let_def intro!: post_bind_value)
qed

lemma free_dead_step:
  assumes c: "chained s" and ok: "pids_ok s" and o: "q_out DeadQ s = Some (Some p, s1)"
    and f: "free_process_memory p s1 = Some (r, s2)"
  shows "same_env s s2 \<and> pids_ok s2"
proof -
  have "queues_inv False s" using c by (simp add: queues_inv_def)
  then have "chained s1" using postD [OF q_out_keeps o] by (auto simp: queues_inv_def)
  moreover obtain x where x: "procs s1 p = Some x" "next_prev x = None" using q_out_unlinked [OF o] by blast
  ultimately have pq: "p \<notin> queued s1" using chainedD(4) [of s1 p x] by (auto simp: queued_def)
  note oe = q_out_env [OF o] q_out_effect [OF o]
  obtain x' where x': "procs s1 p = Some x'" and core: "core s2 = (if r < 0 then core s1 else (core s1)(p := None))"
    and sc: "same_core (s1\<lparr>procs := procs s2, pid_table := (pid_table s1)(pid x' := None)\<rparr>) s2"
    using free_process_memory_effect [OF f] by blast
  have pp: "pid_prio s2 q = pid_prio s1 q" if "q \<noteq> p" for q
  proof -
    have "core s2 q = core s1 q" using core that by simp
    then show ?thesis by (auto simp: core_def core_fields_of_def pid_prio_def map_option_case split: option.splits)
  qed
  have "pid_table s (pid x') = Some p"
  proof -
    have "pid_prio s1 p = Some (pid x', prio x')" using x' by (simp add: pid_prio_def)
    then have "pid_prio s p = Some (pid x', prio x')" using oe(2) by (simp add: same_pids_def)
    then show ?thesis using ok oe(1) by (auto simp: pids_ok_def)
  qed
  then have tp: "pid_table s1 (pid x') = Some p" using oe by (simp add: same_pids_def)
  have "pids_ok s2"
    unfolding pids_ok_def
  proof (intro allI impI)
    fix q i n assume q: "q \<in> queued s2" "pid_prio s2 q = Some (i, n)"
    have "q \<in> queued s1" using q(1) sc by (simp add: queued_def same_core_def)
    then have "q \<in> queued s" "q \<noteq> p" using oe pq by auto
    then have "0 \<le> i \<and> pid_table s1 i = Some q"
      using ok q(2) pp [of q] oe by (auto simp: pids_ok_def same_pids_def)
    then show "0 \<le> i \<and> pid_table s2 i = Some q" using sc tp \<open>q \<noteq> p\<close> by (auto simp: same_core_def)
  qed
  moreover have "same_env s s2" using oe sc by (simp add: same_env_def same_core_def)
  ultimately show ?thesis by simp
qed

lemma free_dead_loop_env:
  "chained s \<Longrightarrow> pids_ok s \<Longrightarrow> post (\<lambda>s'. same_env s s' \<and> pids_ok s') (free_dead_loop n s)"
proof (induction n arbitrary: s)
  case 0
  then show ?case by (subst free_dead_loop.simps) (auto simp: same_env_def)
next
  case (Suc n)
  have "post (\<lambda>s'. same_env s s' \<and> pids_ok s') (free_dead_loop n s2)"
    if a: "q_out DeadQ s = Some (Some p, s1)" "free_process_memory p s1 = Some (r, s2)" for p s1 r s2
  proof -
    have "queues_inv False s" using Suc.prems by (simp add: queues_inv_def)
    then have "chained s2"
      using postD [OF q_out_keeps a(1)] postD [OF free_process_memory_keeps a(2)] by (auto simp: queues_inv_def)
    then show ?thesis using free_dead_step [OF Suc.prems a]
      by (intro post_mono [OF Suc.IH]) (auto simp: same_env_def)
  qed
  then show ?case using Suc.prems
    by (subst free_dead_loop.simps) (auto simp: same_env_def intro!: post_bind_value)
qed

lemma first_switch_highest:
  assumes s: "ready_sorted s" "pids_ok s" "q_top ActivatableQ s = Some t"
  shows "post runs_highest (first_switch k t s)"
proof (cases "procs s t")
  case None
  then show ?thesis using s(3)
    by (auto simp: first_switch_def q_out_def q_top_def upd_proc_def Let_def split: if_splits)
next
  case (Some y)
  have "procs s2 t = Some (y\<lparr>next_prev := None\<rparr>)" if "q_out ActivatableQ s = Some (po, s2)" for po s2
    using that s(3) Some by (auto simp: q_out_def q_top_def upd_proc_def Let_def split: if_splits)
  then have "first_switch k t s = do {
      (po, s2) \<leftarrow> q_out ActivatableQ s;
      case setpid (pid y) s2 of
        (r, s3) \<Rightarrow>
          if r < 0 then Some (stay k s3)
          else do {
            s4 \<leftarrow> upd_proc t (state_update (\<lambda>_. ACTIF)) s3;
            switch_from_main k t (s4\<lparr>started_user_process := True\<rparr>) } }"
    by (cases "q_out ActivatableQ s") (auto simp: first_switch_def)
  then show ?thesis
    by (auto simp only: intro!: dispatch_highest [OF s Some, of s "set (queues s ActivatableQ)"] dispatched_binds)
      (simp_all add: same_pids_def)
qed

lemma choose_process_highest:
  assumes s: "ready_sorted s" "pids_ok s" "scheduler_main s \<noteq> None"
    and started: "current_pid s = - 1 \<or> started_user_process s"
  shows "post runs_highest (choose_process k s)"
proof (cases "q_top ActivatableQ s")
  case None
  then have "runs_highest (stay k s)" by (simp add: q_top_def runs_highest_def stay_def split: if_splits)
  then show ?thesis using s started None by (auto simp: choose_process_def getpid_def split: option.split)
next
  case (Some t)
  have none: "runs_highest (stay k s)" if "get_current_process s = None"
    using that by (simp add: runs_highest_def stay_def get_current_process_def getpid_def)
  then show ?thesis
    using s started Some first_switch_highest [OF s(1,2) Some] swap_highest [OF s(1,2) Some] none
    by (auto simp: choose_process_def getpid_def split: option.split)
qed

text \<open>
  C5.  When the scheduler returns, no activatable process has a higher priority than the running
  one.  The premises are the invariant of the queues, the table of identifiers being right for the
  processes in them, and the scheduler having been started; sleeping processes may become
  activatable and dead ones may be freed on the way.
\<close>

theorem scheduler_runs_highest:
  assumes "chained s" "ready_sorted s" "pids_ok s" "scheduler_main s \<noteq> None"
    and "current_pid s = - 1 \<or> started_user_process s" "scheduler k s = Some s'"
  shows "runs_highest s'"
proof -
  let ?s0 = "s\<lparr>spp := False\<rparr>"
  obtain s1 s2 where s1: "awake_loop (length (queues ?s0 AsleepQ)) ?s0 = Some s1"
    and s2: "free_dead_loop (length (queues s1 DeadQ)) s1 = Some s2"
    and s': "choose_process k s2 = Some s'"
    using assms(6) unfolding scheduler_def awake_sleeping_process_def free_dead_process_def bind_eq_Some_conv by blast
  have "queues_inv True s" using assms(1,2) by (simp add: queues_inv_def)
  then have "queues_inv True ?s0" by simp
  note i1 = postD [OF awake_loop_keeps [OF this] s1] and e1 = postD [OF awake_loop_env s1]
  note i2 = postD [OF free_dead_loop_keeps [OF i1] s2]
  have "pids_ok ?s0" using assms(3) by (simp add: pids_ok_def queued_def)
  then have "pids_ok s1" using e1 pids_ok_mono by blast
  then have e2: "same_env s1 s2 \<and> pids_ok s2"
    using postD [OF free_dead_loop_env s2] i1 by (simp add: queues_inv_def)
  show ?thesis
    by (rule postD [OF choose_process_highest s'])
      (use i2 e1 e2 assms(4,5) in \<open>auto simp: queues_inv_def same_env_def\<close>)
qed


text \<open>The definitions that a concrete run of the scheduler unfolds.\<close>

lemmas sched_eval = scheduler_def awake_sleeping_process_def awake_loop.simps get_next_wake_time_def
  q_top_def free_dead_process_def free_dead_loop.simps choose_process_def getpid_def
  get_current_process_def swap_process_def q_out_def q_add_def upd_proc_def setpid_def
  context_switch_def direct_context_swap_def save_context_def load_context_def stay_def alive_def
  qinsert_def Let_def

definition demo_sched :: kernel where
  "demo_sched = demo_kernel\<lparr>
     procs := [10 \<mapsto> demo_process 1 1 ACTIVATABLE (Some ActivatableQ), 20 \<mapsto> demo_process 2 5 ACTIF None,
               30 \<mapsto> demo_process 3 7 ACTIVATABLE (Some ActivatableQ)],
     pid_table := [1 \<mapsto> 10, 2 \<mapsto> 20, 3 \<mapsto> 30], current_pid := 2,
     queues := (\<lambda>_. [])(ActivatableQ := [10, 30])\<rparr>"

lemma demo_inv: "chained demo_sched" "ready_sorted demo_sched" "pids_ok demo_sched"
proof -
  show "chained demo_sched"
    by (rule chainedI) (auto simp: demo_sched_def demo_kernel_def demo_process_def split: if_splits)
  show "ready_sorted demo_sched"
    by (simp add: ready_sorted_def demo_sched_def demo_kernel_def demo_process_def map_filter_simps)
  show "pids_ok demo_sched"
    by (auto simp: pids_ok_def queued_def pid_prio_def demo_sched_def demo_kernel_def demo_process_def split: if_splits)
qed

lemma demo_run: "\<exists>s'. scheduler KVoid demo_sched = Some s' \<and> current_pid s' = 3"
  by (simp add: sched_eval demo_sched_def demo_kernel_def demo_process_def)

theorem scheduler_runs_highest_witness:
  "\<exists>s'. scheduler KVoid demo_sched = Some s' \<and> current_pid s' = 3 \<and> runs_highest s'"
proof -
  obtain s' where s': "scheduler KVoid demo_sched = Some s'" "current_pid s' = 3" using demo_run by blast
  have "scheduler_main demo_sched \<noteq> None" "current_pid demo_sched = - 1 \<or> started_user_process demo_sched"
    by (simp_all add: demo_sched_def demo_kernel_def)
  from scheduler_runs_highest [OF demo_inv this s'(1)] s' show ?thesis by blast
qed

section \<open>What one call does\<close>

lemma awake_idle:
  "get_next_wake_time s = Some t \<Longrightarrow> t = 0 \<or> counter s \<le> t \<Longrightarrow> awake_sleeping_process s = Some s"
  by (auto simp: awake_sleeping_process_def awake_loop.simps current_clock_def)

lemma free_dead_idle: "queues s DeadQ = [] \<Longrightarrow> free_dead_process s = Some s"
  by (simp add: free_dead_process_def free_dead_loop.simps)

text \<open>The state behind a call that yields.\<close>

lemma yield_state:
  assumes "get_next_wake_time s = Some w" "w = 0 \<or> counter s \<le> w" "queues s DeadQ = []"
    and "scheduler_main s \<noteq> None" "started_user_process s" "current_pid s \<noteq> - 1"
    and "get_current_process s = Some cur" "procs s cur = Some x" "state x = ACTIF" "next_prev x = None"
    and "context_process x \<noteq> None"
    and "queues s ActivatableQ = qs @ [t]" "list_all (alive s) qs" "t \<noteq> cur" "procs s t = Some y"
    and "context_process y = Some c" "prio x \<le> prio y" "0 \<le> pid y" "pid_table s (pid y) = Some t"
  shows "scheduler k s = Some (s\<lparr>spp := False, current_pid := pid y, cpu := c,
     queues := (queues s)(ActivatableQ := qinsert (\<lambda>p. prio (the (procs s p))) cur qs),
     procs := (procs s)(t \<mapsto> y\<lparr>next_prev := None, state := ACTIF\<rparr>,
       cur \<mapsto> x\<lparr>state := ACTIVATABLE, next_prev := Some ActivatableQ,
         context_process := Some ((cpu s)\<lparr>kont := k\<rparr>)\<rparr>)\<rparr>)"
proof -
  let ?s = "s\<lparr>spp := False\<rparr>"
  have "get_next_wake_time ?s = Some w" using assms(1) by (simp add: get_next_wake_time_def q_top_def split: if_splits)
  then have "awake_sleeping_process ?s = Some ?s" using assms(2) by (intro awake_idle) auto
  moreover have "free_dead_process ?s = Some ?s" using assms(3) by (intro free_dead_idle) simp
  ultimately have "scheduler k s = swap_process k cur t ?s"
    using assms(4-7,12) by (auto simp: scheduler_def choose_process_def getpid_def get_current_process_def q_top_def)
  moreover have pr: "(\<lambda>p. prio (the (if p = t then Some (y\<lparr>next_prev := None, state := ACTIF\<rparr>)
      else ((procs s)(cur \<mapsto> x\<lparr>state := ACTIVATABLE\<rparr>)) p))) = (\<lambda>p. prio (the (procs s p)))"
    using assms(8,15) by auto
  moreover have "list_all (alive s') qs"
    if "procs s' = (procs s)(cur \<mapsto> x\<lparr>state := ACTIVATABLE\<rparr>, t \<mapsto> y\<lparr>next_prev := None, state := ACTIF\<rparr>)" for s'
    using assms(13) that by (auto simp: list_all_iff alive_def)
  ultimately show ?thesis using assms(8-19)
    by (auto simp: swap_process_def q_out_def q_add_def upd_proc_def setpid_def context_switch_def
        save_context_def load_context_def Let_def fun_upd_twist)
qed

section \<open>Waking up\<close>

definition due :: "kernel \<Rightarrow> ptr \<Rightarrow> bool" where
  "due s p \<longleftrightarrow> (\<exists>x. procs s p = Some x \<and> - wake_time x < uint (counter s))"

text \<open>A sleeper's wake time is a clock value that is not zero, and the asleep queue is in order.\<close>

definition sleepers_ok :: "kernel \<Rightarrow> bool" where
  "sleepers_ok s \<longleftrightarrow>
     (\<forall>p \<in> set (queues s AsleepQ). \<exists>x. procs s p = Some x \<and> - wake_time x \<in> {0 <..< 2 ^ 63}) \<and>
     sorted (map (\<lambda>p. wake_time (the (procs s p))) (queues s AsleepQ))"

lemma next_wake_time:
  assumes "procs s p = Some x" "- wake_time x \<in> {0 <..< 2 ^ 63}" "q_top AsleepQ s = Some p"
  shows "\<exists>t. get_next_wake_time s = Some t \<and> (t \<noteq> 0 \<and> current_clock s > t \<longleftrightarrow> due s p)"
proof -
  let ?t = "- (word_of_int (wake_time x) :: u64)"
  have t: "?t = word_of_int (- wake_time x)" by simp
  have u: "uint ?t = - wake_time x" using assms(2) unfolding t by (subst uint_word_of_int_eq) (simp add: take_bit_int_eq_self)
  have s: "sint ?t \<ge> 0"
  proof -
    have "sint ?t = - wake_time x" using assms(2) u by (simp add: sint_uint signed_take_bit_int_eq_self)
    then show ?thesis using assms(2) by simp
  qed
  have "?t \<noteq> 0" using u assms(2) by auto
  moreover have "current_clock s > ?t \<longleftrightarrow> due s p"
    using u assms(1) by (simp add: due_def current_clock_def word_less_def)
  ultimately show ?thesis using s assms by (simp add: get_next_wake_time_def Let_def)
qed


lemma erased_field:
  assumes "map_option (next_prev_update (\<lambda>_. None)) a = map_option (next_prev_update (\<lambda>_. None)) b"
    "\<And>x. h (next_prev_update (\<lambda>_. None) x) = h x"
  shows "map_option h a = map_option h b"
proof -
  have "map_option h (map_option (next_prev_update (\<lambda>_. None)) a) =
        map_option h (map_option (next_prev_update (\<lambda>_. None)) b)" using assms(1) by simp
  then show ?thesis by (simp add: option.map_comp comp_def assms(2))
qed

lemma not_due_sorted:
  assumes "sleepers_ok s" "queues s AsleepQ = ys @ [p]" "\<not> due s p" "p' \<in> set (ys @ [p])"
  shows "\<not> due s p'"
proof -
  obtain x x' where "procs s p = Some x" "procs s p' = Some x'"
    using assms(1,2,4) by (fastforce simp: sleepers_ok_def)
  moreover from this have "wake_time x' \<le> wake_time x"
    using assms(1,2,4) by (auto simp: sleepers_ok_def sorted_append)
  ultimately show ?thesis using assms(3) by (auto simp: due_def)
qed

text \<open>One turn of the loop, for a sleeper that is due.\<close>

lemma awake_turn:
  assumes c: "chained s" and ok: "sleepers_ok s" and al: "list_all (alive s) (queues s ActivatableQ)"
    and q: "queues s AsleepQ = ys @ [p]" and d: "due s p"
  shows "\<exists>s2. awake_loop (Suc n) s = awake_loop n s2 \<and> chained s2 \<and> sleepers_ok s2 \<and>
     list_all (alive s2) (queues s2 ActivatableQ) \<and> queues s2 AsleepQ = ys \<and>
     queues s2 ActivatableQ = qinsert (\<lambda>p. prio (the (procs s p))) p (queues s ActivatableQ) \<and>
     counter s2 = counter s \<and> (\<forall>p'. map_option (next_prev_update (\<lambda>_. None)) (procs s2 p') =
        map_option (next_prev_update (\<lambda>_. None)) (procs s p'))"
proof -
  obtain x where x: "procs s p = Some x" "- wake_time x \<in> {0 <..< 2 ^ 63}"
    using ok q by (auto simp: sleepers_ok_def)
  have top: "q_top AsleepQ s = Some p" using q by (simp add: q_top_def)
  obtain t where t: "get_next_wake_time s = Some t" "t \<noteq> 0 \<and> current_clock s > t"
    using next_wake_time [OF x top] d by blast
  let ?s1 = "s\<lparr>procs := (procs s)(p \<mapsto> x\<lparr>next_prev := None\<rparr>), queues := (queues s)(AsleepQ := ys)\<rparr>"
  have o: "q_out AsleepQ s = Some (Some p, ?s1)" using q x by (simp add: q_out_def upd_proc_def Let_def)
  let ?s2 = "s\<lparr>queues := (queues s)(AsleepQ := ys,
      ActivatableQ := qinsert (\<lambda>p. prio (the (procs s p))) p (queues s ActivatableQ)),
    procs := (procs s)(p \<mapsto> x\<lparr>next_prev := Some ActivatableQ\<rparr>)\<rparr>"
  have pr: "(\<lambda>xa. prio (the (if xa = p then Some (x\<lparr>next_prev := None\<rparr>) else procs s xa))) = (\<lambda>p. prio (the (procs s p)))"
    using x by auto
  have "list_all (alive ?s1) (queues s ActivatableQ)" using al by (auto simp: list_all_iff alive_def)
  then have a: "q_add prio p ActivatableQ ?s1 = Some ?s2" using x pr by (simp add: q_add_def)
  have loop: "awake_loop (Suc n) s = awake_loop n ?s2"
    by (subst awake_loop.simps) (simp add: t o a)
  have "queues_inv False s" using c by (simp add: queues_inv_def)
  then have "queues_inv False ?s1" using postD [OF q_out_keeps o] by simp
  then have c2: "chained ?s2" using postD [OF q_add_keeps [of False] a] by (simp add: queues_inv_def)
  have "(\<lambda>p'. wake_time (the (procs ?s2 p'))) = (\<lambda>p'. wake_time (the (procs s p')))" using x by auto
  then have "sleepers_ok ?s2"
    using ok q x unfolding sleepers_ok_def by (simp add: sorted_append)
  then show ?thesis using loop c2 al x
    by (intro exI [of _ ?s2]) (auto simp: list_all_iff alive_def)
qed

text \<open>
  C28.  Waking up comes back and moves exactly the processes whose time has passed from the queue of
  the sleepers to the queue of the activatable processes, the earliest first, each behind the
  processes of its own priority.  Their state field is not touched: it still says \<open>ASLEEP\<close>.
\<close>

theorem awake_wakes_due:
  assumes "chained s" "sleepers_ok s" "list_all (alive s) (queues s ActivatableQ)"
  shows "\<exists>s'. awake_sleeping_process s = Some s' \<and>
     queues s' AsleepQ = filter (\<lambda>p. \<not> due s p) (queues s AsleepQ) \<and>
     queues s' ActivatableQ = fold (qinsert (\<lambda>p. prio (the (procs s p))))
       (rev (filter (due s) (queues s AsleepQ))) (queues s ActivatableQ) \<and>
     (\<forall>p. map_option state (procs s' p) = map_option state (procs s p))"
proof -
  have "\<exists>s'. awake_loop (length xs) s = Some s' \<and>
     queues s' AsleepQ = filter (\<lambda>p. \<not> due s p) xs \<and>
     queues s' ActivatableQ = fold (qinsert (\<lambda>p. prio (the (procs s p)))) (rev (filter (due s) xs)) (queues s ActivatableQ) \<and>
     (\<forall>p. map_option state (procs s' p) = map_option state (procs s p))"
    if "queues s AsleepQ = xs" for xs
    using that assms
  proof (induction xs arbitrary: s rule: rev_induct)
    case Nil
    then have "get_next_wake_time s = Some 0" by (simp add: get_next_wake_time_def q_top_def)
    then show ?case using Nil by (subst awake_loop.simps) simp
  next
    case (snoc p ys)
    show ?case
    proof (cases "due s p")
      case False
      note nd = not_due_sorted [OF snoc.prems(3,1) False]
      obtain x where x: "procs s p = Some x" "- wake_time x \<in> {0 <..< 2 ^ 63}"
        using snoc.prems by (auto simp: sleepers_ok_def)
      have "q_top AsleepQ s = Some p" using snoc.prems(1) by (simp add: q_top_def)
      from next_wake_time [OF x this] False have "awake_loop (length (ys @ [p])) s = Some s"
        by (subst awake_loop.simps) auto
      moreover have "filter (due s) (ys @ [p]) = []" "filter (\<lambda>p. \<not> due s p) (ys @ [p]) = ys @ [p]"
        using nd by (auto simp: filter_empty_conv filter_id_conv)
      ultimately show ?thesis using snoc.prems(1) by simp
    next
      case True
      obtain s2 where s2: "awake_loop (Suc (length ys)) s = awake_loop (length ys) s2" "chained s2" "sleepers_ok s2"
        "list_all (alive s2) (queues s2 ActivatableQ)" "queues s2 AsleepQ = ys"
        "queues s2 ActivatableQ = qinsert (\<lambda>p. prio (the (procs s p))) p (queues s ActivatableQ)"
        "counter s2 = counter s" and same: "\<And>p'. map_option (next_prev_update (\<lambda>_. None)) (procs s2 p') =
          map_option (next_prev_update (\<lambda>_. None)) (procs s p')"
        using awake_turn [OF snoc.prems(2,3,4,1) True] by blast
      note er = erased_field [OF same]
      have "due s2 p' = due s p'" for p'
        using er [of wake_time p'] s2(7) by (cases "procs s2 p'"; cases "procs s p'") (auto simp: due_def)
      then have "due s2 = due s" by blast
      moreover have "prio (the (procs s2 p')) = prio (the (procs s p'))" for p'
        using er [of prio p'] by (cases "procs s2 p'"; cases "procs s p'") auto
      moreover have "map_option state (procs s2 p') = map_option state (procs s p')" for p'
        by (rule er) simp
      ultimately show ?thesis using snoc.IH [OF s2(5,2,3,4)] s2 True by simp
    qed
  qed
  then show ?thesis unfolding awake_sleeping_process_def by blast
qed


definition demo_sleep :: kernel where
  "demo_sleep = demo_kernel\<lparr>
     procs := [10 \<mapsto> (demo_process 1 1 ASLEEP (Some AsleepQ))\<lparr>wake_time := - 7\<rparr>,
               20 \<mapsto> (demo_process 2 5 ASLEEP (Some AsleepQ))\<lparr>wake_time := - 4\<rparr>],
     pid_table := [1 \<mapsto> 10, 2 \<mapsto> 20], counter := 5, queues := (\<lambda>_. [])(AsleepQ := [10, 20])\<rparr>"

theorem awake_wakes_due_witness:
  "\<exists>s'. awake_sleeping_process demo_sleep = Some s' \<and> queues s' AsleepQ = [10] \<and>
     queues s' ActivatableQ = [20] \<and> map_option state (procs s' 20) = Some ASLEEP"
proof -
  have "chained demo_sleep"
    by (rule chainedI) (auto simp: demo_sleep_def demo_kernel_def demo_process_def split: if_splits)
  moreover have "sleepers_ok demo_sleep" "list_all (alive demo_sleep) (queues demo_sleep ActivatableQ)"
    by (simp_all add: sleepers_ok_def demo_sleep_def demo_kernel_def demo_process_def)
  moreover have "due demo_sleep 20" "\<not> due demo_sleep 10" "procs demo_sleep 20 = Some ((demo_process 2 5 ASLEEP (Some AsleepQ))\<lparr>wake_time := - 4\<rparr>)"
    "queues demo_sleep AsleepQ = [10, 20]" "queues demo_sleep ActivatableQ = []"
    by (simp_all add: due_def demo_sleep_def demo_kernel_def demo_process_def)
  ultimately obtain s' where "awake_sleeping_process demo_sleep = Some s'" "queues s' AsleepQ = [10]"
    "queues s' ActivatableQ = [20]" "\<And>p. map_option state (procs s' p) = map_option state (procs demo_sleep p)"
    using awake_wakes_due [of demo_sleep] by (auto simp: qinsert_def)
  moreover have "map_option state (procs demo_sleep 20) = Some ASLEEP"
    by (simp add: demo_sleep_def demo_process_def)
  ultimately show ?thesis by metis
qed

end
