(* ===== verification/Semaphore.thy ===== *)
theory Semaphore
  imports Scheduler
begin

text \<open>
  Semaphores (\<open>src/kernel/process/semaphore_api.c\<close>).  A system call leaves its result in the
  continuation of the processor context: \<open>return_int\<close> for a value returned at once, \<open>scheduler k\<close>
  where the code calls the scheduler first.
\<close>

section \<open>The code\<close>

definition MAX_COUNT :: int where "MAX_COUNT = 32767"
definition MIN_COUNT :: int where "MIN_COUNT = - 32768"
definition NB_MAX_SEMS :: int where "NB_MAX_SEMS = 10000"

text \<open>The enumeration \<open>awake_signal_t\<close>: \<open>KILL_CALL\<close> follows \<open>SRESET_CALL = -4\<close>, hence is \<open>-3\<close>.\<close>

definition SIGNAL_CALL :: int where "SIGNAL_CALL = 0"
definition SDETETE_CALL :: int where "SDETETE_CALL = - 3"
definition SRESET_CALL :: int where "SRESET_CALL = - 4"
definition KILL_CALL :: int where "KILL_CALL = - 3"

definition return_int :: "int \<Rightarrow> kernel \<Rightarrow> kernel option" where
  "return_int r s = Some (stay (KRet r []) s)"

definition get_semaphore_struct :: "int \<Rightarrow> kernel \<Rightarrow> semaphore option" where
  "get_semaphore_struct sem s = semaphores s sem"

definition put_sem :: "int \<Rightarrow> semaphore \<Rightarrow> kernel \<Rightarrow> kernel" where
  "put_sem sem x s = s\<lparr>semaphores := (semaphores s)(sem \<mapsto> x)\<rparr>"

text \<open>The process a node points to; a freed node has none.\<close>

primrec node_proc :: "sem_node \<Rightarrow> ptr option" where
  "node_proc (Node p) = Some p"
| "node_proc Freed = None"

definition node_pid :: "kernel \<Rightarrow> sem_node \<Rightarrow> int option" where
  "node_pid s n = do { p \<leftarrow> node_proc n; x \<leftarrow> procs s p; Some (pid x) }"

text \<open>
  The loop for a process in the middle of the list, with the test as written: it stops at the
  first node whose process does \<^emph>\<open>not\<close> have the given identifier.
\<close>

fun scan_middle :: "kernel \<Rightarrow> int \<Rightarrow> nat \<Rightarrow> sem_node list \<Rightarrow> nat option option" where
  "scan_middle s i k [] = Some None"
| "scan_middle s i k (n # ns) =
     do {
       j \<leftarrow> node_pid s n;
       if j \<noteq> i then Some (Some k) else scan_middle s i (Suc k) ns
     }"

text \<open>
  Which node \<open>remove_proc_queue\<close> takes: the process of the node and the list that remains.  When
  the loop stops at the head, \<open>iter_prev\<close> is the head too, which stays in the list although its node
  is freed.
\<close>

definition take_node :: "kernel \<Rightarrow> int \<Rightarrow> sem_node list \<Rightarrow> (ptr \<times> sem_node list) option option" where
  "take_node s i ns =
     (case ns of
        [] \<Rightarrow> Some None
      | [n] \<Rightarrow> do {
          j \<leftarrow> node_pid s n;
          p \<leftarrow> node_proc n;
          Some (if j = i then Some (p, []) else None) }
      | n # m # ms \<Rightarrow> do {
          j \<leftarrow> node_pid s n;
          p \<leftarrow> node_proc n;
          if j = i then Some (Some (p, m # ms))
          else do {
            j' \<leftarrow> node_pid s (last ns);
            p' \<leftarrow> node_proc (last ns);
            if j' = i then Some (Some (p', butlast ns))
            else do {
              ko \<leftarrow> scan_middle s i 0 ns;
              case ko of
                None \<Rightarrow> Some None
              | Some k \<Rightarrow> do {
                  q \<leftarrow> node_proc (ns ! k);
                  Some (Some (q, if k = 0 then Freed # tl ns else take k ns @ drop (Suc k) ns)) } } } })"

definition remove_proc_queue :: "int \<Rightarrow> int \<Rightarrow> int \<Rightarrow> kernel \<Rightarrow> (int \<times> kernel) option" where
  "remove_proc_queue sem signal_enum i s =
     do {
       x \<leftarrow> semaphores s sem;
       case list_header_process x of
         None \<Rightarrow> Some (1, s)
       | Some ns \<Rightarrow>
           if ns = [] then Some (1, s)
           else do {
             t \<leftarrow> take_node s i ns;
             case t of
               None \<Rightarrow> Some (- 1, s)
             | Some (p, rest) \<Rightarrow> do {
                 let s1 = put_sem sem (x\<lparr>list_header_process := Some rest\<rparr>) s;
                 s2 \<leftarrow> upd_proc p (state_update (\<lambda>_. ACTIVATABLE)) s1;
                 s3 \<leftarrow> (if signal_enum \<noteq> KILL_CALL then q_add prio p ActivatableQ s2 else Some s2);
                 s4 \<leftarrow> upd_proc p (sem_signal_update (\<lambda>_. signal_enum)) s3;
                 Some (0, s4) } }
     }"

definition unblock_process_sem :: "int \<Rightarrow> int \<Rightarrow> kernel \<Rightarrow> (int \<times> kernel) option" where
  "unblock_process_sem sem signal_enum s =
     do {
       x \<leftarrow> semaphores s sem;
       case list_header_process x of
         None \<Rightarrow> Some (1, s)
       | Some [] \<Rightarrow> Some (1, s)
       | Some (n # ns) \<Rightarrow> do {
           p \<leftarrow> node_proc n;
           let s1 = put_sem sem (x\<lparr>list_header_process := Some ns\<rparr>) s;
           s2 \<leftarrow> upd_proc p (state_update (\<lambda>_. ACTIVATABLE)) s1;
           s3 \<leftarrow> q_add prio p ActivatableQ s2;
           s4 \<leftarrow> upd_proc p (sem_signal_update (\<lambda>_. signal_enum)) s3;
           Some (0, s4) }
     }"

text \<open>\<open>while (unblock_process_sem (...) != 1);\<close> with the length of the list as the bound.\<close>

fun unblock_all :: "nat \<Rightarrow> int \<Rightarrow> int \<Rightarrow> kernel \<Rightarrow> kernel option" where
  "unblock_all 0 sem signal_enum s =
     do { (r, s1) \<leftarrow> unblock_process_sem sem signal_enum s; if r \<noteq> 1 then None else Some s1 }"
| "unblock_all (Suc n) sem signal_enum s =
     do {
       (r, s1) \<leftarrow> unblock_process_sem sem signal_enum s;
       if r \<noteq> 1 then unblock_all n sem signal_enum s1 else Some s1
     }"

definition blocked_nodes :: "semaphore \<Rightarrow> sem_node list" where
  "blocked_nodes x = (case list_header_process x of None \<Rightarrow> [] | Some ns \<Rightarrow> ns)"

definition scount :: "int \<Rightarrow> kernel \<Rightarrow> int" where
  "scount sem s =
     (case get_semaphore_struct sem s of None \<Rightarrow> - 1 | Some x \<Rightarrow> sem_count x mod 65536)"

definition screate :: "int \<Rightarrow> kernel \<Rightarrow> int \<times> kernel" where
  "screate cnt s =
     (if cnt < 0 then (- 1, s)
      else if currently_running_semaphores s = NB_MAX_SEMS then (- 1, s)
      else case malloc s of
        (None, s1) \<Rightarrow> (- 1, s1)
      | (Some a, s1) \<Rightarrow>
          (case increment_semaphore_id (s1\<lparr>parent_block := False\<rparr>) of
             (sem, s2) \<Rightarrow>
               if sem < 0 then (- 1, s2)
               else
                 (case alloc_ok (put_sem sem \<lparr>sem_count = int16 cnt, list_header_process = None\<rparr> s2) of
                    (ok, s3) \<Rightarrow>
                      if \<not> ok then (- 1, s3)
                      else (sem, s3\<lparr>currently_running_semaphores :=
                        currently_running_semaphores s3 + 1\<rparr>))))"

text \<open>Insertion by decreasing priority, after the waiting processes of the same priority.\<close>

fun sem_insert :: "kernel \<Rightarrow> int \<Rightarrow> ptr \<Rightarrow> sem_node list \<Rightarrow> sem_node list option" where
  "sem_insert s current_prio p [] = Some [Node p]"
| "sem_insert s current_prio p (n # ns) =
     do {
       q \<leftarrow> node_proc n;
       x \<leftarrow> procs s q;
       if current_prio > prio x then Some (Node p # n # ns)
       else do { ms \<leftarrow> sem_insert s current_prio p ns; Some (n # ms) }
     }"

text \<open>
  The process \<open>p\<close> joins the waiting processes of the semaphore, whose count is already decremented.
  A failed allocation is not caught: the next line writes through \<open>NULL\<close>.
\<close>

definition block_on_semaphore :: "int \<Rightarrow> semaphore \<Rightarrow> ptr \<Rightarrow> kernel \<Rightarrow> kernel option" where
  "block_on_semaphore sem x p s =
     do {
       (ns, s1) \<leftarrow> (case list_header_process x of
           None \<Rightarrow> (case malloc s of (None, s1) \<Rightarrow> None | (Some a, s1) \<Rightarrow> Some ([], s1))
         | Some ns \<Rightarrow> Some (ns, s));
       case malloc s1 of
         (None, s2) \<Rightarrow> None
       | (Some b, s2) \<Rightarrow> do {
           y \<leftarrow> procs s2 p;
           ms \<leftarrow> sem_insert s2 (prio y) p ns;
           upd_proc p (\<lambda>y. y\<lparr>semaphore_id := sem, state := BLOCKEDSEMAPHORE\<rparr>)
             (put_sem sem (x\<lparr>list_header_process := Some ms\<rparr>) s2) }
     }"

definition wait :: "int \<Rightarrow> kernel \<Rightarrow> kernel option" where
  "wait sem s =
     (case get_semaphore_struct sem s of
        None \<Rightarrow> return_int (- 1) s
      | Some x \<Rightarrow>
          (case get_current_process s of
             None \<Rightarrow> return_int (- 1) s
           | Some p \<Rightarrow> do {
               s1 \<leftarrow> upd_proc p (sem_signal_update (\<lambda>_. 0)) s;
               if sem_count x = MIN_COUNT then return_int (- 2) s1
               else do {
                 let x1 = x\<lparr>sem_count := sem_count x - 1\<rparr>;
                 s2 \<leftarrow> (if sem_count x1 < 0 then block_on_semaphore sem x1 p s1
                        else Some (put_sem sem x1 s1));
                 scheduler (KWait p) s2 } }))"

definition proc_kill_diag :: "int \<Rightarrow> int \<Rightarrow> int \<Rightarrow> kernel \<Rightarrow> (int \<times> kernel) option" where
  "proc_kill_diag sem signal_enum i s =
     (case get_semaphore_struct sem s of
        None \<Rightarrow> Some (- 1, s)
      | Some x \<Rightarrow>
          if sem_count x = MAX_COUNT then Some (- 2, s)
          else do {
            let c = sem_count x + 1;
            let s1 = put_sem sem (x\<lparr>sem_count := c\<rparr>) s;
            (r, s2) \<leftarrow> (if c \<le> 0 then remove_proc_queue sem KILL_CALL i s1 else Some (0, s1));
            Some (0, s2) })"

text \<open>\<open>signal\<close> up to its call of the scheduler.\<close>

definition signal_body :: "int \<Rightarrow> kernel \<Rightarrow> (int \<times> kernel) option" where
  "signal_body sem s =
     (case get_semaphore_struct sem s of
        None \<Rightarrow> Some (- 1, s)
      | Some x \<Rightarrow>
          if sem_count x = MAX_COUNT then Some (- 2, s)
          else do {
            let c = sem_count x + 1;
            let s1 = put_sem sem (x\<lparr>sem_count := c\<rparr>) s;
            (r, s2) \<leftarrow> (if c \<le> 0 then unblock_process_sem sem SIGNAL_CALL s1 else Some (0, s1));
            Some (0, s2) })"

definition signal :: "int \<Rightarrow> kernel \<Rightarrow> kernel option" where
  "signal sem s =
     do {
       (r, s1) \<leftarrow> signal_body sem s;
       if r < 0 then return_int r s1
       else if \<not> parent_block s1 then scheduler (KRet 0 []) s1
       else return_int 0 s1
     }"

definition sdelete :: "int \<Rightarrow> kernel \<Rightarrow> kernel option" where
  "sdelete sem s =
     (case get_semaphore_struct sem s of
        None \<Rightarrow> return_int (- 1) s
      | Some x \<Rightarrow> do {
          s1 \<leftarrow> unblock_all (length (blocked_nodes x)) sem SDETETE_CALL s;
          let s2 = snd (alloc_ok (s1\<lparr>semaphores := (semaphores s1)(sem := None)\<rparr>));
          scheduler (KRet 0 []) (s2\<lparr>currently_running_semaphores :=
            currently_running_semaphores s2 - 1\<rparr>) })"

definition sreset :: "int \<Rightarrow> int \<Rightarrow> kernel \<Rightarrow> kernel option" where
  "sreset sem cnt s =
     (case get_semaphore_struct sem s of
        None \<Rightarrow> return_int (- 1) s
      | Some x \<Rightarrow>
          if cnt < 0 then return_int (- 1) s
          else do {
            s1 \<leftarrow> unblock_all (length (blocked_nodes x)) sem SRESET_CALL s;
            x1 \<leftarrow> semaphores s1 sem;
            scheduler (KRet 0 []) (put_sem sem (x1\<lparr>sem_count := int16 cnt\<rparr>) s1) })"

definition try_wait :: "int \<Rightarrow> kernel \<Rightarrow> kernel option" where
  "try_wait sem s =
     (case get_semaphore_struct sem s of
        None \<Rightarrow> return_int (- 1) s
      | Some x \<Rightarrow>
          if sem_count x > 0
          then scheduler (KRet 0 []) (put_sem sem (x\<lparr>sem_count := sem_count x - 1\<rparr>) s)
          else return_int (- 3) s)"

fun signaln_loop :: "nat \<Rightarrow> int \<Rightarrow> kernel \<Rightarrow> (int \<times> kernel) option" where
  "signaln_loop 0 sem s = Some (0, s)"
| "signaln_loop (Suc n) sem s =
     do {
       (val, s1) \<leftarrow> signal_body sem s;
       if val \<noteq> 0 then Some (val, s1) else signaln_loop n sem s1
     }"

definition signaln :: "int \<Rightarrow> int \<Rightarrow> kernel \<Rightarrow> kernel option" where
  "signaln sem cnt s =
     (case get_semaphore_struct sem s of
        None \<Rightarrow> return_int (- 1) s
      | Some x \<Rightarrow>
          if cnt < 0 then return_int (- 1) s
          else if sem_count x + cnt > MAX_COUNT then return_int (- 2) s
          else do {
            (val, s1) \<leftarrow> signaln_loop (nat cnt) sem (s\<lparr>parent_block := True\<rparr>);
            if val \<noteq> 0 then return_int val s1
            else scheduler (KRet 0 []) (s1\<lparr>parent_block := False\<rparr>) })"

section \<open>The process queues\<close>

lemma put_sem_inv [simp]: "queues_inv b (put_sem i x s) = queues_inv b s"
  by (simp add: put_sem_def)

lemma return_int_keeps [keeps]: "queues_inv b s \<Longrightarrow> post (queues_inv b) (return_int r s)"
  by (simp add: return_int_def)

lemma remove_proc_queue_keeps [keeps]:
  "queues_inv b s \<Longrightarrow> post (inv_snd b) (remove_proc_queue sem e i s)"
  by (auto simp: remove_proc_queue_def Let_def intro!: keeps split: option.split)

lemma unblock_keeps [keeps]: "queues_inv b s \<Longrightarrow> post (inv_snd b) (unblock_process_sem sem e s)"
  by (auto simp: unblock_process_sem_def Let_def intro!: keeps split: option.split list.split)

lemma unblock_all_keeps [keeps]: "queues_inv b s \<Longrightarrow> post (queues_inv b) (unblock_all n sem e s)"
  by (induction n arbitrary: s) (auto intro!: keeps)

lemma screate_keeps [keeps]:
  assumes "queues_inv b s"
  shows "queues_inv b (snd (screate c s))"
proof -
  obtain a s1 where m: "malloc s = (a, s1)" by fastforce
  then have "queues_inv b s1" using malloc_inv [OF assms] by simp
  then show ?thesis using m assms
    by (auto simp: screate_def increment_semaphore_id_def Let_def alloc_ok_def split: option.split list.split)
qed

lemma wait_keeps [keeps]: "queues_inv b s \<Longrightarrow> post (queues_inv b) (wait sem s)"
  by (auto simp: wait_def block_on_semaphore_def Let_def intro!: keeps split: option.split)

lemma signal_body_keeps [keeps]: "queues_inv b s \<Longrightarrow> post (inv_snd b) (signal_body sem s)"
  by (auto simp: signal_body_def Let_def intro!: keeps split: option.split)

lemma proc_kill_diag_keeps [keeps]: "queues_inv b s \<Longrightarrow> post (inv_snd b) (proc_kill_diag sem e i s)"
  by (auto simp: proc_kill_diag_def Let_def intro!: keeps split: option.split)

lemma signaln_loop_keeps [keeps]: "queues_inv b s \<Longrightarrow> post (inv_snd b) (signaln_loop n sem s)"
  by (induction n arbitrary: s) (auto intro!: keeps)

lemma semaphore_calls_keep [keeps]:
  "queues_inv b s \<Longrightarrow> post (queues_inv b) (signal sem s)"
  "queues_inv b s \<Longrightarrow> post (queues_inv b) (sdelete sem s)"
  "queues_inv b s \<Longrightarrow> post (queues_inv b) (sreset sem c s)"
  "queues_inv b s \<Longrightarrow> post (queues_inv b) (try_wait sem s)"
  "queues_inv b s \<Longrightarrow> post (queues_inv b) (signaln sem c s)"
  by (auto simp: signal_def sdelete_def sreset_def try_wait_def signaln_def Let_def
      intro!: keeps split: option.split)

section \<open>The count and the waiting processes\<close>

text \<open>
  The invariant of the semaphores: a negative count is minus the number of the waiting processes,
  and nobody waits otherwise; the count fits its 16 bits.
\<close>

definition sem_ok :: "semaphore \<Rightarrow> bool" where
  "sem_ok x \<longleftrightarrow> MIN_COUNT \<le> sem_count x \<and> sem_count x \<le> MAX_COUNT \<and>
     length (blocked_nodes x) = nat (- sem_count x)"

definition sem_wf :: "kernel \<Rightarrow> bool" where
  "sem_wf s \<longleftrightarrow> (\<forall>i x. semaphores s i = Some x \<longrightarrow> sem_ok x)"

interpretation sem_sched: sched_inv "\<lambda>s :: kernel. semaphores s = m" for m
proof unfold_locales
  fix s :: kernel and p
  assume "semaphores s = m"
  then show "post (\<lambda>(r, s'). semaphores s' = m) (free_process_memory p s)"
    using free_process_memory_effect [of p s] by (fastforce simp: post_def same_core_def)
qed (auto simp: upd_proc_def q_add_def q_out_def post_def bind_eq_Some_conv Let_def
    split: option.splits if_splits)

lemma sem_wf_scheduler: "sem_wf s \<Longrightarrow> post sem_wf (scheduler k s)"
  by (rule post_mono [OF sem_sched.scheduler_post [of s "semaphores s"]]) (auto simp: sem_wf_def)

lemma sem_wf_basic:
  "sem_wf s \<Longrightarrow> post sem_wf (upd_proc p f s)"
  "sem_wf s \<Longrightarrow> post sem_wf (q_add g p q s)"
  "sem_wf s \<Longrightarrow> post sem_wf (return_int r s)"
  by (auto simp: sem_wf_def upd_proc_def q_add_def return_int_def stay_def post_def bind_eq_Some_conv
      split: option.splits if_splits)

lemma sem_wf_fields [simp]:
  "sem_wf (s\<lparr>parent_block := v\<rparr>) = sem_wf s" "sem_wf (s\<lparr>currently_running_semaphores := n\<rparr>) = sem_wf s"
  "sem_wf (s\<lparr>alloc_fails := fs\<rparr>) = sem_wf s" "sem_wf (stay k s) = sem_wf s"
  by (simp_all add: sem_wf_def stay_def)

lemma sem_wf_put: "sem_wf s \<Longrightarrow> sem_ok x \<Longrightarrow> sem_wf (put_sem i x s)"
  by (auto simp: sem_wf_def put_sem_def)

lemma sem_insert_length: "sem_insert s c p ns = Some ms \<Longrightarrow> length ms = Suc (length ns)"
  by (induction ns arbitrary: ms) (auto simp: bind_eq_Some_conv split: if_splits)

lemma malloc_sems: "malloc s = (r, s') \<Longrightarrow> semaphores s' = semaphores s"
  by (auto simp: malloc_def alloc_ok_def split: list.splits if_splits)

lemma block_effect:
  assumes "block_on_semaphore sem x p s = Some s'"
  shows "\<exists>ms. length ms = Suc (length (blocked_nodes x)) \<and>
    semaphores s' = (semaphores s)(sem \<mapsto> x\<lparr>list_header_process := Some ms\<rparr>)"
  using assms
  by (auto simp: block_on_semaphore_def bind_eq_Some_conv upd_proc_def put_sem_def blocked_nodes_def
      dest!: malloc_sems sem_insert_length split: option.splits prod.splits)
    (rule exI [of _ "[Node p]"], simp)

lemma wait_wf:
  assumes wf: "sem_wf s"
  shows "post sem_wf (wait sem s)"
proof -
  have dec: "sem_ok (x\<lparr>sem_count := sem_count x - 1\<rparr>)"
    if "sem_ok x" "sem_count x \<noteq> MIN_COUNT" "\<not> sem_count x - 1 < 0" for x
    using that by (auto simp: sem_ok_def blocked_nodes_def MIN_COUNT_def MAX_COUNT_def)
  have block: "post sem_wf (block_on_semaphore sem (x\<lparr>sem_count := sem_count x - 1\<rparr>) p s1)"
    if "sem_ok x" "sem_count x \<noteq> MIN_COUNT" "sem_count x - 1 < 0" "sem_wf s1" for x p s1
    unfolding post_def
  proof (intro allI impI)
    fix s' assume "block_on_semaphore sem (x\<lparr>sem_count := sem_count x - 1\<rparr>) p s1 = Some s'"
    then obtain ms where "length ms = Suc (length (blocked_nodes x))"
      "semaphores s' = (semaphores s1)(sem \<mapsto> x\<lparr>sem_count := sem_count x - 1, list_header_process := Some ms\<rparr>)"
      using block_effect by (fastforce simp: blocked_nodes_def)
    then show "sem_wf s'"
      using that by (auto simp: sem_wf_def sem_ok_def blocked_nodes_def MIN_COUNT_def MAX_COUNT_def)
  qed
  have "sem_ok x" if "semaphores s sem = Some x" for x using wf that by (simp add: sem_wf_def)
  then show ?thesis using wf
    by (auto simp: wait_def get_semaphore_struct_def Let_def split: option.split
        intro!: sem_wf_basic post_bind [OF sem_wf_basic(1)] post_bind [OF block] sem_wf_scheduler sem_wf_put dec)
qed

text \<open>Unblocking takes the head of the list; with the count incremented first the invariant is kept.\<close>

lemma unblock_effect:
  assumes "unblock_process_sem sem e s = Some (r, s')" "semaphores s sem = Some x"
  shows "semaphores s' = (semaphores s)(sem \<mapsto> x\<lparr>list_header_process := map_option tl (list_header_process x)\<rparr>)
    \<and> (r = 1 \<longleftrightarrow> blocked_nodes x = []) \<and> (r = 0 \<or> r = 1)"
  using assms
  by (auto simp: unblock_process_sem_def bind_eq_Some_conv upd_proc_def q_add_def put_sem_def blocked_nodes_def Let_def
      split: option.splits list.splits if_splits)

lemma signal_body_wf:
  assumes wf: "sem_wf s"
  shows "post (\<lambda>(r, s'). sem_wf s') (signal_body sem s)"
proof (cases "semaphores s sem")
  case (Some x)
  then have ok: "sem_ok x" using wf by (simp add: sem_wf_def)
  let ?x = "x\<lparr>sem_count := sem_count x + 1\<rparr>"
  have "sem_wf s'" if "unblock_process_sem sem e (put_sem sem ?x s) = Some (r, s')" "sem_count x + 1 \<le> 0" for r s' e
  proof -
    have "semaphores s' = (semaphores s)(sem \<mapsto> ?x\<lparr>list_header_process := map_option tl (list_header_process x)\<rparr>)"
      using unblock_effect [OF that(1), of ?x] by (simp add: put_sem_def)
    then show ?thesis using wf ok that(2)
      by (auto simp: sem_wf_def sem_ok_def blocked_nodes_def MIN_COUNT_def MAX_COUNT_def split: option.splits)
  qed
  moreover have "sem_ok ?x" if "\<not> sem_count x + 1 \<le> 0" "sem_count x \<noteq> MAX_COUNT"
    using ok that by (auto simp: sem_ok_def blocked_nodes_def MIN_COUNT_def MAX_COUNT_def)
  ultimately show ?thesis using Some wf
    by (auto simp: signal_body_def get_semaphore_struct_def Let_def intro!: sem_wf_put post_bind_value)
qed (simp add: signal_body_def get_semaphore_struct_def wf)

lemma signaln_loop_wf: "sem_wf s \<Longrightarrow> post (\<lambda>(r, s'). sem_wf s') (signaln_loop n sem s)"
  by (induction n arbitrary: s) (auto intro!: post_bind [OF signal_body_wf])

lemma unblock_all_effect:
  assumes "semaphores s sem = Some x" "unblock_all n sem e s = Some s'"
  shows "\<exists>y. semaphores s' = (semaphores s)(sem \<mapsto> y) \<and> blocked_nodes y = [] \<and> sem_count y = sem_count x"
  using assms
proof (induction n arbitrary: s x)
  case (0 s x)
  then obtain r where r: "unblock_process_sem sem e s = Some (r, s')" "r = 1" by (auto simp: bind_eq_Some_conv split: if_splits)
  from unblock_effect [OF r(1) 0(1)] r(2) show ?case by (auto simp: blocked_nodes_def split: option.splits)
next
  case (Suc n s x)
  then obtain r s1 where r: "unblock_process_sem sem e s = Some (r, s1)"
    "if r \<noteq> 1 then unblock_all n sem e s1 = Some s' else s' = s1" by (auto simp: bind_eq_Some_conv split: if_splits)
  note eff = unblock_effect [OF r(1) Suc(2)]
  show ?case
  proof (cases "r = 1")
    case True
    then show ?thesis using eff r(2) by (auto simp: blocked_nodes_def split: option.splits)
  next
    case False
    then show ?thesis using eff r(2) Suc.IH [of s1] by fastforce
  qed
qed

lemma reset_wf:
  assumes wf: "sem_wf s" and x: "semaphores s sem = Some x" and u: "unblock_all n sem e s = Some s1"
  shows "sem_wf (s1\<lparr>semaphores := (semaphores s1)(sem := None)\<rparr>) \<and>
    (\<exists>x1. semaphores s1 sem = Some x1 \<and> (0 \<le> c \<longrightarrow> c \<le> MAX_COUNT \<longrightarrow> sem_wf (put_sem sem (x1\<lparr>sem_count := int16 c\<rparr>) s1)))"
proof -
  obtain y where y: "semaphores s1 = (semaphores s)(sem \<mapsto> y)" "blocked_nodes y = []"
    using unblock_all_effect [OF x u] by blast
  have "sem_ok (y\<lparr>sem_count := int16 c\<rparr>)" if "0 \<le> c" "c \<le> MAX_COUNT"
    using y(2) that by (simp add: sem_ok_def int16_id blocked_nodes_def MAX_COUNT_def MIN_COUNT_def)
  then show ?thesis using wf y by (auto simp: sem_wf_def put_sem_def)
qed

lemma sem_wf_alloc [simp]: "sem_wf (snd (alloc_ok s)) = sem_wf s"
  by (simp add: alloc_ok_def split: list.split)

lemma sem_calls_wf:
  assumes wf: "sem_wf s"
  shows "post sem_wf (signal sem s)" "post sem_wf (signaln sem c s)" "post sem_wf (try_wait sem s)"
    "post sem_wf (sdelete sem s)" "c \<le> MAX_COUNT \<Longrightarrow> post sem_wf (sreset sem c s)"
proof -
  show "post sem_wf (signal sem s)"
    using wf by (auto simp: signal_def intro!: post_bind [OF signal_body_wf] sem_wf_basic sem_wf_scheduler)
  show "post sem_wf (signaln sem c s)"
    using wf by (auto simp: signaln_def split: option.split
        intro!: post_bind [OF signaln_loop_wf] sem_wf_basic sem_wf_scheduler)
  have "sem_ok (x\<lparr>sem_count := sem_count x - 1\<rparr>)" if "semaphores s sem = Some x" "0 < sem_count x" for x
  proof -
    have "sem_ok x" using wf that(1) by (simp add: sem_wf_def)
    then show ?thesis using that(2) by (auto simp: sem_ok_def MIN_COUNT_def MAX_COUNT_def blocked_nodes_def)
  qed
  then show "post sem_wf (try_wait sem s)"
    using wf by (auto simp: try_wait_def get_semaphore_struct_def split: option.split
        intro!: sem_wf_basic sem_wf_scheduler sem_wf_put)
  show "post sem_wf (sdelete sem s)"
    using wf reset_wf [OF wf]
    by (auto simp: sdelete_def get_semaphore_struct_def Let_def split: option.split
        intro!: post_bind_value sem_wf_basic sem_wf_scheduler)
  show "post sem_wf (sreset sem c s)" if "c \<le> MAX_COUNT"
    using wf reset_wf [OF wf, where c = c] that
    by (fastforce simp: sreset_def get_semaphore_struct_def split: option.split
        intro!: post_bind_value sem_wf_basic sem_wf_scheduler)
qed

text \<open>
  C12.  The semaphore calls keep the invariant: the count stays in its 16 bits and a negative count
  is minus the number of the waiting processes.  The bound on the new count of \<open>sreset\<close> is needed:
  the value is truncated to 16 bits.
\<close>

theorem semaphore_count_is_waiters:
  assumes "sem_wf s" "c \<le> MAX_COUNT"
    and "wait sem s = Some s' \<or> signal sem s = Some s' \<or> signaln sem n s = Some s' \<or>
      try_wait sem s = Some s' \<or> sdelete sem s = Some s' \<or> sreset sem c s = Some s'"
  shows "sem_wf s'"
  using assms(3) sem_calls_wf [OF assms(1), THEN postD] sem_calls_wf(5) [OF assms(1,2), THEN postD]
    postD [OF wait_wf [OF assms(1)]]
  by blast

definition demo_sem :: kernel where
  "demo_sem = demo_sched\<lparr>semaphores := [5 \<mapsto> \<lparr>sem_count = 1, list_header_process = None\<rparr>]\<rparr>"

theorem semaphore_count_is_waiters_witness:
  "\<exists>s'. sreset 5 7 demo_sem = Some s' \<and> sem_wf s' \<and> semaphores s' 5 = Some \<lparr>sem_count = 7, list_header_process = None\<rparr>"
proof -
  have wf: "sem_wf demo_sem"
    by (auto simp: sem_wf_def demo_sem_def sem_ok_def MIN_COUNT_def MAX_COUNT_def blocked_nodes_def split: if_splits)
  have "\<exists>s'. sreset 5 7 demo_sem = Some s' \<and> semaphores s' 5 = Some \<lparr>sem_count = 7, list_header_process = None\<rparr>"
    by (simp add: sreset_def get_semaphore_struct_def demo_sem_def blocked_nodes_def unblock_process_sem_def put_sem_def int16_def
      sched_eval demo_sched_def demo_kernel_def demo_process_def)
  then show ?thesis using semaphore_count_is_waiters [OF wf, of 7] by (auto simp: MAX_COUNT_def)
qed

section \<open>The order of the waiting processes\<close>

definition node_prio :: "kernel \<Rightarrow> sem_node \<Rightarrow> int" where
  "node_prio s n = (case n of Node p \<Rightarrow> prio (the (procs s p)) | Freed \<Rightarrow> 0)"

definition live_node :: "kernel \<Rightarrow> sem_node \<Rightarrow> bool" where
  "live_node s n \<longleftrightarrow> (\<exists>p x. n = Node p \<and> procs s p = Some x)"

lemma sem_insert_eq:
  "list_all (live_node s) ns \<Longrightarrow>
   sem_insert s c p ns = Some (takeWhile (\<lambda>n. c \<le> node_prio s n) ns @ Node p # dropWhile (\<lambda>n. c \<le> node_prio s n) ns)"
  by (induction ns) (auto simp: live_node_def node_prio_def)

text \<open>Decreasing priorities from the head to the tail.\<close>

definition by_prio :: "kernel \<Rightarrow> sem_node list \<Rightarrow> bool" where
  "by_prio s ns \<longleftrightarrow> sorted_wrt (\<lambda>m n. node_prio s m \<ge> node_prio s n) ns"

lemma by_prio_drop:
  assumes "by_prio s ns" "n \<in> set (dropWhile (\<lambda>n. c \<le> node_prio s n) ns)"
  shows "node_prio s n < c"
proof (cases "dropWhile (\<lambda>n. c \<le> node_prio s n) ns")
  case (Cons m ms)
  have "sorted_wrt (\<lambda>m n. node_prio s m \<ge> node_prio s n)
      (takeWhile (\<lambda>n. c \<le> node_prio s n) ns @ dropWhile (\<lambda>n. c \<le> node_prio s n) ns)"
    using assms(1) by (simp add: by_prio_def)
  then have "node_prio s n \<le> node_prio s m" using assms(2) Cons by (auto simp: sorted_wrt_append)
  moreover have "\<not> c \<le> node_prio s m" using Cons by (metis dropWhile_eq_Cons_conv)
  ultimately show ?thesis by simp
next
  case Nil
  then show ?thesis using assms(2) by (simp only: Nil) simp
qed

lemma by_prio_insert:
  assumes "by_prio s ns" "node_prio s (Node p) = c"
  shows "by_prio s (takeWhile (\<lambda>n. c \<le> node_prio s n) ns @ Node p # dropWhile (\<lambda>n. c \<le> node_prio s n) ns)"
proof -
  define t d where td: "t = takeWhile (\<lambda>n. c \<le> node_prio s n) ns" "d = dropWhile (\<lambda>n. c \<le> node_prio s n) ns"
  have "sorted_wrt (\<lambda>m n. node_prio s m \<ge> node_prio s n) (t @ d)" using assms(1) by (simp add: by_prio_def td)
  moreover have "node_prio s n < c" if "n \<in> set d" for n using by_prio_drop [OF assms(1)] that td by simp
  moreover have "c \<le> node_prio s n" if "n \<in> set t" for n using that td by (auto dest: set_takeWhileD)
  ultimately have "by_prio s (t @ Node p # d)"
    using assms(2) by (auto simp: by_prio_def sorted_wrt_append less_imp_le)
  then show ?thesis by (simp add: td)
qed

lemma node_cong:
  assumes "\<And>q. map_option prio (procs s' q) = map_option prio (procs s q)"
  shows "node_prio s' = node_prio s" "live_node s' = live_node s" "by_prio s' = by_prio s"
proof -
  have eq: "prio (the (procs s' q)) = prio (the (procs s q)) \<and> (procs s' q = None \<longleftrightarrow> procs s q = None)" for q
    using assms [of q] by (cases "procs s' q"; cases "procs s q") auto
  show np: "node_prio s' = node_prio s"
    by (rule ext) (simp add: node_prio_def eq split: sem_node.split)
  show "live_node s' = live_node s"
  proof
    show "live_node s' n = live_node s n" for n using eq by (cases n) (force simp: live_node_def)+
  qed
  show "by_prio s' = by_prio s" unfolding by_prio_def [abs_def] np ..
qed

lemma malloc_ok: "alloc_fails s = [] \<Longrightarrow> malloc s = (Some (next_ptr s), s\<lparr>next_ptr := Suc (next_ptr s)\<rparr>)"
  by (simp add: malloc_def alloc_ok_def)

text \<open>
  C20.  A process that has to wait joins the list of the semaphore behind every process of at least
  its priority and before those of lower priority, so that the list stays ordered by decreasing
  priority and first come first served at equal priority.  The process is marked as blocked and
  the scheduler is called; when it comes back, \<open>wait\<close> returns the field \<open>sem_signal\<close>.
\<close>

theorem wait_joins_by_priority:
  assumes "semaphores s sem = Some x" "MIN_COUNT < sem_count x" "sem_count x \<le> 0"
    and "get_current_process s = Some p" "procs s p = Some y" "alloc_fails s = []"
    and "list_all (live_node s) (blocked_nodes x)" "by_prio s (blocked_nodes x)"
  shows "\<exists>s1 ms hi lo. wait sem s = scheduler (KWait p) s1 \<and> blocked_nodes x = hi @ lo \<and> ms = hi @ Node p # lo \<and>
     (\<forall>n \<in> set hi. prio y \<le> node_prio s n) \<and> (\<forall>n \<in> set lo. node_prio s n < prio y) \<and> by_prio s1 ms \<and>
     semaphores s1 = (semaphores s)(sem \<mapsto> x\<lparr>sem_count := sem_count x - 1, list_header_process := Some ms\<rparr>) \<and>
     procs s1 p = Some (y\<lparr>sem_signal := 0, semaphore_id := sem, state := BLOCKEDSEMAPHORE\<rparr>) \<and> queues s1 = queues s"
proof -
  let ?ns = "blocked_nodes x" and ?y = "y\<lparr>sem_signal := 0\<rparr>"
  let ?hi = "takeWhile (\<lambda>n. prio y \<le> node_prio s n) ?ns" and ?lo = "dropWhile (\<lambda>n. prio y \<le> node_prio s n) ?ns"
  let ?ms = "?hi @ Node p # ?lo"
  let ?s0 = "s\<lparr>procs := (procs s)(p \<mapsto> ?y)\<rparr>" and ?z = "?y\<lparr>semaphore_id := sem, state := BLOCKEDSEMAPHORE\<rparr>"
  have same: "map_option prio (procs s' q) = map_option prio (procs s q)"
    if "procs s' = (procs s)(p \<mapsto> ?y) \<or> procs s' = (procs s)(p \<mapsto> ?z)" for s' q
    using that assms(5) by auto
  have ins: "sem_insert s' (prio ?y) p ?ns = Some ?ms" if "procs s' = (procs s)(p \<mapsto> ?y)" for s'
    using sem_insert_eq [of s' ?ns "prio y" p] node_cong [of s' s, OF same] that assms(7) by simp
  let ?s1 = "\<lambda>k. ?s0\<lparr>next_ptr := k, procs := (procs s)(p \<mapsto> ?z),
    semaphores := (semaphores s)(sem \<mapsto> x\<lparr>sem_count := sem_count x - 1, list_header_process := Some ?ms\<rparr>)\<rparr>"
  have "\<exists>k. block_on_semaphore sem (x\<lparr>sem_count := sem_count x - 1\<rparr>) p ?s0 = Some (?s1 k)"
  proof (cases "list_header_process x")
    case None
    then show ?thesis using assms(6) ins
      by (intro exI [of _ "Suc (Suc (next_ptr s))"])
        (simp add: block_on_semaphore_def malloc_ok put_sem_def upd_proc_def blocked_nodes_def)
  next
    case (Some ns)
    then show ?thesis using assms(6) ins
      by (intro exI [of _ "Suc (next_ptr s)"])
        (simp add: block_on_semaphore_def malloc_ok put_sem_def upd_proc_def blocked_nodes_def)
  qed
  then obtain k where k: "block_on_semaphore sem (x\<lparr>sem_count := sem_count x - 1\<rparr>) p ?s0 = Some (?s1 k)" by blast
  then have "wait sem s = scheduler (KWait p) (?s1 k)"
    using assms(1-5) by (simp add: wait_def get_semaphore_struct_def upd_proc_def Let_def)
  moreover have "node_prio s (Node p) = prio y" using assms(5) by (simp add: node_prio_def)
  then have "by_prio s ?ms" by (rule by_prio_insert [OF assms(8)])
  then have "by_prio (?s1 k) ?ms" using node_cong(3) [of "?s1 k" s, OF same] by simp
  moreover have "prio y \<le> node_prio s n" if "n \<in> set ?hi" for n using that by (auto dest: set_takeWhileD)
  moreover have "node_prio s n < prio y" if "n \<in> set ?lo" for n
    using by_prio_drop [OF assms(8) that] .
  moreover have "?ns = ?hi @ ?lo" by simp
  ultimately show ?thesis
    by (intro exI [of _ "?s1 k"] exI [of _ ?ms] exI [of _ ?hi] exI [of _ ?lo]) auto
qed

definition demo_waiter :: kernel where
  "demo_waiter = demo_sched\<lparr>
     procs := (procs demo_sched)(40 \<mapsto> demo_process 4 9 BLOCKEDSEMAPHORE None, 50 \<mapsto> demo_process 5 2 BLOCKEDSEMAPHORE None),
     semaphores := [5 \<mapsto> \<lparr>sem_count = - 2, list_header_process = Some [Node 40, Node 50]\<rparr>]\<rparr>"

theorem wait_joins_by_priority_witness:
  "\<exists>s1. wait 5 demo_waiter = scheduler (KWait 20) s1 \<and>
     semaphores s1 5 = Some \<lparr>sem_count = - 3, list_header_process = Some [Node 40, Node 20, Node 50]\<rparr>"
proof -
  let ?x = "\<lparr>sem_count = - 2, list_header_process = Some [Node 40, Node 50]\<rparr>"
  have h: "semaphores demo_waiter 5 = Some ?x" "MIN_COUNT < sem_count ?x" "sem_count ?x \<le> 0"
    "get_current_process demo_waiter = Some 20" "procs demo_waiter 20 = Some (demo_process 2 5 ACTIF None)"
    "alloc_fails demo_waiter = []"
    "list_all (live_node demo_waiter) (blocked_nodes ?x)" "by_prio demo_waiter (blocked_nodes ?x)"
    by (simp_all add: demo_waiter_def demo_sched_def demo_kernel_def MIN_COUNT_def get_current_process_def getpid_def
        live_node_def blocked_nodes_def by_prio_def node_prio_def demo_process_def)
  have np: "node_prio demo_waiter (Node 40) = 9" "node_prio demo_waiter (Node 50) = 2" "prio (demo_process 2 5 ACTIF None) = 5"
    by (simp_all add: node_prio_def demo_waiter_def demo_process_def)
  obtain s1 hi lo where w: "wait 5 demo_waiter = scheduler (KWait 20) s1" "[Node 40, Node 50] = hi @ lo"
    "\<forall>n \<in> set hi. 5 \<le> node_prio demo_waiter n" "\<forall>n \<in> set lo. node_prio demo_waiter n < 5"
    "semaphores s1 5 = Some \<lparr>sem_count = - 3, list_header_process = Some (hi @ Node 20 # lo)\<rparr>"
    using wait_joins_by_priority [OF h] np by (auto simp: blocked_nodes_def)
  then have "hi = [Node 40]" "lo = [Node 50]" using np by (auto simp: append_eq_Cons_conv Cons_eq_append_conv)
  then show ?thesis using w by auto
qed

text \<open>
  C30.  \<open>signal\<close> on a semaphore with waiting processes wakes the first of them: it leaves the list,
  becomes activatable, and the \<open>wait\<close> it is executing will return \<open>0\<close>; the count goes up by one and
  nothing else changes before the scheduler is called.
\<close>

theorem signal_wakes_first:
  assumes "semaphores s sem = Some x" "sem_count x < 0" "list_header_process x = Some (Node p # ns)"
    and "procs s p = Some y" "next_prev y = None" "list_all (alive s) (queues s ActivatableQ)" "\<not> parent_block s"
  shows "\<exists>s1. signal sem s = scheduler (KRet 0 []) s1 \<and>
     semaphores s1 = (semaphores s)(sem \<mapsto> x\<lparr>sem_count := sem_count x + 1, list_header_process := Some ns\<rparr>) \<and>
     procs s1 = (procs s)(p \<mapsto> y\<lparr>state := ACTIVATABLE, next_prev := Some ActivatableQ, sem_signal := 0\<rparr>) \<and>
     queues s1 = (queues s)(ActivatableQ := qinsert (\<lambda>p. prio (the (procs s p))) p (queues s ActivatableQ))"
proof -
  have pr: "(\<lambda>xa. prio (the (if xa = p then Some (y\<lparr>state := ACTIVATABLE\<rparr>) else procs s xa))) = (\<lambda>p. prio (the (procs s p)))"
    using assms(4) by auto
  have al: "list_all (alive s') (queues s ActivatableQ)" if "procs s' = (procs s)(p \<mapsto> y\<lparr>state := ACTIVATABLE\<rparr>)" for s'
    using assms(6) that by (auto simp: list_all_iff alive_def)
  show ?thesis using assms pr al
    by (simp add: signal_def signal_body_def get_semaphore_struct_def unblock_process_sem_def put_sem_def upd_proc_def
        q_add_def MAX_COUNT_def SIGNAL_CALL_def Let_def)
      (rule exI, rule conjI, rule refl, simp)
qed

theorem signal_wakes_first_witness:
  "\<exists>s1. signal 5 demo_waiter = scheduler (KRet 0 []) s1 \<and>
     semaphores s1 5 = Some \<lparr>sem_count = - 1, list_header_process = Some [Node 50]\<rparr> \<and>
     queues s1 ActivatableQ = [10, 30, 40]"
proof -
  let ?x = "\<lparr>sem_count = - 2, list_header_process = Some [Node 40, Node 50]\<rparr>"
  have h: "semaphores demo_waiter 5 = Some ?x" "sem_count ?x < 0" "list_header_process ?x = Some (Node 40 # [Node 50])"
    "procs demo_waiter 40 = Some (demo_process 4 9 BLOCKEDSEMAPHORE None)"
    "next_prev (demo_process 4 9 BLOCKEDSEMAPHORE None) = None"
    "list_all (alive demo_waiter) (queues demo_waiter ActivatableQ)" "\<not> parent_block demo_waiter"
    by (simp_all add: demo_waiter_def demo_sched_def demo_kernel_def demo_process_def alive_def)
  have "qinsert (\<lambda>p. prio (the (procs demo_waiter p))) 40 (queues demo_waiter ActivatableQ) = [10, 30, 40]"
    by (simp add: qinsert_def demo_waiter_def demo_sched_def demo_process_def)
  then show ?thesis using signal_wakes_first [OF h] by auto
qed

text \<open>
  C33.  Killing a process that waits in the middle of the list removes the wrong node: the loop
  stops at the first process that is \<^emph>\<open>not\<close> the one to be killed, the head, frees its node and
  leaves it in the list.  The head is made activatable although its \<open>wait\<close> was not signalled, the
  killed process stays in the list, and the next \<open>signal\<close> runs into the freed node.
\<close>

theorem kill_waiter_frees_head:
  assumes "semaphores s sem = Some x" "list_header_process x = Some (Node p # Node q # Node r # ns)"
    and "sem_count x < 0" "procs s p = Some y" "procs s q = Some z"
    and "last (Node q # Node r # ns) = Node t" "procs s t = Some u"
    and "pid y \<noteq> pid z" "pid u \<noteq> pid z"
  shows "\<exists>s1. proc_kill_diag sem KILL_CALL (pid z) s = Some (0, s1) \<and>
     semaphores s1 sem = Some (x\<lparr>sem_count := sem_count x + 1, list_header_process := Some (Freed # Node q # Node r # ns)\<rparr>) \<and>
     procs s1 p = Some (y\<lparr>state := ACTIVATABLE, sem_signal := KILL_CALL\<rparr>) \<and>
     unblock_process_sem sem SIGNAL_CALL s1 = None"
  using assms
  by (simp add: proc_kill_diag_def get_semaphore_struct_def remove_proc_queue_def take_node_def node_pid_def
      put_sem_def upd_proc_def MAX_COUNT_def unblock_process_sem_def Let_def split: if_splits)

definition demo_three :: kernel where
  "demo_three = demo_waiter\<lparr>
     procs := (procs demo_waiter)(60 \<mapsto> demo_process 6 1 BLOCKEDSEMAPHORE None),
     semaphores := [5 \<mapsto> \<lparr>sem_count = - 3, list_header_process = Some [Node 40, Node 50, Node 60]\<rparr>]\<rparr>"

theorem kill_waiter_frees_head_witness:
  "\<exists>s1. proc_kill_diag 5 KILL_CALL 5 demo_three = Some (0, s1) \<and>
     semaphores s1 5 = Some \<lparr>sem_count = - 2, list_header_process = Some [Freed, Node 50, Node 60]\<rparr> \<and>
     unblock_process_sem 5 SIGNAL_CALL s1 = None"
proof -
  let ?x = "\<lparr>sem_count = - 3, list_header_process = Some [Node 40, Node 50, Node 60]\<rparr>"
  have h: "semaphores demo_three 5 = Some ?x" "list_header_process ?x = Some (Node 40 # Node 50 # Node 60 # [])" "sem_count ?x < 0"
    "procs demo_three 40 = Some (demo_process 4 9 BLOCKEDSEMAPHORE None)"
    "procs demo_three 50 = Some (demo_process 5 2 BLOCKEDSEMAPHORE None)" "last (Node 50 # Node 60 # []) = Node 60"
    "procs demo_three 60 = Some (demo_process 6 1 BLOCKEDSEMAPHORE None)"
    "pid (demo_process 4 9 BLOCKEDSEMAPHORE None) \<noteq> pid (demo_process 5 2 BLOCKEDSEMAPHORE None)"
    "pid (demo_process 6 1 BLOCKEDSEMAPHORE None) \<noteq> pid (demo_process 5 2 BLOCKEDSEMAPHORE None)"
    by (simp_all add: demo_three_def demo_waiter_def demo_process_def)
  from kill_waiter_frees_head [OF h] show ?thesis by (auto simp: demo_process_def)
qed

end
