(* ===== verification/Process_Api.thy ===== *)
theory Process_Api
  imports Semaphore
begin

unbundle bit_operations_syntax

text \<open>
  Process management (\<open>src/kernel/process/process_api.c\<close>) and the start of the system
  (\<open>src/kernel/process/process.c\<close>).  \<open>start\<close> and \<open>start_virtual\<close> share most of their text; the
  shared stretches are the definitions \<open>start_checks\<close>, \<open>new_process\<close>, \<open>finish_start\<close>.
\<close>

section \<open>Priorities\<close>

definition MAX_NB_PROCESS :: int where "MAX_NB_PROCESS = 1000"
definition MAXPRIO :: int where "MAXPRIO = 256"
definition MINPRIO :: int where "MINPRIO = 1"
definition MAX_SIZE_NAME :: nat where "MAX_SIZE_NAME = 256"
definition PROCESS_SETUP_SIZE :: u64 where "PROCESS_SETUP_SIZE = 2"
definition idleId :: int where "idleId = 1"
definition kernelId :: int where "kernelId = 0"

definition chprio :: "int \<Rightarrow> int \<Rightarrow> kernel \<Rightarrow> kernel option" where
  "chprio i newprio s =
     (case pid_table s i of
        None \<Rightarrow> return_int (- 1) s
      | Some p \<Rightarrow>
          if newprio > MAXPRIO \<or> newprio < MINPRIO then return_int (- 1) s
          else do {
            v \<leftarrow> validate_action_process_valid (Some p) s;
            if v < 0 then return_int (- 1) s
            else do {
              x \<leftarrow> procs s p;
              let old_prio = prio x;
              s1 \<leftarrow> upd_proc p (prio_update (\<lambda>_. newprio)) s;
              case state x of
                ACTIVATABLE \<Rightarrow> do {
                  s2 \<leftarrow> q_del p s1;
                  s3 \<leftarrow> q_add prio p ActivatableQ s2;
                  scheduler (KRet old_prio []) s3 }
              | ACTIF \<Rightarrow> scheduler (KRet old_prio []) s1
              | BLOCKEDQUEUE \<Rightarrow> do {
                  s2 \<leftarrow> q_del p s1;
                  s3 \<leftarrow> q_add prio p (blocked_head x) s2;
                  return_int old_prio s3 }
              | BLOCKEDIO \<Rightarrow> do {
                  s2 \<leftarrow> q_del p s1;
                  s3 \<leftarrow> q_add prio p BlockedIoQ s2;
                  return_int old_prio s3 }
              | _ \<Rightarrow> return_int old_prio s1 } })"

definition leave_queue_process_if_needed :: "ptr option \<Rightarrow> kernel \<Rightarrow> (int \<times> kernel) option" where
  "leave_queue_process_if_needed po s =
     (case po of
        None \<Rightarrow> Some (- 1, s)
      | Some p \<Rightarrow> do {
          x \<leftarrow> procs s p;
          if state x = BLOCKEDSEMAPHORE then do {
            (r, s1) \<leftarrow> proc_kill_diag (semaphore_id x) KILL_CALL (pid x) s;
            Some (if r < 0 then - 1 else 0, s1) }
          else do { s1 \<leftarrow> q_del p s; Some (0, s1) } })"

text \<open>The status is the returned value; the scheduler is called with the continuation \<open>k\<close>.\<close>

definition check_if_new_prio_is_higher_and_call_scheduler ::
    "kont \<Rightarrow> int \<Rightarrow> bool \<Rightarrow> int \<Rightarrow> kernel \<Rightarrow> kernel option" where
  "check_if_new_prio_is_higher_and_call_scheduler k newprio current_or_queue prio_to_compare_queue s =
     (if \<not> (newprio \<le> MAXPRIO \<and> newprio \<ge> MINPRIO) then Some (stay k s)
      else if current_or_queue then do {
        c \<leftarrow> getprio (getpid s) s;
        if c < 0 then Some (stay k s)
        else if c < newprio then scheduler k s
        else Some (stay k s) }
      else if prio_to_compare_queue < 0 then Some (stay k s)
      else if prio_to_compare_queue > newprio then scheduler k s
      else Some (stay k s))"

section \<open>The process tree and the end of a process\<close>

definition free_child_zombie_process :: "ptr option \<Rightarrow> kernel \<Rightarrow> (int \<times> kernel) option" where
  "free_child_zombie_process po s =
     (case po of
        None \<Rightarrow> Some (- 1, s)
      | Some p \<Rightarrow> do {
          x \<leftarrow> procs s p;
          if state x \<noteq> ZOMBIE then Some (- 1, s)
          else if pid x = getpid s then do {
            s1 \<leftarrow> upd_proc p (state_update (\<lambda>_. KILLED)) s;
            Some (0, s1) }
          else free_process_memory p s })"

text \<open>Taking the child \<open>t\<close>, with the structure \<open>x\<close>, out of the list of its parent, with the structure \<open>y\<close>.\<close>

definition unchain :: "ptr \<Rightarrow> ptr \<Rightarrow> process \<Rightarrow> process \<Rightarrow> kernel \<Rightarrow> kernel option" where
  "unchain t before x y s =
     (if t = children_head y \<and> t = children_tail y then
        upd_proc (parent x) (\<lambda>y. y\<lparr>children_tail := 0, children_head := 0\<rparr>) s
      else if t = children_head y then
        upd_proc (parent x) (children_head_update (\<lambda>_. next_sibling x)) s
      else if t = children_tail y then do {
        s1 \<leftarrow> upd_proc before (next_sibling_update (\<lambda>_. 0)) s;
        upd_proc (parent x) (children_tail_update (\<lambda>_. before)) s1 }
      else upd_proc before (next_sibling_update (\<lambda>_. next_sibling x)) s)"

definition free_process_arg_and_fix_tree_link ::
    "ptr \<Rightarrow> ptr \<Rightarrow> kernel \<Rightarrow> (int \<times> kernel) option" where
  "free_process_arg_and_fix_tree_link p before s =
     do {
       x \<leftarrow> procs s p;
       if parent x = 0 then Some (- 1, s)
       else if before = 0 then Some (- 1, s)
       else do {
         y \<leftarrow> procs s (parent x);
         if children_head y = 0 \<or> children_tail y = 0 then Some (- 1, s)
         else do {
           s1 \<leftarrow> unchain p before x y s;
           free_child_zombie_process (Some p) s1 } }
     }"

text \<open>
  The loop of \<open>make_children_orphans_and_kill_zombies\<close> from the child \<open>t\<close> on, with its recursive
  call on the children of a zombie.
\<close>

partial_function (option) orphan_loop :: "ptr \<Rightarrow> kernel \<Rightarrow> (int \<times> kernel) option" where
  "orphan_loop t s =
     (if t = 0 then Some (0, s)
      else do {
        x \<leftarrow> procs s t;
        if state x = ZOMBIE then do {
          (r0, s1) \<leftarrow> (if children_head x = 0 \<and> children_tail x = 0 then Some (0, s)
                      else orphan_loop (children_head x) s);
          x1 \<leftarrow> procs s1 t;
          (r, s2) \<leftarrow> free_child_zombie_process (Some t) s1;
          if r < 0 then Some (- 1, s2) else orphan_loop (next_sibling x1) s2 }
        else orphan_loop (next_sibling x) s })"

definition make_children_orphans_and_kill_zombies ::
    "ptr option \<Rightarrow> kernel \<Rightarrow> (int \<times> kernel) option" where
  "make_children_orphans_and_kill_zombies po s =
     (case po of
        None \<Rightarrow> Some (- 1, s)
      | Some p \<Rightarrow> do {
          x \<leftarrow> procs s p;
          if children_head x = 0 \<and> children_tail x = 0 then Some (0, s)
          else orphan_loop (children_head x) s })"

definition turn_current_process_into_a_zombie_or_kill_it ::
    "bool \<Rightarrow> int \<Rightarrow> kernel \<Rightarrow> (int \<times> kernel) option" where
  "turn_current_process_into_a_zombie_or_kill_it current_or_custom i s =
     (case (if current_or_custom then pid_table s (getpid s) else pid_table s i) of
        None \<Rightarrow> Some (- 1, s)
      | Some p \<Rightarrow> do {
          (r, s1) \<leftarrow> make_children_orphans_and_kill_zombies (Some p) s;
          if r < 0 then Some (- 1, s1)
          else do {
            s2 \<leftarrow> upd_proc p (state_update (\<lambda>_. ZOMBIE)) s1;
            x \<leftarrow> procs s2 p;
            if parent x = 0 then free_child_zombie_process (Some p) s2
            else do {
              par \<leftarrow> procs s2 (parent x);
              if state par = ZOMBIE then free_child_zombie_process (Some p) s2
              else if state par = BLOCKEDWAITCHILD then do {
                s3 \<leftarrow> upd_proc (parent x) (state_update (\<lambda>_. ACTIVATABLE)) s2;
                s4 \<leftarrow> q_add prio (parent x) ActivatableQ s3;
                Some (0, s4) }
              else Some (0, s2) } } })"

text \<open>\<open>None\<close> is also the \<open>exit (-1)\<close> of the two checks.\<close>

definition exit_process :: "kont \<Rightarrow> int \<Rightarrow> kernel \<Rightarrow> kernel option" where
  "exit_process k retval s =
     do {
       v \<leftarrow> validate_action_process_valid (get_process_struct_of_pid (getpid s) s) s;
       if v < 0 then None
       else do {
         (r, s1) \<leftarrow> turn_current_process_into_a_zombie_or_kill_it True 0 s;
         if r < 0 then None
         else do {
           p \<leftarrow> get_process_struct_of_pid (getpid s1) s1;
           s2 \<leftarrow> upd_proc p (return_value_update (\<lambda>_. retval)) s1;
           scheduler k s2 } }
     }"

text \<open>The part of \<open>kill\<close> behind the test for the running process.\<close>

definition kill_other :: "int \<Rightarrow> kernel \<Rightarrow> kernel option" where
  "kill_other i s =
     do {
       p \<leftarrow> get_process_struct_of_pid i s;
       (r, s1) \<leftarrow> leave_queue_process_if_needed (Some p) s;
       if r < 0 then return_int (- 1) s1
       else do {
         (r', s2) \<leftarrow> turn_current_process_into_a_zombie_or_kill_it False i s1;
         if r' < 0 then return_int (- 1) s2
         else do {
           s3 \<leftarrow> upd_proc p (return_value_update (\<lambda>_. 0)) s2;
           return_int 0 s3 } }
     }"

text \<open>
  \<open>kill\<close>; when \<open>exit_process\<close> returns to it, that is when the scheduler found no other process, it
  goes on with \<open>kill_other\<close> (continuation \<open>KKill\<close>).  \<open>fault\<close> marks the call from the page fault
  handler, which calls the scheduler once more.
\<close>

definition kill :: "bool \<Rightarrow> int \<Rightarrow> kernel \<Rightarrow> kernel option" where
  "kill fault i s =
     (if i = idleId \<or> i = kernelId then return_int (- 1) s
      else case get_process_struct_of_pid i s of
        None \<Rightarrow> return_int (- 1) s
      | Some p \<Rightarrow> do {
          v \<leftarrow> validate_action_process_valid (Some p) s;
          if v < 0 then return_int (- 1) s
          else do {
            x \<leftarrow> procs s p;
            if pid x = getpid s then exit_process (KKill i fault) 0 s
            else kill_other i s } })"

section \<open>Starting a process\<close>

text \<open>\<open>process_name_copy\<close> asks for \<open>strlen name\<close> bytes and writes \<open>strlen name + 1\<close>.\<close>

definition process_name_copy :: "ptr \<Rightarrow> cstring \<Rightarrow> kernel \<Rightarrow> (int \<times> kernel) option" where
  "process_name_copy p name s =
     (let n = length (chars name) in
      if n > MAX_SIZE_NAME then Some (- 1, s)
      else case malloc s of
        (None, s1) \<Rightarrow> do {
          s2 \<leftarrow> upd_proc p (process_name_update (\<lambda>_. None)) s1;
          Some (- 1, s2) }
      | (Some a, s1) \<Rightarrow> do {
          b \<leftarrow> strcpy (replicate (usable_size s1 n) 0) (c_str name);
          s2 \<leftarrow> upd_proc p (process_name_update (\<lambda>_. Some b)) s1;
          Some (0, s2) })"

text \<open>
  The argument checks.  The counter of running processes is already incremented when they fail,
  and only the first of them takes that back.
\<close>

definition start_checks :: "u64 \<Rightarrow> int \<Rightarrow> kernel \<Rightarrow> (int \<times> kernel) option" where
  "start_checks ssz pri s =
     (let s1 = s\<lparr>nb_proc_running := nb_proc_running s + 1\<rparr> in
      if nb_proc_running s1 > MAX_NB_PROCESS then Some (- 1, s)
      else do {
        v \<leftarrow> (if getpid s1 = - 1 then Some 0
             else validate_action_process_valid (get_process_struct_of_pid (getpid s1) s1) s1);
        if v < 0 then Some (- 1, s1)
        else if \<not> (pri \<le> MAXPRIO \<and> pri \<ge> MINPRIO) then Some (- 1, s1)
        else if \<not> (ssz > 0) then Some (- 1, s1)
        else Some (0, s1) })"

text \<open>The new structure, its identifier, priority, name and memory; the inner \<open>None\<close> returns \<open>-1\<close>.\<close>

definition new_process ::
    "cstring \<Rightarrow> u64 \<Rightarrow> int \<Rightarrow> uapps option option \<Rightarrow> kernel \<Rightarrow> (ptr option \<times> kernel) option" where
  "new_process name ssz pri app s =
     (case malloc s of
        (None, s1) \<Rightarrow> Some (None, s1)
      | (Some p, s1) \<Rightarrow>
          (case increment_pid_and_get_new_pid s1 of
             (i, s2) \<Rightarrow> do {
               let s3 = snd (alloc_ok (s2\<lparr>
                 procs := (procs s2)(p \<mapsto> (junk s2)\<lparr>next_prev := None, pid := i\<rparr>),
                 pid_table := (pid_table s2)(i \<mapsto> p)\<rparr>));
               s4 \<leftarrow> upd_proc p (prio_update (\<lambda>_. pri)) s3;
               (r, s5) \<leftarrow> process_name_copy p name s4;
               if r < 0 then Some (None, s5)
               else do {
                 s6 \<leftarrow> upd_proc p (\<lambda>x. x\<lparr>ssize := take_bit 32 (ssz + PROCESS_SETUP_SIZE),
                   page_table_level_2 := 0, page_tables_lvl_1_list := None,
                   released_pages_list := []\<rparr>) s5;
                 s7 \<leftarrow> (case app of None \<Rightarrow> Some s6
                                  | Some a \<Rightarrow> upd_proc p (app_pointer_update (\<lambda>_. a)) s6);
                 x \<leftarrow> procs s7 p;
                 if app = Some None then Some (None, s7)
                 else do {
                   (r', s8) \<leftarrow> process_memory_allocator p (ssize x) s7;
                   if r' < 0 then Some (None, s8) else Some (Some p, s8) } } }))"

definition process_call_wrapper_kernel :: u64 where "process_call_wrapper_kernel = 1"
definition process_call_wrapper_user :: u64 where "process_call_wrapper_user = 2"

text \<open>The context of a new process; \<open>sscratch\<close> is written when its frame is there.\<close>

definition new_context :: "process \<Rightarrow> u64 \<Rightarrow> u64 \<Rightarrow> u64 \<Rightarrow> u64 \<Rightarrow> context_t" where
  "new_context x wrapper s1v s2v sepcv =
     \<lparr>sp = 0x40000000 + FRAME_SIZE * of_nat (stack_shift x), ra = wrapper, ctx_s1 = s1v,
      ctx_s2 = s2v, sscratch = 0, sepc = sepcv,
      satp = 0x8000000000000000 OR drop_bit 12 (page_table_level_2 x)
             OR push_bit 44 (word_of_int (pid x)), kont = KStart\<rparr>"

definition add_child :: "ptr \<Rightarrow> ptr \<Rightarrow> kernel \<Rightarrow> kernel option" where
  "add_child par p s =
     do {
       y \<leftarrow> procs s par;
       if children_tail y \<noteq> 0 then do {
         s1 \<leftarrow> upd_proc (children_tail y) (next_sibling_update (\<lambda>_. p)) s;
         upd_proc par (children_tail_update (\<lambda>_. p)) s1 }
       else upd_proc par (\<lambda>y. y\<lparr>children_head := p, children_tail := p\<rparr>) s
     }"

text \<open>From the context on to the end of \<open>start\<close>.\<close>

definition finish_start ::
    "ptr \<Rightarrow> u64 \<Rightarrow> u64 \<Rightarrow> u64 \<Rightarrow> u64 \<Rightarrow> kernel \<Rightarrow> kernel option" where
  "finish_start p wrapper s1v s2v sepcv s =
     (case malloc s of
        (None, s1) \<Rightarrow> do {
          s2 \<leftarrow> upd_proc p (context_process_update (\<lambda>_. None)) s1;
          return_int (- 1) s2 }
      | (Some a, s1) \<Rightarrow> do {
          x \<leftarrow> procs s1 p;
          let c = new_context x wrapper s1v s2v sepcv;
          s2 \<leftarrow> upd_proc p (context_process_update (\<lambda>_. Some c)) s1;
          case get_frame (mm s2) of
            (None, m) \<Rightarrow> return_int (- 1) (s2\<lparr>mm := m\<rparr>)
          | (Some f, m) \<Rightarrow> do {
              let s3 = s2\<lparr>mm := m\<rparr>;
              let par = (case get_current_process s3 of None \<Rightarrow> 0 | Some q \<Rightarrow> q);
              s4 \<leftarrow> upd_proc p (\<lambda>x. x\<lparr>sscratch_frame := f,
                context_process := Some (c\<lparr>sscratch := f + FRAME_SIZE\<rparr>), parent := par\<rparr>) s3;
              s5 \<leftarrow> (if par \<noteq> 0 then add_child par p s4 else Some s4);
              s6 \<leftarrow> upd_proc p (\<lambda>x. x\<lparr>children_head := 0, children_tail := 0, next_sibling := 0,
                return_value := 0, shared_pages := None, released_pages_list := [],
                proc_shared_hash_table := None, sem_signal := 0, state := ACTIVATABLE\<rparr>) s5;
              s7 \<leftarrow> q_add prio p ActivatableQ s6;
              y \<leftarrow> procs s7 p;
              check_if_new_prio_is_higher_and_call_scheduler (KRet (pid y) []) (prio y) True 0 s7 } })"

definition start :: "u64 \<Rightarrow> u64 \<Rightarrow> int \<Rightarrow> cstring option \<Rightarrow> u64 \<Rightarrow> kernel \<Rightarrow> kernel option" where
  "start pt_func ssz pri no arg s =
     (case no of
        None \<Rightarrow> return_int (- 1) s
      | Some name \<Rightarrow> do {
          (r, s1) \<leftarrow> start_checks ssz pri s;
          if r < 0 then return_int (- 1) s1
          else do {
            (po, s2) \<leftarrow> new_process name ssz pri None s1;
            case po of
              None \<Rightarrow> return_int (- 1) s2
            | Some p \<Rightarrow> do {
                s3 \<leftarrow> upd_proc p (func_update (\<lambda>_. pt_func)) s2;
                finish_start p process_call_wrapper_kernel pt_func arg process_call_wrapper_kernel s3 } } })"

definition start_virtual :: "cstring option \<Rightarrow> u64 \<Rightarrow> int \<Rightarrow> u64 \<Rightarrow> kernel \<Rightarrow> kernel option" where
  "start_virtual no ssz pri arg s =
     (case no of
        None \<Rightarrow> return_int (- 1) s
      | Some name \<Rightarrow> do {
          (r, s1) \<leftarrow> start_checks ssz pri s;
          if r < 0 then return_int (- 1) s1
          else if find_app name s1 = None then return_int (- 1) s1
          else do {
            (po, s2) \<leftarrow> new_process name ssz pri (Some (find_app name s1)) s1;
            case po of
              None \<Rightarrow> return_int (- 1) s2
            | Some p \<Rightarrow> finish_start p process_call_wrapper_user 0 arg 0x40000000 s2 } })"

section \<open>Waiting for a child\<close>

text \<open>The first child that satisfies \<open>P\<close> and the one before it; \<open>0\<close> when there is none.\<close>

partial_function (option) scan_children ::
    "(process \<Rightarrow> bool) \<Rightarrow> ptr \<Rightarrow> ptr \<Rightarrow> kernel \<Rightarrow> (ptr \<times> ptr) option" where
  "scan_children P t before s =
     (if t = 0 then Some (0, before)
      else do {
        x \<leftarrow> procs s t;
        if P x then Some (t, before) else scan_children P (next_sibling x) t s })"

text \<open>\<open>wants\<close>: whether \<open>retvalp\<close> is not \<open>NULL\<close>; the value written is the second result.\<close>

definition waitpid_finish :: "ptr \<Rightarrow> ptr \<Rightarrow> bool \<Rightarrow> kernel \<Rightarrow> kernel option" where
  "waitpid_finish t before wants s =
     do {
       x \<leftarrow> procs s t;
       (r, s1) \<leftarrow> free_process_arg_and_fix_tree_link t before s;
       let outs = (if wants then [return_value x] else []);
       Some (stay (KRet (if r < 0 then - 1 else pid x) outs) s1)
     }"

definition block_for_child :: "kont \<Rightarrow> kernel \<Rightarrow> kernel option" where
  "block_for_child k s =
     do {
       p \<leftarrow> get_current_process s;
       s1 \<leftarrow> upd_proc p (state_update (\<lambda>_. BLOCKEDWAITCHILD)) s;
       scheduler k s1
     }"

text \<open>One turn of the loop for a negative identifier, and one of the loop for a given child.\<close>

definition waitpid_any :: "bool \<Rightarrow> kernel \<Rightarrow> kernel option" where
  "waitpid_any wants s =
     do {
       p \<leftarrow> get_current_process s;
       x \<leftarrow> procs s p;
       (t, before) \<leftarrow> scan_children (\<lambda>c. state c = ZOMBIE) (children_head x) (children_head x) s;
       if t = 0 then block_for_child (KWaitAny wants) s else waitpid_finish t before wants s
     }"

definition waitpid_child :: "ptr \<Rightarrow> ptr \<Rightarrow> bool \<Rightarrow> kernel \<Rightarrow> kernel option" where
  "waitpid_child t before wants s =
     do {
       x \<leftarrow> procs s t;
       if state x = ZOMBIE then waitpid_finish t before wants s
       else block_for_child (KWaitPid t before wants) s
     }"

definition waitpid :: "int \<Rightarrow> bool \<Rightarrow> kernel \<Rightarrow> kernel option" where
  "waitpid i wants s =
     do {
       p \<leftarrow> get_current_process s;
       x \<leftarrow> procs s p;
       if children_head x = 0 \<and> children_tail x = 0 then return_int (- 1) s
       else if i < 0 then waitpid_any wants s
       else do {
         (t, before) \<leftarrow> scan_children (\<lambda>c. pid c = i) (children_head x) (children_head x) s;
         if t = 0 then return_int (- 1) s else waitpid_child t before wants s }
     }"

section \<open>Listings\<close>

definition show_ps_info :: "kernel \<Rightarrow> (int \<times> bytes option \<times> process_state) list option" where
  "show_ps_info s =
     those (map (\<lambda>p. map_option (\<lambda>x. (pid x, process_name x, state x)) (procs s p))
       (List.map_filter (\<lambda>i. pid_table s (int i)) [0..<nat (get_pid_iterator s + 1)]))"

definition show_programs :: "kernel \<Rightarrow> cstring list" where
  "show_programs s = map app_name (symbols_table s)"

section \<open>The start of the system\<close>

definition result_of :: "kernel \<Rightarrow> int option" where
  "result_of s = (case kont (cpu s) of KRet r _ \<Rightarrow> Some r | _ \<Rightarrow> None)"

text \<open>The allocation of one of the three tables and its \<open>hash_init\<close>.\<close>

definition initialize_process_hash_table :: "kernel \<Rightarrow> int \<times> kernel" where
  "initialize_process_hash_table s =
     (case malloc s of (None, s1) \<Rightarrow> (- 1, s1) | (Some a, s1) \<Rightarrow> (0, s1))"

definition initialize_share_pages_table :: "kernel \<Rightarrow> int \<times> kernel" where
  "initialize_share_pages_table s =
     (case malloc s of (None, s1) \<Rightarrow> (- 1, s1) | (Some a, s1) \<Rightarrow> (0, s1))"

definition init_semaphore_table :: "kernel \<Rightarrow> int \<times> kernel" where
  "init_semaphore_table s =
     (case malloc s of (None, s1) \<Rightarrow> (- 1, s1) | (Some a, s1) \<Rightarrow> (0, s1))"

definition init_map :: "(kernel \<Rightarrow> kernel) \<Rightarrow> int \<times> kernel \<Rightarrow> int \<times> kernel" where
  "init_map clear rs =
     (case rs of (r, s) \<Rightarrow>
        if r < 0 then (- 1, s)
        else case alloc_ok s of (ok, s1) \<Rightarrow> if ok then (0, clear s1) else (- 1, s1))"

definition setup_main_context :: "kernel \<Rightarrow> int \<times> kernel" where
  "setup_main_context s =
     (case malloc s of
        (None, s1) \<Rightarrow> (- 1, s1)
      | (Some a, s1) \<Rightarrow>
          (case malloc s1 of
             (None, s2) \<Rightarrow> (- 1, s2\<lparr>scheduler_main := Some (cpu s2)\<rparr>)
           | (Some b, s2) \<Rightarrow> (0, s2\<lparr>scheduler_main := Some (cpu s2)\<rparr>)))"

definition idle_name :: cstring where "idle_name = Abs_cstring [105, 100, 108, 101]"
definition shell_name :: cstring where "shell_name = Abs_cstring [115, 104, 101, 108, 108]"

definition create_idle_process :: "kernel \<Rightarrow> kernel option" where
  "create_idle_process s = start_virtual (Some idle_name) 4000 1 300 s"

definition create_shell_program :: "kernel \<Rightarrow> kernel option" where
  "create_shell_program s = start_virtual (Some shell_name) 4000 2 0 s"

definition initialize_process_workflow :: "kernel \<Rightarrow> (int \<times> kernel) option" where
  "initialize_process_workflow s =
     (case init_map (pid_table_update (\<lambda>_. Map.empty)) (initialize_process_hash_table s) of
        (r1, s1) \<Rightarrow> if r1 < 0 then Some (- 1, s1) else
     (case init_map (shared_memory_update (\<lambda>_. Map.empty)) (initialize_share_pages_table s1) of
        (r2, s2) \<Rightarrow> if r2 < 0 then Some (- 1, s2) else
     (case init_map (semaphores_update (\<lambda>_. Map.empty)) (init_semaphore_table s2) of
        (r3, s3) \<Rightarrow> if r3 < 0 then Some (- 1, s3) else
     (case setup_main_context s3 of
        (r4, s4) \<Rightarrow> if r4 < 0 then Some (- 1, s4) else
     do {
       s5 \<leftarrow> create_idle_process s4;
       r5 \<leftarrow> result_of s5;
       if r5 < 0 then Some (- 1, s5)
       else do {
         s6 \<leftarrow> create_shell_program s5;
         r6 \<leftarrow> result_of s6;
         if r6 < 0 then Some (- 1, s6) else Some (0, s6\<lparr>spp := False\<rparr>) }
     }))))"

definition activate_and_launch_custom_process :: "ptr option \<Rightarrow> kernel \<Rightarrow> kernel option" where
  "activate_and_launch_custom_process po s =
     (case po of
        None \<Rightarrow> return_int (- 1) s
      | Some p \<Rightarrow>
          if getpid s > 0 then return_int (- 1) s
          else do {
            x \<leftarrow> procs s p;
            case setpid (pid x) s of
              (r, s1) \<Rightarrow>
                if r < 0 then return_int (- 1) s1
                else if state x \<noteq> ACTIVATABLE then return_int (- 1) s1
                else do {
                  s2 \<leftarrow> q_del p s1;
                  s3 \<leftarrow> upd_proc p (state_update (\<lambda>_. ACTIF)) s2;
                  Some (stay KSpin (set_supervisor_timer_interrupt 100 s3)) } })"

section \<open>The process queues\<close>

lemma upd_proc_q_del:
  assumes inv: "queues_inv b s" and f: "\<And>x y. next_prev (f x) = next_prev x"
    "\<And>x y. f (next_prev_update y x) = next_prev_update y (f x)"
  shows "post (queues_inv b) (do { s1 \<leftarrow> upd_proc p f s; q_del p s1 })"
proof -
  have eq: "do { s1 \<leftarrow> upd_proc p f s; q_del p s1 } = do { s1 \<leftarrow> q_del p s; upd_proc p f s1 }"
    using f by (auto simp: upd_proc_def q_del_def split: option.split Option.bind_split)
  have "post (queues_inv b) (upd_proc p f s1)" if "q_del p s = Some s1" "queues_inv b s1" for s1
  proof (rule upd_proc_inv [OF that(2)])
    fix x assume x: "procs s1 p = Some x"
    then have "next_prev x = None" using that(1) by (auto simp: q_del_def bind_eq_Some_conv)
    then have "p \<notin> set (queues s1 ActivatableQ)"
      using that(2) x chainedD(4) [of s1 p x ActivatableQ] by (auto simp: queues_inv_def)
    then show "next_prev (f x) = next_prev x \<and> (b \<longrightarrow> prio (f x) = prio x \<or> p \<notin> set (queues s1 ActivatableQ))"
      using f by simp
  qed
  then show ?thesis unfolding eq by (auto intro: post_bind [OF q_del_keeps [OF inv]])
qed

lemma leave_queue_keeps [keeps]: "queues_inv b s \<Longrightarrow> post (inv_snd b) (leave_queue_process_if_needed po s)"
  by (auto simp: leave_queue_process_if_needed_def intro!: keeps split: option.split)

lemma check_prio_keeps [keeps]:
  "queues_inv b s \<Longrightarrow> post (queues_inv b) (check_if_new_prio_is_higher_and_call_scheduler k n c q s)"
  by (auto simp: check_if_new_prio_is_higher_and_call_scheduler_def intro!: keeps)

lemma free_child_keeps [keeps]: "queues_inv b s \<Longrightarrow> post (inv_snd b) (free_child_zombie_process po s)"
  by (auto simp: free_child_zombie_process_def intro!: keeps split: option.split)

lemma fix_tree_keeps [keeps]:
  "queues_inv b s \<Longrightarrow> post (inv_snd b) (free_process_arg_and_fix_tree_link p q s)"
  by (auto simp: free_process_arg_and_fix_tree_link_def unchain_def intro!: keeps)

lemma orphan_loop_keeps [keeps]:
  assumes "queues_inv b s"
  shows "post (inv_snd b) (orphan_loop t s)"
proof -
  have "queues_inv b s \<longrightarrow> inv_snd b y" if "orphan_loop t s = Some y" for y
    using that
  proof (induction rule: orphan_loop.raw_induct [rotated, consumes 1])
    case (1 f t s y)
    have IH: "queues_inv b s \<Longrightarrow> post (inv_snd b) (f t s)" for t s
      using 1(1) by (auto simp: post_def)
    show ?case
    proof
      assume "queues_inv b s"
      from postD [OF _ 1(2)] this IH show "inv_snd b y"
        by (rule_tac postD [OF _ 1(2)]) (auto intro!: keeps)
    qed
  qed
  then show ?thesis using assms by (auto simp: post_def)
qed

lemma make_orphans_keeps [keeps]:
  "queues_inv b s \<Longrightarrow> post (inv_snd b) (make_children_orphans_and_kill_zombies po s)"
  by (auto simp: make_children_orphans_and_kill_zombies_def intro!: keeps split: option.split)

lemma turn_zombie_keeps [keeps]:
  "queues_inv b s \<Longrightarrow> post (inv_snd b) (turn_current_process_into_a_zombie_or_kill_it c i s)"
  by (auto simp: turn_current_process_into_a_zombie_or_kill_it_def intro!: keeps split: option.split)

lemma exit_keeps [keeps]: "queues_inv b s \<Longrightarrow> post (queues_inv b) (exit_process k r s)"
  by (auto simp: exit_process_def intro!: keeps)

lemma kill_other_keeps [keeps]: "queues_inv b s \<Longrightarrow> post (queues_inv b) (kill_other i s)"
  by (auto simp: kill_other_def intro!: keeps)

lemma kill_keeps [keeps]: "queues_inv b s \<Longrightarrow> post (queues_inv b) (kill f i s)"
  by (auto simp: kill_def intro!: keeps split: option.split)

lemma waitpid_keeps [keeps]:
  "queues_inv b s \<Longrightarrow> post (queues_inv b) (waitpid_finish t q w s)"
  "queues_inv b s \<Longrightarrow> post (queues_inv b) (block_for_child k s)"
  "queues_inv b s \<Longrightarrow> post (queues_inv b) (waitpid_any w s)"
  "queues_inv b s \<Longrightarrow> post (queues_inv b) (waitpid_child t q w s)"
  "queues_inv b s \<Longrightarrow> post (queues_inv b) (waitpid i w s)"
  by (auto simp: waitpid_finish_def block_for_child_def waitpid_any_def waitpid_child_def waitpid_def
      Let_def intro!: keeps)

lemma start_checks_keeps [keeps]: "queues_inv b s \<Longrightarrow> post (inv_snd b) (start_checks z pri s)"
  by (auto simp: start_checks_def Let_def intro!: keeps)

lemma process_name_copy_keeps [keeps]: "queues_inv b s \<Longrightarrow> post (inv_snd b) (process_name_copy p n s)"
  by (auto simp: process_name_copy_def Let_def intro!: keeps split: option.split)

lemma alloc_ok_fields [simp]:
  "queues (snd (alloc_ok s)) = queues s" "procs (snd (alloc_ok s)) = procs s"
  "next_ptr (snd (alloc_ok s)) = next_ptr s"
  by (simp_all add: alloc_ok_def split: list.split)

lemma new_process_keeps [keeps]:
  assumes inv: "queues_inv b s"
  shows "post (inv_snd b) (new_process name z pri app s)"
proof -
  obtain po s1 where m: "malloc s = (po, s1)" by fastforce
  then have i1: "queues_inv b s1" using malloc_inv [OF inv] by simp
  show ?thesis
  proof (cases po)
    case None
    then show ?thesis using m i1 by (simp add: new_process_def)
  next
    case (Some p)
    obtain i s2 where p2: "increment_pid_and_get_new_pid s1 = (i, s2)" by fastforce
    then have f2: "queues s2 = queues s1" "procs s2 = procs s1" "next_ptr s2 = next_ptr s1"
      by (auto simp: increment_pid_and_get_new_pid_def Let_def split: list.splits)
    let ?s3 = "snd (alloc_ok (s2\<lparr>procs := (procs s2)(p \<mapsto> (junk s2)\<lparr>next_prev := None, pid := i\<rparr>),
                 pid_table := (pid_table s2)(i \<mapsto> p)\<rparr>))"
    have "queues_inv b ?s3 \<and> (\<forall>q. p \<notin> set (queues ?s3 q))"
      by (rule queues_inv_new [OF inv, where x = "(junk s2)\<lparr>next_prev := None, pid := i\<rparr>"])
        (use m Some f2 in \<open>simp_all\<close>)
    then have "post (queues_inv b) (upd_proc p (prio_update (\<lambda>_. pri)) ?s3)"
      by (intro upd_proc_inv) auto
    note step = keeps_binds(2) [OF this]
    show ?thesis using m p2 Some
      by (auto simp: new_process_def Let_def intro!: step keeps split: option.split)
  qed
qed

lemma finish_start_keeps [keeps]: "queues_inv b s \<Longrightarrow> post (queues_inv b) (finish_start p w a1 a2 e s)"
  by (auto simp: finish_start_def add_child_def Let_def intro!: keeps split: option.split)

lemma start_keeps [keeps]:
  "queues_inv b s \<Longrightarrow> post (queues_inv b) (start f z pri no arg s)"
  "queues_inv b s \<Longrightarrow> post (queues_inv b) (start_virtual no z pri arg s)"
  by (auto simp: start_def start_virtual_def intro!: keeps split: option.split)

text \<open>
  \<open>chprio\<close> keeps the order of the activatable processes if every process among them is marked
  \<open>ACTIVATABLE\<close>; it looks only at the state to decide which queue the process is in.
\<close>

lemma chprio_keeps:
  assumes inv: "queues_inv b s"
    and st: "b \<Longrightarrow> \<forall>p \<in> set (queues s ActivatableQ). \<forall>x. procs s p = Some x \<longrightarrow> state x = ACTIVATABLE"
  shows "post (queues_inv b) (chprio i n s)"
proof (cases "pid_table s i")
  case None
  then show ?thesis using inv by (simp add: chprio_def keeps)
next
  case (Some p)
  let ?u = "upd_proc p (prio_update (\<lambda>_. n)) s"
  have del: "post (queues_inv b) (?u \<bind> (\<lambda>s1. q_del p s1 \<bind> f))"
    if "\<And>s. queues_inv b s \<Longrightarrow> post (queues_inv b) (f s)" for f
  proof -
    have "post (queues_inv b) ((?u \<bind> q_del p) \<bind> f)"
      by (rule post_bind [OF upd_proc_q_del [OF inv]]) (use that in auto)
    then show ?thesis by simp
  qed
  show ?thesis
  proof (cases "procs s p")
    case None
    then show ?thesis using Some inv
      by (auto simp: chprio_def validate_action_process_valid_def intro!: return_int_keeps)
  next
    case x: (Some x)
    show ?thesis
    proof (cases "state x = ACTIVATABLE")
      case True
      then show ?thesis using Some inv x
        by (auto simp: chprio_def Let_def intro!: keeps_values del keeps_binds(1) [OF q_add_keeps]
            return_int_keeps scheduler_keeps)
    next
      case False
      have "post (queues_inv b) ?u" by (rule upd_proc_inv [OF inv]) (use x False st in auto)
      note step = keeps_binds(1) [OF this]
      show ?thesis using Some inv x False
        by (auto simp: chprio_def Let_def intro!: step keeps split: process_state.split)
    qed
  qed
qed

section \<open>The list of children\<close>

text \<open>\<open>path n h cs e\<close>: following \<open>next_sibling\<close>, given by \<open>n\<close>, leads from \<open>h\<close> through \<open>cs\<close> to \<open>e\<close>.\<close>

fun path :: "(ptr \<rightharpoonup> ptr) \<Rightarrow> ptr \<Rightarrow> ptr list \<Rightarrow> ptr \<Rightarrow> bool" where
  "path n h [] e \<longleftrightarrow> h = e"
| "path n h (c # cs) e \<longleftrightarrow> h = c \<and> c \<noteq> 0 \<and> (\<exists>m. n c = Some m \<and> path n m cs e)"

lemma path_append: "path n h (us @ vs) e \<longleftrightarrow> (\<exists>m. path n h us m \<and> path n m vs e)"
  by (induction us arbitrary: h) auto

lemma path_cong: "(\<And>c. c \<in> set cs \<Longrightarrow> n' c = n c) \<Longrightarrow> path n' h cs e = path n h cs e"
  by (induction cs arbitrary: h) auto

lemma path_hd: "path n h (c # cs) e \<Longrightarrow> h = c"
  by simp

lemma path_nonzero: "path n h cs e \<Longrightarrow> c \<in> set cs \<Longrightarrow> c \<noteq> 0 \<and> (\<exists>m. n c = Some m)"
  by (induction cs arbitrary: h) auto

text \<open>Taking an element out of the chain.\<close>

lemma path_remove_first:
  assumes "path n h (t # vs) 0" "distinct (t # vs)" "n t = Some m"
  shows "path (n(t := None)) m vs 0"
  using assms by (subst path_cong [where n = n]) auto

lemma path_remove_later:
  assumes p: "path n h (us @ b # t # vs) 0" and d: "distinct (us @ b # t # vs)" and m: "n t = Some m"
  shows "path (n(b \<mapsto> m, t := None)) h (us @ b # vs) 0"
proof -
  obtain k where k: "path n h us k" "k = b" "b \<noteq> 0" "n b = Some t" "path n m vs 0"
    using p m by (auto simp: path_append)
  have "path (n(b \<mapsto> m, t := None)) h us k" using k(1) d by (subst path_cong [where n = n]) auto
  moreover have "path (n(b \<mapsto> m, t := None)) m vs 0" using k(5) d by (subst path_cong [where n = n]) auto
  ultimately show ?thesis using k d by (auto simp: path_append)
qed

definition nxt :: "kernel \<Rightarrow> ptr \<rightharpoonup> ptr" where
  "nxt s c = map_option next_sibling (procs s c)"

lemma nxt_Some: "nxt s c = Some m \<longleftrightarrow> (\<exists>x. procs s c = Some x \<and> next_sibling x = m)"
  by (auto simp: nxt_def)

text \<open>The children of \<open>par\<close>, from \<open>children_head\<close> to \<open>children_tail\<close>.\<close>

definition children :: "kernel \<Rightarrow> ptr \<Rightarrow> ptr list \<Rightarrow> bool" where
  "children s par cs \<longleftrightarrow> par \<notin> set cs \<and> distinct cs \<and>
     (\<forall>c \<in> set cs. \<forall>x. procs s c = Some x \<longrightarrow> parent x = par) \<and>
     (\<exists>y. procs s par = Some y \<and> path (nxt s) (children_head y) cs 0 \<and>
        children_tail y = (if cs = [] then 0 else last cs))"

lemma scan_children_found:
  assumes "path (nxt s) h (us @ c # vs) 0" "\<And>u y. u \<in> set us \<Longrightarrow> procs s u = Some y \<Longrightarrow> \<not> P y"
    and "procs s c = Some x" "P x"
  shows "scan_children P h b s = Some (c, if us = [] then b else last us)"
  using assms(1,2)
proof (induction us arbitrary: h b)
  case Nil
  then show ?case using assms(3,4) by (subst scan_children.simps) auto
next
  case (Cons u us)
  then obtain y where y: "h = u" "u \<noteq> 0" "procs s u = Some y" "path (nxt s) (next_sibling y) (us @ c # vs) 0"
    by (auto simp: nxt_Some)
  then have "scan_children P h b s = scan_children P (next_sibling y) u s"
    using Cons.prems(2) [of u y] by (subst scan_children.simps) auto
  also have "\<dots> = Some (c, if us = [] then u else last us)"
    by (rule Cons.IH [OF y(4)]) (use Cons.prems(2) in auto)
  finally show ?case by simp
qed

lemma scan_children_none:
  assumes "path (nxt s) h us 0" "\<And>u y. u \<in> set us \<Longrightarrow> procs s u = Some y \<Longrightarrow> \<not> P y"
  shows "scan_children P h b s = Some (0, if us = [] then b else last us)"
  using assms
proof (induction us arbitrary: h b)
  case Nil
  then show ?case by (subst scan_children.simps) auto
next
  case (Cons u us)
  then obtain y where y: "h = u" "u \<noteq> 0" "procs s u = Some y" "path (nxt s) (next_sibling y) us 0"
    by (auto simp: nxt_Some)
  then have "scan_children P h b s = scan_children P (next_sibling y) u s"
    using Cons.prems(2) [of u y] by (subst scan_children.simps) auto
  also have "\<dots> = Some (0, if us = [] then u else last us)"
    by (rule Cons.IH [OF y(4)]) (use Cons.prems(2) in auto)
  finally show ?case by simp
qed

text \<open>The release of a process without shared pages comes back.\<close>

lemma free_process_memory_total:
  assumes "procs s p = Some x" "proc_shared_hash_table x = None" "alloc_fails s = []"
    and "page_table_level_2 x \<noteq> 0 \<Longrightarrow> page_tables_lvl_1_list x \<noteq> None"
  shows "\<exists>s'. free_process_memory p s = Some (0, s') \<and> procs s' = (procs s)(p := None) \<and>
     pid_table s' = (pid_table s)(pid x := None) \<and> cpu s' = cpu s"
proof -
  have "free_page_tables x m \<noteq> None" for m
    using assms(4) by (auto simp: free_page_tables_def Let_def)
  then obtain m where "free_page_tables x (mm s) = Some m" by blast
  then show ?thesis using assms
    by (simp add: free_process_memory_def free_shared_pages_def alloc_ok_def save_pid_def malloc_def Let_def)
qed

lemma unchain_first:
  assumes ch: "children s par (t # vs)" and x: "procs s t = Some x" and y: "procs s par = Some y"
  shows "\<exists>y'. unchain t b x y s = Some (s\<lparr>procs := (procs s)(par \<mapsto> y')\<rparr>) \<and>
     (\<forall>s'. procs s' = (procs s)(par \<mapsto> y', t := None) \<longrightarrow> children s' par vs)"
proof -
  have p: "path (nxt s) (children_head y) (t # vs) 0" "children_tail y = last (t # vs)" "distinct (t # vs)"
    "par \<notin> set (t # vs)" "parent x = par" "\<And>c z. c \<in> set vs \<Longrightarrow> procs s c = Some z \<Longrightarrow> parent z = par"
    using ch x y by (auto simp: children_def)
  let ?y = "if vs = [] then y\<lparr>children_tail := 0, children_head := 0\<rparr> else y\<lparr>children_head := next_sibling x\<rparr>"
  have "last vs \<noteq> t" if "vs \<noteq> []" using p(3) that by (metis distinct.simps(2) last_in_set)
  then have un: "unchain t b x y s = Some (s\<lparr>procs := (procs s)(par \<mapsto> ?y)\<rparr>)"
    using p(1,2,5) y by (auto simp: unchain_def upd_proc_def)
  have "children s' par vs" if s': "procs s' = (procs s)(par \<mapsto> ?y, t := None)" for s'
  proof -
    have n: "nxt s' = (nxt s)(t := None)"
      using s' y by (auto simp: nxt_def fun_eq_iff)
    have "path (nxt s') (next_sibling x) vs 0"
      unfolding n by (rule path_remove_first [OF p(1,3)]) (simp add: nxt_def x)
    then show ?thesis using s' p by (cases "vs = []") (auto simp: children_def)
  qed
  then show ?thesis using un by blast
qed

lemma unchain_later:
  assumes ch: "children s par (us @ b # t # vs)" and x: "procs s t = Some x" and y: "procs s par = Some y"
  shows "\<exists>y' z. unchain t b x y s = Some (s\<lparr>procs := (procs s)(b \<mapsto> z, par \<mapsto> y')\<rparr>) \<and>
     (\<forall>s'. procs s' = (procs s)(b \<mapsto> z, par \<mapsto> y', t := None) \<longrightarrow> children s' par (us @ b # vs))"
proof -
  have p: "path (nxt s) (children_head y) (us @ b # t # vs) 0" "children_tail y = last (us @ b # t # vs)"
    "distinct (us @ b # t # vs)" "par \<notin> set (us @ b # t # vs)" "parent x = par"
    "\<And>c z. c \<in> set (us @ b # vs) \<Longrightarrow> procs s c = Some z \<Longrightarrow> parent z = par"
    using ch x y by (auto simp: children_def)
  obtain w where w: "procs s b = Some w" using p(1) by (auto simp: path_append nxt_Some)
  let ?z = "w\<lparr>next_sibling := next_sibling x\<rparr>"
  let ?y = "if vs = [] then y\<lparr>children_tail := b\<rparr> else y"
  have h: "t \<noteq> children_head y" using p(1,3) by (cases us) auto
  have l: "vs = [] \<longleftrightarrow> t = children_tail y"
    using p(2,3) by (cases vs rule: rev_cases) auto
  have "vs = [] \<Longrightarrow> next_sibling x = 0" using p(1) x by (auto simp: path_append nxt_def)
  then have un: "unchain t b x y s = Some (s\<lparr>procs := (procs s)(b \<mapsto> ?z, par \<mapsto> ?y)\<rparr>)"
    using h l p(4,5) y w by (auto simp: unchain_def upd_proc_def fun_eq_iff)
  have "children s' par (us @ b # vs)" if s': "procs s' = (procs s)(b \<mapsto> ?z, par \<mapsto> ?y, t := None)" for s'
  proof -
    have n: "nxt s' = (nxt s)(b \<mapsto> next_sibling x, t := None)"
      using s' y p(4) by (auto simp: nxt_def fun_eq_iff)
    have "path (nxt s') (children_head y) (us @ b # vs) 0"
      unfolding n by (rule path_remove_later [OF p(1,3)]) (simp add: nxt_def x)
    moreover have "children_tail ?y = last (us @ b # vs)" using p(2) by auto
    ultimately show ?thesis using s' p w by (auto simp: children_def)
  qed
  then show ?thesis using un by blast
qed

text \<open>Both cases together, and the release of the child.\<close>

lemma unchain_total:
  assumes ch: "children s par (us @ t # vs)" and x: "procs s t = Some x" and y: "procs s par = Some y"
    and b: "us \<noteq> [] \<Longrightarrow> b = last us"
  shows "\<exists>s1. unchain t b x y s = Some s1 \<and> procs s1 t = Some x \<and> alloc_fails s1 = alloc_fails s \<and>
     current_pid s1 = current_pid s \<and> pid_table s1 = pid_table s \<and> cpu s1 = cpu s \<and>
     (\<forall>s'. procs s' = (procs s1)(t := None) \<longrightarrow> children s' par (us @ vs))"
proof (cases us rule: rev_cases)
  case Nil
  have "par \<noteq> t" using ch by (auto simp: children_def)
  then show ?thesis using unchain_first [of s par t vs x y b] ch x y Nil by auto
next
  case (snoc us' b')
  then have "b = b'" using b by simp
  moreover have "par \<noteq> t" "b' \<noteq> t" using ch snoc by (auto simp: children_def)
  ultimately show ?thesis using unchain_later [of s par us' b' t vs x y] ch x y snoc by auto
qed

lemma fix_tree_total:
  assumes ch: "children s par (us @ t # vs)" and x: "procs s t = Some x" "state x = ZOMBIE" "pid x \<noteq> current_pid s"
    and ok: "proc_shared_hash_table x = None" "alloc_fails s = []"
      "page_table_level_2 x \<noteq> 0 \<Longrightarrow> page_tables_lvl_1_list x \<noteq> None"
    and b: "b = (if us = [] then t else last us)" and nz: "par \<noteq> 0"
  shows "\<exists>s'. free_process_arg_and_fix_tree_link t b s = Some (0, s') \<and> children s' par (us @ vs) \<and>
     procs s' t = None \<and> pid_table s' = (pid_table s)(pid x := None) \<and> cpu s' = cpu s"
proof -
  obtain y where y: "procs s par = Some y" "path (nxt s) (children_head y) (us @ t # vs) 0"
    "children_tail y = last (us @ t # vs)" using ch by (auto simp: children_def)
  have px: "parent x = par" using ch x(1) by (auto simp: children_def)
  have nz': "c \<noteq> 0" if "c \<in> set (us @ t # vs)" for c using path_nonzero [OF y(2) that] by simp
  have "children_tail y \<in> set (us @ t # vs)" unfolding y(3) by (rule last_in_set) simp
  moreover have "children_head y \<in> set (us @ t # vs)" using y(2) by (cases us) auto
  moreover have "b \<in> set (us @ t # vs)" using b by auto
  ultimately have n: "children_head y \<noteq> 0" "children_tail y \<noteq> 0" "b \<noteq> 0" using nz' by blast+
  obtain s1 where s1: "unchain t b x y s = Some s1" "procs s1 t = Some x" "alloc_fails s1 = []"
    "current_pid s1 = current_pid s" "pid_table s1 = pid_table s" "cpu s1 = cpu s"
    "\<And>s'. procs s' = (procs s1)(t := None) \<Longrightarrow> children s' par (us @ vs)"
    using unchain_total [OF ch x(1) y(1), of b] b ok(2) by auto
  obtain s' where "free_process_memory t s1 = Some (0, s')" "procs s' = (procs s1)(t := None)"
    "pid_table s' = (pid_table s1)(pid x := None)" "cpu s' = cpu s1"
    using free_process_memory_total [OF s1(2) ok(1) s1(3) ok(3)] by blast
  then show ?thesis using s1 n x nz px y(1)
    by (simp add: free_process_arg_and_fix_tree_link_def free_child_zombie_process_def getpid_def)
qed

text \<open>
  C18.  \<open>waitpid\<close> on a zombie child, asked for by its identifier or found as the first zombie,
  comes back with the identifier and the return value of the child, frees its structure and its
  identifier, and leaves the other children chained in their order.
\<close>

theorem waitpid_reaps_child:
  assumes "children s par (us @ t # vs)" "get_current_process s = Some par" "par \<noteq> 0"
    and "procs s t = Some x" "state x = ZOMBIE" "pid x \<noteq> current_pid s"
    and "i < 0 \<and> (\<forall>u \<in> set us. \<forall>z. procs s u = Some z \<longrightarrow> state z \<noteq> ZOMBIE) \<or>
         i = pid x \<and> 0 \<le> i \<and> (\<forall>u \<in> set us. \<forall>z. procs s u = Some z \<longrightarrow> pid z \<noteq> i)"
    and "proc_shared_hash_table x = None" "alloc_fails s = []"
      "page_table_level_2 x \<noteq> 0 \<Longrightarrow> page_tables_lvl_1_list x \<noteq> None"
  shows "\<exists>s'. waitpid i True s = Some s' \<and> kont (cpu s') = KRet (pid x) [return_value x] \<and>
     children s' par (us @ vs) \<and> procs s' t = None \<and> pid_table s' = (pid_table s)(pid x := None)"
proof -
  let ?b = "if us = [] then t else last us"
  obtain y where y: "procs s par = Some y" "path (nxt s) (children_head y) (us @ t # vs) 0"
    using assms(1) by (auto simp: children_def)
  have head: "children_head y = hd (us @ [t])" "children_head y \<noteq> 0"
    using y(2) by (cases us; simp)+
  have scan: "scan_children P (children_head y) (children_head y) s = Some (t, ?b)"
    if "P x" "\<And>u z. u \<in> set us \<Longrightarrow> procs s u = Some z \<Longrightarrow> \<not> P z" for P
    using scan_children_found [OF y(2), of P x "children_head y"] that assms(4) head by (auto split: if_splits)
  obtain s' where s': "free_process_arg_and_fix_tree_link t ?b s = Some (0, s')" "children s' par (us @ vs)"
    "procs s' t = None" "pid_table s' = (pid_table s)(pid x := None)" "cpu s' = cpu s"
    using fix_tree_total [OF assms(1,4,5,6,8,9,10) refl assms(3)] by blast
  have "t \<noteq> 0" using path_nonzero [OF y(2), of t] by simp
  moreover have "waitpid_finish t ?b True s = Some (stay (KRet (pid x) [return_value x]) s')"
    using s'(1) assms(4) by (simp add: waitpid_finish_def)
  ultimately have "waitpid i True s = Some (stay (KRet (pid x) [return_value x]) s')"
    using assms(2,4,5,7) y(1) head scan
    by (auto simp: waitpid_def waitpid_any_def waitpid_child_def)
  moreover have "children (stay k s') par (us @ vs)" for k
    using s'(2) by (simp add: children_def stay_def nxt_def [abs_def])
  ultimately show ?thesis using s' by (simp add: stay_def)
qed

definition demo_family :: kernel where
  "demo_family = demo_kernel\<lparr>
     procs := [20 \<mapsto> (demo_process 2 5 ACTIF None)\<lparr>children_head := 30, children_tail := 40\<rparr>,
               30 \<mapsto> (demo_process 3 7 BLOCKEDIO (Some BlockedIoQ))\<lparr>parent := 20, next_sibling := 40\<rparr>,
               40 \<mapsto> (demo_process 4 7 ZOMBIE None)\<lparr>parent := 20, return_value := 99\<rparr>],
     pid_table := [2 \<mapsto> 20, 3 \<mapsto> 30, 4 \<mapsto> 40], current_pid := 2,
     queues := (\<lambda>_. [])(BlockedIoQ := [30])\<rparr>"

theorem waitpid_reaps_child_witness:
  "\<exists>s'. waitpid (- 1) True demo_family = Some s' \<and> kont (cpu s') = KRet 4 [99] \<and> children s' 20 [30] \<and>
     procs s' 40 = None"
proof -
  let ?x = "(demo_process 4 7 ZOMBIE None)\<lparr>parent := 20, return_value := 99\<rparr>"
  have h: "children demo_family 20 ([30] @ 40 # [])" "get_current_process demo_family = Some 20" "(20 :: ptr) \<noteq> 0"
    "procs demo_family 40 = Some ?x" "state ?x = ZOMBIE" "pid ?x \<noteq> current_pid demo_family"
    "- 1 < (0 :: int) \<and> (\<forall>u \<in> set [30]. \<forall>z. procs demo_family u = Some z \<longrightarrow> state z \<noteq> ZOMBIE) \<or>
      - 1 = pid ?x \<and> 0 \<le> (- 1 :: int) \<and> (\<forall>u \<in> set [30]. \<forall>z. procs demo_family u = Some z \<longrightarrow> pid z \<noteq> - 1)"
    "proc_shared_hash_table ?x = None" "alloc_fails demo_family = []"
    "page_table_level_2 ?x \<noteq> 0 \<Longrightarrow> page_tables_lvl_1_list ?x \<noteq> None"
    by (simp_all add: demo_family_def demo_kernel_def demo_process_def children_def nxt_def get_current_process_def getpid_def)
  from waitpid_reaps_child [OF h] show ?thesis by (auto simp: demo_process_def)
qed

text \<open>
  C35.  Killing a process that waits for a child stops the machine: such a process is in no queue,
  and \<open>queue_del\<close> asserts that the element it removes is chained.
\<close>

theorem kill_waiting_parent_stops:
  assumes "pid_table s i = Some p" "procs s p = Some x" "state x = BLOCKEDWAITCHILD" "next_prev x = None"
    and "i \<noteq> idleId" "i \<noteq> kernelId" "pid x \<noteq> current_pid s"
  shows "kill f i s = None"
  using assms
  by (simp add: kill_def kill_other_def get_process_struct_of_pid_def validate_action_process_valid_def getpid_def
      leave_queue_process_if_needed_def q_del_def)

theorem kill_waiting_parent_stops_witness:
  "kill False 7 (demo_family\<lparr>procs := (procs demo_family)(70 \<mapsto> demo_process 7 3 BLOCKEDWAITCHILD None),
     pid_table := (pid_table demo_family)(7 \<mapsto> 70)\<rparr>) = None"
  by (rule kill_waiting_parent_stops [where p = 70 and x = "demo_process 7 3 BLOCKEDWAITCHILD None"])
    (simp_all add: demo_family_def demo_process_def idleId_def kernelId_def)

section \<open>Identifiers and slots\<close>

text \<open>The identifiers that may be handed out: those given back, and those above the iterator.\<close>

definition pid_pool :: "kernel \<Rightarrow> bool" where
  "pid_pool s \<longleftrightarrow> distinct (process_id_list s) \<and> (\<forall>i \<in> set (process_id_list s). pid_table s i = None \<and> i \<le> pid_iterator s) \<and>
     (\<forall>i. pid_table s i \<noteq> None \<longrightarrow> i \<le> pid_iterator s)"

text \<open>
  C31.  The identifier given to a new process belongs to no other process, and entering the process
  under it into the table keeps the pool in order; so does giving an identifier back.
\<close>

theorem new_pid_is_free:
  assumes "pid_pool s" "- 1 \<le> pid_iterator s" "pid_iterator s < 2147483647"
    and "increment_pid_and_get_new_pid s = (i, s')"
  shows "pid_table s i = None \<and> pid_pool (s'\<lparr>pid_table := (pid_table s')(i \<mapsto> p)\<rparr>) \<and>
    (alloc_fails s = [] \<longrightarrow> pid_pool (snd (save_pid i (s'\<lparr>pid_table := (pid_table s')(i := None)\<rparr>))))"
proof (cases "process_id_list s")
  case Nil
  have "int32 (pid_iterator s + 1) = pid_iterator s + 1" using assms(2,3) by (intro int32_id) auto
  then have i: "i = pid_iterator s + 1" "s' = s\<lparr>pid_iterator := i\<rparr>"
    using assms(4) Nil by (auto simp: increment_pid_and_get_new_pid_def Let_def)
  have "pid_table s i = None" using assms(1) i(1) by (force simp: pid_pool_def)
  moreover have "j \<le> i" if "pid_table s j \<noteq> None" for j using assms(1) that i(1) by (force simp: pid_pool_def)
  ultimately show ?thesis using i Nil by (auto simp: pid_pool_def save_pid_def malloc_def alloc_ok_def)
next
  case (Cons j js)
  then have i: "i = j" "s' = s\<lparr>process_id_list := js\<rparr>" using assms(4) by (auto simp: increment_pid_and_get_new_pid_def)
  then show ?thesis using assms(1) Cons by (auto simp: pid_pool_def save_pid_def malloc_def alloc_ok_def)
qed

theorem new_pid_is_free_witness:
  "pid_pool (demo_family\<lparr>pid_iterator := 5, process_id_list := [1]\<rparr>) \<and>
   pid_table (demo_family\<lparr>pid_iterator := 5, process_id_list := [1]\<rparr>) 1 = None"
proof -
  let ?s = "demo_family\<lparr>pid_iterator := 5, process_id_list := [1]\<rparr>"
  have h: "pid_pool ?s" "- 1 \<le> pid_iterator ?s" "pid_iterator ?s < 2147483647"
    "increment_pid_and_get_new_pid ?s = (1, ?s\<lparr>process_id_list := []\<rparr>)"
    by (auto simp: pid_pool_def demo_family_def demo_kernel_def increment_pid_and_get_new_pid_def split: if_splits)
  from new_pid_is_free [OF h] h(1) show ?thesis by simp
qed

text \<open>
  C36.  A call of \<open>start\<close> that fails the check of its arguments still takes one of the slots for
  running processes: after enough such calls no process can be started any more, although none of
  them was.
\<close>

theorem failed_starts_exhaust_slots:
  assumes "0 \<le> nb_proc_running s" "nb_proc_running s \<le> MAX_NB_PROCESS"
    and "validate_action_process_valid (get_process_struct_of_pid (getpid s) s) s = Some 0"
  shows "\<exists>n s'. ((\<lambda>s. start_virtual (Some name) z 300 arg (the s)) ^^ n) (Some s) = Some s' \<and>
     procs s' = procs s \<and> (\<forall>name' z' pri' arg'. start_virtual (Some name') z' pri' arg' s' = return_int (- 1) s')"
proof -
  let ?f = "\<lambda>s. start_virtual (Some name) z 300 arg (the s)"
  let ?v = "\<lambda>s. validate_action_process_valid (get_process_struct_of_pid (getpid s) s) s"
  have v: "?v t = ?v s" if "procs t = procs s" "pid_table t = pid_table s" "current_pid t = current_pid s" for t
    using that by (simp add: validate_action_process_valid_def get_process_struct_of_pid_def getpid_def split: option.split)
  have step: "?f (Some t) = return_int (- 1) (t\<lparr>nb_proc_running := nb_proc_running t + 1\<rparr>)"
    if "nb_proc_running t < MAX_NB_PROCESS" "procs t = procs s" "pid_table t = pid_table s" "current_pid t = current_pid s" for t
    using that assms(3) v [of "t\<lparr>nb_proc_running := nb_proc_running t + 1\<rparr>"]
    by (simp add: start_virtual_def start_checks_def MAXPRIO_def Let_def)
  have "\<exists>s'. (?f ^^ n) (Some s) = Some s' \<and> procs s' = procs s \<and> pid_table s' = pid_table s \<and> current_pid s' = current_pid s \<and>
      nb_proc_running s' = nb_proc_running s + int n" if "nb_proc_running s + int n \<le> MAX_NB_PROCESS" for n
    using that
  proof (induction n)
    case 0
    then show ?case by simp
  next
    case (Suc n)
    then obtain t where "(?f ^^ n) (Some s) = Some t" "procs t = procs s" "pid_table t = pid_table s" "current_pid t = current_pid s"
      "nb_proc_running t = nb_proc_running s + int n" by auto
    then show ?case using step [of t] Suc.prems by (simp add: return_int_def stay_def)
  qed
  from this [of "nat (MAX_NB_PROCESS - nb_proc_running s)"] obtain n s' where s':
    "(?f ^^ n) (Some s) = Some s'" "procs s' = procs s" "nb_proc_running s' = MAX_NB_PROCESS"
    using assms(1,2) by auto
  moreover have "start_virtual (Some name') z' pri' arg' s' = return_int (- 1) s'" for name' z' pri' arg'
    using s'(3) by (simp add: start_virtual_def start_checks_def Let_def)
  ultimately show ?thesis by blast
qed

theorem failed_starts_exhaust_slots_witness:
  "\<exists>n s'. ((\<lambda>s. start_virtual (Some idle_name) 0 300 0 (the s)) ^^ n) (Some demo_family) = Some s' \<and>
     (\<forall>name' z' pri' arg'. start_virtual (Some name') z' pri' arg' s' = return_int (- 1) s')"
proof -
  have "0 \<le> nb_proc_running demo_family" "nb_proc_running demo_family \<le> MAX_NB_PROCESS"
    "validate_action_process_valid (get_process_struct_of_pid (getpid demo_family) demo_family) demo_family = Some 0"
    by (simp_all add: demo_family_def demo_kernel_def demo_process_def MAX_NB_PROCESS_def getpid_def
        validate_action_process_valid_def get_process_struct_of_pid_def)
  from failed_starts_exhaust_slots [OF this, of idle_name 0 0] show ?thesis by blast
qed

text \<open>
  The name of a process is copied with its terminator into a block of \<open>strlen name\<close> bytes: the
  copy stays inside the block exactly when the allocator happens to give more than was asked for.
\<close>

lemma process_name_fits:
  assumes "alloc_fails s = []" "procs s p = Some x" "length (chars name) \<le> MAX_SIZE_NAME"
  shows "process_name_copy p name s = None \<longleftrightarrow> usable_size s (length (chars name)) \<le> length (chars name)"
proof -
  have m: "malloc s = (Some (next_ptr s), s\<lparr>next_ptr := Suc (next_ptr s)\<rparr>)"
    using assms(1) by (simp add: malloc_def alloc_ok_def)
  let ?n = "length (chars name)" and ?d = "replicate (usable_size s (length (chars name))) 0"
  have "strcpy ?d (c_str name) = None \<longleftrightarrow> usable_size s ?n \<le> ?n"
    using strncpy_terminated [of "chars name" "Suc ?n" ?d "[]"] strncpy_overflow [of "chars name" ?d "Suc ?n" "[]"]
    by (cases "Suc ?n \<le> usable_size s ?n") (simp_all add: strcpy_def c_str_def strlen_terminated)
  then show ?thesis using m assms(2,3)
    by (auto simp: process_name_copy_def Let_def upd_proc_def bind_eq_None_conv)
qed

end
