(* ===== verification/Ring_Buffer.thy ===== *)
theory Ring_Buffer
  imports Prelude
begin

text \<open>
  Circular buffers: the interface of a bounded first-in-first-out buffer, which the message queues
  implement as well, and the macros of \<open>src/lib/include/buf.h\<close>.  A buffer is an array of \<open>size\<close>
  elements; the pointers \<open>writepos\<close> and \<open>readpos\<close> are indices into it, \<open>start\<close> is \<open>0\<close> and \<open>end\<close> is
  \<open>size - 1\<close>.  A failed \<open>assert\<close> has no result.
\<close>

section \<open>Bounded first-in-first-out buffers\<close>

datatype 'a fifo_op = Put 'a | Get

text \<open>Running operations on the list specification and on an implementation.\<close>

fun fifo_run :: "nat \<Rightarrow> 'a list \<Rightarrow> 'a fifo_op list \<Rightarrow> ('a list \<times> 'a list) option" where
  "fifo_run cap xs [] = Some ([], xs)"
| "fifo_run cap xs (Put m # ops) = (if length xs < cap then fifo_run cap (xs @ [m]) ops else None)"
| "fifo_run cap [] (Get # ops) = None"
| "fifo_run cap (x # xs) (Get # ops) = map_option (\<lambda>(outs, ys). (x # outs, ys)) (fifo_run cap xs ops)"

fun impl_run :: "('q \<Rightarrow> 'a \<Rightarrow> 'q option) \<Rightarrow> ('q \<Rightarrow> ('a \<times> 'q) option) \<Rightarrow> 'q \<Rightarrow> 'a fifo_op list \<Rightarrow> ('a list \<times> 'q) option" where
  "impl_run put get q [] = Some ([], q)"
| "impl_run put get q (Put m # ops) = do { q' \<leftarrow> put q m; impl_run put get q' ops }"
| "impl_run put get q (Get # ops) =
     do { (m, q') \<leftarrow> get q; (outs, q'') \<leftarrow> impl_run put get q' ops; Some (m # outs, q'') }"

locale bounded_fifo =
  fixes rep :: "'q \<Rightarrow> 'a list \<Rightarrow> bool" and cap :: nat
    and put :: "'q \<Rightarrow> 'a \<Rightarrow> 'q option" and get :: "'q \<Rightarrow> ('a \<times> 'q) option"
  assumes put_law: "rep q xs \<Longrightarrow> length xs < cap \<Longrightarrow> \<exists>q'. put q m = Some q' \<and> rep q' (xs @ [m])"
    and get_law: "rep q (x # xs) \<Longrightarrow> \<exists>q'. get q = Some (x, q') \<and> rep q' xs"
begin

lemma run_refines:
  "rep q xs \<Longrightarrow> fifo_run cap xs ops = Some (outs, ys) \<Longrightarrow>
   \<exists>q'. impl_run put get q ops = Some (outs, q') \<and> rep q' ys"
proof (induction ops arbitrary: q xs outs)
  case Nil
  then show ?case by simp
next
  case (Cons op ops)
  show ?case
  proof (cases op)
    case (Put m)
    then have room: "length xs < cap" "fifo_run cap (xs @ [m]) ops = Some (outs, ys)"
      using Cons.prems(2) by (auto split: if_splits)
    then show ?thesis using put_law [OF Cons.prems(1) room(1), of m] Cons.IH Put by auto
  next
    case Get
    then obtain x xs' outs' where x: "xs = x # xs'" "fifo_run cap xs' ops = Some (outs', ys)" "outs = x # outs'"
      using Cons.prems(2) by (cases xs) auto
    then show ?thesis using get_law [of q x xs'] Cons.prems(1) Cons.IH [of _ xs' outs'] Get by fastforce
  qed
qed

end

section \<open>Windows of an array\<close>

text \<open>The \<open>k\<close> elements of the array from the index \<open>r\<close> on, going around.\<close>

definition window :: "'a list \<Rightarrow> nat \<Rightarrow> nat \<Rightarrow> 'a list" where
  "window d r k = map (\<lambda>i. d ! ((r + i) mod length d)) [0..<k]"

lemma window_length [simp]: "length (window d r k) = k"
  by (simp add: window_def)

lemma window_0 [simp]: "window d r 0 = []"
  by (simp add: window_def)

lemma window_snoc: "window d r (Suc k) = window d r k @ [d ! ((r + k) mod length d)]"
  by (simp add: window_def)

lemma window_Cons: "r < length d \<Longrightarrow> window d r (Suc k) = d ! r # window d (Suc r mod length d) k"
  by (simp add: window_def upt_conv_Cons mod_add_left_eq flip: map_Suc_upt del: upt_Suc)

lemma index_inj:
  fixes r i j n :: nat
  assumes "(r + i) mod n = (r + j) mod n" "i < n" "j < n"
  shows "i = j"
proof -
  have "j = i" if "i \<le> j" "(r + i) mod n = (r + j) mod n" "j < n" for i j
  proof -
    have "n dvd (r + j) - (r + i)" using that by (subst mod_eq_dvd_iff_nat [symmetric]) auto
    then show ?thesis using that dvd_imp_le [of n "j - i"] by (cases "i = j") auto
  qed
  then show ?thesis using assms by (metis nat_le_linear)
qed

lemma window_put:
  assumes "k < length d"
  shows "window (d[(r + k) mod length d := x]) r (Suc k) = window d r k @ [x]"
proof -
  have "(r + k) mod length d \<noteq> (r + i) mod length d" if "i < k" for i
    using index_inj [of r k "length d" i] that assms by auto
  moreover have "(r + k) mod length d < length d" using assms by (intro mod_less_divisor) auto
  ultimately show ?thesis by (auto simp: window_def nth_list_update_neq)
qed

section \<open>The macros of buf.h\<close>

record 'a buffer =
  buf_size :: int
  buf_count :: int
  buf_data :: "'a list"
  writepos :: int
  readpos :: int

text \<open>\<open>INIT_BUFFER\<close> on an array of \<open>size\<close> elements.\<close>

definition INIT_BUFFER :: "'a list \<Rightarrow> int \<Rightarrow> 'a buffer" where
  "INIT_BUFFER data n = \<lparr>buf_size = n, buf_count = 0, buf_data = data, writepos = 0, readpos = 0\<rparr>"

definition buf_empty :: "'a buffer \<Rightarrow> bool" where
  "buf_empty b \<longleftrightarrow> buf_count b \<le> 0"

definition buf_full :: "'a buffer \<Rightarrow> bool" where
  "buf_full b \<longleftrightarrow> buf_count b \<ge> buf_size b"

definition buf_incr :: "'a buffer \<Rightarrow> int \<Rightarrow> int" where
  "buf_incr b p = (if p = buf_size b - 1 then 0 else p + 1)"

definition buf_decr :: "'a buffer \<Rightarrow> int \<Rightarrow> int" where
  "buf_decr b p = (if p = 0 then buf_size b - 1 else p - 1)"

definition buf_at :: "'a buffer \<Rightarrow> int \<Rightarrow> 'a option" where
  "buf_at b p = (if 0 \<le> p \<and> nat p < length (buf_data b) then Some (buf_data b ! nat p) else None)"

definition buf_store :: "'a buffer \<Rightarrow> int \<Rightarrow> 'a \<Rightarrow> 'a buffer option" where
  "buf_store b p x =
     (if 0 \<le> p \<and> nat p < length (buf_data b) then Some (b\<lparr>buf_data := (buf_data b)[nat p := x]\<rparr>) else None)"

definition buf_write :: "'a buffer \<Rightarrow> 'a \<Rightarrow> 'a buffer option" where
  "buf_write b x =
     (if \<not> (buf_count b \<ge> 0 \<and> buf_count b < buf_size b) then None
      else do {
        b1 \<leftarrow> buf_store b (writepos b) x;
        Some (b1\<lparr>writepos := buf_incr b1 (writepos b1), buf_count := buf_count b1 + 1\<rparr>) })"

text \<open>The result is the element \<open>ptr\<close> points to, if it is not \<open>NULL\<close>.\<close>

definition buf_unwrite :: "'a buffer \<Rightarrow> ('a option \<times> 'a buffer) option" where
  "buf_unwrite b =
     (if buf_empty b then Some (None, b)
      else do {
        let w = buf_decr b (writepos b);
        x \<leftarrow> buf_at b w;
        Some (Some x, b\<lparr>writepos := w, buf_count := buf_count b - 1\<rparr>) })"

definition buf_read :: "'a buffer \<Rightarrow> ('a \<times> 'a buffer) option" where
  "buf_read b =
     (if \<not> buf_count b > 0 \<or> \<not> buf_count b \<le> buf_size b then None
      else do {
        x \<leftarrow> buf_at b (readpos b);
        Some (x, b\<lparr>readpos := buf_incr b (readpos b), buf_count := buf_count b - 1\<rparr>) })"

definition buf_rotate :: "'a buffer \<Rightarrow> 'a \<Rightarrow> ('a \<times> 'a buffer) option" where
  "buf_rotate b y =
     (if readpos b \<noteq> writepos b then None
      else do {
        x \<leftarrow> buf_at b (readpos b);
        b1 \<leftarrow> buf_store b (writepos b) y;
        let b2 = b1\<lparr>readpos := buf_incr b1 (readpos b1)\<rparr>;
        Some (x, b2\<lparr>writepos := buf_incr b2 (writepos b2)\<rparr>) })"

definition buf_reset :: "'a buffer \<Rightarrow> 'a buffer" where
  "buf_reset b = b\<lparr>buf_count := 0, writepos := 0, readpos := 0\<rparr>"

section \<open>They implement the interface\<close>

definition buf_rep :: "nat \<Rightarrow> 'a buffer \<Rightarrow> 'a list \<Rightarrow> bool" where
  "buf_rep n b xs \<longleftrightarrow>
     0 < n \<and> buf_size b = int n \<and> length (buf_data b) = n \<and> buf_count b = int (length xs) \<and>
     length xs \<le> n \<and> 0 \<le> readpos b \<and> nat (readpos b) < n \<and>
     writepos b = int ((nat (readpos b) + length xs) mod n) \<and>
     xs = window (buf_data b) (nat (readpos b)) (length xs)"

lemma buf_incr_mod: "buf_size b = int n \<Longrightarrow> i < n \<Longrightarrow> buf_incr b (int i) = int (Suc i mod n)"
  by (auto simp: buf_incr_def mod_Suc)

lemma buf_decr_mod:
  "buf_size b = int n \<Longrightarrow> 0 < n \<Longrightarrow> buf_decr b (int (Suc i mod n)) = int (i mod n)"
  by (auto simp: buf_decr_def mod_Suc)

lemma buf_rep_init: "length d = n \<Longrightarrow> 0 < n \<Longrightarrow> buf_rep n (INIT_BUFFER d (int n)) []"
  by (simp add: buf_rep_def INIT_BUFFER_def)

lemma buf_write_rep:
  assumes "buf_rep n b xs" "length xs < n"
  shows "\<exists>b'. buf_write b x = Some b' \<and> buf_rep n b' (xs @ [x])"
proof -
  let ?r = "nat (readpos b)" and ?w = "(nat (readpos b) + length xs) mod n"
  have w: "?w < n" using assms by (auto simp: buf_rep_def)
  let ?b = "b\<lparr>buf_data := (buf_data b)[?w := x], writepos := int (Suc ?w mod n), buf_count := buf_count b + 1\<rparr>"
  have "buf_write b x = Some ?b"
    using assms w buf_incr_mod [of "b\<lparr>buf_data := (buf_data b)[?w := x]\<rparr>" n ?w]
    by (auto simp: buf_write_def buf_store_def buf_rep_def)
  moreover have "buf_rep n ?b (xs @ [x])"
    using assms window_put [of "length xs" "buf_data b" ?r x] by (simp add: buf_rep_def mod_simps)
  ultimately show ?thesis by blast
qed

lemma buf_read_rep:
  assumes "buf_rep n b (x # xs)"
  shows "\<exists>b'. buf_read b = Some (x, b') \<and> buf_rep n b' xs"
proof -
  let ?r = "nat (readpos b)"
  let ?b = "b\<lparr>readpos := int (Suc ?r mod n), buf_count := buf_count b - 1\<rparr>"
  have r: "?r < n" "0 \<le> readpos b" "length (buf_data b) = n" using assms by (auto simp: buf_rep_def)
  then have x: "x = buf_data b ! ?r" "xs = window (buf_data b) (Suc ?r mod n) (length xs)"
    using assms window_Cons [of ?r "buf_data b" "length xs"] by (auto simp: buf_rep_def)
  have "buf_read b = Some (x, ?b)"
    using assms r x(1) buf_incr_mod [of b n ?r] by (auto simp: buf_read_def buf_at_def buf_rep_def)
  moreover have "buf_rep n ?b xs"
    using assms r x(2) by (simp add: buf_rep_def mod_simps)
  ultimately show ?thesis by blast
qed

lemma buf_unwrite_rep:
  assumes "buf_rep n b (xs @ [x])"
  shows "\<exists>b'. buf_unwrite b = Some (Some x, b') \<and> buf_rep n b' xs"
proof -
  let ?r = "nat (readpos b)" and ?w = "(nat (readpos b) + length xs) mod n"
  let ?b = "b\<lparr>writepos := int ?w, buf_count := buf_count b - 1\<rparr>"
  have w: "?w < n" "length (buf_data b) = n" using assms by (auto simp: buf_rep_def)
  have x: "x = buf_data b ! ?w" "xs = window (buf_data b) ?r (length xs)"
    using assms window_snoc [of "buf_data b" ?r "length xs"] by (auto simp: buf_rep_def)
  have "buf_unwrite b = Some (Some x, ?b)"
    using assms w x(1) buf_decr_mod [of b n "?r + length xs"]
    by (auto simp: buf_unwrite_def buf_at_def buf_rep_def buf_empty_def Let_def)
  moreover have "buf_rep n ?b xs" using assms x(2) by (simp add: buf_rep_def)
  ultimately show ?thesis by blast
qed

interpretation buf: bounded_fifo "buf_rep n" n buf_write buf_read for n
  using buf_write_rep buf_read_rep by unfold_locales

lemma buf_rotate_rep:
  assumes "buf_rep n b (x # xs)" "length (x # xs) = n"
  shows "\<exists>b'. buf_rotate b y = Some (x, b') \<and> buf_rep n b' (xs @ [y])"
proof -
  obtain b1 b2 where b: "buf_read b = Some (x, b1)" "buf_write b1 y = Some b2" "buf_rep n b2 (xs @ [y])"
    using buf_read_rep [OF assms(1)] buf_write_rep [of n _ xs y] assms(2) by (metis length_Cons lessI)
  have "(nat (readpos b) + n) mod n = nat (readpos b)" "0 \<le> readpos b"
    "writepos b = int ((nat (readpos b) + n) mod n)"
    using assms by (simp_all only: buf_rep_def mod_add_self2 mod_less)
  then have "readpos b = writepos b" by simp
  then have "buf_rotate b y = Some (x, b2)"
    using b(1,2) by (auto simp: buf_rotate_def buf_read_def buf_write_def buf_at_def buf_store_def
        buf_incr_def Let_def split: if_splits)
  with b(3) show ?thesis by blast
qed

text \<open>
  C32.  A buffer initialised on an array of \<open>n\<close> elements is a bounded queue over any sequence of
  writes and reads that never writes to a full or reads from an empty buffer: the elements come out
  in the order they were written, no \<open>assert\<close> fails, and the two tests are right in the end.
\<close>

theorem buf_refines_fifo:
  assumes "length d = n" "0 < n" "fifo_run n [] ops = Some (outs, ys)"
  shows "\<exists>b. impl_run buf_write buf_read (INIT_BUFFER d (int n)) ops = Some (outs, b) \<and>
    buf_rep n b ys \<and> (buf_empty b \<longleftrightarrow> ys = []) \<and> (buf_full b \<longleftrightarrow> length ys = n)"
proof -
  obtain b where "impl_run buf_write buf_read (INIT_BUFFER d (int n)) ops = Some (outs, b)" "buf_rep n b ys"
    using buf.run_refines [OF buf_rep_init [OF assms(1,2)] assms(3)] by blast
  then show ?thesis
    by (intro exI [of _ b]) (auto simp: buf_rep_def buf_empty_def buf_full_def)
qed

theorem buf_refines_fifo_witness:
  "\<exists>b. impl_run buf_write buf_read (INIT_BUFFER [0, 0 :: int] 2) [Put 1, Put 2, Get, Put 3, Get] =
     Some ([1, 2], b) \<and> buf_rep 2 b [3] \<and> \<not> buf_empty b \<and> \<not> buf_full b"
  using buf_refines_fifo [of "[0, 0 :: int]" 2 "[Put 1, Put 2, Get, Put 3, Get]" "[1, 2]" "[3]"] by simp

end
