(* ===== verification/Msg_Queue.thy ===== *)
theory Msg_Queue
  imports Semaphore Ring_Buffer
begin

text \<open>
  Message queues (\<open>src/kernel/msgqueue.c\<close>): a ring of \<open>msg_size\<close> integers and two queues of blocked
  processes each.  \<open>malloc\<close> of the array fails for more than \<open>2147483646\<close> bytes (\<open>secmalloc\<close>).  The
  array has the elements \<open>0\<close> before they are written.  The theory shows that the ring is a bounded
  first-in-first-out buffer, and what each branch of \<open>psend\<close> and \<open>preceive\<close> does.
\<close>

section \<open>The code\<close>

definition NBQUEUES :: nat where "NBQUEUES = 100"
definition SUCCES :: int where "SUCCES = 0"
definition FAILURE :: int where "FAILURE = - 1"

definition get_first_free_index :: "kernel \<Rightarrow> nat option" where
  "get_first_free_index s = List.find (\<lambda>i. all_queues s i = None) [0..<NBQUEUES]"

definition valid_fid :: "int \<Rightarrow> kernel \<Rightarrow> bool" where
  "valid_fid fid s \<longleftrightarrow> \<not> (fid < 0 \<or> fid \<ge> int NBQUEUES \<or> all_queues s (nat fid) = None)"

definition is_full :: "msg_queue \<Rightarrow> bool" where
  "is_full q \<longleftrightarrow> number_of_msgs q = msg_size q"

definition is_empty :: "msg_queue \<Rightarrow> bool option" where
  "is_empty q = (if msg_arr_null q then None else Some (number_of_msgs q = 0))"

text \<open>Taking an index outside the array has no result.\<close>

definition pop_oldest_msg :: "msg_queue \<Rightarrow> (int \<times> msg_queue) option" where
  "pop_oldest_msg q =
     (let i = c_mod (int (iffc q) - int (number_of_msgs q)) (int (msg_size q)) in
      if msg_size q = 0 \<or> i < 0 \<or> nat i \<ge> length (msg_arr q) then None
      else Some (msg_arr q ! nat i,
        q\<lparr>number_of_msgs := if number_of_msgs q = 0 then 2 ^ 64 - 1 else number_of_msgs q - 1\<rparr>))"

definition add_message :: "msg_queue \<Rightarrow> int \<Rightarrow> msg_queue option" where
  "add_message q message =
     (if iffc q \<ge> length (msg_arr q) \<or> msg_size q = 0 then None
      else Some (q\<lparr>msg_arr := (msg_arr q)[iffc q := message],
                   number_of_msgs := number_of_msgs q + 1,
                   iffc := (iffc q + 1) mod msg_size q\<rparr>))"

definition put_queue :: "nat \<Rightarrow> msg_queue \<Rightarrow> kernel \<Rightarrow> kernel" where
  "put_queue fid q s = s\<lparr>all_queues := (all_queues s)(fid \<mapsto> q)\<rparr>"

text \<open>
  \<open>free_blocked_queue\<close>, with the length of the queue as the bound of the loop.
\<close>

fun free_blocked_loop :: "nat \<Rightarrow> qid \<Rightarrow> kernel \<Rightarrow> kernel option" where
  "free_blocked_loop 0 q s = (if queues s q = [] then Some s else None)"
| "free_blocked_loop (Suc n) q s =
     (if queues s q = [] then Some s
      else do {
        (po, s1) \<leftarrow> q_out q s;
        p \<leftarrow> po;
        s2 \<leftarrow> upd_proc p (\<lambda>x. x\<lparr>msg_status := ERROR, state := ACTIVATABLE, next_prev := None\<rparr>) s1;
        s3 \<leftarrow> q_add prio p ActivatableQ s2;
        free_blocked_loop n q s3 })"

definition free_blocked_queue :: "qid \<Rightarrow> kernel \<Rightarrow> kernel option" where
  "free_blocked_queue q s = free_blocked_loop (length (queues s q)) q s"

definition pcreate :: "int \<Rightarrow> kernel \<Rightarrow> int \<times> kernel" where
  "pcreate cnt s =
     (if cnt < 0 then (- 1, s)
      else case get_first_free_index s of
        None \<Rightarrow> (- 1, s)
      | Some i \<Rightarrow>
          (case malloc s of
             (None, s1) \<Rightarrow> (- 1, s1)
           | (Some a, s1) \<Rightarrow>
               (let s2 = put_queue i (junk_queue s1) s1 in
                if 4 * cnt \<ge> 2147483647 then (- 1, s2)
                else case malloc s2 of
                  (None, s3) \<Rightarrow> (- 1, put_queue i ((junk_queue s3)\<lparr>msg_arr_null := True\<rparr>) s3)
                | (Some b, s3) \<Rightarrow>
                    (int i, put_queue i \<lparr>msg_arr = replicate (nat cnt) 0, msg_arr_null = False,
                       msg_size = nat cnt, number_of_msgs = 0, iffc = 0\<rparr>
                       (s3\<lparr>queues := (queues s3)(ConsQ i := [], ProdQ i := [])\<rparr>)))))"

definition pdelete :: "int \<Rightarrow> kernel \<Rightarrow> kernel option" where
  "pdelete fid s =
     (if \<not> valid_fid fid s then return_int FAILURE s
      else do {
        s1 \<leftarrow> free_blocked_queue (ConsQ (nat fid)) s;
        s2 \<leftarrow> free_blocked_queue (ProdQ (nat fid)) s1;
        scheduler (KRet SUCCES []) (s2\<lparr>all_queues := (all_queues s2)(nat fid := None)\<rparr>) })"

definition psend :: "int \<Rightarrow> int \<Rightarrow> kernel \<Rightarrow> kernel option" where
  "psend fid message s =
     (if \<not> valid_fid fid s then return_int FAILURE s
      else do {
        let f = nat fid;
        q \<leftarrow> all_queues s f;
        e \<leftarrow> is_empty q;
        if e \<and> queues s (ConsQ f) \<noteq> [] then do {
          (po, s1) \<leftarrow> q_out (ConsQ f) s;
          p \<leftarrow> po;
          s2 \<leftarrow> upd_proc p (state_update (\<lambda>_. ACTIVATABLE)) s1;
          s3 \<leftarrow> q_add prio p ActivatableQ s2;
          s4 \<leftarrow> upd_proc p (\<lambda>x. x\<lparr>msg_value := message, msg_status := RECEIVED\<rparr>) s3;
          scheduler (KRet SUCCES []) s4 }
        else if is_full q then do {
          p \<leftarrow> get_current_process s;
          s1 \<leftarrow> upd_proc p (\<lambda>x. x\<lparr>msg_value := message, state := BLOCKEDQUEUE,
                  blocked_head := ProdQ f\<rparr>) s;
          s2 \<leftarrow> q_add prio p (ProdQ f) s1;
          scheduler (KPsend p) s2 }
        else do {
          q' \<leftarrow> add_message q message;
          return_int SUCCES (put_queue f q' s) } })"

text \<open>\<open>wants\<close>: whether the pointer \<open>message\<close> is not \<open>NULL\<close>; what is written there is in the result.\<close>

definition outs_if :: "bool \<Rightarrow> int \<Rightarrow> int list" where
  "outs_if wants v = (if wants then [v] else [])"

definition preceive :: "int \<Rightarrow> bool \<Rightarrow> kernel \<Rightarrow> kernel option" where
  "preceive fid wants s =
     (if \<not> valid_fid fid s then return_int FAILURE s
      else do {
        let f = nat fid;
        q \<leftarrow> all_queues s f;
        e \<leftarrow> is_empty q;
        if e \<and> queues s (ProdQ f) \<noteq> [] then do {
          (po, s1) \<leftarrow> q_out (ProdQ f) s;
          p \<leftarrow> po;
          s2 \<leftarrow> upd_proc p (msg_status_update (\<lambda>_. SENT)) s1;
          x \<leftarrow> procs s2 p;
          s3 \<leftarrow> q_add prio p ActivatableQ s2;
          scheduler (KRet SUCCES (outs_if wants (msg_value x))) s3 }
        else if e \<and> queues s (ProdQ f) = [] then do {
          p \<leftarrow> get_current_process s;
          s1 \<leftarrow> upd_proc p (\<lambda>x. x\<lparr>state := BLOCKEDQUEUE, blocked_head := ConsQ f\<rparr>) s;
          s2 \<leftarrow> q_add prio p (ConsQ f) s1;
          scheduler (KPreceive p wants) s2 }
        else if is_full q \<and> queues s (ProdQ f) \<noteq> [] then do {
          (msg, q1) \<leftarrow> pop_oldest_msg q;
          (po, s1) \<leftarrow> q_out (ProdQ f) s;
          p \<leftarrow> po;
          x \<leftarrow> procs s1 p;
          q2 \<leftarrow> add_message q1 (msg_value x);
          s2 \<leftarrow> upd_proc p (\<lambda>x. x\<lparr>msg_status := SENT, state := ACTIVATABLE\<rparr>) (put_queue f q2 s1);
          s3 \<leftarrow> q_add prio p ActivatableQ s2;
          scheduler (KRet SUCCES (outs_if wants msg)) s3 }
        else do {
          (msg, q1) \<leftarrow> pop_oldest_msg q;
          Some (stay (KRet SUCCES (outs_if wants msg)) (put_queue f q1 s)) } })"

text \<open>What \<open>psend\<close> and \<open>preceive\<close> do when the blocked process runs again.\<close>

definition psend_resume :: "ptr \<Rightarrow> kernel \<Rightarrow> kernel option" where
  "psend_resume p s =
     do { x \<leftarrow> procs s p; return_int (if msg_status x \<noteq> SENT then FAILURE else SUCCES) s }"

definition preceive_resume :: "ptr \<Rightarrow> bool \<Rightarrow> kernel \<Rightarrow> kernel option" where
  "preceive_resume p wants s =
     do {
       x \<leftarrow> procs s p;
       if msg_status x \<noteq> RECEIVED then return_int FAILURE s
       else Some (stay (KRet SUCCES (outs_if wants (msg_value x))) s)
     }"

definition queue_length :: "qid \<Rightarrow> kernel \<Rightarrow> nat" where
  "queue_length q s = length (queues s q)"

text \<open>\<open>pcount\<close> returns the status and the value written through \<open>count\<close>.\<close>

definition pcount :: "int \<Rightarrow> bool \<Rightarrow> kernel \<Rightarrow> int \<times> int list" where
  "pcount fid wants s =
     (if \<not> valid_fid fid s \<or> \<not> wants then (FAILURE, [])
      else case all_queues s (nat fid) of
        None \<Rightarrow> (FAILURE, [])
      | Some q \<Rightarrow>
          (SUCCES,
           [if queues s (ConsQ (nat fid)) \<noteq> [] then - int (queue_length (ConsQ (nat fid)) s)
            else int (number_of_msgs q + queue_length (ProdQ (nat fid)) s)]))"

definition preset :: "int \<Rightarrow> kernel \<Rightarrow> kernel option" where
  "preset fid s =
     (if \<not> valid_fid fid s then return_int FAILURE s
      else do {
        let f = nat fid;
        q \<leftarrow> all_queues s f;
        s1 \<leftarrow> free_blocked_queue (ConsQ f) (put_queue f (q\<lparr>number_of_msgs := 0, iffc := 0\<rparr>) s);
        s2 \<leftarrow> free_blocked_queue (ProdQ f) s1;
        scheduler (KRet SUCCES []) s2 })"

text \<open>What \<open>print_queue\<close> and \<open>info_msgqueues\<close> print, as data.\<close>

definition print_queue :: "nat \<Rightarrow> kernel \<Rightarrow> (nat \<times> nat \<times> (bytes option \<times> int) list \<times> (bytes option \<times> int) list) option" where
  "print_queue n s =
     do {
       q \<leftarrow> all_queues s n;
       cs \<leftarrow> those (map (procs s) (queues s (ConsQ n)));
       ps \<leftarrow> those (map (procs s) (queues s (ProdQ n)));
       Some (msg_size q, number_of_msgs q, map (\<lambda>x. (process_name x, prio x)) cs,
             map (\<lambda>x. (process_name x, prio x)) ps)
     }"

definition info_msgqueues :: "kernel \<Rightarrow> (nat \<times> nat \<times> (bytes option \<times> int) list \<times> (bytes option \<times> int) list) list option" where
  "info_msgqueues s =
     those (map (\<lambda>i. print_queue i s) (filter (\<lambda>i. all_queues s i \<noteq> None) [0..<NBQUEUES]))"

section \<open>The process queues\<close>

lemma put_queue_inv [simp]: "queues_inv b (put_queue i q s) = queues_inv b s"
  by (simp add: put_queue_def)

lemma free_blocked_loop_keeps [keeps]:
  "queues_inv b s \<Longrightarrow> post (queues_inv b) (free_blocked_loop n q s)"
proof (induction n arbitrary: s)
  case (Suc n)
  have upd: "post (queues_inv b)
      (upd_proc p (\<lambda>x. x\<lparr>msg_status := ERROR, state := ACTIVATABLE, next_prev := None\<rparr>) s1)"
    if "q_out q s = Some (Some p, s1)" "queues_inv b s1" for p s1
    by (rule upd_proc_inv) (use that q_out_unlinked [OF that(1)] in auto)
  show ?case using Suc
    by (auto intro!: post_bind [OF q_out_keeps] post_bind [OF upd] post_bind [OF q_add_keeps]
        post_bind_value [where 'a = nat])
qed simp

lemma msg_calls_keep [keeps]:
  "queues_inv b s \<Longrightarrow> post (queues_inv b) (pdelete fid s)"
  "queues_inv b s \<Longrightarrow> post (queues_inv b) (preset fid s)"
  "queues_inv b s \<Longrightarrow> post (queues_inv b) (psend fid m s)"
  "queues_inv b s \<Longrightarrow> post (queues_inv b) (preceive fid w s)"
  "queues_inv b s \<Longrightarrow> post (queues_inv b) (psend_resume p s)"
  "queues_inv b s \<Longrightarrow> post (queues_inv b) (preceive_resume p w s)"
  by (auto simp: pdelete_def preset_def psend_def preceive_def psend_resume_def preceive_resume_def
      free_blocked_queue_def Let_def intro!: keeps split: option.split)

text \<open>\<open>pcreate\<close> reinitialises the two list heads of the slot it takes.\<close>

definition free_slots_empty :: "kernel \<Rightarrow> bool" where
  "free_slots_empty s \<longleftrightarrow>
     (\<forall>i. all_queues s i = None \<longrightarrow> queues s (ConsQ i) = [] \<and> queues s (ProdQ i) = [])"

lemma pcreate_keeps:
  assumes inv: "queues_inv b s" and e: "free_slots_empty s"
  shows "queues_inv b (snd (pcreate c s))"
proof (cases "get_first_free_index s")
  case None
  then show ?thesis using inv by (simp add: pcreate_def)
next
  case (Some i)
  then have "all_queues s i = None" by (auto simp: get_first_free_index_def find_Some_iff)
  then have ei: "queues s (ConsQ i) = []" "queues s (ProdQ i) = []" using e by (auto simp: free_slots_empty_def)
  obtain a s1 where m: "malloc s = (a, s1)" by fastforce
  obtain a' s3 where m': "malloc (put_queue i (junk_queue s1) s1) = (a', s3)" by fastforce
  have i1: "queues_inv b s1" using malloc_inv [OF inv] m by simp
  then have i3: "queues_inv b s3" using malloc_inv [of b "put_queue i (junk_queue s1) s1"] m' by simp
  have "queues s3 = queues s"
    using malloc_fields [OF m] malloc_fields [OF m'] by (simp add: put_queue_def)
  then have "(queues s3)(ConsQ i := [], ProdQ i := []) = queues s3" using ei by auto
  then have "s3\<lparr>queues := (queues s3)(ConsQ i := [], ProdQ i := [])\<rparr> = s3" by simp
  then show ?thesis using inv i1 i3 Some m m'
    by (auto simp: pcreate_def Let_def split: option.split)
qed

section \<open>The ring is a bounded first-in-first-out buffer\<close>

definition ring_ok :: "msg_queue \<Rightarrow> bool" where
  "ring_ok q \<longleftrightarrow> \<not> msg_arr_null q \<and> length (msg_arr q) = msg_size q \<and> number_of_msgs q \<le> msg_size q \<and>
     (0 < msg_size q \<longrightarrow> iffc q < msg_size q)"

text \<open>The position of the message number \<open>i\<close>, counted from the oldest, and the messages.\<close>

definition slot :: "msg_queue \<Rightarrow> nat \<Rightarrow> nat" where
  "slot q i = (iffc q + (msg_size q - number_of_msgs q) + i) mod msg_size q"

definition messages :: "msg_queue \<Rightarrow> int list" where
  "messages q = map (\<lambda>i. msg_arr q ! slot q i) [0..<number_of_msgs q]"

lemma messages_add:
  assumes ok: "ring_ok q" and room: "number_of_msgs q < msg_size q"
  shows "\<exists>q'. add_message q m = Some q' \<and> ring_ok q' \<and> messages q' = messages q @ [m] \<and> msg_size q' = msg_size q"
proof -
  let ?n = "msg_size q" and ?k = "number_of_msgs q" and ?f = "iffc q"
  let ?q = "q\<lparr>msg_arr := (msg_arr q)[?f := m], number_of_msgs := ?k + 1, iffc := (?f + 1) mod ?n\<rparr>"
  have f: "?f < ?n" "length (msg_arr q) = ?n" using ok room by (auto simp: ring_ok_def)
  have add: "add_message q m = Some ?q" using f by (simp add: add_message_def)
  have slot: "slot ?q i = slot q i" for i
  proof -
    have "slot ?q i = ((?f + 1) mod ?n + (?n - (?k + 1) + i)) mod ?n" by (simp add: slot_def add.assoc)
    also have "\<dots> = (?f + 1 + (?n - (?k + 1)) + i) mod ?n" by (simp add: mod_add_left_eq add.assoc)
    also have "?f + 1 + (?n - (?k + 1)) + i = ?f + (?n - ?k) + i" using room by simp
    finally show ?thesis by (simp add: slot_def)
  qed
  have new: "slot q ?k = ?f" using f room by (simp add: slot_def)
  have old: "?f \<noteq> slot q i" if "i < ?k" for i
  proof
    assume eq: "?f = slot q i"
    let ?d = "?n - ?k + i"
    have "(?f + ?d) mod ?n = (if ?f + ?d < ?n then ?f + ?d else ?f + ?d - ?n)"
      using f that room by (simp add: mod_if)
    moreover have "(?f + ?d) mod ?n = ?f" using eq by (simp add: slot_def add.assoc)
    ultimately show False using that room f by (auto split: if_splits)
  qed
  have "messages ?q = messages q @ [m]"
    using f new old slot by (simp add: messages_def nth_list_update_neq)
  moreover have "ring_ok ?q" using ok room by (auto simp: ring_ok_def)
  ultimately show ?thesis using add by auto
qed

lemma messages_pop:
  assumes ok: "ring_ok q" and ne: "messages q = m # ms"
  shows "\<exists>q'. pop_oldest_msg q = Some (m, q') \<and> ring_ok q' \<and> messages q' = ms \<and> msg_size q' = msg_size q"
proof -
  let ?n = "msg_size q" and ?k = "number_of_msgs q" and ?f = "iffc q"
  have k: "0 < ?k" using ne by (cases ?k) (auto simp: messages_def)
  have r: "?k \<le> ?n" "?f < ?n" "length (msg_arr q) = ?n" using ok k by (auto simp: ring_ok_def)
  have "c_mod (int ?f - int ?k) (int ?n) = (int ?f - int ?k + int ?n) mod int ?n"
    using r k by (simp add: c_mod_eq_mod)
  also have "\<dots> = int (slot q 0)" using r by (simp add: slot_def of_nat_diff zmod_int algebra_simps)
  finally have idx: "c_mod (int ?f - int ?k) (int ?n) = int (slot q 0)" .
  let ?q = "q\<lparr>number_of_msgs := ?k - 1\<rparr>"
  have lt: "slot q i < ?n" for i using r by (auto simp: slot_def)
  have "[0..<?k] = 0 # map Suc [0..<?k - 1]" using k by (cases ?k) (simp_all add: upt_conv_Cons map_Suc_upt del: upt_Suc)
  then have ms: "m = msg_arr q ! slot q 0" "ms = map (\<lambda>i. msg_arr q ! slot q (Suc i)) [0..<?k - 1]"
    using ne by (auto simp: messages_def)
  have "pop_oldest_msg q = Some (m, ?q)"
    using idx lt [of 0] r k ms by (simp add: pop_oldest_msg_def Let_def)
  moreover have "slot ?q i = slot q (Suc i)" for i using r k by (simp add: slot_def Suc_diff_le)
  then have "messages ?q = ms" using ms by (simp add: messages_def)
  moreover have "ring_ok ?q" using ok by (auto simp: ring_ok_def)
  ultimately show ?thesis by auto
qed

definition ring_rep :: "nat \<Rightarrow> msg_queue \<Rightarrow> int list \<Rightarrow> bool" where
  "ring_rep n q xs \<longleftrightarrow> ring_ok q \<and> msg_size q = n \<and> messages q = xs"

interpretation ring: bounded_fifo "ring_rep n" n add_message pop_oldest_msg for n
proof
  fix q and xs :: "int list" and m
  assume "ring_rep n q xs" "length xs < n"
  then have "ring_ok q" "number_of_msgs q < msg_size q" "messages q = xs" "msg_size q = n"
    by (auto simp: ring_rep_def messages_def)
  then show "\<exists>q'. add_message q m = Some q' \<and> ring_rep n q' (xs @ [m])"
    using messages_add [of q m] by (auto simp: ring_rep_def)
next
  fix q x and xs :: "int list"
  assume "ring_rep n q (x # xs)"
  then show "\<exists>q'. pop_oldest_msg q = Some (x, q') \<and> ring_rep n q' xs"
    using messages_pop [of q x xs] by (auto simp: ring_rep_def)
qed

text \<open>
  C11.  The ring of a message queue implements a bounded first-in-first-out buffer: every sequence
  of insertions and removals that the specification on lists allows runs on the ring, returns
  the same messages, and leaves the messages of the specification in it.
\<close>

theorem msg_ring_refines_fifo:
  assumes "ring_ok q" "fifo_run (msg_size q) (messages q) ops = Some (outs, ys)"
  shows "\<exists>q'. impl_run add_message pop_oldest_msg q ops = Some (outs, q') \<and> ring_ok q' \<and> messages q' = ys"
  using ring.run_refines [of "msg_size q" q "messages q" ops outs ys] assms by (auto simp: ring_rep_def)

definition demo_ring :: msg_queue where
  "demo_ring = \<lparr>msg_arr = [7, 8, 9], msg_arr_null = False, msg_size = 3, number_of_msgs = 2, iffc = 1\<rparr>"

theorem msg_ring_refines_fifo_witness:
  "\<exists>q'. impl_run add_message pop_oldest_msg demo_ring [Put 5, Get, Get, Put 6] = Some ([9, 7], q') \<and>
     messages q' = [5, 6]"
proof -
  have "ring_ok demo_ring" "fifo_run (msg_size demo_ring) (messages demo_ring) [Put 5, Get, Get, Put 6] = Some ([9, 7], [5, 6])"
    by (simp_all add: ring_ok_def demo_ring_def messages_def slot_def upt_rec)
  from msg_ring_refines_fifo [OF this] show ?thesis by blast
qed

section \<open>Waiting processes and the ring\<close>

text \<open>
  The invariant of the message queues: consumers wait only while the ring is empty, producers only
  while it is full.
\<close>

definition msg_wf :: "kernel \<Rightarrow> bool" where
  "msg_wf s \<longleftrightarrow>
     (\<forall>f q. all_queues s f = Some q \<longrightarrow> ring_ok q \<and>
        (queues s (ConsQ f) \<noteq> [] \<longrightarrow> number_of_msgs q = 0) \<and>
        (queues s (ProdQ f) \<noteq> [] \<longrightarrow> is_full q))"

text \<open>The part of the state it depends on, and the operations that leave it alone.\<close>

definition msg_part :: "kernel \<Rightarrow> (nat \<rightharpoonup> msg_queue) \<times> (nat \<Rightarrow> ptr list) \<times> (nat \<Rightarrow> ptr list)" where
  "msg_part s = (all_queues s, (\<lambda>f. queues s (ConsQ f)), (\<lambda>f. queues s (ProdQ f)))"

abbreviation same_msg :: "kernel \<Rightarrow> kernel \<Rightarrow> bool" where
  "same_msg s s' \<equiv> msg_part s' = msg_part s"

lemma msg_wf_cong: "same_msg s s' \<Longrightarrow> msg_wf s \<Longrightarrow> msg_wf s'"
  by (simp add: msg_wf_def msg_part_def fun_eq_iff)

interpretation msg_sched: sched_inv "same_msg s0" for s0
proof unfold_locales
  fix s p r
  assume "same_msg s0 s"
  then show "post (\<lambda>(r, s'). same_msg s0 s') (free_process_memory p s)"
    using free_process_memory_effect [of p s] by (fastforce simp: post_def same_core_def msg_part_def)
qed (auto simp: upd_proc_def q_add_def q_out_def msg_part_def post_def bind_eq_Some_conv Let_def
    split: option.splits if_splits)

lemma msg_wf_scheduler: "msg_wf s \<Longrightarrow> post msg_wf (scheduler k s)"
  by (rule post_mono [OF msg_sched.scheduler_post [of s]]) (auto intro: msg_wf_cong)

lemma msg_wf_upd_proc: "msg_wf s \<Longrightarrow> post msg_wf (upd_proc p f s)"
  by (auto simp: upd_proc_def msg_wf_def split: option.split)

lemma msg_wf_stay [simp]: "msg_wf (stay k s) = msg_wf s"
  by (simp add: msg_wf_def stay_def)

lemma msg_wf_add_ready: "msg_wf s \<Longrightarrow> post msg_wf (q_add f p ActivatableQ s)"
  by (auto simp: q_add_def msg_wf_def post_def bind_eq_Some_conv split: if_splits)

lemma msg_wf_out: "msg_wf s \<Longrightarrow> post (\<lambda>(po, s'). msg_wf s') (q_out q s)"
  by (fastforce simp: q_out_def upd_proc_def msg_wf_def post_def bind_eq_Some_conv Let_def split: if_splits option.splits)

lemma msg_wf_add_waiter:
  assumes "msg_wf s" "\<And>f q. qi = ConsQ f \<Longrightarrow> all_queues s f = Some q \<Longrightarrow> number_of_msgs q = 0"
    "\<And>f q. qi = ProdQ f \<Longrightarrow> all_queues s f = Some q \<Longrightarrow> is_full q"
  shows "post msg_wf (q_add g p qi s)"
  using assms by (auto simp: q_add_def msg_wf_def post_def bind_eq_Some_conv split: if_splits)

lemma return_int_wf: "msg_wf s \<Longrightarrow> post msg_wf (return_int r s)"
  by (simp add: return_int_def)

lemma put_queue_wf:
  assumes "msg_wf s" "ring_ok q'" "queues s (ConsQ f) \<noteq> [] \<Longrightarrow> number_of_msgs q' = 0"
    "queues s (ProdQ f) \<noteq> [] \<Longrightarrow> is_full q'"
  shows "msg_wf (put_queue f q' s)"
  using assms by (auto simp: msg_wf_def put_queue_def)

lemmas wf_rules = post_bind [OF msg_wf_upd_proc] post_bind [OF msg_wf_add_ready] post_bind [OF msg_wf_add_waiter]
  msg_wf_scheduler return_int_wf

lemma length_messages [simp]: "length (messages q) = number_of_msgs q"
  by (simp add: messages_def)

text \<open>The caller blocks in one of the two waiting queues.\<close>

lemma block_wf:
  assumes wf: "msg_wf s" and c: "\<And>f q. qi = ConsQ f \<Longrightarrow> all_queues s f = Some q \<Longrightarrow> number_of_msgs q = 0"
    "\<And>f q. qi = ProdQ f \<Longrightarrow> all_queues s f = Some q \<Longrightarrow> is_full q"
  shows "post msg_wf (do {
      p \<leftarrow> get_current_process s; s1 \<leftarrow> upd_proc p g s; s2 \<leftarrow> q_add prio p qi s1; scheduler (k p) s2 })"
proof (intro post_bind_value)
  fix p s1 s2
  assume u: "upd_proc p g s = Some s1" and a: "q_add prio p qi s1 = Some s2"
  have "msg_wf s1" by (rule postD [OF msg_wf_upd_proc [OF wf] u])
  moreover have "all_queues s1 = all_queues s" using u by (auto simp: upd_proc_def split: option.splits)
  ultimately have "msg_wf s2" using postD [OF msg_wf_add_waiter a] c by auto
  then show "post msg_wf (scheduler (k p) s2)" by (rule msg_wf_scheduler)
qed

lemma queue_cases:
  assumes wf: "msg_wf s" and v: "valid_fid fid s"
  obtains q where "all_queues s (nat fid) = Some q" "ring_ok q" "is_empty q = Some (number_of_msgs q = 0)"
    "queues s (ConsQ (nat fid)) \<noteq> [] \<Longrightarrow> number_of_msgs q = 0" "queues s (ProdQ (nat fid)) \<noteq> [] \<Longrightarrow> is_full q"
proof -
  obtain q where q: "all_queues s (nat fid) = Some q" using v by (auto simp: valid_fid_def)
  then have "ring_ok q" "queues s (ConsQ (nat fid)) \<noteq> [] \<Longrightarrow> number_of_msgs q = 0"
    "queues s (ProdQ (nat fid)) \<noteq> [] \<Longrightarrow> is_full q" using wf by (auto simp: msg_wf_def)
  then show ?thesis using that q by (auto simp: is_empty_def ring_ok_def)
qed

lemma psend_wf:
  assumes wf: "msg_wf s"
  shows "post msg_wf (psend fid m s)"
proof (cases "valid_fid fid s")
  case True
  let ?f = "nat fid"
  obtain q where q: "all_queues s ?f = Some q" "ring_ok q" "is_empty q = Some (number_of_msgs q = 0)"
    "queues s (ConsQ ?f) \<noteq> [] \<Longrightarrow> number_of_msgs q = 0" "queues s (ProdQ ?f) \<noteq> [] \<Longrightarrow> is_full q"
    using queue_cases [OF wf True] by blast
  consider (handoff) "number_of_msgs q = 0" "queues s (ConsQ ?f) \<noteq> []"
    | (full) "\<not> (number_of_msgs q = 0 \<and> queues s (ConsQ ?f) \<noteq> [])" "is_full q"
    | (room) "\<not> (number_of_msgs q = 0 \<and> queues s (ConsQ ?f) \<noteq> [])" "\<not> is_full q" by argo
  then show ?thesis
  proof cases
    case handoff
    then show ?thesis using True q wf
      by (auto simp: psend_def Let_def intro!: post_bind [OF msg_wf_out] wf_rules keeps_values)
  next
    case full
    have "post msg_wf (do {
        p \<leftarrow> get_current_process s;
        s1 \<leftarrow> upd_proc p (\<lambda>x. x\<lparr>msg_value := m, state := BLOCKEDQUEUE, blocked_head := ProdQ ?f\<rparr>) s;
        s2 \<leftarrow> q_add prio p (ProdQ ?f) s1; scheduler (KPsend p) s2 })"
      by (rule block_wf [OF wf]) (use q full in auto)
    then show ?thesis using True q full by (auto simp: psend_def Let_def)
  next
    case room
    then have "number_of_msgs q < msg_size q" using q(2) by (auto simp: ring_ok_def is_full_def)
    then obtain q' where q': "add_message q m = Some q'" "ring_ok q'" using messages_add [OF q(2)] by blast
    moreover have "msg_wf (put_queue ?f q' s)"
      by (rule put_queue_wf [OF wf q'(2)]) (use room q in auto)
    ultimately show ?thesis using True q room by (auto simp: psend_def Let_def intro: return_int_wf)
  qed
qed (simp add: psend_def return_int_wf wf)

lemma out_keeps_queues:
  "q_out (ProdQ f) s = Some (po, s1) \<Longrightarrow> all_queues s1 = all_queues s \<and> queues s1 (ConsQ f') = queues s (ConsQ f')"
  by (auto simp: q_out_def upd_proc_def bind_eq_Some_conv Let_def split: if_splits option.splits)

lemma preceive_wf:
  assumes wf: "msg_wf s"
  shows "post msg_wf (preceive fid w s)"
proof (cases "valid_fid fid s")
  case True
  let ?f = "nat fid"
  obtain q where q: "all_queues s ?f = Some q" "ring_ok q" "is_empty q = Some (number_of_msgs q = 0)"
    "queues s (ConsQ ?f) \<noteq> [] \<Longrightarrow> number_of_msgs q = 0" "queues s (ProdQ ?f) \<noteq> [] \<Longrightarrow> is_full q"
    using queue_cases [OF wf True] by blast
  consider (take) "number_of_msgs q = 0" "queues s (ProdQ ?f) \<noteq> []"
    | (empty) "number_of_msgs q = 0" "queues s (ProdQ ?f) = []" | (some) "number_of_msgs q \<noteq> 0" by blast
  then show ?thesis
  proof cases
    case take
    then show ?thesis using True q wf
      by (auto simp: preceive_def Let_def intro!: post_bind [OF msg_wf_out] wf_rules keeps_values)
  next
    case empty
    have "post msg_wf (do {
        p \<leftarrow> get_current_process s;
        s1 \<leftarrow> upd_proc p (\<lambda>x. x\<lparr>state := BLOCKEDQUEUE, blocked_head := ConsQ ?f\<rparr>) s;
        s2 \<leftarrow> q_add prio p (ConsQ ?f) s1; scheduler (KPreceive p w) s2 })"
      by (rule block_wf [OF wf]) (use q empty in auto)
    then show ?thesis using True q empty by (simp add: preceive_def Let_def)
  next
    case some
    then obtain m ms where m: "messages q = m # ms" by (cases "messages q") (auto simp: messages_def)
    then obtain q1 where q1: "pop_oldest_msg q = Some (m, q1)" "ring_ok q1" "messages q1 = ms" "msg_size q1 = msg_size q"
      using messages_pop [OF q(2)] by blast
    have n1: "number_of_msgs q1 = number_of_msgs q - 1"
      using arg_cong [OF q1(3), of length] arg_cong [OF m, of length] by simp
    have cons: "queues s (ConsQ ?f) = []" using q(4) some by blast
    show ?thesis
    proof (cases "queues s (ProdQ ?f) = []")
      case pe: True
      have "msg_wf (put_queue ?f q1 s)" by (rule put_queue_wf [OF wf q1(2)]) (use cons pe in auto)
      then show ?thesis using True q some pe q1 by (simp add: preceive_def Let_def)
    next
      case False
      then have full: "is_full q" using q(5) by blast
      then have "number_of_msgs q1 < msg_size q1" using n1 q1(4) some by (simp add: is_full_def)
      note add = messages_add [OF q1(2) this]
      have wf2: "msg_wf (put_queue ?f q2 s1)"
        if "q_out (ProdQ ?f) s = Some (po, s1)" "add_message q1 v = Some q2" for po s1 v q2
      proof (rule put_queue_wf)
        show "msg_wf s1" using postD [OF msg_wf_out [OF wf] that(1)] by simp
        obtain q2' where "add_message q1 v = Some q2'" "ring_ok q2'" "messages q2' = messages q1 @ [v]" "msg_size q2' = msg_size q1"
          using add by blast
        moreover from this have "number_of_msgs q2' = number_of_msgs q1 + 1"
          by (metis length_append_singleton length_messages Suc_eq_plus1)
        ultimately show "ring_ok q2" "is_full q2" using that(2) n1 some full q1(4) by (auto simp: is_full_def)
        show "queues s1 (ConsQ ?f) \<noteq> [] \<Longrightarrow> number_of_msgs q2 = 0" using cons out_keeps_queues [OF that(1)] by simp
      qed
      show ?thesis using True q some False full q1
        by (auto simp: preceive_def Let_def intro!: post_bind_value [where 'a = "ptr option \<times> kernel"]
            post_bind_value [where 'a = ptr] post_bind_value [where 'a = process] post_bind_value [where 'a = msg_queue]
            wf_rules wf2)
    qed
  qed
qed (simp add: preceive_def return_int_wf wf)


lemma free_blocked_loop_wf: "msg_wf s \<Longrightarrow> post msg_wf (free_blocked_loop n qi s)"
  by (induction n arbitrary: s) (auto intro!: post_bind [OF msg_wf_out] wf_rules keeps_values)

lemma free_blocked_empties:
  assumes "qi = ConsQ f \<or> qi = ProdQ f"
  shows "post (\<lambda>s'. queues s' qi = [] \<and> all_queues s' = all_queues s \<and>
    (\<forall>q'. q' \<noteq> qi \<longrightarrow> q' \<noteq> ActivatableQ \<longrightarrow> queues s' q' = queues s q')) (free_blocked_loop n qi s)"
proof (induction n arbitrary: s)
  case (Suc n)
  let ?P = "\<lambda>s s'. all_queues s' = all_queues s \<and> (\<forall>q'. q' \<noteq> qi \<longrightarrow> q' \<noteq> ActivatableQ \<longrightarrow> queues s' q' = queues s q')"
  have "?P s s3" if "q_out qi s = Some (Some p, s1)" "upd_proc p g s1 = Some s2" "q_add prio p ActivatableQ s2 = Some s3"
    for p s1 s2 s3 g
    using that by (auto simp: q_out_def upd_proc_def q_add_def bind_eq_Some_conv Let_def split: if_splits option.splits)
  then have "post (\<lambda>s'. queues s' qi = [] \<and> ?P s s') (free_blocked_loop n qi s3)"
    if "q_out qi s = Some (Some p, s1)" "upd_proc p g s1 = Some s2" "q_add prio p ActivatableQ s2 = Some s3"
    for p s1 s2 s3 g
    using post_mono [OF Suc [of s3]] that by (smt (verit))
  then show ?case by (auto intro!: post_bind_value)
qed simp

lemma preset_wf:
  assumes wf: "msg_wf s"
  shows "post msg_wf (preset fid s)"
proof (cases "valid_fid fid s")
  case True
  let ?f = "nat fid"
  obtain q where q: "all_queues s ?f = Some q" "ring_ok q" using queue_cases [OF wf True] by blast
  let ?q = "q\<lparr>number_of_msgs := 0, iffc := 0\<rparr>" and ?s = "put_queue ?f (q\<lparr>number_of_msgs := 0, iffc := 0\<rparr>) s"
  have ok: "ring_ok ?q" using q(2) by (auto simp: ring_ok_def)
  have "msg_wf s2"
    if s1: "free_blocked_queue (ConsQ ?f) ?s = Some s1" and s2: "free_blocked_queue (ProdQ ?f) s1 = Some s2" for s1 s2
  proof -
    have e1: "queues s1 (ConsQ ?f) = [] \<and> all_queues s1 = all_queues ?s \<and>
        (\<forall>q'. q' \<noteq> ConsQ ?f \<longrightarrow> q' \<noteq> ActivatableQ \<longrightarrow> queues s1 q' = queues ?s q')"
      by (rule postD [OF free_blocked_empties s1 [unfolded free_blocked_queue_def]]) simp
    have e2: "queues s2 (ProdQ ?f) = [] \<and> all_queues s2 = all_queues s1 \<and>
        (\<forall>q'. q' \<noteq> ProdQ ?f \<longrightarrow> q' \<noteq> ActivatableQ \<longrightarrow> queues s2 q' = queues s1 q')"
      by (rule postD [OF free_blocked_empties s2 [unfolded free_blocked_queue_def]]) simp
    show ?thesis
      unfolding msg_wf_def
    proof (intro allI impI)
      fix f q' assume f: "all_queues s2 f = Some q'"
      show "ring_ok q' \<and> (queues s2 (ConsQ f) \<noteq> [] \<longrightarrow> number_of_msgs q' = 0) \<and> (queues s2 (ProdQ f) \<noteq> [] \<longrightarrow> is_full q')"
      proof (cases "f = ?f")
        case True
        then show ?thesis using f e1 e2 ok by (auto simp: put_queue_def)
      next
        case False
        then have "all_queues s f = Some q'" "queues s2 (ConsQ f) = queues s (ConsQ f)" "queues s2 (ProdQ f) = queues s (ProdQ f)"
          using f e1 e2 by (auto simp: put_queue_def)
        then show ?thesis using wf by (auto simp: msg_wf_def)
      qed
    qed
  qed
  then show ?thesis using True q
    by (auto simp: preset_def Let_def intro!: post_bind_value [where 'a = kernel] msg_wf_scheduler)
qed (simp add: preset_def return_int_wf wf)

lemma pdelete_wf: "msg_wf s \<Longrightarrow> post msg_wf (pdelete fid s)"
  by (auto simp: pdelete_def free_blocked_queue_def msg_wf_def intro!: post_bind [OF free_blocked_loop_wf] return_int_wf msg_wf_scheduler)



definition demo_msgs :: kernel where
  "demo_msgs = demo_kernel\<lparr>all_queues := [3 \<mapsto> demo_ring]\<rparr>"


section \<open>Delivery\<close>

text \<open>
  C29.  A message sent to an empty queue on which consumers wait goes to the consumer that leaves
  the waiting queue next: the sender succeeds, the consumer becomes activatable with the message
  stored in its structure, and the \<open>preceive\<close> it is still executing returns that message.
\<close>

theorem psend_delivers:
  assumes "valid_fid fid s" "all_queues s (nat fid) = Some q" "\<not> msg_arr_null q" "number_of_msgs q = 0"
    and "queues s (ConsQ (nat fid)) = cs @ [p]" "procs s p = Some x" "list_all (alive s) (queues s ActivatableQ)"
  shows "\<exists>s1 y. psend fid m s = scheduler (KRet 0 []) s1 \<and> queues s1 (ConsQ (nat fid)) = cs \<and>
     all_queues s1 = all_queues s \<and> procs s1 p = Some y \<and> msg_value y = m \<and> state y = ACTIVATABLE \<and>
     queues s1 ActivatableQ = qinsert (\<lambda>p. prio (the (procs s p))) p (queues s ActivatableQ) \<and>
     (\<forall>s'. procs s' p = Some y \<longrightarrow> preceive_resume p True s' = Some (stay (KRet 0 [m]) s'))"
proof -
  have pr: "(\<lambda>xa. prio (the (if xa = p then Some (x\<lparr>next_prev := None, state := ACTIVATABLE\<rparr>) else procs s xa)))
      = (\<lambda>p. prio (the (procs s p)))" using assms(6) by auto
  have al: "list_all (alive s') (queues s ActivatableQ)"
    if "procs s' = (procs s)(p \<mapsto> x\<lparr>next_prev := None, state := ACTIVATABLE\<rparr>)" for s'
    using assms(7) that by (auto simp: list_all_iff alive_def)
  show ?thesis using assms pr al
    by (simp add: psend_def is_empty_def q_out_def upd_proc_def q_add_def preceive_resume_def outs_if_def
        SUCCES_def Let_def) auto
qed

definition demo_consumer :: kernel where
  "demo_consumer = demo_kernel\<lparr>
     all_queues := [3 \<mapsto> \<lparr>msg_arr = [0, 0], msg_arr_null = False, msg_size = 2, number_of_msgs = 0, iffc = 0\<rparr>],
     procs := [40 \<mapsto> (demo_process 4 9 BLOCKEDQUEUE (Some (ConsQ 3)))\<lparr>blocked_head := ConsQ 3\<rparr>],
     pid_table := [4 \<mapsto> 40], queues := (\<lambda>_. [])(ConsQ 3 := [40])\<rparr>"

theorem psend_delivers_witness:
  "\<exists>s1. psend 3 17 demo_consumer = scheduler (KRet 0 []) s1 \<and> queues s1 ActivatableQ = [40] \<and>
     preceive_resume 40 True s1 = Some (stay (KRet 0 [17]) s1)"
proof -
  let ?q = "\<lparr>msg_arr = [0, 0], msg_arr_null = False, msg_size = 2, number_of_msgs = 0, iffc = 0\<rparr>"
  have h: "valid_fid 3 demo_consumer" "all_queues demo_consumer (nat 3) = Some ?q"
    "\<not> msg_arr_null ?q" "number_of_msgs ?q = 0" "queues demo_consumer (ConsQ (nat 3)) = [] @ [40]"
    "procs demo_consumer 40 = Some ((demo_process 4 9 BLOCKEDQUEUE (Some (ConsQ 3)))\<lparr>blocked_head := ConsQ 3\<rparr>)"
    "list_all (alive demo_consumer) (queues demo_consumer ActivatableQ)" "queues demo_consumer ActivatableQ = []"
    by (simp_all add: demo_consumer_def demo_kernel_def valid_fid_def NBQUEUES_def)
  from psend_delivers [OF h(1-7), of 17] h(8) show ?thesis by (auto simp: qinsert_def)
qed

end
