(* ===== verification/Console.thy ===== *)
theory Console
  imports Scheduler
begin

text \<open>
  The console: the keyboard buffer (\<open>src/kernel/drivers/console.c\<close>), the keyboard interrupt
  (\<open>src/kernel/input-output/keyboard.c\<close>), and the system calls \<open>cons_read\<close>, \<open>cons_write\<close> and
  \<open>cons_echo\<close> (\<open>src/kernel/input-output\<close>).  The buffer is a ring of 20 characters; the index of the
  last character written is \<open>-1\<close> when the buffer is empty.  The driver's \<open>getchar\<close> is the argument
  \<open>c\<close> of the interrupt handler, its \<open>putchar\<close> extends the screen.
\<close>

section \<open>The buffer\<close>

definition BUFFER_SIZE :: int where "BUFFER_SIZE = 20"

definition is_buffer_full :: "console_device \<Rightarrow> bool" where
  "is_buffer_full d \<longleftrightarrow>
     (if last_written_char_index d = - 1 then False
      else c_rem (last_written_char_index d + 1) BUFFER_SIZE = start_of_buffer_index d)"

definition is_buffer_empty :: "console_device \<Rightarrow> bool" where
  "is_buffer_empty d \<longleftrightarrow> last_written_char_index d = - 1"

text \<open>Reading and writing the array; an index outside it has no result.\<close>

definition buf_get :: "console_device \<Rightarrow> int \<Rightarrow> 8 word option" where
  "buf_get d i = (if 0 \<le> i \<and> nat i < length (buffer d) then Some (buffer d ! nat i) else None)"

definition buf_put :: "console_device \<Rightarrow> int \<Rightarrow> 8 word \<Rightarrow> console_device option" where
  "buf_put d i c =
     (if 0 \<le> i \<and> nat i < length (buffer d) then Some (d\<lparr>buffer := (buffer d)[nat i := c]\<rparr>) else None)"

definition kaddtobuffer :: "8 word \<Rightarrow> console_device \<Rightarrow> console_device option" where
  "kaddtobuffer c d =
     (if is_buffer_full d then Some d
      else let i = c_rem (last_written_char_index d + 1) BUFFER_SIZE in
        buf_put (d\<lparr>last_written_char_index := i\<rparr>) i c)"

definition buffer_current_size :: "console_device \<Rightarrow> int" where
  "buffer_current_size d =
     c_mod ((last_written_char_index d - start_of_buffer_index d) + 1) BUFFER_SIZE"

text \<open>\<open>register_console\<close> of a device that has an \<open>init\<close> function.\<close>

definition register_console :: "console_device \<Rightarrow> console_device" where
  "register_console d =
     d\<lparr>ignore := False, last_written_char_index := - 1, start_of_buffer_index := 0, echo := True\<rparr>"

definition putchar :: "8 word \<Rightarrow> console_device \<Rightarrow> console_device" where
  "putchar c d = d\<lparr>screen := screen d @ [c]\<rparr>"

section \<open>Reading a line\<close>

text \<open>
  The loop of \<open>detected_eol\<close> from the index \<open>temp\<close> on.  It returns to its start after
  \<open>BUFFER_SIZE\<close> turns, so a loop that goes on longer never ends.
\<close>

fun eol_loop :: "nat \<Rightarrow> console_device \<Rightarrow> int \<Rightarrow> int option" where
  "eol_loop 0 d temp = None"
| "eol_loop (Suc n) d temp =
     do {
       c \<leftarrow> buf_get d temp;
       if temp \<noteq> last_written_char_index d \<and> c \<noteq> 10
       then eol_loop n d ((temp + 1) mod BUFFER_SIZE) else Some temp
     }"

definition detected_eol :: "console_device \<Rightarrow> bool option" where
  "detected_eol d =
     (if is_buffer_empty d then Some False
      else do {
        temp \<leftarrow> eol_loop (nat BUFFER_SIZE) d (start_of_buffer_index d);
        c \<leftarrow> buf_get d temp;
        Some (c = 10) })"

text \<open>The loop of \<open>copy\<close>: at most \<open>n\<close> more characters, from the index \<open>temp\<close> on.\<close>

fun copy_loop :: "nat \<Rightarrow> console_device \<Rightarrow> int \<Rightarrow> bytes \<Rightarrow> (nat \<times> int \<times> bytes \<times> console_device) option" where
  "copy_loop 0 d temp acc = Some (0, temp, acc, d)"
| "copy_loop (Suc n) d temp acc =
     do {
       c \<leftarrow> buf_get d temp;
       if c \<noteq> 10 \<and> temp \<noteq> last_written_char_index d then do {
         d' \<leftarrow> buf_put d temp 0;
         copy_loop n d' ((temp + 1) mod BUFFER_SIZE) (acc @ [c]) }
       else Some (Suc n, temp, acc, d)
     }"

definition copy :: "nat \<Rightarrow> console_device \<Rightarrow> (bytes \<times> console_device) option" where
  "copy len d =
     (if last_written_char_index d = - 1 then None
      else do {
        (left, temp, acc, d1) \<leftarrow> copy_loop len d (start_of_buffer_index d) [];
        if left = 0 then Some (acc, d1\<lparr>start_of_buffer_index := temp\<rparr>)
        else do {
          c \<leftarrow> buf_get d1 temp;
          if temp = last_written_char_index d1 \<and> c \<noteq> 10 then do {
            d2 \<leftarrow> buf_put d1 temp 0;
            Some (acc @ [c], d2\<lparr>start_of_buffer_index := 0, last_written_char_index := - 1\<rparr>) }
          else if temp = last_written_char_index d1 \<and> c = 10 then
            Some (acc, d1\<lparr>start_of_buffer_index := 0, last_written_char_index := - 1\<rparr>)
          else if c = 10 then do {
            d2 \<leftarrow> buf_put d1 temp 0;
            Some (acc, d2\<lparr>start_of_buffer_index := (temp + 1) mod BUFFER_SIZE\<rparr>) }
          else Some (acc, d1) } })"

section \<open>The system calls\<close>

definition cons_echo :: "int \<Rightarrow> kernel \<Rightarrow> kernel" where
  "cons_echo on s = s\<lparr>console_dev := (console_dev s)\<lparr>echo := (on \<noteq> 0)\<rparr>\<rparr>"

fun cons_write_loop :: "bytes \<Rightarrow> console_device \<Rightarrow> int \<times> console_device" where
  "cons_write_loop [] d = (0, d)"
| "cons_write_loop (c # cs) d =
     (if putchar_ok d c then
        (case cons_write_loop cs (putchar c d) of (r, d') \<Rightarrow> (r + 1, d'))
      else (0, putchar c d))"

text \<open>The string is given by its first \<open>size\<close> bytes.\<close>

definition cons_write :: "bytes \<Rightarrow> kernel \<Rightarrow> int \<times> kernel" where
  "cons_write str s =
     (case cons_write_loop str (console_dev s) of (r, d) \<Rightarrow> (r, s\<lparr>console_dev := d\<rparr>))"

text \<open>
  \<open>cons_read\<close> up to the next time it has to wait; the characters transferred are the values in the
  result.
\<close>

definition cons_read_turn :: "nat \<Rightarrow> kernel \<Rightarrow> kernel option" where
  "cons_read_turn len s =
     do {
       e \<leftarrow> detected_eol (console_dev s);
       if \<not> e \<and> \<not> is_buffer_full (console_dev s) \<and> int len > buffer_current_size (console_dev s)
       then do {
         p \<leftarrow> get_current_process s;
         s1 \<leftarrow> upd_proc p (state_update (\<lambda>_. BLOCKEDIO)) s;
         s2 \<leftarrow> q_add prio p BlockedIoQ s1;
         scheduler (KConsRead len) s2 }
       else do {
         (str, d) \<leftarrow> copy len (console_dev s);
         Some (stay (KRet (int (length str)) (map uint str)) (s\<lparr>console_dev := d\<rparr>)) }
     }"

definition cons_read :: "nat \<Rightarrow> kernel \<Rightarrow> kernel option" where
  "cons_read len s =
     (if len = 0 then Some (stay (KRet 0 []) s) else cons_read_turn len s)"

section \<open>The keyboard interrupt\<close>

definition BSH :: "8 word" where "BSH = 8"
definition BS :: "8 word" where "BS = 127"
definition DL :: "8 word" where "DL = 21"
definition DW :: "8 word" where "DW = 23"
definition HT :: "8 word" where "HT = 9"
definition LF :: "8 word" where "LF = 10"
definition CR :: "8 word" where "CR = 13"

definition is_printable :: "8 word \<Rightarrow> bool" where
  "is_printable c \<longleftrightarrow> uint c < 127 \<and> uint c > 31"

definition delete_last :: "console_device \<Rightarrow> console_device option" where
  "delete_last d =
     do {
       d1 \<leftarrow> buf_put d (last_written_char_index d) 0;
       Some (putchar BSH (putchar 32 (putchar BSH
         (d1\<lparr>last_written_char_index := last_written_char_index d1 - 1\<rparr>))))
     }"

text \<open>
  \<open>buffer[last_written_char_index - 1]\<close>; at index \<open>0\<close> this is the byte before the array, the
  field \<open>ignore\<close> of the structure.
\<close>

definition char_before :: "console_device \<Rightarrow> 8 word option" where
  "char_before d =
     (if last_written_char_index d = 0 then Some (of_bool (ignore d))
      else buf_get d (last_written_char_index d - 1))"

text \<open>
  The deletion loops, with the number of characters as the bound.  In the two loops that delete a
  word nothing changes while the echo is off, so they do not end.
\<close>

fun delete_while :: "bool \<Rightarrow> (8 word \<Rightarrow> bool) \<Rightarrow> nat \<Rightarrow> console_device \<Rightarrow> console_device option" where
  "delete_while needs_echo P n d =
     (if last_written_char_index d = - 1 then Some d
      else do {
        c \<leftarrow> char_before d;
        if \<not> P c then Some d
        else if needs_echo \<and> \<not> echo d then None
        else case n of
          0 \<Rightarrow> None
        | Suc n' \<Rightarrow> do { d' \<leftarrow> delete_last d; delete_while needs_echo P n' d' } })"

declare delete_while.simps [simp del]

fun put_spaces :: "nat \<Rightarrow> console_device \<Rightarrow> console_device option" where
  "put_spaces 0 d = Some d"
| "put_spaces (Suc n) d = do { d' \<leftarrow> kaddtobuffer 32 (putchar 32 d); put_spaces n d' }"

definition echo_char :: "8 word \<Rightarrow> console_device \<Rightarrow> console_device" where
  "echo_char c d = (if echo d then putchar c d else d)"

definition keyboard_edit :: "8 word \<Rightarrow> console_device \<Rightarrow> console_device option" where
  "keyboard_edit c d =
     (if is_printable c then map_option (echo_char c) (kaddtobuffer c d)
      else if c = HT then put_spaces (nat (8 - c_rem (last_written_char_index d) 8)) d
      else if c = BS \<or> c = BSH then
        (if last_written_char_index d \<noteq> - 1 then do {
           b \<leftarrow> char_before d;
           if b \<noteq> 13 then delete_last d else Some d }
         else Some d)
      else if c = LF then map_option (echo_char 10) (kaddtobuffer c d)
      else if c = DL then delete_while False (\<lambda>b. b \<noteq> 13) (nat (last_written_char_index d + 1)) d
      else if c = DW then do {
        d1 \<leftarrow> delete_while True (\<lambda>b. b = 32) (nat (last_written_char_index d + 1)) d;
        delete_while True (\<lambda>b. b \<noteq> 32) (nat (last_written_char_index d1 + 1)) d1 }
      else if c = CR then map_option (echo_char 10) (kaddtobuffer 10 d)
      else Some d)"

definition handle_keyboard_interrupt :: "8 word \<Rightarrow> kont \<Rightarrow> kernel \<Rightarrow> kernel option" where
  "handle_keyboard_interrupt c k s =
     do {
       d \<leftarrow> keyboard_edit c (console_dev s);
       (po, s1) \<leftarrow> q_out BlockedIoQ (s\<lparr>console_dev := d\<rparr>);
       case po of
         None \<Rightarrow> Some (stay k s1)
       | Some p \<Rightarrow> do {
           s2 \<leftarrow> upd_proc p (state_update (\<lambda>_. ACTIVATABLE)) s1;
           s3 \<leftarrow> q_add prio p ActivatableQ s2;
           scheduler k s3 }
     }"

section \<open>The process queues\<close>

lemma console_keeps [keeps]:
  "queues_inv b s \<Longrightarrow> queues_inv b (cons_echo i s)"
  "queues_inv b s \<Longrightarrow> queues_inv b (snd (cons_write str s))"
  "queues_inv b s \<Longrightarrow> post (queues_inv b) (cons_read_turn len s)"
  "queues_inv b s \<Longrightarrow> post (queues_inv b) (cons_read len s)"
  "queues_inv b s \<Longrightarrow> post (queues_inv b) (handle_keyboard_interrupt c k s)"
  by (auto simp: cons_echo_def cons_write_def cons_read_turn_def cons_read_def
      handle_keyboard_interrupt_def intro!: keeps split: option.split prod.split)

section \<open>Line editing\<close>

text \<open>
  What a key does to the line as a list of characters: the line holds 20 characters at most, the end
  of a line is a character like the others, and so is what the deletion keys remove.
\<close>

definition edit :: "bytes \<Rightarrow> 8 word \<Rightarrow> bytes" where
  "edit xs c =
     (if is_printable c \<or> c = LF then take 20 (xs @ [c])
      else if c = CR then take 20 (xs @ [LF])
      else if c = HT then take 20 (xs @ replicate (nat (8 - c_rem (int (length xs) - 1) 8)) 32)
      else if c = BS \<or> c = BSH then butlast xs
      else if c = DL then []
      else xs)"

fun type_keys :: "bytes \<Rightarrow> console_device \<Rightarrow> console_device option" where
  "type_keys [] d = Some d"
| "type_keys (c # cs) d = do { d' \<leftarrow> keyboard_edit c d; type_keys cs d' }"

definition line_rep :: "console_device \<Rightarrow> bytes \<Rightarrow> bool" where
  "line_rep d xs \<longleftrightarrow> start_of_buffer_index d = 0 \<and> length (buffer d) = 20 \<and> length xs \<le> 20 \<and>
     last_written_char_index d = int (length xs) - 1 \<and> take (length xs) (buffer d) = xs \<and> 13 \<notin> set xs"

lemma line_rep_register: "length (buffer d) = 20 \<Longrightarrow> line_rep (register_console d) []"
  by (simp add: line_rep_def register_console_def)

lemma line_rep_screen [simp]: "line_rep (putchar c d) xs \<longleftrightarrow> line_rep d xs"
  "line_rep (echo_char c d) xs \<longleftrightarrow> line_rep d xs"
  by (auto simp: line_rep_def putchar_def echo_char_def)

lemma kaddtobuffer_rep:
  assumes "line_rep d xs" "c \<noteq> 13"
  shows "\<exists>d'. kaddtobuffer c d = Some d' \<and> line_rep d' (take 20 (xs @ [c]))"
proof (cases "length xs = 20")
  case True
  then show ?thesis
    using assms by (intro exI [of _ d]) (auto simp: line_rep_def kaddtobuffer_def is_buffer_full_def c_rem_def BUFFER_SIZE_def)
next
  case False
  then have l: "length xs < 20" using assms by (auto simp: line_rep_def)
  then have "c_rem (int (length xs)) BUFFER_SIZE = int (length xs)"
    by (simp add: c_rem_nonneg BUFFER_SIZE_def)
  then show ?thesis
    using assms l
    by (auto simp: line_rep_def kaddtobuffer_def is_buffer_full_def buf_put_def take_Suc_conv_app_nth Let_def)
qed

lemma take_take_append: "take n (take n xs @ ys) = take n (xs @ ys)"
  by (cases "length xs \<le> n") simp_all

lemma put_spaces_rep:
  "line_rep d xs \<Longrightarrow> \<exists>d'. put_spaces n d = Some d' \<and> line_rep d' (take 20 (xs @ replicate n 32))"
proof (induction n arbitrary: d xs)
  case 0
  then show ?case by (auto simp: line_rep_def)
next
  case (Suc n)
  obtain d' where "kaddtobuffer 32 (putchar 32 d) = Some d'" "line_rep d' (take 20 (xs @ [32]))"
    using kaddtobuffer_rep [of "putchar 32 d" xs 32] Suc.prems by auto
  moreover have "take 20 (take 20 (xs @ [32]) @ replicate n 32) = take 20 (xs @ replicate (Suc n) 32)"
    using take_take_append [of 20 "xs @ [32]" "replicate n 32"] by simp
  ultimately show ?case using Suc.IH [of d' "take 20 (xs @ [32])"] by auto
qed

lemma delete_last_rep:
  assumes "line_rep d xs" "xs \<noteq> []"
  shows "\<exists>d'. delete_last d = Some d' \<and> line_rep d' (butlast xs)"
proof -
  have l: "0 < length xs" "length xs \<le> 20" "length (buffer d) = 20" "last_written_char_index d = int (length xs) - 1"
    "take (length xs) (buffer d) = xs" "13 \<notin> set xs" "start_of_buffer_index d = 0"
    using assms by (auto simp: line_rep_def)
  have b: "take (length xs - 1) ((buffer d)[length xs - 1 := 0]) = butlast xs"
    using butlast_take [of "length xs" "buffer d"] l(2,3,5) by simp
  let ?d = "d\<lparr>buffer := (buffer d)[length xs - 1 := 0], last_written_char_index := int (length xs) - 2\<rparr>"
  have "line_rep ?d (butlast xs)" using l b by (auto simp: line_rep_def of_nat_diff Suc_le_eq dest: in_set_butlastD)
  moreover have "nat (int (length xs) - 1) = length xs - 1" using l(1) by simp
  then have "delete_last d = Some (putchar BSH (putchar 32 (putchar BSH ?d)))"
    using l by (simp add: delete_last_def buf_put_def)
  ultimately show ?thesis by simp
qed

lemma char_before_rep:
  assumes "line_rep d xs" "xs \<noteq> []"
  shows "\<exists>b. char_before d = Some b \<and> b \<noteq> 13"
proof (cases "length xs = 1")
  case True
  then show ?thesis using assms by (auto simp: line_rep_def char_before_def)
next
  case False
  then have l: "2 \<le> length xs" "length xs \<le> 20" "length (buffer d) = 20" "take (length xs) (buffer d) = xs"
    using assms by (cases xs; auto simp: line_rep_def Suc_le_eq)+
  have "buffer d ! (length xs - 2) = xs ! (length xs - 2)" using l nth_take [of "length xs - 2" "length xs" "buffer d"] by simp
  moreover have "xs ! (length xs - 2) \<in> set xs" using l(1) by (intro nth_mem) auto
  ultimately have "buffer d ! (length xs - 2) \<noteq> 13" using assms(1) by (auto simp: line_rep_def)
  then show ?thesis
    using assms l by (auto simp: line_rep_def char_before_def buf_get_def nat_diff_distrib)
qed

lemma delete_while_all_rep:
  "line_rep d xs \<Longrightarrow> \<exists>d'. delete_while False (\<lambda>b. b \<noteq> 13) (length xs) d = Some d' \<and> line_rep d' []"
proof (induction "length xs" arbitrary: d xs)
  case 0
  then show ?case by (auto simp: delete_while.simps line_rep_def)
next
  case (Suc n)
  have ne: "xs \<noteq> []" "last_written_char_index d \<noteq> - 1" and n: "length xs = Suc n" "length (butlast xs) = n"
    using Suc.hyps(2) Suc.prems by (auto simp: line_rep_def)
  obtain b d1 where d1: "char_before d = Some b" "b \<noteq> 13" "delete_last d = Some d1" "line_rep d1 (butlast xs)"
    using char_before_rep [OF Suc.prems ne(1)] delete_last_rep [OF Suc.prems ne(1)] by blast
  then have "delete_while False (\<lambda>b. b \<noteq> 13) (Suc n) d = delete_while False (\<lambda>b. b \<noteq> 13) n d1"
    using ne(2) by (subst delete_while.simps) simp
  then show ?case using Suc.hyps(1) [of "butlast xs" d1] d1(4) n by simp
qed

lemma keyboard_edit_rep:
  assumes "line_rep d xs" "c \<noteq> DW"
  shows "\<exists>d'. keyboard_edit c d = Some d' \<and> line_rep d' (edit xs c)"
proof -
  have keys: "\<not> is_printable LF" "\<not> is_printable CR" "\<not> is_printable HT" "\<not> is_printable BS" "\<not> is_printable BSH"
      "\<not> is_printable DL"
    by (simp_all add: is_printable_def LF_def CR_def HT_def BS_def BSH_def DL_def)
  have last: "last_written_char_index d = int (length xs) - 1" using assms(1) by (simp add: line_rep_def)
  have add: "\<exists>d'. map_option (echo_char e) (kaddtobuffer k d) = Some d' \<and> line_rep d' (take 20 (xs @ [k]))"
    if "k \<noteq> 13" for e k
    using kaddtobuffer_rep [OF assms(1) that] by auto
  consider "is_printable c" | "c = LF" | "c = CR" | "c = HT" | "c = BS \<or> c = BSH" | "c = DL"
    | (other) "\<not> is_printable c" "c \<notin> {LF, CR, HT, BS, BSH, DL}" by blast
  then show ?thesis
  proof cases
    case 1
    then have "c \<noteq> 13" by (auto simp: is_printable_def)
    then show ?thesis using 1 add by (simp add: keyboard_edit_def edit_def)
  next
    case 2
    then show ?thesis
      using keys add [of 10] by (simp add: keyboard_edit_def edit_def LF_def HT_def BS_def BSH_def)
  next
    case 3
    then show ?thesis
      using keys add [of 10] by (simp add: keyboard_edit_def edit_def CR_def LF_def HT_def BS_def BSH_def DL_def DW_def)
  next
    case 4
    then show ?thesis
      using keys put_spaces_rep [OF assms(1)] last by (simp add: keyboard_edit_def edit_def CR_def LF_def HT_def)
  next
    case 5
    then have "\<not> is_printable c" "c \<noteq> LF" "c \<noteq> CR" "c \<noteq> HT"
      using keys by (auto simp: BS_def BSH_def LF_def CR_def HT_def)
    then show ?thesis
      using 5 last delete_last_rep [OF assms(1)] char_before_rep [OF assms(1)] assms(1)
      by (cases "xs = []") (auto simp: keyboard_edit_def edit_def)
  next
    case 6
    then show ?thesis
      using keys delete_while_all_rep [OF assms(1)] last
      by (simp add: keyboard_edit_def edit_def CR_def LF_def HT_def BS_def BSH_def DL_def)
  next
    case other
    then show ?thesis using assms by (simp add: keyboard_edit_def edit_def)
  qed
qed

lemma type_keys_rep:
  "line_rep d xs \<Longrightarrow> DW \<notin> set cs \<Longrightarrow> \<exists>d'. type_keys cs d = Some d' \<and> line_rep d' (foldl edit xs cs)"
proof (induction cs arbitrary: d xs)
  case (Cons c cs)
  then obtain d1 where "keyboard_edit c d = Some d1" "line_rep d1 (edit xs c)"
    using keyboard_edit_rep [of d xs c] by auto
  then show ?case using Cons.IH [of d1 "edit xs c"] Cons.prems(2) by auto
qed auto

section \<open>Reading the line\<close>

text \<open>\<open>p\<close> is the index of the first end of line, at \<open>i\<close> or behind it.\<close>

definition eol_at :: "console_device \<Rightarrow> nat \<Rightarrow> nat \<Rightarrow> bool" where
  "eol_at d i p \<longleftrightarrow> length (buffer d) = 20 \<and> i \<le> p \<and> p < 20 \<and> int p \<le> last_written_char_index d \<and>
     buffer d ! p = 10 \<and> (\<forall>j. i \<le> j \<and> j < p \<longrightarrow> buffer d ! j \<noteq> 10)"

lemma eol_loop_finds:
  "eol_at d i p \<Longrightarrow> p - i < n \<Longrightarrow> eol_loop n d (int i) = Some (int p)"
proof (induction n arbitrary: i)
  case (Suc n)
  show ?case
  proof (cases "i = p")
    case True
    then show ?thesis using Suc.prems by (auto simp: eol_at_def buf_get_def)
  next
    case False
    then have i: "i < p" "i < 20" "buffer d ! i \<noteq> 10" "int i \<noteq> last_written_char_index d" "eol_at d (Suc i) p"
      using Suc.prems(1) by (auto simp: eol_at_def)
    then have "(int i + 1) mod BUFFER_SIZE = int (Suc i)" using Suc.prems(1) by (simp add: BUFFER_SIZE_def eol_at_def)
    then show ?thesis
      using Suc.IH [of "Suc i"] Suc.prems i by (auto simp: buf_get_def eol_at_def [of d i])
  qed
qed simp

lemma copy_loop_line:
  "eol_at d i p \<Longrightarrow> p - i < n \<Longrightarrow>
   \<exists>d'. copy_loop n d (int i) acc = Some (n - (p - i), int p, acc @ map ((!) (buffer d)) [i..<p], d') \<and>
     eol_at d' p p"
proof (induction n arbitrary: i d acc)
  case (Suc n)
  show ?case
  proof (cases "i = p")
    case True
    then show ?thesis using Suc.prems by (auto simp: eol_at_def buf_get_def)
  next
    case False
    let ?d = "d\<lparr>buffer := (buffer d)[i := 0]\<rparr>"
    have i: "i < p" "i < 20" "buffer d ! i \<noteq> 10" "int i \<noteq> last_written_char_index d" "length (buffer d) = 20"
      and e: "eol_at ?d (Suc i) p"
      using Suc.prems(1) False by (auto simp: eol_at_def)
    then have m: "(int i + 1) mod BUFFER_SIZE = int (Suc i)" using Suc.prems(1) by (simp add: BUFFER_SIZE_def eol_at_def)
    have "map ((!) (buffer d)) [i..<p] = buffer d ! i # map ((!) (buffer ?d)) [Suc i..<p]"
      using i(1) by (simp add: upt_conv_Cons)
    moreover have "copy_loop (Suc n) d (int i) acc = copy_loop n ?d (int (Suc i)) (acc @ [buffer d ! i])"
      using i m by (simp add: buf_get_def buf_put_def)
    moreover have "n - (p - Suc i) = Suc n - (p - i)" using i(1) Suc.prems(2) by simp
    ultimately show ?thesis using Suc.IH [OF e, of "acc @ [buffer d ! i]"] i(1) Suc.prems(2) by simp
  qed
qed simp

lemma copy_line:
  assumes "eol_at d 0 p" "start_of_buffer_index d = 0" "p < len"
  shows "\<exists>d'. copy len d = Some (map ((!) (buffer d)) [0..<p], d')"
proof -
  obtain d1 where "copy_loop len d 0 [] = Some (len - p, int p, map ((!) (buffer d)) [0..<p], d1)" "eol_at d1 p p"
    using copy_loop_line [OF assms(1), of len "[]"] assms(3) by auto
  moreover have "last_written_char_index d \<noteq> - 1" using assms(1) by (auto simp: eol_at_def)
  ultimately show ?thesis
    using assms(2,3) by (auto simp: copy_def buf_get_def buf_put_def eol_at_def)
qed

lemma line_rep_eol:
  assumes "line_rep d xs" "10 \<in> set xs"
  shows "eol_at d 0 (length (takeWhile (\<lambda>c. c \<noteq> 10) xs))"
    "map ((!) (buffer d)) [0..<length (takeWhile (\<lambda>c. c \<noteq> 10) xs)] = takeWhile (\<lambda>c. c \<noteq> 10) xs"
proof -
  let ?l = "takeWhile (\<lambda>c. c \<noteq> 10) xs"
  have l: "length ?l < length xs" using assms(2) by (induction xs) auto
  have b: "buffer d ! j = xs ! j" if "j < length xs" for j
    using assms(1) that nth_take [of j "length xs" "buffer d"] by (simp add: line_rep_def)
  have "xs ! length ?l = 10" using nth_length_takeWhile [OF l] by simp
  moreover have "xs ! j \<noteq> 10" if "j < length ?l" for j
    using that by (metis (mono_tags) nth_mem set_takeWhileD takeWhile_nth)
  ultimately show "eol_at d 0 (length ?l)" using assms(1) l b by (auto simp: eol_at_def line_rep_def)
  show "map ((!) (buffer d)) [0..<length ?l] = ?l"
    using l b by (intro nth_equalityI) (auto simp: takeWhile_nth)
qed



section \<open>Deleting behind a partial read\<close>

text \<open>
  When the only pending character is not at index \<open>0\<close>, deleting it leaves a buffer that counts as
  full: nothing more can be typed, and \<open>cons_read\<close> no longer waits.
\<close>

lemma delete_makes_buffer_full:
  assumes "length (buffer d) = 20" "last_written_char_index d = i" "start_of_buffer_index d = i"
    "0 < i" "i < 20" "buffer d ! nat (i - 1) \<noteq> 13"
  shows "\<exists>d'. keyboard_edit BS d = Some d' \<and> is_buffer_full d' \<and> kaddtobuffer c d' = Some d'"
proof -
  have "i mod 20 = i" using assms(4,5) by simp
  then have "c_rem i BUFFER_SIZE = i" using assms(4) by (simp add: c_rem_nonneg BUFFER_SIZE_def)
  moreover have "\<not> is_printable BS" "BS \<noteq> HT" by (simp_all add: is_printable_def BS_def HT_def)
  ultimately show ?thesis
    using assms
    by (auto simp: keyboard_edit_def char_before_def buf_get_def delete_last_def buf_put_def putchar_def
        is_buffer_full_def kaddtobuffer_def)
qed

end
