(* ===== verification/Trap.thy ===== *)
theory Trap
  imports Process_Api Msg_Queue Console
begin

unbundle bit_operations_syntax

text \<open>
  Interrupts, exceptions and system calls (\<open>src/kernel/traps/supervisor_trap.c\<close>,
  \<open>src/kernel/traps/machine_trap.c\<close>, \<open>src/kernel/timer.c\<close>), and \<open>resume\<close>, which runs the part of the
  kernel code that a process still has in front of it when it gets the processor back.

  A system call gets its arguments from the trap frame.  The strings and arrays in user memory
  are read by \<open>rd\<close> (the string at an address, \<open>None\<close> for \<open>NULL\<close>) and \<open>rb\<close> (a number of bytes from
  an address).  The value that goes to register \<open>a0\<close>, and the values written through pointer
  arguments, are in the continuation \<open>KRet\<close>.  \<open>virt\<close> is the configuration symbol \<open>VIRTMACHINE\<close>.
\<close>

section \<open>Timer interrupts\<close>

text \<open>\<open>KTimer n\<close>: after the scheduler, enable interrupts and run the handler \<open>n\<close> more times.\<close>

definition handle_stimer_interrupt :: "bool \<Rightarrow> nat \<Rightarrow> kernel \<Rightarrow> kernel option" where
  "handle_stimer_interrupt virt n s =
     (if \<not> virt then
        scheduler KVoid (set_supervisor_timer_interrupt TIC_PER (s\<lparr>counter := counter s + 1\<rparr>))
      else scheduler (KTimer n) (s\<lparr>counter := counter s + 1\<rparr>))"

text \<open>\<open>from_user\<close>: the bit \<open>MSTATUS_MPP_0\<close> is clear, the interrupt came from user mode.\<close>

definition handle_mtimer_interrupt :: "bool \<Rightarrow> bool \<Rightarrow> kernel \<Rightarrow> kernel" where
  "handle_mtimer_interrupt virt from_user s =
     (if \<not> virt then
        (let s1 = set_machine_timer_interrupt TIC_PER s in s1\<lparr>counter := counter s1 + 1\<rparr>)
      else if \<not> from_user \<and> \<not> first_call s then set_machine_timer_interrupt TIC_PER s
      else set_machine_timer_interrupt TIC_PER (s\<lparr>first_call := False, ssip := True\<rparr>))"

section \<open>Continuations\<close>

definition resume :: "kernel \<Rightarrow> kernel option" where
  "resume s =
     (case kont (cpu s) of
        KWait p \<Rightarrow> do { x \<leftarrow> procs s p; return_int (sem_signal x) s }
      | KPsend p \<Rightarrow> psend_resume p s
      | KPreceive p wants \<Rightarrow> preceive_resume p wants s
      | KWaitAny wants \<Rightarrow> waitpid_any wants s
      | KWaitPid t before wants \<Rightarrow> waitpid_child t before wants s
      | KKill i fault \<Rightarrow> do { s1 \<leftarrow> kill_other i s; if fault then scheduler KVoid s1 else Some s1 }
      | KConsRead len \<Rightarrow> cons_read_turn len s
      | KTimer n \<Rightarrow>
          (let s1 = set_supervisor_interrupts True s in
           case n of 0 \<Rightarrow> Some (stay KVoid s1) | Suc n' \<Rightarrow> handle_stimer_interrupt True n' s1)
      | _ \<Rightarrow> Some s)"

section \<open>System calls\<close>

record trap_frame =
  a0 :: u64
  a1 :: u64
  a2 :: u64
  a3 :: u64
  a7 :: u64

definition c_int :: "u64 \<Rightarrow> int" where
  "c_int w = int32 (sint w)"

definition ret :: "int \<times> kernel \<Rightarrow> kernel option" where
  "ret rs = (case rs of (r, s) \<Rightarrow> return_int r s)"

definition syscall_handler ::
    "(u64 \<Rightarrow> cstring option) \<Rightarrow> (u64 \<Rightarrow> nat \<Rightarrow> bytes) \<Rightarrow> trap_frame \<Rightarrow> kernel \<Rightarrow> kernel option" where
  "syscall_handler rd rb tf s =
     (let n = a7 tf; i = c_int (a0 tf); j = c_int (a1 tf) in
      if n = 16 then start_virtual (rd (a0 tf)) (a1 tf) (c_int (a2 tf)) (a3 tf) s
      else if n = 7 then return_int (getpid s) s
      else if n = 8 then do { r \<leftarrow> getprio i s; return_int r s }
      else if n = 0 then chprio i j s
      else if n = 9 then kill False i s
      else if n = 18 then waitpid i (a1 tf \<noteq> 0) s
      else if n = 6 then exit_process (KRet 0 []) i s
      else if n = 4 then ret (cons_write (rb (a0 tf) (unat (a1 tf))) s)
      else if n = 3 then cons_read (unat (a1 tf)) s
      else if n = 2 then return_int 0 (cons_echo i s)
      else if n = 10 then
        (case pcount i (a1 tf \<noteq> 0) s of (r, outs) \<Rightarrow> Some (stay (KRet r outs) s))
      else if n = 11 then ret (pcreate i s)
      else if n = 12 then pdelete i s
      else if n = 13 then preceive i (a1 tf \<noteq> 0) s
      else if n = 14 then preset i s
      else if n = 15 then psend i j s
      else if n = 1 then
        (case clock_settings s of (q, t) \<Rightarrow> Some (stay (KRet 0 [uint q, uint t]) s))
      else if n = 19 then sleep (a0 tf) s
      else if n = 17 then wait_clock (a0 tf) s
      else if n = 5 then return_int (uint (current_clock s)) s
      else if n = 31 then return_int (scount i s) s
      else if n = 32 then ret (screate (int16 (sint (a0 tf))) s)
      else if n = 33 then sdelete i s
      else if n = 34 then signal i s
      else if n = 35 then signaln i (int16 (sint (a1 tf))) s
      else if n = 36 then sreset i j s
      else if n = 37 then try_wait i s
      else if n = 38 then wait i s
      else if n = 28 then do { (r, s1) \<leftarrow> shm_create (rd (a0 tf)) s; return_int (uint r) s1 }
      else if n = 29 then do { (r, s1) \<leftarrow> shm_acquire (rd (a0 tf)) s; return_int (uint r) s1 }
      else if n = 30 then do { s1 \<leftarrow> shm_release (rd (a0 tf)) s; return_int 0 s1 }
      else if n = 39 then None
      else if n = 40 then do { show_ps_info s; return_int 0 s }
      else if n = 41 then return_int 0 s
      else if n = 42 then do { info_msgqueues s; return_int 0 s }
      else None)"

text \<open>
  The end of a system call, when the process goes back to user mode: the new \<open>a0\<close>, the values
  written through pointers, and \<open>sepc\<close> behind the \<open>ecall\<close> instruction.
\<close>

definition syscall_return :: "kernel \<Rightarrow> (u64 \<times> int list \<times> kernel) option" where
  "syscall_return s =
     (case kont (cpu s) of
        KRet r outs \<Rightarrow>
          Some (word_of_int r, outs,
            s\<lparr>cpu := (cpu s)\<lparr>sepc := sepc (cpu s) + 4, kont := KVoid\<rparr>, spp := False\<rparr>)
      | _ \<Rightarrow> None)"

section \<open>Trap entry\<close>

definition INTERRUPT_CAUSE_FLAG :: u64 where
  "INTERRUPT_CAUSE_FLAG = push_bit 63 1"

text \<open>Page faults: \<open>kill (getpid ())\<close> and \<open>scheduler ()\<close>.\<close>

definition page_fault :: "kernel \<Rightarrow> kernel option" where
  "page_fault s =
     (let i = getpid s in
      if i = idleId \<or> i = kernelId then scheduler KVoid s
      else case get_process_struct_of_pid i s of
        None \<Rightarrow> scheduler KVoid s
      | Some p \<Rightarrow> do {
          v \<leftarrow> validate_action_process_valid (Some p) s;
          if v < 0 then scheduler KVoid s
          else do {
            x \<leftarrow> procs s p;
            if pid x = getpid s then exit_process (KKill i True) 0 s
            else do { s1 \<leftarrow> kill_other i s; scheduler KVoid s1 } } })"

text \<open>
  The \<open>case\<close> of the software interrupt has no \<open>break\<close>: the handler runs a second time in the
  \<open>case\<close> of the timer interrupt that follows.
\<close>

definition strap_handler ::
    "bool \<Rightarrow> (u64 \<Rightarrow> cstring option) \<Rightarrow> (u64 \<Rightarrow> nat \<Rightarrow> bytes) \<Rightarrow> 8 word \<Rightarrow>
     u64 \<Rightarrow> trap_frame \<Rightarrow> kernel \<Rightarrow> kernel option" where
  "strap_handler virt rd rb c scause tf s =
     (if scause AND INTERRUPT_CAUSE_FLAG \<noteq> 0 then
        (let n = scause AND NOT INTERRUPT_CAUSE_FLAG in
         if virt \<and> n = 1 then
           handle_stimer_interrupt virt 1 ((set_supervisor_interrupts False s)\<lparr>ssip := False\<rparr>)
         else if n = 5 then handle_stimer_interrupt virt 0 s
         else if n = 9 then handle_keyboard_interrupt c KVoid s
         else None)
      else if scause = 8 \<or> scause = 9 then syscall_handler rd rb tf s
      else if scause = 13 \<or> scause = 14 \<or> scause = 15 then page_fault s
      else None)"

definition mtrap_handler :: "bool \<Rightarrow> bool \<Rightarrow> 8 word \<Rightarrow> u64 \<Rightarrow> kernel \<Rightarrow> kernel option" where
  "mtrap_handler virt from_user c mcause s =
     (if mcause AND INTERRUPT_CAUSE_FLAG \<noteq> 0 then
        (let n = mcause AND NOT INTERRUPT_CAUSE_FLAG in
         if n = 7 then Some (stay KVoid (handle_mtimer_interrupt virt from_user s))
         else if n = 5 then handle_stimer_interrupt virt 0 s
         else if n = 9 then handle_keyboard_interrupt c KVoid s
         else None)
      else None)"

section \<open>The process queues\<close>

lemma timer_keeps [keeps]:
  "queues_inv b s \<Longrightarrow> post (queues_inv b) (handle_stimer_interrupt v n s)"
  by (auto simp: handle_stimer_interrupt_def set_supervisor_timer_interrupt_def intro!: keeps)

lemma page_fault_keeps [keeps]: "queues_inv b s \<Longrightarrow> post (queues_inv b) (page_fault s)"
  by (auto simp: page_fault_def Let_def intro!: keeps split: option.split)

lemma ret_keeps [keeps]: "queues_inv b (snd rs) \<Longrightarrow> post (queues_inv b) (ret rs)"
  by (cases rs) (simp add: ret_def keeps)

lemma resume_keeps: "queues_inv b s \<Longrightarrow> post (queues_inv b) (resume s)"
  by (auto simp: resume_def set_supervisor_interrupts_def Let_def intro!: keeps split: kont.split nat.split)

section \<open>Runs of the kernel\<close>

text \<open>
  A step of the kernel: a trap into supervisor or machine mode, the continuation of a system call
  whose process got the processor back, or the return to user mode.  \<open>tf\<close>, \<open>c\<close> and the memory
  readers are whatever the machine supplies.  The guard on system call 11 (\<open>pcreate\<close>) says that no
  process waits in the list heads it is about to initialise, the one on system call 0 (\<open>chprio\<close>)
  that the activatable processes are marked as such.
\<close>

definition ready_marked :: "kernel \<Rightarrow> bool" where
  "ready_marked s \<longleftrightarrow>
     (\<forall>p \<in> set (queues s ActivatableQ). \<forall>x. procs s p = Some x \<longrightarrow> state x = ACTIVATABLE)"

inductive kernel_step :: "kernel \<Rightarrow> kernel \<Rightarrow> bool" where
  strap: "strap_handler virt rd rb c scause tf s = Some s' \<Longrightarrow> (a7 tf = 11 \<Longrightarrow> free_slots_empty s) \<Longrightarrow>
    (a7 tf = 0 \<Longrightarrow> ready_marked s) \<Longrightarrow> kernel_step s s'"
| mtrap: "mtrap_handler virt from_user c mcause s = Some s' \<Longrightarrow> kernel_step s s'"
| resumed: "resume s = Some s' \<Longrightarrow> kernel_step s s'"
| returned: "syscall_return s = Some (r, outs, s') \<Longrightarrow> kernel_step s s'"

inductive_cases kernel_stepE: "kernel_step s s'"

lemma post_if: "(c \<Longrightarrow> post P x) \<Longrightarrow> (\<not> c \<Longrightarrow> post P y) \<Longrightarrow> post P (if c then x else y)"
  by simp

lemma syscall_step_keeps:
  assumes inv: "queues_inv True s" and e: "a7 tf = 11 \<Longrightarrow> free_slots_empty s"
    and m: "a7 tf = 0 \<Longrightarrow> ready_marked s"
  shows "post (queues_inv True) (syscall_handler rd rb tf s)"
proof -
  have ch: "a7 tf = 0 \<Longrightarrow> post (queues_inv True) (chprio i j s)" for i j
    using chprio_keeps [OF inv] m by (simp add: ready_marked_def)
  have pc: "a7 tf = 11 \<Longrightarrow> queues_inv True (snd (pcreate i s))" for i
    using pcreate_keeps [OF inv] e by simp
  have out: "post (queues_inv True) (case r of (a, c) \<Rightarrow> Some (stay (k a c) s))" for r :: "'a \<times> 'b" and k
    using inv by (cases r) simp
  show ?thesis
    unfolding syscall_handler_def Let_def sleep_def
    by (intro post_if keeps ch pc out inv post_simps(1); (assumption | simp only: snd_conv)?)
qed

lemma strap_keeps:
  assumes "queues_inv True s" "a7 tf = 11 \<Longrightarrow> free_slots_empty s" "a7 tf = 0 \<Longrightarrow> ready_marked s"
  shows "post (queues_inv True) (strap_handler virt rd rb c scause tf s)"
proof -
  have "queues_inv True ((set_supervisor_interrupts False s)\<lparr>ssip := False\<rparr>)"
    using assms(1) by (simp add: set_supervisor_interrupts_def)
  then show ?thesis
    unfolding strap_handler_def Let_def
    by (intro post_if timer_keeps console_keeps page_fault_keeps syscall_step_keeps post_simps(1) assms)
qed

lemma mtrap_keeps: "queues_inv b s \<Longrightarrow> post (queues_inv b) (mtrap_handler virt u c mcause s)"
  unfolding mtrap_handler_def Let_def
  by (intro post_if timer_keeps console_keeps post_simps(1))
    (simp_all add: handle_mtimer_interrupt_def set_machine_timer_interrupt_def Let_def)

lemma kernel_step_keeps: "kernel_step s s' \<Longrightarrow> queues_inv True s \<Longrightarrow> queues_inv True s'"
proof (erule kernel_stepE, goal_cases)
  case (1 virt rd rb c scause tf)
  show ?case by (rule postD [OF strap_keeps 1(2)]) (use 1 in auto)
next
  case (2 virt from_user c mcause)
  then show ?case using postD [OF mtrap_keeps] by blast
next
  case 3
  then show ?case using postD [OF resume_keeps] by blast
next
  case (4 r outs)
  then show ?case by (auto simp: syscall_return_def split: kont.splits)
qed

lemma kernel_run_inv: "kernel_step\<^sup>*\<^sup>* s s' \<Longrightarrow> queues_inv True s \<Longrightarrow> queues_inv True s'"
  by (induction rule: rtranclp_induct) (auto intro: kernel_step_keeps)

end
