(* ===== verification/Drivers.thy ===== *)
theory Drivers
  imports Kernel_State
begin

text \<open>
  Device drivers and the spin lock: the table of auxiliary values (\<open>src/kernel/drivers/auxval.c\<close>),
  the host interface (\<open>htif.c\<close>), the uarts (\<open>virt/virt_uart.c\<close>, \<open>cep/cep_uart.c\<close>), the interrupt
  controllers (\<open>virt/virt_plic.c\<close>, \<open>cep/cep_plic.c\<close>), the timer registers (\<open>clint.h\<close>), the disk
  and power switch of the virtual machine, and the lock of \<open>src/lib/include/riscv/atomic.h\<close>.  The
  registers of 32 bits that a driver writes are a map from addresses; a register whose value the
  device changes is an argument, with one value for each time it is read.  The lock is a transition
  system of processors that go through its code at their own pace.
\<close>

unbundle bit_operations_syntax

type_synonym regs = "u64 \<Rightarrow> 32 word"

section \<open>The auxiliary table and the host interface\<close>

text \<open>The table of auxiliary values ends with the key \<open>0\<close>.\<close>

fun getauxval :: "(u64 \<times> u64) list \<Rightarrow> u64 \<Rightarrow> u64 option" where
  "getauxval [] k = None"
| "getauxval ((k', v) # auxv) k =
     (if k' = 0 then Some 0 else if k' = k then Some v else getauxval auxv k)"

text \<open>Messages to and from the host; \<open>data\<close> is a signed number of 64 bits.\<close>

definition htif_encode :: "8 word \<Rightarrow> 8 word \<Rightarrow> u64 \<Rightarrow> u64" where
  "htif_encode dev cmd data = push_bit 56 (ucast dev) OR push_bit 48 (ucast cmd) OR data"

definition htif_decode :: "u64 \<Rightarrow> 8 word \<times> 8 word \<times> u64" where
  "htif_decode v =
     (ucast (drop_bit 56 v), ucast (drop_bit 48 v AND 0xff), drop_bit 16 (push_bit 16 v))"

definition htif_get_fromhost :: "u64 \<Rightarrow> 8 word \<Rightarrow> 8 word \<Rightarrow> int" where
  "htif_get_fromhost fromhost dev cmd =
     (case htif_decode fromhost of (rdev, rcmd, data) \<Rightarrow>
        if rdev = dev \<and> rcmd = cmd then sint data else - 1)"

text \<open>
  The two words of the interface, which the calls use while they hold the spin lock below.
  \<open>htif_set_tohost\<close> waits while the host has not taken the last
  message; it has no result as long as it waits.
\<close>

record htif =
  tohost :: u64
  fromhost :: u64

definition htif_set_tohost :: "8 word \<Rightarrow> 8 word \<Rightarrow> u64 \<Rightarrow> htif \<Rightarrow> htif option" where
  "htif_set_tohost dev cmd data h =
     (if tohost h \<noteq> 0 then None else Some (h\<lparr>tohost := htif_encode dev cmd data\<rparr>))"

definition htif_getchar :: "htif \<Rightarrow> (int \<times> htif) option" where
  "htif_getchar h =
     (let ch = int32 (htif_get_fromhost (fromhost h) 1 0) in
      if ch AND 0xff \<noteq> 0 then map_option (Pair ch) (htif_set_tohost 1 0 0 h) else Some (ch, h))"

definition htif_putchar :: "int \<Rightarrow> htif \<Rightarrow> (int \<times> htif) option" where
  "htif_putchar ch h = map_option (Pair (ch AND 0xff)) (htif_set_tohost 1 1 (word_of_int (ch AND 0xff)) h)"

section \<open>Uarts\<close>

text \<open>Keys of the auxiliary table, and the tables of the two machines.\<close>

definition UART0_CLOCK_FREQ :: u64 where "UART0_CLOCK_FREQ = 0x11000"
definition UART0_BAUD_RATE :: u64 where "UART0_BAUD_RATE = 0x11100"
definition CEP_UART0_CTRL_ADDR :: u64 where "CEP_UART0_CTRL_ADDR = 0x66660010"
definition CEP_POWEROFF_CTRL_ADDR :: u64 where "CEP_POWEROFF_CTRL_ADDR = 0x66660002"
definition VIRT_UART0_CTRL_ADDR :: u64 where "VIRT_UART0_CTRL_ADDR = 0x10000000"
definition VIRT_TEST_CTRL_ADDR :: u64 where "VIRT_TEST_CTRL_ADDR = 0x100000"

definition virt_auxv :: "(u64 \<times> u64) list" where
  "virt_auxv =
     [(UART0_CLOCK_FREQ, 1843200), (UART0_BAUD_RATE, 115200), (VIRT_UART0_CTRL_ADDR, 0x10000000),
      (VIRT_TEST_CTRL_ADDR, 0x100000), (0, 0)]"

definition cep_auxv :: "(u64 \<times> u64) list" where
  "cep_auxv =
     [(UART0_CLOCK_FREQ, 32000000), (UART0_BAUD_RATE, 115200), (CEP_UART0_CTRL_ADDR, 0x10013000),
      (CEP_POWEROFF_CTRL_ADDR, 0x10000000), (0, 0)]"

text \<open>
  Initialisation gives the address of the registers and the writes to them, as pairs of an index and
  a value, in their order.  The frequency and the rate are cut to 32 bits, and so is \<open>16 * baud_rate\<close>;
  a division by zero has no result.
\<close>

definition ns16550a_init :: "(u64 \<times> u64) list \<Rightarrow> (u64 \<times> (nat \<times> 8 word) list) option" where
  "ns16550a_init auxv =
     do {
       uart \<leftarrow> getauxval auxv VIRT_UART0_CTRL_ADDR;
       uart_freq \<leftarrow> map_option ucast (getauxval auxv UART0_CLOCK_FREQ);
       baud_rate \<leftarrow> map_option ucast (getauxval auxv UART0_BAUD_RATE);
       if 16 * baud_rate = 0 then None
       else let divisor = (uart_freq :: 32 word) div (16 * baud_rate)
         in Some (uart, [(3, 0x80), (0, ucast (divisor AND 0xff)),
              (1, ucast (drop_bit 8 divisor AND 0xff)), (3, 0x08 OR 0x03)])
     }"

definition ns16550a_getchar :: "8 word \<Rightarrow> 8 word \<Rightarrow> int" where
  "ns16550a_getchar lsr rbr = (if lsr AND 0x01 \<noteq> 0 then uint rbr else - 1)"

text \<open>The values of the status register while \<open>putchar\<close> waits; the result is the byte it sends.\<close>

fun ns16550a_putchar :: "8 word list \<Rightarrow> int \<Rightarrow> 8 word option" where
  "ns16550a_putchar [] ch = None"
| "ns16550a_putchar (lsr # lsrs) ch =
     (if lsr AND 0x40 = 0 then ns16550a_putchar lsrs ch else Some (word_of_int (ch AND 0xff)))"

definition cep_uart_init ::
    "(u64 \<times> u64) list \<Rightarrow> console_device \<Rightarrow> (u64 \<times> (nat \<times> 32 word) list \<times> console_device) option" where
  "cep_uart_init auxv d =
     do {
       uart \<leftarrow> getauxval auxv CEP_UART0_CTRL_ADDR;
       uart_freq \<leftarrow> map_option ucast (getauxval auxv UART0_CLOCK_FREQ);
       baud_rate \<leftarrow> map_option ucast (getauxval auxv UART0_BAUD_RATE);
       if baud_rate = 0 then None
       else Some (uart, [(6, (uart_freq :: 32 word) div baud_rate - 1), (2, 1), (3, 1), (4, 2)],
         d\<lparr>last_written_char_index := 0\<rparr>)
     }"

definition cep_uart_getchar :: "32 word \<Rightarrow> int" where
  "cep_uart_getchar rxfifo = (if sint rxfifo < 0 then - 1 else sint rxfifo)"

fun cep_uart_putchar :: "32 word list \<Rightarrow> int \<Rightarrow> 32 word option" where
  "cep_uart_putchar [] ch = None"
| "cep_uart_putchar (txfifo # rest) ch =
     (if sint txfifo < 0 then cep_uart_putchar rest ch else Some (word_of_int (ch AND 0xff)))"

section \<open>Interrupt controllers, timer, disk and power\<close>

definition PLIC_BASE :: u64 where "PLIC_BASE = 0xc000000"
definition VIRT_PLIC_ENABLE_OFFSET :: u64 where "VIRT_PLIC_ENABLE_OFFSET = 0x2080"
definition CEP_PLIC_ENABLE_OFFSET :: u64 where "CEP_PLIC_ENABLE_OFFSET = 0x2000"
definition PLIC_TARGET :: u64 where "PLIC_TARGET = PLIC_BASE + 0x200000"

definition virt_plic_init :: "regs \<Rightarrow> regs" where
  "virt_plic_init r =
     r(PLIC_BASE + 1 * 4 := 1, PLIC_BASE + 10 * 4 := 1,
       VIRT_PLIC_ENABLE_OFFSET := push_bit 1 1 OR push_bit 10 1,
       PLIC_TARGET := 0, PLIC_TARGET + 0x1000 := 0)"

definition cep_plic_init :: "regs \<Rightarrow> regs" where
  "cep_plic_init r =
     r(PLIC_BASE + CEP_PLIC_ENABLE_OFFSET := - 1, PLIC_BASE + CEP_PLIC_ENABLE_OFFSET + 4 := - 1,
       PLIC_TARGET := 0, PLIC_BASE + 1 * 4 := 1,
       PLIC_BASE + CEP_PLIC_ENABLE_OFFSET + 0x80 := - 1, PLIC_BASE + CEP_PLIC_ENABLE_OFFSET + 0x84 := - 1,
       PLIC_TARGET + 0x1000 := 0)"

text \<open>Whether the disk registers at \<open>0x10001000\<close> are those of a disk the driver knows.\<close>

definition virt_disk_init :: "regs \<Rightarrow> bool" where
  "virt_disk_init r \<longleftrightarrow>
     \<not> (r 0x10001000 \<noteq> 0x74726976 \<or> r (0x10001000 + 4) \<noteq> 2 \<or> r (0x10001000 + 8) \<noteq> 2 \<or>
        r (0x10001000 + 0xc) \<noteq> 0x554d4551)"

text \<open>The words written to the power switches, which then wait for ever.\<close>

definition virt_test_poweroff :: "int \<Rightarrow> 32 word" where
  "virt_test_poweroff status = push_bit 16 (word_of_int status) OR 0x5555"

definition cep_test_poweroff :: "int \<Rightarrow> 32 word" where
  "cep_test_poweroff status = push_bit 16 (word_of_int status) OR 0x3333"

text \<open>The addresses of the timer registers.\<close>

definition CLINT_MTIME :: u64 where "CLINT_MTIME = 0xbff8"
definition CLINT_MTIMECMP :: u64 where "CLINT_MTIMECMP = 0x4000"

definition set_mtimecmp :: "u64 \<Rightarrow> u64 \<Rightarrow> (u64 \<Rightarrow> u64) \<Rightarrow> u64 \<Rightarrow> u64" where
  "set_mtimecmp base v m = m(base + CLINT_MTIMECMP := v)"

section \<open>The spin lock\<close>

text \<open>\<open>spinlock_trylock\<close> exchanges the word with \<open>-1\<close> and returns its old value.\<close>

definition spinlock_trylock :: "int \<Rightarrow> int \<times> int" where
  "spinlock_trylock l = (l, - 1)"

definition spinlock_unlock :: "int \<Rightarrow> int" where
  "spinlock_unlock l = 0"

text \<open>Where a processor is in \<open>spinlock_lock\<close>: reading the word, at the exchange, behind it.\<close>

datatype spin_pc = Outside | Spinning | Trying | Inside

record spin_state =
  lock :: int
  pcs :: "nat \<Rightarrow> spin_pc"

definition spin_to :: "nat \<Rightarrow> spin_pc \<Rightarrow> spin_state \<Rightarrow> spin_state" where
  "spin_to i p s = s\<lparr>pcs := (pcs s)(i := p)\<rparr>"

inductive spin_step :: "spin_state \<Rightarrow> spin_state \<Rightarrow> bool" where
  call: "pcs s i = Outside \<Longrightarrow> spin_step s (spin_to i Spinning s)"
| busy: "pcs s i = Spinning \<Longrightarrow> lock s \<noteq> 0 \<Longrightarrow> spin_step s s"
| free: "pcs s i = Spinning \<Longrightarrow> lock s = 0 \<Longrightarrow> spin_step s (spin_to i Trying s)"
| swap: "pcs s i = Trying \<Longrightarrow> spinlock_trylock (lock s) = (res, l) \<Longrightarrow>
    spin_step s (spin_to i (if res \<noteq> 0 then Spinning else Inside) (s\<lparr>lock := l\<rparr>))"
| unlock: "pcs s i = Inside \<Longrightarrow>
    spin_step s (spin_to i Outside (s\<lparr>lock := spinlock_unlock (lock s)\<rparr>))"

inductive_cases spin_stepE: "spin_step s s'"

section \<open>Properties\<close>

text \<open>The uart of each machine is set to its rate: the virtual one divides by 1, the other one
  by 277, of which the register holds the predecessor.\<close>

lemma uart_divisors:
  "ns16550a_init virt_auxv = Some (0x10000000, [(3, 0x80), (0, 1), (1, 0), (3, 0x0b)])"
  "map_option (fst \<circ> snd) (cep_uart_init cep_auxv d) = Some [(6, 276), (2, 1), (3, 1), (4, 2)]"
  by (simp_all add: ns16550a_init_def cep_uart_init_def virt_auxv_def cep_auxv_def UART0_CLOCK_FREQ_def
      UART0_BAUD_RATE_def CEP_UART0_CTRL_ADDR_def CEP_POWEROFF_CTRL_ADDR_def VIRT_UART0_CTRL_ADDR_def
      VIRT_TEST_CTRL_ADDR_def Let_def)

text \<open>A message whose data has at most 48 bits is received as it was sent.\<close>

lemma htif_roundtrip:
  assumes "data < 2 ^ 48"
  shows "htif_decode (htif_encode dev cmd data) = (dev, cmd, data)"
proof -
  have "take_bit 48 data = data" using assms by (simp add: take_bit_eq_mod mod_word_less)
  then have d: "bit data n \<Longrightarrow> n < 48" for n using bit_take_bit_iff [of 48 data n] by simp
  have "ucast (drop_bit 56 (htif_encode dev cmd data)) = dev"
    by (rule bit_word_eqI) (auto simp: htif_encode_def bit_simps dest: d bit_imp_le_length)
  moreover have "ucast (drop_bit 48 (htif_encode dev cmd data) AND 0xff) = cmd"
  proof -
    have "ucast (take_bit 8 (drop_bit 48 (htif_encode dev cmd data))) = cmd"
      by (rule bit_word_eqI) (auto simp: htif_encode_def bit_simps dest: d)
    then show ?thesis by (simp add: take_bit_eq_mask mask_eq_exp_minus_1)
  qed
  moreover have "drop_bit 16 (push_bit 16 (htif_encode dev cmd data)) = data"
    by (rule bit_word_eqI) (auto simp: htif_encode_def bit_simps dest: d bit_imp_le_length)
  ultimately show ?thesis by (simp add: htif_decode_def)
qed

text \<open>The word is zero exactly while no processor is inside, and at most one is.\<close>

definition spin_inv :: "spin_state \<Rightarrow> bool" where
  "spin_inv s \<longleftrightarrow>
     (lock s = 0 \<longleftrightarrow> (\<forall>i. pcs s i \<noteq> Inside)) \<and> (\<forall>i j. pcs s i = Inside \<longrightarrow> pcs s j = Inside \<longrightarrow> i = j)"

lemma spin_step_inv: "spin_step s s' \<Longrightarrow> spin_inv s \<Longrightarrow> spin_inv s'"
proof (erule spin_stepE)
  fix i
  assume inv: "spin_inv s" and i: "pcs s i = Outside" and s': "s' = spin_to i Spinning s"
  have "pcs s' j = Inside \<longleftrightarrow> pcs s j = Inside" for j using i by (simp add: s' spin_to_def)
  moreover have "lock s' = lock s" by (simp add: s' spin_to_def)
  ultimately show "spin_inv s'" using inv by (simp add: spin_inv_def)
next
  fix i res l
  assume inv: "spin_inv s" and i: "pcs s i = Trying" and t: "spinlock_trylock (lock s) = (res, l)"
    and s': "s' = spin_to i (if res \<noteq> 0 then Spinning else Inside) (s\<lparr>lock := l\<rparr>)"
  have r: "res = lock s" and l: "lock s' = - 1"
    using t by (auto simp: spinlock_trylock_def s' spin_to_def)
  have "pcs s' j = Inside \<longleftrightarrow> (if j = i then lock s = 0 else pcs s j = Inside)" for j
    by (simp add: s' spin_to_def r)
  then show "spin_inv s'" using inv l i unfolding spin_inv_def by (metis neg_equal_0_iff_equal spin_pc.distinct(11) zero_neq_one)
qed (auto simp: spin_inv_def spin_to_def spinlock_unlock_def)

lemma spin_run_inv: "spin_step\<^sup>*\<^sup>* s s' \<Longrightarrow> spin_inv s \<Longrightarrow> spin_inv s'"
  by (induction rule: rtranclp_induct) (auto intro: spin_step_inv)

text \<open>
  C23.  The spin lock excludes: from a free lock with nobody inside, however the processors
  interleave, at most one is inside; and when none is, any processor that spins can get in.
\<close>

theorem spinlock_excludes:
  assumes "lock s = 0" "\<And>i. pcs s i = Outside" "spin_step\<^sup>*\<^sup>* s s'"
  shows "(\<forall>i j. pcs s' i = Inside \<longrightarrow> pcs s' j = Inside \<longrightarrow> i = j) \<and>
    (\<forall>i. (\<forall>j. pcs s' j \<noteq> Inside) \<longrightarrow> pcs s' i = Spinning \<longrightarrow>
      (\<exists>s''. spin_step\<^sup>*\<^sup>* s' s'' \<and> pcs s'' i = Inside))"
proof -
  have inv: "spin_inv s'" using assms by (intro spin_run_inv [OF assms(3)]) (simp add: spin_inv_def)
  have "\<exists>s''. spin_step\<^sup>*\<^sup>* s' s'' \<and> pcs s'' i = Inside"
    if "\<forall>j. pcs s' j \<noteq> Inside" "pcs s' i = Spinning" for i
  proof -
    have l: "lock s' = 0" using inv that(1) by (simp add: spin_inv_def)
    let ?t = "spin_to i Trying s'"
    have "spin_step s' ?t" by (rule spin_step.free [OF that(2) l])
    moreover have "spin_step ?t (spin_to i Inside (?t\<lparr>lock := - 1\<rparr>))"
      using spin_step.swap [of ?t i 0 "- 1"] l by (simp add: spin_to_def spinlock_trylock_def)
    ultimately have "spin_step\<^sup>*\<^sup>* s' (spin_to i Inside (?t\<lparr>lock := - 1\<rparr>))" 
      by (meson converse_rtranclp_into_rtranclp rtranclp.rtrancl_refl)
    then show ?thesis by (intro exI conjI) (auto simp: spin_to_def)
  qed
  then show ?thesis using inv by (auto simp: spin_inv_def)
qed

definition demo_lock :: spin_state where
  "demo_lock = \<lparr>lock = 0, pcs = (\<lambda>_. Outside)\<rparr>"

theorem spinlock_excludes_witness:
  "\<exists>s' s''. spin_step\<^sup>*\<^sup>* demo_lock s' \<and> spin_step\<^sup>*\<^sup>* s' s'' \<and> pcs s'' 1 = Inside"
proof -
  have s: "spin_step demo_lock (spin_to 1 Spinning demo_lock)"
    by (rule spin_step.call) (simp add: demo_lock_def)
  have d: "lock demo_lock = 0" "\<And>i. pcs demo_lock i = Outside" by (simp_all add: demo_lock_def)
  have r: "spin_step\<^sup>*\<^sup>* demo_lock (spin_to 1 Spinning demo_lock)" using s by blast
  have p: "pcs (spin_to 1 Spinning demo_lock) j \<noteq> Inside" "pcs (spin_to 1 Spinning demo_lock) 1 = Spinning" for j
    by (simp_all add: spin_to_def demo_lock_def)
  have "\<exists>s''. spin_step\<^sup>*\<^sup>* (spin_to 1 Spinning demo_lock) s'' \<and> pcs s'' 1 = Inside"
    by (rule conjunct2 [OF spinlock_excludes [OF d r], rule_format, OF p])
  with r show ?thesis by blast
qed

text \<open>
  The initialisation of the interrupt controller of the virtual machine writes the enable mask
  to the offset instead of the address of the register: the enable register keeps its value, and
  the word at address \<open>0x2080\<close> is overwritten.
\<close>

lemma virt_plic_enable_not_written:
  "virt_plic_init r (PLIC_BASE + VIRT_PLIC_ENABLE_OFFSET) = r (PLIC_BASE + VIRT_PLIC_ENABLE_OFFSET) \<and>
   virt_plic_init r 0x2080 = 0x402"
  by (simp add: virt_plic_init_def PLIC_BASE_def VIRT_PLIC_ENABLE_OFFSET_def PLIC_TARGET_def)

end
