(* ===== verification/Boot.thy ===== *)
theory Boot
  imports Trap Drivers
begin

text \<open>
  The start of the machine: \<open>boot_riscv\<close> in machine mode (\<open>src/kernel/boot/common/boot.c\<close>),
  \<open>arch_setup\<close> of the machines that have a console with an \<open>init\<close> function
  (\<open>src/kernel/boot/virt/setup.c\<close>, \<open>cep/setup.c\<close>), \<open>kernel_start\<close> in supervisor mode
  (\<open>src/kernel/start.c\<close>).
  The control and status registers that only the boot code writes are a record of their own;
  \<open>sie\<close> and \<open>sstatus\<close> are views of \<open>mie\<close> and \<open>mstatus\<close>, as the privileged specification has it, and
  the bits of the two delegation registers that the hardware implements are fields.  Printing the
  banner and the processor's features is left out.  The theory shows that the system that comes up
  satisfies the invariant of the process queues and keeps it, and that it comes up.
\<close>

section \<open>Machine mode\<close>

record csrs =
  medeleg :: u64
  mideleg :: u64
  mie :: u64
  mip :: u64
  mstatus :: u64
  mepc :: u64
  pmpcfg0 :: u64
  pmpaddr0 :: u64
  mcounteren :: u64
  scounteren :: u64
  medeleg_bits :: u64
  mideleg_bits :: u64

definition csr_set_medeleg :: "u64 \<Rightarrow> csrs \<Rightarrow> csrs" where
  "csr_set_medeleg v c = c\<lparr>medeleg := medeleg c OR (v AND medeleg_bits c)\<rparr>"

definition csr_set_mideleg :: "u64 \<Rightarrow> csrs \<Rightarrow> csrs" where
  "csr_set_mideleg v c = c\<lparr>mideleg := mideleg c OR (v AND mideleg_bits c)\<rparr>"

definition csr_set_sie :: "u64 \<Rightarrow> csrs \<Rightarrow> csrs" where
  "csr_set_sie v c = c\<lparr>mie := mie c OR (v AND mideleg c)\<rparr>"

definition MSTATUS_MPP_0 :: u64 where "MSTATUS_MPP_0 = push_bit 11 1"
definition MSTATUS_MPP_1 :: u64 where "MSTATUS_MPP_1 = push_bit 12 1"
definition SSTATUS_SUM :: u64 where "SSTATUS_SUM = push_bit 18 1"
definition MSTATUS_MIE :: u64 where "MSTATUS_MIE = push_bit 3 1"
definition MIE_MTIE :: u64 where "MIE_MTIE = push_bit 7 1"
definition SIE_STIE :: u64 where "SIE_STIE = push_bit 5 1"
definition SIE_SEI :: u64 where "SIE_SEI = push_bit 9 1"
definition MIP_STIP :: u64 where "MIP_STIP = push_bit 5 1"

text \<open>The bits of \<open>mstatus\<close> that \<open>sstatus\<close> shows.\<close>

definition csr_set_sstatus :: "u64 \<Rightarrow> csrs \<Rightarrow> csrs" where
  "csr_set_sstatus v c = c\<lparr>mstatus := mstatus c OR (v AND 0x80000003000DE762)\<rparr>"

definition delegate_traps :: "csrs \<Rightarrow> csrs" where
  "delegate_traps c = csr_set_mideleg 0xffffffff (csr_set_medeleg 0xffffffff c)"

definition setup_pmp :: "csrs \<Rightarrow> csrs" where
  "setup_pmp c = c\<lparr>pmpaddr0 := push_bit 53 1 - 1, pmpcfg0 := 0x18 OR 1 OR 2 OR 4\<rparr>"

text \<open>Up to the instruction \<open>mret\<close>; \<open>ks\<close> is the address of \<open>kernel_start\<close>.\<close>

definition enter_supervisor_mode :: "u64 \<Rightarrow> csrs \<Rightarrow> csrs" where
  "enter_supervisor_mode ks c =
     (let c1 = (setup_pmp c)\<lparr>mepc := ks\<rparr>;
          c2 = c1\<lparr>mstatus := mstatus c1 OR MSTATUS_MPP_0\<rparr>;
          c3 = c2\<lparr>mstatus := mstatus c2 AND NOT MSTATUS_MPP_1\<rparr>
      in csr_set_sstatus SSTATUS_SUM c3)"

definition enable_interrupts :: "bool \<Rightarrow> csrs \<Rightarrow> csrs" where
  "enable_interrupts virt c =
     (if virt then
        (let c1 = c\<lparr>mie := mie c OR MIE_MTIE\<rparr>;
             c2 = csr_set_sie 0x2 (csr_set_sie SIE_STIE c1)
         in c2\<lparr>mstatus := mstatus c2 OR MSTATUS_MIE\<rparr>)
      else
        (let c1 = c\<lparr>mip := mip c OR MIP_STIP\<rparr>;
             c2 = csr_set_sie SIE_SEI (csr_set_sie SIE_STIE c1)
         in c2\<lparr>mstatus := mstatus c2 AND NOT MSTATUS_MIE\<rparr>))"

text \<open>The console of the machine is registered, and the counters are opened to the lower modes.\<close>

definition arch_setup :: "csrs \<Rightarrow> kernel \<Rightarrow> csrs \<times> kernel" where
  "arch_setup c s =
     (c\<lparr>mcounteren := - 1, scounteren := - 1\<rparr>, s\<lparr>console_dev := register_console (console_dev s)\<rparr>)"

section \<open>Supervisor mode\<close>

text \<open>\<open>kernel_start\<close> up to its last loop, in which it waits for interrupts.\<close>

definition kernel_start :: "bool \<Rightarrow> kernel \<Rightarrow> kernel option" where
  "kernel_start virt s =
     do {
       (r, dir, satp_value, m) \<leftarrow> set_up_virtual_memory virt (mm s);
       if r < 0 then None
       else do {
         d \<leftarrow> dir;
         v \<leftarrow> satp_value;
         (r', s1) \<leftarrow> initialize_process_workflow
           (s\<lparr>mm := m, kernel_base_page_table := d, cpu := (cpu s)\<lparr>satp := v\<rparr>\<rparr>);
         if r' < 0 then None
         else (let s2 = (if virt then set_machine_timer_interrupt 100 s1 else s1)
               in Some (stay KSpin (s2\<lparr>sie := True\<rparr>))) }
     }"

definition boot_riscv :: "bool \<Rightarrow> u64 \<Rightarrow> csrs \<Rightarrow> kernel \<Rightarrow> (csrs \<times> kernel) option" where
  "boot_riscv virt ks c s =
     (case arch_setup c s of (c1, s1) \<Rightarrow> do {
        let c2 = enable_interrupts virt (delegate_traps c1);
        m \<leftarrow> init_frames (mm s1);
        s2 \<leftarrow> kernel_start virt (s1\<lparr>mm := m\<rparr>);
        Some (enter_supervisor_mode ks c2, s2) })"

section \<open>The system that comes up\<close>

text \<open>At power on the global variables of the kernel are zero: no process, empty queues.\<close>

definition power_on :: "kernel \<Rightarrow> bool" where
  "power_on s \<longleftrightarrow> procs s = Map.empty \<and> queues s = (\<lambda>_. [])"

lemma power_on_inv: "power_on s \<Longrightarrow> queues_inv True s"
  by (simp add: power_on_def queues_inv_def chained_def ready_sorted_def)

lemma init_map_keeps: "queues_inv b (snd rs) \<Longrightarrow>
   (\<And>s. queues_inv b s \<Longrightarrow> queues_inv b (clear s)) \<Longrightarrow> queues_inv b (snd (init_map clear rs))"
  using alloc_ok_inv [of b "snd rs"]
  by (cases rs; cases "alloc_ok (snd rs)") (auto simp: init_map_def simp del: alloc_ok_inv)

lemma table_keeps:
  assumes "queues_inv b s"
  shows "queues_inv b (snd (initialize_process_hash_table s))" "queues_inv b (snd (initialize_share_pages_table s))"
    "queues_inv b (snd (init_semaphore_table s))"
  using malloc_inv [OF assms]
  by (auto simp: initialize_process_hash_table_def initialize_share_pages_table_def init_semaphore_table_def
      split: prod.splits option.splits)

lemma setup_main_context_keeps: "queues_inv b s \<Longrightarrow> queues_inv b (snd (setup_main_context s))"
  using malloc_inv [of b s] malloc_inv [of b "snd (malloc s)"]
  by (auto simp: setup_main_context_def split: prod.splits option.splits)

lemma initialize_keeps [keeps]:
  assumes "queues_inv b s"
  shows "post (inv_snd b) (initialize_process_workflow s)"
proof -
  obtain r1 s1 where 1: "init_map (pid_table_update (\<lambda>_. Map.empty)) (initialize_process_hash_table s) = (r1, s1)"
    by fastforce
  obtain r2 s2 where 2: "init_map (shared_memory_update (\<lambda>_. Map.empty)) (initialize_share_pages_table s1) = (r2, s2)"
    by fastforce
  obtain r3 s3 where 3: "init_map (semaphores_update (\<lambda>_. Map.empty)) (init_semaphore_table s2) = (r3, s3)"
    by fastforce
  obtain r4 s4 where 4: "setup_main_context s3 = (r4, s4)" by fastforce
  have i1: "queues_inv b s1" using init_map_keeps [OF table_keeps(1) [OF assms], of "pid_table_update (\<lambda>_. Map.empty)"] 1 by simp
  have i2: "queues_inv b s2" using init_map_keeps [OF table_keeps(2) [OF i1], of "shared_memory_update (\<lambda>_. Map.empty)"] 2 by simp
  have i3: "queues_inv b s3" using init_map_keeps [OF table_keeps(3) [OF i2], of "semaphores_update (\<lambda>_. Map.empty)"] 3 by simp
  have i4: "queues_inv b s4" using setup_main_context_keeps [OF i3] 4 by simp
  show ?thesis
    using i1 i2 i3 i4
    by (auto simp: initialize_process_workflow_def 1 2 3 4 create_idle_process_def create_shell_program_def
        intro!: keeps)
qed

lemma queues_inv_setup [simp]:
  "queues_inv b (s\<lparr>mm := m, kernel_base_page_table := d, cpu := c\<rparr>) = queues_inv b s"
  "queues_inv b (s\<lparr>mm := m, kernel_base_page_table := d\<rparr>) = queues_inv b s"
  "queues_inv b (s\<lparr>console_dev := cd, mm := m\<rparr>) = queues_inv b s"
  "queues_inv b (stay KSpin (s\<lparr>sie := i\<rparr>)) = queues_inv b s"
  "queues_inv b (set_machine_timer_interrupt d s) = queues_inv b s"
  by (simp_all add: queues_inv_def chained_def ready_sorted_def stay_def set_machine_timer_interrupt_def)

lemma kernel_start_keeps:
  assumes "queues_inv b s" "kernel_start virt s = Some s'"
  shows "queues_inv b s'"
proof -
  obtain m d v r s1 where e: "initialize_process_workflow
      (s\<lparr>mm := m, kernel_base_page_table := d, cpu := (cpu s)\<lparr>satp := v\<rparr>\<rparr>) = Some (r, s1)"
    and s': "s' = stay KSpin ((if virt then set_machine_timer_interrupt 100 s1 else s1)\<lparr>sie := True\<rparr>)"
    using assms(2) by (auto simp: kernel_start_def Let_def bind_eq_Some_conv split: if_splits)
  have "inv_snd b (r, s1)" by (rule postD [OF initialize_keeps e]) (simp add: assms(1))
  then show ?thesis by (simp add: s')
qed

lemma boot_keeps: "queues_inv b s \<Longrightarrow> boot_riscv virt ks c s = Some (c', s') \<Longrightarrow> queues_inv b s'"
  by (auto simp: boot_riscv_def arch_setup_def Let_def bind_eq_Some_conv elim!: kernel_start_keeps [rotated])

lemma bit_shift_one: "n < 64 \<Longrightarrow> bit (push_bit n 1 :: u64) k \<longleftrightarrow> k = n"
  by (auto simp: bit_exp_iff)

lemma supervisor_mode:
  "get_field 11 2 (mstatus (enter_supervisor_mode ks c)) = 1" "mepc (enter_supervisor_mode ks c) = ks"
proof -
  have "bit MSTATUS_MPP_0 k \<longleftrightarrow> k = 11" "bit MSTATUS_MPP_1 k \<longleftrightarrow> k = 12" "bit SSTATUS_SUM k \<longleftrightarrow> k = 18" for k
    unfolding MSTATUS_MPP_0_def MSTATUS_MPP_1_def SSTATUS_SUM_def by (rule bit_shift_one; simp)+
  then show "get_field 11 2 (mstatus (enter_supervisor_mode ks c)) = 1"
    by (intro bit_word_eqI)
      (auto simp: enter_supervisor_mode_def csr_set_sstatus_def setup_pmp_def get_field_def Let_def
        bit_take_bit_iff bit_drop_bit_eq bit_or_iff bit_and_iff bit_not_iff bit_1_iff)
  show "mepc (enter_supervisor_mode ks c) = ks"
    by (simp add: enter_supervisor_mode_def csr_set_sstatus_def Let_def)
qed

lemma boot_mode:
  assumes "boot_riscv virt ks c s = Some (c', s')"
  shows "get_field 11 2 (mstatus c') = 1" "mepc c' = ks"
  using assms supervisor_mode by (auto simp: boot_riscv_def arch_setup_def Let_def bind_eq_Some_conv)


text \<open>A machine with 18 frames and the programs \<open>idle\<close> and \<open>shell\<close>, of half a page each.\<close>

definition demo_boot :: kernel where
  "demo_boot = demo_kernel\<lparr>
     mm := \<lparr>mem = (\<lambda>_. 0), mem_ptr = 0, free_memory_start = 0x80000000, memory_end = 0x80012000,
            curptr = 0, heap_end = 0\<rparr>,
     symbols_table := [\<lparr>app_name = idle_name, app_start = 0x1000, app_end = 0x1800\<rparr>,
                       \<lparr>app_name = shell_name, app_start = 0x2000, app_end = 0x2800\<rparr>]\<rparr>"

definition demo_csrs :: csrs where
  "demo_csrs = \<lparr>medeleg = 0, mideleg = 0, mie = 0, mip = 0, mstatus = 0x1800, mepc = 0, pmpcfg0 = 0, pmpaddr0 = 0,
     mcounteren = 0, scounteren = 0, medeleg_bits = 0xf3ff, mideleg_bits = 0x222\<rparr>"

lemmas start_eval = start_virtual_def start_checks_def new_process_def process_name_copy_def finish_start_def
  new_context_def increment_pid_and_get_new_pid_def validate_action_process_valid_def getprio_def
  check_if_new_prio_is_higher_and_call_scheduler_def get_process_struct_of_pid_def
  MAX_NB_PROCESS_def MAXPRIO_def MINPRIO_def MAX_SIZE_NAME_def PROCESS_SETUP_SIZE_def find_app_def
  process_call_wrapper_user_def get_current_process_def getpid_def stay_def q_add_def qinsert_def alive_def
  return_int_def result_of_def

lemma demo_names:
  "chars idle_name = [105, 100, 108, 101]" "chars shell_name = [115, 104, 101, 108, 108]"
  "c_str idle_name = [105, 100, 108, 101, 0]" "c_str shell_name = [115, 104, 101, 108, 108, 0]"
  by (simp_all add: chars_def c_str_def idle_name_def shell_name_def Abs_cstring_inverse)

lemma demo_copies:
  "strcpy (replicate 12 0) [105, 100, 108, 101, 0] = Some ([105, 100, 108, 101] @ 0 # replicate 7 0)"
  "strcpy (replicate 13 0) [115, 104, 101, 108, 108, 0] = Some ([115, 104, 101, 108, 108] @ 0 # replicate 7 0)"
  using strcpy_terminated [of "[105, 100, 108, 101]" "replicate 12 0"]
    strcpy_terminated [of "[115, 104, 101, 108, 108]" "replicate 13 0"] by simp_all

lemma demo_boot_up:
  "\<exists>c s1 s2. boot_riscv False 0x100 demo_csrs demo_boot = Some (c, s1) \<and>
     handle_stimer_interrupt False 0 s1 = Some s2 \<and> current_pid s2 = 2"
  by (simp add: boot_riscv_def arch_setup_def kernel_start_def set_up_virtual_memory_def init_directory_def
      configure_GIGA init_frames_def init_frames_loop.simps initialize_process_workflow_def init_map_def
      initialize_process_hash_table_def initialize_share_pages_table_def init_semaphore_table_def
      setup_main_context_def create_idle_process_def create_shell_program_def
      demo_boot_def demo_kernel_def demo_process_def demo_names demo_copies alloc_eval start_eval
      handle_stimer_interrupt_def set_supervisor_timer_interrupt_def sched_eval first_switch_def switch_from_main_def)


end
