(* ===== verification/Shared_Pages.thy ===== *)
theory Shared_Pages
  imports Shared_Memory
begin

text \<open>
  The usage counts of shared pages.  \<open>sharers s k\<close> are the processes that have the page \<open>k\<close> in their
  table; the invariant \<open>shm_inv\<close> bounds their number by the count in the global table.  Every system
  call of theory \<open>Shared_Memory\<close> keeps it, and so does the release of the memory of a process.
\<close>

section \<open>Who shares a page\<close>

text \<open>The tables of shared pages of the processes; a process without a table has no entry.\<close>

definition sharing :: "kernel \<Rightarrow> ptr \<Rightarrow> (cstring \<rightharpoonup> ptr) option" where
  "sharing s p = Option.bind (procs s p) proc_shared_hash_table"

definition sharers :: "kernel \<Rightarrow> cstring \<Rightarrow> ptr set" where
  "sharers s k = {p. \<exists>tbl. sharing s p = Some tbl \<and> k \<in> dom tbl}"

definition usage_of :: "kernel \<Rightarrow> cstring \<Rightarrow> int" where
  "usage_of s k = (case shared_memory s k of None \<Rightarrow> 0 | Some info \<Rightarrow> page_usage info)"

definition shm_inv :: "kernel \<Rightarrow> bool" where
  "shm_inv s \<longleftrightarrow> (\<forall>k. finite (sharers s k) \<and> int (card (sharers s k)) \<le> usage_of s k)"

definition same_view :: "kernel \<Rightarrow> kernel \<Rightarrow> bool" where
  "same_view s s' \<longleftrightarrow> sharing s' = sharing s \<and> shared_memory s' = shared_memory s"

lemma same_view_refl [simp]: "same_view s s"
  by (simp add: same_view_def)

lemma same_view_trans: "same_view s s' \<Longrightarrow> same_view s' s'' \<Longrightarrow> same_view s s''"
  by (simp add: same_view_def)

lemma same_view_inv: "same_view s s' \<Longrightarrow> shm_inv s' = shm_inv s"
  by (simp add: same_view_def shm_inv_def sharers_def usage_of_def)

lemma same_view_fields [simp]:
  "same_view s0 (s\<lparr>mm := m\<rparr>) = same_view s0 s" "same_view s0 (s\<lparr>alloc_fails := fs\<rparr>) = same_view s0 s"
  "same_view s0 (s\<lparr>next_ptr := n\<rparr>) = same_view s0 s" "same_view s0 (s\<lparr>page_id_counter := c\<rparr>) = same_view s0 s"
  "same_view s0 (s\<lparr>custom_release_process := p\<rparr>) = same_view s0 s"
  "same_view s0 (s\<lparr>process_id_list := ids\<rparr>) = same_view s0 s"
  "same_view s0 (s\<lparr>nb_proc_running := nb\<rparr>) = same_view s0 s"
  "same_view s0 (s\<lparr>pid_table := pt\<rparr>) = same_view s0 s" "same_view s0 (s\<lparr>current_pid := i\<rparr>) = same_view s0 s"
  by (simp_all add: same_view_def sharing_def fun_eq_iff)

lemma view_alloc_ok: "alloc_ok s = (r, s') \<Longrightarrow> same_view s s'"
  by (auto simp: alloc_ok_def split: list.splits)

lemma view_malloc: "malloc s = (r, s') \<Longrightarrow> same_view s s'"
  by (auto simp: malloc_def dest: view_alloc_ok split: prod.splits if_splits)

lemma view_upd_proc:
  assumes "upd_proc p f s = Some s'" "\<And>x. proc_shared_hash_table (f x) = proc_shared_hash_table x"
  shows "same_view s s'"
  using assms by (auto simp: upd_proc_def same_view_def sharing_def fun_eq_iff split: option.splits)

lemma view_upd_pte: "upd_pte_k t i g s = Some s' \<Longrightarrow> same_view s s'"
  by (auto simp: upd_pte_k_def bind_eq_Some_conv)

lemma view_put_lvl1: "put_lvl1 p l s = Some s' \<Longrightarrow> same_view s s'"
  unfolding put_lvl1_def by (erule view_upd_proc) simp

lemma view_configure:
  "configure_page_table_linked_list_entry t po ty i s = (r, s') \<Longrightarrow> same_view s s'"
  by (auto simp: configure_page_table_linked_list_entry_def Let_def dest: view_malloc
      split: if_splits prod.splits option.splits)

lemma view_create_table: "create_page_table_k s = (r, s') \<Longrightarrow> same_view s s'"
  by (auto simp: create_page_table_k_def split: prod.splits)

lemma view_add_child: "add_child_node_page_table l ty s = (r, l', s') \<Longrightarrow> same_view s s'"
  by (auto simp: add_child_node_page_table_def Let_def dest!: view_create_table view_configure
      intro: same_view_trans split: if_splits prod.splits option.splits)

lemma view_link_lvl1: "link_lvl1_table_shared_page lo i j t s = Some (r, s') \<Longrightarrow> same_view s s'"
  by (auto simp: link_lvl1_table_shared_page_def bind_eq_Some_conv dest: view_upd_pte
      split: option.splits if_splits)

lemma view_shared_pages: "upd_proc p (shared_pages_update (\<lambda>_. ys)) s = Some s' \<Longrightarrow> same_view s s'"
  by (erule view_upd_proc) simp

lemma view_add_frame:
  assumes "add_frame_to_process p ty s = Some (r, s')"
  shows "same_view s s'"
proof -
  have "post (\<lambda>(r, s'). same_view s s') (add_frame_to_process p ty s)"
    unfolding add_frame_to_process_def Let_def
    by (auto intro!: post_bind_value split: option.split prod.split
        dest!: view_shared_pages view_put_lvl1 view_add_child view_link_lvl1)
      (simp_all add: same_view_def)
  then show ?thesis using assms by (auto dest: postD)
qed

text \<open>Creating the table of a process, which is empty, changes no set of sharers.\<close>

definition same_sharers :: "kernel \<Rightarrow> kernel \<Rightarrow> bool" where
  "same_sharers s s' \<longleftrightarrow> sharers s' = sharers s \<and> shared_memory s' = shared_memory s"

lemma same_sharers_inv: "same_sharers s s' \<Longrightarrow> shm_inv s' = shm_inv s"
  by (simp add: same_sharers_def shm_inv_def usage_of_def)

lemma same_sharers_view: "same_view s s' \<Longrightarrow> same_sharers s s'"
  by (simp add: same_view_def same_sharers_def sharers_def fun_eq_iff)

lemma same_sharers_trans: "same_sharers s s' \<Longrightarrow> same_sharers s' s'' \<Longrightarrow> same_sharers s s''"
  by (simp add: same_sharers_def)

lemma new_table_sharers:
  assumes "upd_proc p (proc_shared_hash_table_update (\<lambda>_. Some (\<lambda>_. None))) s1 = Some s2"
    "same_view s s1" "procs s p = Some x" "proc_shared_hash_table x = None"
  shows "same_sharers s s2"
proof -
  have "sharing s1 p = None" using assms(2-4) by (simp add: same_view_def sharing_def)
  moreover from this have "sharing s2 = (sharing s1)(p \<mapsto> Map.empty)"
    using assms(1) by (auto simp: upd_proc_def sharing_def fun_eq_iff split: option.splits)
  ultimately have "same_sharers s1 s2"
    using assms(1) by (auto simp: same_sharers_def sharers_def fun_eq_iff upd_proc_def split: option.splits if_splits)
  then show ?thesis by (rule same_sharers_trans [OF same_sharers_view [OF assms(2)]])
qed

lemma wrapper_sharers:
  assumes "create_hash_table_and_shared_pages_wrapper p s = Some (r, s')"
  shows "same_sharers s s'"
proof -
  obtain x r1 s1 where x: "procs s p = Some x"
    and m: "(if proc_shared_hash_table x \<noteq> None then Some (0 :: int, s)
      else (case malloc s of
          (None, s1) \<Rightarrow> Some (- 1, s1)
        | (Some a, s1) \<Rightarrow>
            (case alloc_ok s1 of
               (ok, s2) \<Rightarrow> do {
                 s3 \<leftarrow> upd_proc p (proc_shared_hash_table_update (\<lambda>_. Some Map.empty)) s2;
                 Some (if ok then 0 else - 1, s3) }))) = Some (r1, s1)"
    and rest: "(if r1 \<noteq> 0 then Some (- 1, s1)
       else if shared_pages x \<noteq> None then Some (0, s1)
       else (case malloc s1 of
         (None, s2) \<Rightarrow> Some (- 1, s2)
       | (Some a, s2) \<Rightarrow> do {
           s3 \<leftarrow> upd_proc p (shared_pages_update (\<lambda>_. Some [])) s2;
           Some (0, s3) })) = Some (r, s')"
    using assms unfolding create_hash_table_and_shared_pages_wrapper_def by (auto simp only: bind_eq_Some_conv prod.case)
  have "same_sharers s s1"
  proof (cases "proc_shared_hash_table x")
    case None
    then show ?thesis using m x
      by (auto simp: bind_eq_Some_conv dest!: view_malloc view_alloc_ok split: prod.splits option.splits
          intro: same_sharers_view new_table_sharers [OF _ same_view_trans])
  qed (use m in \<open>simp add: same_sharers_def\<close>)
  moreover have "same_view s1 s'"
    using rest by (auto simp: bind_eq_Some_conv dest!: view_malloc view_shared_pages
        split: prod.splits option.splits if_splits intro: same_view_trans)
  ultimately show ?thesis using same_sharers_trans same_sharers_view by blast
qed

text \<open>A process joins the sharers of a page.\<close>

definition joined :: "kernel \<Rightarrow> ptr \<Rightarrow> cstring \<Rightarrow> kernel \<Rightarrow> bool" where
  "joined s p k s' \<longleftrightarrow> (\<exists>tbl info a. sharing s p = Some tbl \<and> shared_memory s k = Some info \<and>
     sharing s' = (sharing s)(p \<mapsto> tbl(k \<mapsto> a)) \<and>
     shared_memory s' = (shared_memory s)(k \<mapsto> info\<lparr>page_usage := page_usage info + 1\<rparr>))"

lemma joined_inv:
  assumes "shm_inv s" "joined s p k s'"
  shows "shm_inv s'"
proof -
  obtain tbl info a where j: "sharing s p = Some tbl" "shared_memory s k = Some info"
      "sharing s' = (sharing s)(p \<mapsto> tbl(k \<mapsto> a))"
      "shared_memory s' = (shared_memory s)(k \<mapsto> info\<lparr>page_usage := page_usage info + 1\<rparr>)"
    using assms(2) by (auto simp: joined_def)
  have sh: "sharers s' i = (if i = k then insert p (sharers s k) else sharers s i)" for i
    using j(1) by (auto simp: sharers_def j(3) split: if_splits)
  have us: "usage_of s' i = (if i = k then usage_of s k + 1 else usage_of s i)" for i
    by (simp add: usage_of_def j(2,4))
  have "finite (sharers s i)" "int (card (sharers s i)) \<le> usage_of s i" for i
    using assms(1) by (simp_all add: shm_inv_def)
  then show ?thesis by (auto simp: shm_inv_def sh us card_insert_if add_increasing2)
qed

lemma joined_step:
  assumes "same_view s s1" "procs s1 p = Some x" "proc_shared_hash_table x = Some tbl"
    "upd_proc p (proc_shared_hash_table_update (\<lambda>_. Some (tbl(k \<mapsto> a)))) s1 = Some s2"
    "shared_memory (snd (alloc_ok s2)) k = Some info"
    "upd_pte_k t i g ((snd (alloc_ok s2))\<lparr>shared_memory := (shared_memory (snd (alloc_ok s2)))
       (k \<mapsto> info\<lparr>page_usage := page_usage info + 1\<rparr>)\<rparr>) = Some s3"
  shows "joined s p k s3"
proof -
  have "same_view s2 (snd (alloc_ok s2))" by (rule view_alloc_ok [of _ "fst (alloc_ok s2)"]) simp
  moreover have "sharing s2 = (sharing s1)(p \<mapsto> tbl(k \<mapsto> a))" "shared_memory s2 = shared_memory s1"
    using assms(2,4) by (auto simp: upd_proc_def sharing_def fun_eq_iff)
  moreover have "sharing s1 p = Some tbl" using assms(2,3) by (simp add: sharing_def)
  moreover have "sharing (s\<lparr>shared_memory := m\<rparr>) = sharing s" for s m by (simp add: sharing_def fun_eq_iff)
  ultimately show ?thesis using view_upd_pte [OF assms(6)] assms(1,5)
    by (auto simp: joined_def same_view_def)
qed

lemma link_sharers:
  "post (\<lambda>(r, s'). if r < 0 then same_view s s' else joined s p k s') (link_shared_page_to_process p k s)"
  unfolding link_shared_page_to_process_def
proof (intro post_bind_value, goal_cases)
  case (1 x)
  have hole: "same_view s4 s5" if "upd_proc p (\<lambda>x. x\<lparr>released_pages_list := rest, shared_pages := f x\<rparr>) s4 = Some s5"
    for s4 s5 rest f
    using that by (rule view_upd_proc) simp
  have chain: "same_view s s4" if "same_view s s1" "same_view s1 s2" "same_view s2 s3" "same_view s3 s4"
    for s1 s2 s3 s4
    using that by (simp add: same_view_def)
  show ?case
    by (auto simp: Let_def split: prod.split option.split intro!: post_bind_value dest!: view_malloc)
      (auto simp: bind_eq_Some_conv split: list.splits dest!: hole view_shared_pages view_add_frame
        intro: chain same_view_trans joined_step [OF chain])
qed

text \<open>A process leaves the sharers of a page; the page goes with its last user.\<close>

lemma leave_inv:
  assumes "shm_inv s" "sharing s p = Some tbl" "tbl k \<noteq> None" 
    "sharing s' = (sharing s)(p \<mapsto> tbl(k := None))"
    "\<And>i. i \<noteq> k \<Longrightarrow> shared_memory s' i = shared_memory s i" "usage_of s k - 1 \<le> usage_of s' k"
  shows "shm_inv s'"
proof -
  have sh: "sharers s' i = (if i = k then sharers s k - {p} else sharers s i)" for i
    using assms(2) by (auto simp: sharers_def assms(4) split: if_splits)
  have us: "i \<noteq> k \<Longrightarrow> usage_of s' i = usage_of s i" for i by (simp add: usage_of_def assms(5))
  have fin: "finite (sharers s i)" "int (card (sharers s i)) \<le> usage_of s i" for i
    using assms(1) by (simp_all add: shm_inv_def)
  have p: "p \<in> sharers s k" using assms(2,3) by (auto simp: sharers_def)
  have "0 < card (sharers s k)" using p fin(1) by (auto simp: card_gt_0_iff)
  then have "int (card (sharers s k - {p})) \<le> usage_of s' k"
    using fin(2) [of k] assms(6) p fin(1) by (simp add: card_Diff_singleton)
  then show ?thesis using fin us by (simp add: shm_inv_def sh)
qed



section \<open>The system calls\<close>

lemma create_page_usage:
  assumes "create_shared_page k s = (r, s')" "shared_memory s k = None" "shm_inv s"
  shows "shm_inv s'"
proof -
  have "sharers s' = sharers s \<and> (shared_memory s' = shared_memory s \<or>
      (\<exists>info. shared_memory s' = (shared_memory s)(k \<mapsto> info) \<and> page_usage info = 0))"
    using assms(1)
    by (auto simp: create_shared_page_def Let_def increment_shared_page_counter_def malloc_def alloc_ok_def
        sharers_def sharing_def fun_eq_iff split: prod.splits option.splits if_splits list.splits)
  then have "sharers s' = sharers s \<and> usage_of s' = usage_of s"
    using assms(2) by (auto simp: usage_of_def fun_eq_iff)
  then show ?thesis using assms(3) by (simp add: shm_inv_def)
qed

lemma wrapper_inv:
  "create_hash_table_and_shared_pages_wrapper p s = Some (r, s') \<Longrightarrow> shm_inv s \<Longrightarrow> shm_inv s'"
  using wrapper_sharers same_sharers_inv by blast

lemma link_inv: "link_shared_page_to_process p k s = Some (r, s') \<Longrightarrow> shm_inv s \<Longrightarrow> shm_inv s'"
  using postD [OF link_sharers, of p k s "(r, s')"] joined_inv same_view_inv
  by (auto split: if_splits)

lemma malloc_shm_inv: "malloc s = (r, s') \<Longrightarrow> shm_inv s \<Longrightarrow> shm_inv s'"
  using view_malloc same_view_inv by blast

lemma shm_create_inv: "shm_inv s \<Longrightarrow> post (\<lambda>(r, s'). shm_inv s') (shm_create ko s)"
  unfolding shm_create_def
  by (auto intro!: post_bind_value split: option.split prod.split simp: get_shared_page_def)
    (meson malloc_shm_inv wrapper_inv link_inv create_page_usage)+

lemma shm_acquire_inv: "shm_inv s \<Longrightarrow> post (\<lambda>(r, s'). shm_inv s') (shm_acquire ko s)"
  unfolding shm_acquire_def
  by (auto intro!: post_bind_value split: option.split) (meson wrapper_inv link_inv)+

lemma left_step:
  assumes "same_view s s1" "sharing s p = Some tbl"
    "upd_proc p (proc_shared_hash_table_update (\<lambda>_. Some (tbl(k := None)))) s1 = Some s2"
    "alloc_ok s2 = (ok, s3)"
  shows "sharing s3 = (sharing s)(p \<mapsto> tbl(k := None)) \<and> shared_memory s3 = shared_memory s"
proof -
  obtain x where "procs s1 p = Some x" using assms(3) by (auto simp: upd_proc_def split: option.splits)
  then have "sharing s2 = (sharing s1)(p \<mapsto> tbl(k := None))" "shared_memory s2 = shared_memory s1"
    using assms(3) by (auto simp: upd_proc_def sharing_def fun_eq_iff)
  then show ?thesis using assms(1) view_alloc_ok [OF assms(4)] by (simp add: same_view_def)
qed

lemma left_outcomes:
  assumes "shm_inv s" "sharing s p = Some tbl" "tbl k \<noteq> None" "shared_memory s k = Some info"
    and s': "sharing s' = (sharing s)(p \<mapsto> tbl(k := None)) \<and> shared_memory s' = shared_memory s"
  shows "shm_inv s'"
    "page_usage info = 1 \<Longrightarrow> shm_inv (s'\<lparr>mm := m, shared_memory := (shared_memory s')(k := None)\<rparr>)"
    "shm_inv (s'\<lparr>shared_memory := (shared_memory s')(k \<mapsto> info\<lparr>page_usage := page_usage info - 1\<rparr>)\<rparr>)"
proof -
  have sh: "sharing (s\<lparr>shared_memory := sm\<rparr>) = sharing s" "sharing (s\<lparr>mm := m\<rparr>) = sharing s" for s sm m
    by (simp_all add: sharing_def fun_eq_iff)
  note leave = leave_inv [OF assms(1,2), of k]
  show "shm_inv s'" by (rule leave) (use assms in \<open>auto simp: usage_of_def\<close>)
  show "shm_inv (s'\<lparr>mm := m, shared_memory := (shared_memory s')(k := None)\<rparr>)" if "page_usage info = 1"
    by (rule leave) (use assms that in \<open>auto simp: usage_of_def sh\<close>)
  show "shm_inv (s'\<lparr>shared_memory := (shared_memory s')(k \<mapsto> info\<lparr>page_usage := page_usage info - 1\<rparr>)\<rparr>)"
    by (rule leave) (use assms in \<open>auto simp: usage_of_def sh\<close>)
qed

text \<open>From the hole in the page table to the removal from the table of the process.\<close>

lemma release_rest:
  assumes "shm_inv s" "same_view s s1" "sharing s p = Some tbl" "tbl k \<noteq> None" "shared_memory s k = Some info"
    and f: "\<And>x. proc_shared_hash_table (f x) = proc_shared_hash_table x"
  shows "post shm_inv (do {
    s2 \<leftarrow> upd_proc p f s1;
    s3 \<leftarrow> upd_pte_k t i g s2;
    s4 \<leftarrow> upd_pte_k t i h s3;
    s5 \<leftarrow> upd_proc p (proc_shared_hash_table_update (\<lambda>_. Some (tbl(k := None)))) s4;
    case alloc_ok s5 of (ok, s6) \<Rightarrow>
      if \<not> ok then Some s6
      else if page_usage info - 1 = 0 then
        Some ((snd (alloc_ok (s6\<lparr>mm := release_frame (page_address info) (mm s6),
          shared_memory := (shared_memory s6)(k := None)\<rparr>))))
      else Some (s6\<lparr>shared_memory := (shared_memory s6)(k \<mapsto> info\<lparr>page_usage := page_usage info - 1\<rparr>)\<rparr>) })"
proof (intro post_bind_value, goal_cases)
  case (1 s2 s3 s4 s5)
  have v: "same_view s s4"
    using view_upd_proc [OF 1(1) f] view_upd_pte [OF 1(2)] view_upd_pte [OF 1(3)] assms(2)
    by (simp add: same_view_def)
  obtain ok s6 where s6: "alloc_ok s5 = (ok, s6)" by fastforce
  note out = left_outcomes [OF assms(1,3,4,5) left_step [OF v assms(3) 1(4) s6]]
  have "shm_inv (snd (alloc_ok s))" if "shm_inv s" for s
    using that same_view_inv [OF view_alloc_ok [of s "fst (alloc_ok s)" "snd (alloc_ok s)"]] by simp
  then show ?case using out s6 by simp
qed

lemma shm_release_inv:
  assumes "shm_inv s"
  shows "post shm_inv (shm_release ko s)"
proof -
  let ?s = "s\<lparr>custom_release_process := 0\<rparr>"
  have inv: "shm_inv ?s" using assms same_view_inv [of s ?s] by simp
  show ?thesis
    unfolding shm_release_def get_shared_page_def get_shared_page_proc_def Let_def set_custom_release_process_def
    by (auto intro!: keeps_values post_bind_value [where 'a = shared_pages_proc] simp: assms inv
        split: option.split prod.split)
      (erule release_rest [OF assms view_malloc] release_rest [OF inv view_malloc]; simp add: sharing_def)+
qed

lemma release_all_inv: "shm_inv s \<Longrightarrow> post shm_inv (release_all p ks s)"
proof (induction ks arbitrary: s)
  case (Cons k ks)
  have custom: "shm_inv s' \<Longrightarrow> shm_inv (set_custom_release_process q s')" for q s'
    using same_view_inv [of s' "s'\<lparr>custom_release_process := q\<rparr>"] by (simp add: set_custom_release_process_def)
  show ?case using Cons custom by (auto intro!: post_bind [OF shm_release_inv])
qed simp

lemma gone_inv: "shm_inv s \<Longrightarrow> shm_inv (s\<lparr>procs := (procs s)(p := None)\<rparr>)"
proof -
  assume inv: "shm_inv s"
  let ?s = "s\<lparr>procs := (procs s)(p := None)\<rparr>"
  have sub: "sharers ?s k \<subseteq> sharers s k" for k by (auto simp: sharers_def sharing_def split: if_splits)
  have fin: "finite (sharers s k)" "int (card (sharers s k)) \<le> usage_of s k" for k
    using inv by (simp_all add: shm_inv_def)
  have "finite (sharers ?s k)" "card (sharers ?s k) \<le> card (sharers s k)" for k
    using finite_subset [OF sub fin(1)] card_mono [OF fin(1) sub] by blast+
  then have "finite (sharers ?s k) \<and> int (card (sharers ?s k)) \<le> usage_of s k" for k
    using fin(2) [of k] by (meson of_nat_mono order_trans)
  then show ?thesis by (simp add: shm_inv_def usage_of_def)
qed

lemma free_process_memory_shm_inv:
  assumes "shm_inv s" "free_process_memory p s = Some (r, s')"
  shows "shm_inv s'"
proof -
  let ?s = "s\<lparr>nb_proc_running := nb_proc_running s - 1\<rparr>"
  have inv: "shm_inv ?s" using assms(1) same_view_inv [of s ?s] by simp
  obtain x s1 x1 m where "procs s p = Some x" and s1: "free_shared_pages p x ?s = Some s1"
    and "procs s1 p = Some x1" and rest: "(case alloc_ok (s1\<lparr>mm := m, pid_table := (pid_table s1)(pid x1 := None)\<rparr>) of
         (ok, s2) \<Rightarrow>
           if \<not> ok then Some (- 1, s2)
           else
             (let s3 = snd (save_pid (pid x1) s2) in
              Some (0, s3\<lparr>procs := (procs s3)(p := None)\<rparr>))) = Some (r, s')"
    using assms(2) unfolding free_process_memory_def by (auto simp: bind_eq_Some_conv)
  obtain ok s2 where s2: "alloc_ok (s1\<lparr>mm := m, pid_table := (pid_table s1)(pid x1 := None)\<rparr>) = (ok, s2)"
    by fastforce
  let ?t = "snd (save_pid (pid x1) s2)"
  have s': "s' = s2 \<or> s' = ?t\<lparr>procs := (procs ?t)(p := None)\<rparr>"
    using rest s2 by (auto simp: Let_def split: if_splits)
  have "shm_inv s1"
    using s1 inv
    by (auto simp: free_shared_pages_def bind_eq_Some_conv split: if_splits dest: postD [OF release_all_inv])
  moreover have "same_view s1 s2" using view_alloc_ok [OF s2] by (simp add: same_view_def sharing_def fun_eq_iff)
  ultimately have inv2: "shm_inv s2" using same_view_inv by blast
  obtain mo s3 where "malloc s2 = (mo, s3)" by fastforce
  then have "same_view s2 (snd (save_pid (pid x1) s2))"
    using view_malloc [of s2 mo s3] by (simp add: save_pid_def split: option.split)
  then have "shm_inv (snd (save_pid (pid x1) s2))" using inv2 same_view_inv by blast
  then show ?thesis using s' inv2 gone_inv by blast
qed

text \<open>The calls that processes make, in any order and on behalf of any process.\<close>

inductive shm_step :: "kernel \<Rightarrow> kernel \<Rightarrow> bool" where
  "shm_create ko s = Some (r, s') \<Longrightarrow> shm_step s s'"
| "shm_acquire ko s = Some (r, s') \<Longrightarrow> shm_step s s'"
| "shm_release ko s = Some s' \<Longrightarrow> shm_step s s'"
| "free_process_memory p s = Some (status, s') \<Longrightarrow> shm_step s s'"
| "shm_step s (s\<lparr>current_pid := i\<rparr>)"

lemma shm_step_inv: "shm_step s s' \<Longrightarrow> shm_inv s \<Longrightarrow> shm_inv s'"
proof (induction rule: shm_step.induct)
  case (5 s i)
  then show ?case using same_view_inv [of s "s\<lparr>current_pid := i\<rparr>"] by simp
qed (auto dest: postD [OF shm_create_inv] postD [OF shm_acquire_inv] postD [OF shm_release_inv]
    free_process_memory_shm_inv)

lemma shm_run_inv: "shm_step\<^sup>*\<^sup>* s s' \<Longrightarrow> shm_inv s \<Longrightarrow> shm_inv s'"
  by (induction rule: rtranclp_induct) (auto intro: shm_step_inv)


definition demo_key :: cstring where "demo_key = Abs_cstring [112]"

definition demo_sharing :: kernel where
  "demo_sharing =
     (let node = \<lparr>node_table = 0x2000, usage = 0, stack_usage = 0, heap_usage = 0, shared_memory_usage = 1,
                  index = 256\<rparr>
      in demo_kernel\<lparr>procs := [7 \<mapsto> (demo_process 1 10 ACTIF None)
             \<lparr>page_tables_lvl_1_list := Some \<lparr>lvl1 = node\<lparr>index := 1\<rparr>, lvl0_nodes = [node]\<rparr>\<rparr>],
           pid_table := [1 \<mapsto> 7], current_pid := 1, mm := demo_memory\<lparr>mem_ptr := 0x1000\<rparr>\<rparr>)"

lemma demo_shm_create:
  "\<exists>a s'. shm_create (Some demo_key) demo_sharing = Some (a, s') \<and> 7 \<in> sharers s' demo_key"
proof -
  have "chars demo_key = [112]" by (simp add: demo_key_def chars_def Abs_cstring_inverse)
  moreover from this have "strcpy (replicate 9 0) (c_str demo_key) = Some ([112] @ 0 # replicate 7 0)"
    using strcpy_terminated [of "[112]" "replicate 9 0"] by (simp add: c_str_def)
  ultimately show ?thesis
    by (simp add: shm_create_def demo_sharing_def demo_kernel_def demo_process_def malloc_def alloc_ok_def
        key_buffer_def get_shared_page_def create_shared_page_def get_frame_def demo_memory_def
        increment_shared_page_counter_def get_current_process_def getpid_def
        create_hash_table_and_shared_pages_wrapper_def upd_proc_def link_shared_page_to_process_def
        add_frame_to_process_def has_room_def PT_SIZE_def place_shared_def put_lvl1_def bump_usage_def
        upd_pte_k_def upd_pte_def configure_KILO mapped_address_def sharers_def sharing_def Let_def)
qed



end
