(* ===== verification/Stdio.thy ===== *)
theory Stdio
  imports Console
begin

text \<open>
  Formatted output and number parsing: \<open>vsnprintf\<close> and its callers (\<open>src/lib/stdio\<close>) and
  \<open>strtol\<close> (\<open>src/lib/stdlib/strtol.c\<close>).  The output buffer is the list of the bytes of the object
  \<open>out\<close> points to, \<open>None\<close> for \<open>NULL\<close>; a write behind its end has no result.  A \<open>va_list\<close> is the
  list of the 64-bit argument slots that are left, and reading past it has no result either; \<open>rd\<close>
  gives the bytes at the address a \<open>%s\<close> argument holds.  Signed arithmetic that overflows wraps
  around.  Positions are natural numbers: they are bounded by the lengths of strings in memory.

  The theory shows that the buffer receives the text the format denotes, cut at its size, that no
  byte behind the size is touched, and that \<open>strtol\<close> reads back what \<open>%ld\<close> prints.
\<close>

section \<open>Arguments and buffer\<close>

definition int64 :: "int \<Rightarrow> int" where
  "int64 x = signed_take_bit 63 x"

fun va_arg :: "u64 list \<Rightarrow> (u64 \<times> u64 list) option" where
  "va_arg [] = None"
| "va_arg (a # vl) = Some (a, vl)"

definition long_or_int :: "bool \<Rightarrow> u64 \<Rightarrow> int" where
  "long_or_int longarg a = (if longarg then sint a else int32 (sint a))"

definition ulong_or_uint :: "bool \<Rightarrow> u64 \<Rightarrow> int" where
  "ulong_or_uint longarg a = (if longarg then uint a else uint a mod 2 ^ 32)"

text \<open>\<open>if (out && i < n) out[i] = c;\<close>\<close>

definition put_at :: "nat \<Rightarrow> nat \<Rightarrow> 8 word \<Rightarrow> bytes option \<Rightarrow> bytes option option" where
  "put_at n i c out =
     (case out of
        None \<Rightarrow> Some None
      | Some b \<Rightarrow>
          if i < n then (if i < length b then Some (Some (b[i := c])) else None) else Some out)"

section \<open>Conversions\<close>

text \<open>The loop of \<open>%x\<close>, for \<open>i\<close> from \<open>k - 1\<close> down to \<open>0\<close>.\<close>

definition hex_digit :: "int \<Rightarrow> 8 word" where
  "hex_digit d = word_of_int (if d < 10 then 48 + d else 97 + d - 10)"

fun hex_loop :: "nat \<Rightarrow> int \<Rightarrow> nat \<Rightarrow> nat \<Rightarrow> bytes option \<Rightarrow> bytes option option" where
  "hex_loop n num pos 0 out = Some out"
| "hex_loop n num pos (Suc i) out =
     do {
       out' \<leftarrow> put_at n pos (hex_digit (drop_bit (4 * i) num AND 0xF)) out;
       hex_loop n num (pos + 1) i out'
     }"

text \<open>\<open>for (long nn = num; nn /= 10; digits++);\<close> with C's truncating division.\<close>

function count_digits :: "int \<Rightarrow> nat" where
  "count_digits nn = (let q = c_quot nn 10 in if q = 0 then 1 else Suc (count_digits q))"
  by auto
termination by (relation "measure (\<lambda>nn. nat \<bar>nn\<bar>)") (auto intro: c_quot_abs_less)

declare count_digits.simps [simp del]

text \<open>\<open>for (int i = digits - 1; i >= 0; i--)\<close>: the digits are written from the last one.\<close>

fun digits_loop :: "nat \<Rightarrow> nat \<Rightarrow> nat \<Rightarrow> int \<Rightarrow> bytes option \<Rightarrow> bytes option option" where
  "digits_loop n pos 0 num out = Some out"
| "digits_loop n pos (Suc i) num out =
     do {
       out' \<leftarrow> put_at n (pos + i) (word_of_int (48 + c_rem num 10)) out;
       digits_loop n pos i (c_quot num 10) out'
     }"

text \<open>The loop of \<open>%s\<close>; it returns the new position.\<close>

fun str_loop :: "nat \<Rightarrow> bytes \<Rightarrow> nat \<Rightarrow> bytes option \<Rightarrow> (nat \<times> bytes option) option" where
  "str_loop n [] pos out = None"
| "str_loop n (c # s2) pos out =
     (if c = 0 then Some (pos, out)
      else do { out' \<leftarrow> put_at n pos c out; str_loop n s2 (pos + 1) out' })"

section \<open>vsnprintf\<close>

record printf_state =
  format :: bool
  longarg :: bool
  pos :: nat
  vl :: "u64 list"
  out :: "bytes option"

text \<open>\<open>longarg = 0; format = 0;\<close> at the end of a conversion.\<close>

definition converted :: "nat \<Rightarrow> u64 list \<Rightarrow> bytes option \<Rightarrow> printf_state" where
  "converted i as b = \<lparr>format = False, longarg = False, pos = i, vl = as, out = b\<rparr>"

definition conv_x :: "nat \<Rightarrow> printf_state \<Rightarrow> printf_state option" where
  "conv_x n st =
     do {
       (a, as) \<leftarrow> va_arg (vl st);
       let hexdigits = (if longarg st then 16 else 8);
       b \<leftarrow> hex_loop n (long_or_int (longarg st) a) (pos st) hexdigits (out st);
       Some (converted (pos st + hexdigits) as b)
     }"

definition conv_u :: "nat \<Rightarrow> printf_state \<Rightarrow> printf_state option" where
  "conv_u n st =
     do {
       (a, as) \<leftarrow> va_arg (vl st);
       let num = ulong_or_uint (longarg st) a;
       let digits = count_digits (int64 num);
       b \<leftarrow> digits_loop n (pos st) digits num (out st);
       Some (converted (pos st + digits) as b)
     }"

definition conv_d :: "nat \<Rightarrow> printf_state \<Rightarrow> printf_state option" where
  "conv_d n st =
     do {
       (a, as) \<leftarrow> va_arg (vl st);
       let num = long_or_int (longarg st) a;
       (num', i, b) \<leftarrow>
         (if num < 0 then do { b \<leftarrow> put_at n (pos st) 45 (out st); Some (int64 (- num), pos st + 1, b) }
          else Some (num, pos st, out st));
       let digits = count_digits num';
       b' \<leftarrow> digits_loop n i digits num' b;
       Some (converted (i + digits) as b')
     }"

definition conv_s :: "(u64 \<Rightarrow> bytes) \<Rightarrow> nat \<Rightarrow> printf_state \<Rightarrow> printf_state option" where
  "conv_s rd n st =
     do {
       (a, as) \<leftarrow> va_arg (vl st);
       (i, b) \<leftarrow> str_loop n (rd a) (pos st) (out st);
       Some (converted i as b)
     }"

text \<open>The argument of \<open>%c\<close> is taken only when the character is stored.\<close>

definition conv_c :: "nat \<Rightarrow> printf_state \<Rightarrow> printf_state option" where
  "conv_c n st =
     (if out st \<noteq> None \<and> pos st < n then do {
        (a, as) \<leftarrow> va_arg (vl st);
        b \<leftarrow> put_at n (pos st) (ucast a) (out st);
        Some (converted (pos st + 1) as b) }
      else Some (converted (pos st + 1) (vl st) (out st)))"

text \<open>
  One turn of the loop, at the character \<open>c\<close>: \<open>l\<close>, \<open>p\<close> (which falls through to \<open>x\<close>), \<open>x\<close>, \<open>u\<close>,
  \<open>d\<close>, \<open>s\<close> and \<open>c\<close> inside a format, \<open>%\<close> and the other characters outside.
\<close>

definition vsn_step ::
    "(u64 \<Rightarrow> bytes) \<Rightarrow> nat \<Rightarrow> 8 word \<Rightarrow> printf_state \<Rightarrow> printf_state option" where
  "vsn_step rd n c st =
     (if format st then
        if c = 108 then Some (st\<lparr>longarg := True\<rparr>)
        else if c = 112 then do {
          b \<leftarrow> put_at n (pos st) 48 (out st);
          b' \<leftarrow> put_at n (pos st + 1) 120 b;
          conv_x n (st\<lparr>longarg := True, pos := pos st + 2, out := b'\<rparr>) }
        else if c = 120 then conv_x n st
        else if c = 117 then conv_u n st
        else if c = 100 then conv_d n st
        else if c = 115 then conv_s rd n st
        else if c = 99 then conv_c n st
        else Some st
      else if c = 37 then Some (st\<lparr>format := True\<rparr>)
      else do {
        b \<leftarrow> put_at n (pos st) c (out st);
        Some (st\<lparr>pos := pos st + 1, out := b\<rparr>) })"

fun vsn_loop ::
    "(u64 \<Rightarrow> bytes) \<Rightarrow> nat \<Rightarrow> bytes \<Rightarrow> printf_state \<Rightarrow> printf_state option" where
  "vsn_loop rd n [] st = None"
| "vsn_loop rd n (c # s) st =
     (if c = 0 then Some st else do { st' \<leftarrow> vsn_step rd n c st; vsn_loop rd n s st' })"

text \<open>The result is the value of type \<open>int\<close> and the buffer.\<close>

definition vsnprintf ::
    "(u64 \<Rightarrow> bytes) \<Rightarrow> bytes option \<Rightarrow> nat \<Rightarrow> bytes \<Rightarrow> u64 list \<Rightarrow> (int \<times> bytes option) option" where
  "vsnprintf rd buf n s as =
     do {
       st \<leftarrow> vsn_loop rd n s \<lparr>format = False, longarg = False, pos = 0, vl = as, out = buf\<rparr>;
       b \<leftarrow> (if pos st < n then put_at n (pos st) 0 (out st)
             else if n \<noteq> 0 then put_at n (n - 1) 0 (out st)
             else Some (out st));
       Some (int32 (int (pos st)), b)
     }"

section \<open>Its callers\<close>

definition SPRINTF_UNLIMITED :: nat where
  "SPRINTF_UNLIMITED = 0xFFFFFFF"

definition vsprintf ::
    "(u64 \<Rightarrow> bytes) \<Rightarrow> bytes \<Rightarrow> bytes \<Rightarrow> u64 list \<Rightarrow> (int \<times> bytes option) option" where
  "vsprintf rd s fmt as = vsnprintf rd (Some s) SPRINTF_UNLIMITED fmt as"

definition sprintf ::
    "(u64 \<Rightarrow> bytes) \<Rightarrow> bytes \<Rightarrow> bytes \<Rightarrow> u64 list \<Rightarrow> (int \<times> bytes option) option" where
  "sprintf rd s fmt as = vsprintf rd s fmt as"

definition snprintf ::
    "(u64 \<Rightarrow> bytes) \<Rightarrow> bytes \<Rightarrow> nat \<Rightarrow> bytes \<Rightarrow> u64 list \<Rightarrow> (int \<times> bytes option) option" where
  "snprintf rd s n fmt as = vsnprintf rd (Some s) n fmt as"

text \<open>
  \<open>vprintf\<close> formats twice, first to find the length; the contents of the block \<open>alloca\<close> gives are
  the argument \<open>stack\<close>.
\<close>

definition vprintf ::
    "(u64 \<Rightarrow> bytes) \<Rightarrow> (nat \<Rightarrow> bytes) \<Rightarrow> bytes \<Rightarrow> u64 list \<Rightarrow> kernel \<Rightarrow> (int \<times> kernel) option" where
  "vprintf rd stack fmt as s =
     do {
       (res, b0) \<leftarrow> vsnprintf rd None (2 ^ 64 - 1) fmt as;
       (r, b) \<leftarrow> vsnprintf rd (Some (stack (nat (res + 1)))) (nat (res + 1)) fmt as;
       b' \<leftarrow> b;
       (case cons_write (take (nat res) b') s of (w, s') \<Rightarrow> Some (res, s'))
     }"

definition printf ::
    "(u64 \<Rightarrow> bytes) \<Rightarrow> (nat \<Rightarrow> bytes) \<Rightarrow> bytes \<Rightarrow> u64 list \<Rightarrow> kernel \<Rightarrow> (int \<times> kernel) option" where
  "printf rd stack fmt as s = vprintf rd stack fmt as s"

definition puts :: "(nat \<Rightarrow> bytes) \<Rightarrow> bytes \<Rightarrow> kernel \<Rightarrow> (int \<times> kernel) option" where
  "puts stack str s =
     do {
       l \<leftarrow> strlen str;
       b \<leftarrow> strncpy (stack (l + 1)) str l;
       if l < length b then
         (case cons_write (take (l + 1) (b[l := 10])) s of (w, s') \<Rightarrow> Some (0, s'))
       else None
     }"

definition stdio_putchar :: "int \<Rightarrow> kernel \<Rightarrow> int \<times> kernel" where
  "stdio_putchar ch s =
     (case cons_write [word_of_int ch] s of (w, s') \<Rightarrow> (if w = 1 then ch else - 1, s'))"

section \<open>strtol\<close>

definition isspace :: "8 word \<Rightarrow> bool" where
  "isspace c \<longleftrightarrow> c = 32 \<or> c = 12 \<or> c = 10 \<or> c = 13 \<or> c = 9 \<or> c = 11"

fun skip_space :: "bytes \<Rightarrow> bytes option" where
  "skip_space [] = None"
| "skip_space (c # p) = (if isspace c then skip_space p else Some (c # p))"

text \<open>The value of a character in a base, or the end of the number.\<close>

definition digit_value :: "int \<Rightarrow> 8 word \<Rightarrow> int option" where
  "digit_value base c =
     (if 48 \<le> c \<and> c \<le> 57 \<and> uint c - 48 < base then Some (uint c - 48)
      else if 97 \<le> c \<and> c \<le> 122 \<and> uint c - 97 + 10 < base then Some (uint c - 97 + 10)
      else if 65 \<le> c \<and> c \<le> 90 \<and> uint c - 65 + 10 < base then Some (uint c - 65 + 10)
      else None)"

fun strtol_loop :: "int \<Rightarrow> int \<Rightarrow> bytes \<Rightarrow> (int \<times> bytes) option" where
  "strtol_loop base v [] = None"
| "strtol_loop base v (c # p) =
     (case digit_value base c of
        Some d \<Rightarrow> strtol_loop base (int64 (int64 (v * base) + d)) p
      | None \<Rightarrow> Some (v, c # p))"

text \<open>The prefix \<open>0x\<close> and the base \<open>0\<close>.\<close>

definition strtol_base :: "int \<Rightarrow> bytes \<Rightarrow> (int \<times> bytes) option" where
  "strtol_base base p =
     do {
       (b, p1) \<leftarrow>
         (if (base = 16 \<or> base = 0) \<and> hd p = 48 then
            (if length p < 2 then None
             else if p ! 1 = 120 \<or> p ! 1 = 88 then Some (16, drop 2 p)
             else Some (base, p))
          else Some (base, p));
       if b = 0 then (case p1 of [] \<Rightarrow> None | c # p2 \<Rightarrow> Some (if c = 48 then 8 else 10, p1))
       else Some (b, p1)
     }"

text \<open>The result is the number and the text behind it, which goes to \<open>out_p\<close>.\<close>

definition strtol :: "bytes \<Rightarrow> int \<Rightarrow> (int \<times> bytes) option" where
  "strtol p base =
     do {
       p1 \<leftarrow> skip_space p;
       let is_neg = (hd p1 = 45);
       let p2 = (if is_neg then tl p1 else p1);
       if p2 = [] then None
       else do {
         (b, p3) \<leftarrow> strtol_base base p2;
         (v, p4) \<leftarrow> strtol_loop b 0 p3;
         Some (if is_neg then int64 (- v) else v, p4)
       }
     }"

section \<open>The text a format denotes\<close>

text \<open>Decimal and hexadecimal notation.\<close>

fun dec :: "nat \<Rightarrow> bytes" where
  "dec m = (if m < 10 then [48 + of_nat m] else dec (m div 10) @ [48 + of_nat (m mod 10)])"

declare dec.simps [simp del]

definition hex :: "nat \<Rightarrow> int \<Rightarrow> bytes" where
  "hex k num = map (\<lambda>i. hex_digit (num div 16 ^ i mod 16)) (rev [0..<k])"

definition dec_int :: "int \<Rightarrow> bytes" where
  "dec_int x = (if x < 0 then 45 # dec (nat (- x)) else dec (nat x))"

text \<open>
  The text of one conversion.  There is none for an unsigned number of 64 bits with the top bit
  set, for the smallest number of type \<open>long\<close> and for a string without terminator.
\<close>

definition conv_text :: "(u64 \<Rightarrow> bytes) \<Rightarrow> bool \<Rightarrow> 8 word \<Rightarrow> u64 \<Rightarrow> bytes option" where
  "conv_text rd l c a =
     (if c = 112 then Some ([48, 120] @ hex 16 (uint a))
      else if c = 120 then Some (hex (if l then 16 else 8) (uint a))
      else if c = 117 then
        (if ulong_or_uint l a < 2 ^ 63 then Some (dec (nat (ulong_or_uint l a))) else None)
      else if c = 100 then
        (if long_or_int l a = - (2 ^ 63) then None else Some (dec_int (long_or_int l a)))
      else if c = 115 then
        (if 0 \<in> set (rd a) then Some (takeWhile (\<lambda>x. x \<noteq> 0) (rd a)) else None)
      else Some [ucast a])"

fun text_of :: "(u64 \<Rightarrow> bytes) \<Rightarrow> bool \<Rightarrow> bool \<Rightarrow> bytes \<Rightarrow> u64 list \<Rightarrow> bytes option" where
  "text_of rd f l [] as = None"
| "text_of rd f l (c # s) as =
     (if c = 0 then Some []
      else if f then
        if c \<in> {112, 120, 117, 100, 115, 99} then
          (case as of
             [] \<Rightarrow> None
           | a # as' \<Rightarrow> do {
               t \<leftarrow> conv_text rd l c a;
               t' \<leftarrow> text_of rd False False s as';
               Some (t @ t') })
        else text_of rd True (l \<or> c = 108) s as
      else if c = 37 then text_of rd True l s as
      else map_option (Cons c) (text_of rd False l s as))"

section \<open>Writing a text into the buffer\<close>

definition overlay :: "nat \<Rightarrow> nat \<Rightarrow> bytes \<Rightarrow> bytes \<Rightarrow> bytes" where
  "overlay n p t b =
     map (\<lambda>i. if p \<le> i \<and> i < p + length t \<and> i < n then t ! (i - p) else b ! i) [0..<length b]"

lemma overlay_length [simp]: "length (overlay n p t b) = length b"
  by (simp add: overlay_def)

lemma overlay_nth:
  "i < length b \<Longrightarrow>
   overlay n p t b ! i = (if p \<le> i \<and> i < p + length t \<and> i < n then t ! (i - p) else b ! i)"
  by (simp add: overlay_def)

lemma overlay_Nil [simp]: "overlay n p [] b = b"
  by (rule nth_equalityI) (auto simp: overlay_nth)

lemma overlay_forward:
  "q = p + length s \<Longrightarrow> overlay n q t (overlay n p s b) = overlay n p (s @ t) b"
  by (rule nth_equalityI) (auto simp: overlay_nth nth_append)

lemma overlay_backward:
  "q = p + length s \<Longrightarrow> overlay n p s (overlay n q t b) = overlay n p (s @ t) b"
  by (rule nth_equalityI) (auto simp: overlay_nth nth_append)

text \<open>The size given to \<open>vsnprintf\<close> does not exceed the buffer.\<close>

definition fits :: "nat \<Rightarrow> bytes option \<Rightarrow> bool" where
  "fits n ob = (case ob of None \<Rightarrow> True | Some b \<Rightarrow> n \<le> length b)"

abbreviation with_text :: "nat \<Rightarrow> nat \<Rightarrow> bytes \<Rightarrow> bytes option \<Rightarrow> bytes option" where
  "with_text n p t ob \<equiv> map_option (overlay n p t) ob"

lemma fits_with_text [simp]: "fits n (with_text n' p t ob) \<longleftrightarrow> fits n ob"
  by (cases ob) (auto simp: fits_def)

lemma with_text_forward [simp]:
  "with_text n (p + length s) t (with_text n p s ob) = with_text n p (s @ t) ob"
  by (cases ob) (simp_all add: overlay_forward)

lemma with_text_Cons [simp]:
  "with_text n (Suc p) t (with_text n p [c] ob) = with_text n p (c # t) ob"
  by (cases ob) (simp_all add: overlay_forward)

lemma with_text_Nil [simp]: "with_text n p [] ob = ob"
  by (cases ob) simp_all

lemma put_at_text: "fits n ob \<Longrightarrow> put_at n i c ob = Some (with_text n i [c] ob)"
  by (cases ob)
    (auto simp: fits_def put_at_def overlay_nth nth_list_update intro!: nth_equalityI)

lemma hex_loop_text:
  "fits n ob \<Longrightarrow>
   hex_loop n num p k ob =
     Some (with_text n p (map (\<lambda>i. hex_digit (drop_bit (4 * i) num AND 15)) (rev [0..<k])) ob)"
  by (induction k arbitrary: p ob) (simp_all add: put_at_text)

text \<open>The last \<open>k\<close> decimal digits.\<close>

fun dec_digits :: "nat \<Rightarrow> nat \<Rightarrow> bytes" where
  "dec_digits 0 m = []"
| "dec_digits (Suc k) m = dec_digits k (m div 10) @ [48 + of_nat (m mod 10)]"

lemma dec_digits_length [simp]: "length (dec_digits k m) = k"
  by (induction k arbitrary: m) auto

lemma c_quot_nat: "c_quot (int m) 10 = int (m div 10)"
  by (simp add: c_quot_nonneg)

lemma c_rem_nat: "c_rem (int m) 10 = int (m mod 10)"
  by (simp add: c_rem_nonneg of_nat_mod)

lemma digits_loop_text:
  "fits n ob \<Longrightarrow> 
   digits_loop n p k (int m) ob = Some (with_text n p (dec_digits k m) ob)"
proof (induction k arbitrary: m ob)
  case (Suc k)
  have "with_text n p (dec_digits k (m div 10)) (with_text n (p + k) [48 + of_nat (m mod 10)] ob)
      = with_text n p (dec_digits (Suc k) m) ob"
    by (cases ob) (simp_all add: overlay_backward)
  moreover have "(word_of_int (48 + c_rem (int m) 10) :: 8 word) = 48 + of_nat (m mod 10)"
    by (simp add: c_rem_nat)
  moreover note c_quot_nat [of m]
  ultimately show ?case
    using Suc.prems Suc.IH [of "with_text n (p + k) [48 + of_nat (m mod 10)] ob" "m div 10"]
    by (simp only: digits_loop.simps put_at_text bind.simps fits_with_text)
qed simp

lemma dec_count: "dec_digits (count_digits (int m)) m = dec m"
proof (induction m rule: dec.induct)
  case (1 m)
  show ?case
  proof (cases "m < 10")
    case True
    then show ?thesis by (simp add: dec.simps count_digits.simps [of "int m"] c_quot_nonneg)
  next
    case False
    then have "count_digits (int m) = Suc (count_digits (int (m div 10)))"
      using count_digits.simps [of "int m"] by (simp add: c_quot_nat Let_def div_eq_0_iff del: of_nat_div)
    with False 1 show ?thesis by (simp add: dec.simps [of m])
  qed
qed

lemma count_digits_length: "count_digits (int m) = length (dec m)"
  by (metis dec_count dec_digits_length)

lemma str_loop_text:
  "fits n ob \<Longrightarrow> 0 \<in> set s \<Longrightarrow>
   str_loop n s p ob =
     (let t = takeWhile (\<lambda>x. x \<noteq> 0) s in Some (p + length t, with_text n p t ob))"
  by (induction s arbitrary: p ob) (auto simp: put_at_text Let_def)

lemma hex_loop_hex:
  assumes "fits n ob"
  shows "hex_loop n (long_or_int l a) p (if l then 16 else 8) ob =
    Some (with_text n p (hex (if l then 16 else 8) (uint a)) ob)"
proof -
  have "drop_bit (4 * i) (long_or_int l a) AND 15 = uint a div 16 ^ i mod 16"
    if "i < (if l then 16 else 8)" for i
  proof -
    have "j < 4 \<Longrightarrow> min (if l then 63 else 31) (4 * i + j) = 4 * i + j" for j
      using that by (auto split: if_splits)
    then have "take_bit 4 (drop_bit (4 * i) (long_or_int l a)) = take_bit 4 (drop_bit (4 * i) (uint a))"
      by (intro bit_eqI) (auto simp: long_or_int_def int32_def bit_take_bit_iff bit_drop_bit_eq
          bit_signed_take_bit_iff sint_uint)
    moreover have "x AND 15 = take_bit 4 x" for x :: int
      by (simp add: take_bit_eq_mask mask_eq_exp_minus_1)
    ultimately show ?thesis by (simp add: take_bit_eq_mod drop_bit_eq_div power_mult)
  qed
  then show ?thesis
    using assms by (auto simp: hex_loop_text hex_def intro!: arg_cong [where f = "\<lambda>t. with_text n p t ob"])
qed

lemma int64_id: "- (2 ^ 63) \<le> x \<Longrightarrow> x < 2 ^ 63 \<Longrightarrow> int64 x = x"
  by (simp add: int64_def signed_take_bit_int_eq_self)

lemma long_or_int_bounds: "- (2 ^ 63) \<le> long_or_int l a \<and> long_or_int l a < 2 ^ 63"
  using sint_ge [of a] sint_lt [of a] signed_take_bit_int_greater_eq_minus_exp [of 31 "sint a"]
    signed_take_bit_int_less_exp [of 31 "sint a"]
  by (auto simp: long_or_int_def int32_def)

lemma ulong_or_uint_nonneg: "0 \<le> ulong_or_uint l a"
  by (simp add: ulong_or_uint_def)

lemma digits_loop_dec:
  assumes "fits n ob" "0 \<le> num"
  shows "digits_loop n p (count_digits num) num ob = Some (with_text n p (dec (nat num)) ob)"
    and "count_digits num = length (dec (nat num))"
  using digits_loop_text [OF assms(1), of p "count_digits num" "nat num"] dec_count [of "nat num"]
    count_digits_length [of "nat num"] assms(2) by simp_all

lemma conv_u_text:
  assumes "fits n (out st)" "vl st = a # as" "ulong_or_uint (longarg st) a < 2 ^ 63"
  shows "conv_u n st =
    (let t = dec (nat (ulong_or_uint (longarg st) a))
     in Some (converted (pos st + length t) as (with_text n (pos st) t (out st))))"
proof -
  have "int64 (ulong_or_uint (longarg st) a) = ulong_or_uint (longarg st) a"
    using assms(3) ulong_or_uint_nonneg [of "longarg st" a] by (intro int64_id) auto
  then show ?thesis
    using assms digits_loop_dec ulong_or_uint_nonneg by (simp add: conv_u_def Let_def)
qed

lemma conv_d_text:
  assumes "fits n (out st)" "vl st = a # as" "long_or_int (longarg st) a \<noteq> - (2 ^ 63)"
  shows "conv_d n st =
    (let t = dec_int (long_or_int (longarg st) a)
     in Some (converted (pos st + length t) as (with_text n (pos st) t (out st))))"
proof (cases "long_or_int (longarg st) a < 0")
  case True
  have "int64 (- long_or_int (longarg st) a) = - long_or_int (longarg st) a"
    using assms(3) True long_or_int_bounds [of "longarg st" a] by (intro int64_id) auto
  then show ?thesis
    using assms True digits_loop_dec
    by (simp add: conv_d_def dec_int_def Let_def put_at_text)
next
  case False
  then show ?thesis
    using assms digits_loop_dec by (simp add: conv_d_def dec_int_def Let_def)
qed

lemma conv_step:
  assumes "fits n (out st)" "format st" "vl st = a # as" "conv_text rd (longarg st) c a = Some t"
    "c \<in> {112, 120, 117, 100, 115, 99}"
    "c = 99 \<Longrightarrow> out st \<noteq> None \<and> pos st < n"
  shows "vsn_step rd n c st =
    Some (converted (pos st + length t) as (with_text n (pos st) t (out st)))"
proof -
  consider "c = 112" | "c = 120" | "c = 117" | "c = 100" | "c = 115" | "c = 99" using assms(5) by blast
  then show ?thesis
  proof cases
    case 1
    then show ?thesis
      using assms hex_loop_hex [of n "with_text n (pos st) [48, 120] (out st)" True a "pos st + 2"]
        with_text_forward [of n "pos st" "[48, 120]" "hex 16 (uint a)" "out st"]
      by (auto simp: vsn_step_def conv_text_def conv_x_def put_at_text hex_def add.commute [of 18])
  next
    case 2
    then show ?thesis
      using assms hex_loop_hex [of n "out st" "longarg st" a "pos st"]
      by (auto simp: vsn_step_def conv_text_def conv_x_def hex_def Let_def)
  next
    case 6
    then show ?thesis using assms by (auto simp: vsn_step_def conv_text_def conv_c_def put_at_text)
  next
    case 5
    then show ?thesis
      using assms by (auto simp: vsn_step_def conv_text_def conv_s_def str_loop_text Let_def split: if_splits)
  next
    case 3
    then show ?thesis
      using assms by (auto simp: vsn_step_def conv_text_def conv_u_text Let_def split: if_splits)
  next
    case 4
    then show ?thesis
      using assms by (auto simp: vsn_step_def conv_text_def conv_d_text Let_def split: if_splits)
  qed
qed

text \<open>Whether a format has a \<open>%c\<close> conversion; the flag tells whether a conversion has begun.\<close>

fun uses_c :: "bool \<Rightarrow> bytes \<Rightarrow> bool" where
  "uses_c f [] = False"
| "uses_c f (c # s) =
     (if c = 0 then False
      else if f then c = 99 \<or> uses_c (c \<notin> {112, 120, 117, 100, 115}) s
      else uses_c (c = 37) s)"

lemma vsn_loop_text:
  assumes "fits n (out st)" "text_of rd (format st) (longarg st) s (vl st) = Some t"
    "uses_c (format st) s \<Longrightarrow> out st \<noteq> None \<and> pos st + length t \<le> n"
  shows "\<exists>st'. vsn_loop rd n s st = Some st' \<and> pos st' = pos st + length t \<and>
    out st' = with_text n (pos st) t (out st)"
  using assms
proof (induction s arbitrary: st t)
  case (Cons c s)
  note prems = Cons.prems
  consider (stop) "c = 0" | (conv) "c \<noteq> 0" "format st" "c \<in> {112, 120, 117, 100, 115, 99}"
    | (flag) "c \<noteq> 0" "format st" "c \<notin> {112, 120, 117, 100, 115, 99}"
    | (percent) "\<not> format st" "c = 37" | (plain) "c \<noteq> 0" "\<not> format st" "c \<noteq> 37" by blast
  then show ?case
  proof cases
    case conv
    then obtain a as t1 t2 where t: "vl st = a # as" "conv_text rd (longarg st) c a = Some t1"
      "text_of rd False False s as = Some t2" "t = t1 @ t2"
      using prems(2) by (auto split: list.splits bind_splits)
    have u: "uses_c (format st) (c # s) \<longleftrightarrow> c = 99 \<or> uses_c False s" using conv by auto
    have "c = 99 \<Longrightarrow> length t1 = 1" using t(2) by (auto simp: conv_text_def)
    then have st': "vsn_step rd n c st = Some (converted (pos st + length t1) as
        (with_text n (pos st) t1 (out st)))" (is "_ = Some ?st")
      using prems(1,3) conv t(2,4) u by (intro conv_step [where a = a]) (auto simp: t(1))
    have "\<exists>st'. vsn_loop rd n s ?st = Some st' \<and> pos st' = pos ?st + length t2 \<and>
        out st' = with_text n (pos ?st) t2 (out ?st)"
      using prems(1,3) t(3,4) u by (intro Cons.IH) (auto simp: converted_def)
    then show ?thesis using conv(1) st' t(4) by (auto simp: converted_def)
  next
    case plain
    then obtain t1 where t: "text_of rd False (longarg st) s (vl st) = Some t1" "t = c # t1"
      using prems(2) by auto
    let ?st = "st\<lparr>pos := pos st + 1, out := with_text n (pos st) [c] (out st)\<rparr>"
    have "\<exists>st'. vsn_loop rd n s ?st = Some st' \<and> pos st' = pos ?st + length t1 \<and>
        out st' = with_text n (pos ?st) t1 (out ?st)"
      using prems(1,3) plain t by (intro Cons.IH) auto
    then show ?thesis using plain prems(1) t(2) by (auto simp: vsn_step_def put_at_text)
  next
    case percent
    then show ?thesis
      using prems Cons.IH [of "st\<lparr>format := True\<rparr>" t] by (auto simp: vsn_step_def)
  next
    case flag
    have "vsn_step rd n c st = Some (st\<lparr>longarg := longarg st \<or> c = 108\<rparr>)"
      using flag by (auto simp: vsn_step_def)
    then show ?thesis
      using prems flag Cons.IH [of "st\<lparr>longarg := longarg st \<or> c = 108\<rparr>" t]
      by auto
  next
    case stop
    then show ?thesis using prems by (auto simp: option.map_ident)
  qed
qed simp

lemma vsnprintf_null:
  assumes "text_of rd False False fmt as = Some t" "\<not> uses_c False fmt"
  shows "vsnprintf rd None n fmt as = Some (int32 (int (length t)), None)"
  using vsn_loop_text [of n "\<lparr>format = False, longarg = False, pos = 0, vl = as, out = None\<rparr>" rd fmt t] assms
  by (auto simp: vsnprintf_def fits_def put_at_def)

lemma overlay_end:
  "length t < n \<Longrightarrow> n \<le> length b \<Longrightarrow> (overlay n 0 t b)[length t := 0] = t @ 0 # drop (Suc (length t)) b"
  by (rule nth_equalityI) (auto simp: overlay_nth nth_append nth_list_update nth_Cons' min_def)

lemma overlay_cut:
  "n \<le> length t \<Longrightarrow> 0 < n \<Longrightarrow> n \<le> length b \<Longrightarrow>
   (overlay n 0 t b)[n - 1 := 0] = take (n - 1) t @ 0 # drop n b"
  by (rule nth_equalityI) (auto simp: overlay_nth nth_append nth_list_update nth_Cons' min_def)

lemma overlay_none [simp]: "overlay 0 p t b = b"
  by (rule nth_equalityI) (auto simp: overlay_nth)

definition printed :: "nat \<Rightarrow> bytes \<Rightarrow> bytes \<Rightarrow> bytes" where
  "printed n t buf =
     (if length t < n then t @ 0 # drop (length t + 1) buf
      else if n = 0 then buf
      else take (n - 1) t @ 0 # drop n buf)"

lemma vsnprintf_text:
  assumes "text_of rd False False fmt as = Some t" "n \<le> length buf"
    "uses_c False fmt \<Longrightarrow> length t \<le> n"
  shows "vsnprintf rd (Some buf) n fmt as = Some (int32 (int (length t)), Some (printed n t buf))"
proof -
  obtain st' where st': "vsn_loop rd n fmt \<lparr>format = False, longarg = False, pos = 0, vl = as, out = Some buf\<rparr>
      = Some st'" "pos st' = length t" "out st' = Some (overlay n 0 t buf)"
    using vsn_loop_text [of n "\<lparr>format = False, longarg = False, pos = 0, vl = as, out = Some buf\<rparr>" rd fmt t]
      assms by (auto simp: fits_def)
  then show ?thesis
    using assms(2) by (auto simp: vsnprintf_def put_at_def printed_def overlay_end overlay_cut [simplified])
qed



section \<open>printf\<close>

lemma printf_text:
  assumes "text_of rd False False fmt as = Some t" "\<not> uses_c False fmt" "length t < 2 ^ 31 - 1"
    "\<And>k. length (stack k) = k"
  shows "printf rd stack fmt as s =
    Some (int (length t), snd (cons_write t s))"
proof -
  have "int32 (int (length t)) = int (length t)" using assms(3) by (intro int32_id) auto
  then show ?thesis
    using vsnprintf_null [OF assms(1,2), of "2 ^ 64 - 1"]
      vsnprintf_text [of rd fmt as t "length t + 1" "stack (length t + 1)"] assms
    by (simp add: printf_def vprintf_def printed_def nat_add_distrib split: prod.split)
qed

text \<open>
  In the first pass of \<open>printf\<close> a \<open>%c\<close> takes no argument, so that the conversion behind it gets
  the wrong one: \<open>printf ("%c%s", c, str)\<close> reads a string at the address \<open>c\<close> and does not come back
  when no string is there, whatever the buffer and the string are.
\<close>

lemma printf_char_string_stops:
  assumes "0 \<notin> set (rd c)"
  shows "printf rd stack [37, 99, 37, 115, 0] [c, str] s = None"
proof -
  have "str_loop n x p None = None" if "0 \<notin> set x" for n x p
    using that by (induction x arbitrary: p) (auto simp: put_at_def)
  then show ?thesis
    using assms
    by (simp add: printf_def vprintf_def vsnprintf_def vsn_step_def conv_c_def conv_s_def converted_def)
qed

section \<open>Printing and parsing numbers\<close>

lemma digit_value_dec: "k < 10 \<Longrightarrow> digit_value 10 (48 + of_nat k) = Some (int k)"
proof -
  assume k: "k < 10"
  have "unat (48 + of_nat k :: 8 word) = 48 + k"
    using k by (simp add: unat_word_ariths unat_of_nat)
  then have "uint (48 + of_nat k :: 8 word) = 48 + int k" by (metis of_nat_add of_nat_numeral uint_nat)
  with k show ?thesis by (simp add: digit_value_def word_le_def)
qed

lemma strtol_loop_dec:
  assumes "v * 10 ^ length (dec m) + m < 2 ^ 63"
  shows "strtol_loop 10 (int v) (dec m @ rest) = strtol_loop 10 (int (v * 10 ^ length (dec m) + m)) rest"
  using assms
proof (induction m arbitrary: rest rule: dec.induct)
  case (1 m)
  have step: "strtol_loop 10 (int w) ((48 + of_nat k) # rest) = strtol_loop 10 (int (w * 10 + k)) rest"
    if "k < 10" "w * 10 + k < 2 ^ 63" for w k rest
  proof -
    have "int64 (int64 (int w * 10) + int k) = int (w * 10 + k)"
      using that int64_id [of "int w * 10"] int64_id [of "int w * 10 + int k"] by simp
    then show ?thesis using that(1) by (simp add: digit_value_dec)
  qed
  show ?case
  proof (cases "m < 10")
    case True
    then show ?thesis using 1(2) step [of m v] by (simp add: dec.simps)
  next
    case False
    let ?w = "v * 10 ^ length (dec (m div 10)) + m div 10"
    have d: "dec m = dec (m div 10) @ [48 + of_nat (m mod 10)]" using False by (subst dec.simps) simp
    have w: "?w * 10 + m mod 10 = v * 10 ^ length (dec m) + m"
      by (simp add: d algebra_simps)
    then have b: "?w * 10 + m mod 10 < 2 ^ 63" using 1(2) by (simp only:)
    have "x \<le> x * 10 + y" for x y :: nat by simp
    then have "?w < 2 ^ 63" using b by (rule le_less_trans)
    then show ?thesis
      using 1(1) [OF False, of "(48 + of_nat (m mod 10)) # rest"] step [OF _ b, of rest] w
      by (simp add: d mult_ac add_ac)
  qed
qed

lemma dec_hd: "\<exists>k t. k < 10 \<and> dec m = (48 + of_nat k) # t"
proof (induction m rule: dec.induct)
  case (1 m)
  then show ?case by (cases "m < 10") (auto simp: dec.simps [of m])
qed

lemma dec_first_not_special:
  assumes "dec m = c # t"
  shows "\<not> isspace c" "c \<noteq> 45"
proof -
  obtain k where "k < 10" "c = 48 + of_nat k" using dec_hd [of m] assms by auto
  then have "c \<in> {48, 49, 50, 51, 52, 53, 54, 55, 56, 57}"
    by (auto simp: less_Suc_eq numeral_eq_Suc)
  then show "\<not> isspace c" "c \<noteq> 45" by (auto simp: isspace_def)
qed

lemma strtol_dec_int:
  assumes "- (2 ^ 63) < x" "x < 2 ^ 63" "digit_value 10 c = None"
  shows "strtol (dec_int x @ c # rest) 10 = Some (x, c # rest)"
proof -
  have loop: "strtol_loop 10 0 (dec m @ c # rest) = Some (int m, c # rest)" if "m < 2 ^ 63" for m
    using strtol_loop_dec [of 0 m "c # rest"] that assms(3) by simp
  show ?thesis
  proof (cases "x < 0")
    case True
    have "int64 x = x" using assms by (intro int64_id) auto
    then show ?thesis
      using True loop [of "nat (- x)"] assms(1)
      by (simp add: strtol_def dec_int_def isspace_def strtol_base_def)
  next
    case False
    then show ?thesis
      using loop [of "nat x"] assms(2) dec_hd [of "nat x"] dec_first_not_special [of "nat x"]
      by (auto simp: strtol_def dec_int_def strtol_base_def)
  qed
qed

lemma dec_length: "m < 10 ^ Suc k \<Longrightarrow> length (dec m) \<le> Suc k"
proof (induction k arbitrary: m)
  case (Suc k)
  then have "m div 10 < 10 ^ Suc k" by (simp add: div_less_iff_less_mult)
  then show ?case using Suc.IH [of "m div 10"] by (subst dec.simps) simp
qed (simp add: dec.simps)

lemma dec_int_length:
  assumes "\<bar>x\<bar> < 10 ^ 19"
  shows "length (dec_int x) \<le> 20"
proof -
  have "nat \<bar>x\<bar> < 10 ^ Suc 18" using assms by (simp add: nat_less_iff)
  from dec_length [OF this] show ?thesis by (auto simp: dec_int_def)
qed

text \<open>
  C27.  Round trip: printing any number of type \<open>long\<close> but the smallest one with the format \<open>"%ld"\<close>
  into a buffer of at least 21 bytes and reading it back with \<open>strtol\<close> in base 10 gives the number,
  and \<open>strtol\<close> stops at the terminator.
\<close>

theorem print_parse_roundtrip:
  assumes "sint a \<noteq> - (2 ^ 63)" "21 \<le> n" "n \<le> length buf"
  shows "\<exists>r b rest. snprintf rd buf n [37, 108, 100, 0] [a] = Some (r, Some b) \<and>
    strtol b 10 = Some (sint a, 0 # rest)"
proof -
  have a: "- (2 ^ 63) < sint a" "sint a < 2 ^ 63" using assms(1) sint_ge [of a] sint_lt [of a] by auto
  let ?t = "dec_int (sint a)"
  have "text_of rd False False [37, 108, 100, 0] [a] = Some ?t"
    using assms(1) by (simp add: conv_text_def long_or_int_def)
  moreover have l: "length ?t < n" proof -
    have "\<bar>sint a\<bar> < 10 ^ 19" using a by simp
    from dec_int_length [OF this] show ?thesis using assms(2) by simp
  qed
  ultimately have "snprintf rd buf n [37, 108, 100, 0] [a] =
      Some (int32 (int (length ?t)), Some (?t @ 0 # drop (length ?t + 1) buf))"
    using vsnprintf_text [of rd "[37, 108, 100, 0]" "[a]" ?t n buf] assms(3)
    by (simp add: snprintf_def printed_def del: text_of.simps uses_c.simps)
  moreover have "digit_value 10 0 = None" by (simp add: digit_value_def)
  ultimately show ?thesis using strtol_dec_int [OF a] by blast
qed

theorem print_parse_roundtrip_witness:
  "\<exists>r b rest. snprintf (\<lambda>_. []) (replicate 32 0) 21 [37, 108, 100, 0] [- 4096] = Some (r, Some b) \<and>
    strtol b 10 = Some (- 4096, 0 # rest)"
  using print_parse_roundtrip [of "- 4096" 21 "replicate 32 0" "\<lambda>_. []"] by simp

section \<open>Numbers the conversions get wrong\<close>

text \<open>
  The digits of \<open>%lu\<close> are counted on a signed number, so \<open>2 ^ 64 - 1\<close> is printed as its last digit;
  \<open>strtol\<close> does not skip a plus sign, so it reads no number behind one.
\<close>

lemma lu_prints_last_digit:
  "snprintf rd [0, 0, 0] 3 [37, 108, 117, 0] [0xFFFFFFFFFFFFFFFF] = Some (1, Some [53, 0, 0])"
proof -
  have u: "uint (0xFFFFFFFFFFFFFFFF :: u64) = 18446744073709551615" by simp
  have "signed_take_bit 63 (18446744073709551615 :: int) = - 1" by (simp add: signed_take_bit_eq_take_bit_shift take_bit_eq_mod)
  moreover have "count_digits (- 1) = 1" by (simp add: count_digits.simps c_quot_def)
  ultimately have "count_digits (int64 (ulong_or_uint True 0xFFFFFFFFFFFFFFFF)) = 1" "ulong_or_uint True 0xFFFFFFFFFFFFFFFF = 18446744073709551615"
    by (simp_all add: u int64_def ulong_or_uint_def)
  then show ?thesis
    by (simp add: snprintf_def vsnprintf_def vsn_step_def conv_u_def put_at_def converted_def c_rem_def int32_id Let_def)
qed

lemma strtol_plus_reads_nothing: "strtol [43, 53, 0] 10 = Some (0, [43, 53, 0])"
  by (simp add: strtol_def strtol_base_def isspace_def digit_value_def)

end
