(* ===== verification/Screen.thy ===== *)
theory Screen
  imports Stdio Font
begin

text \<open>
  The screen of the board: drawing of a character (\<open>src/kernel/drivers/vga.c\<close>) and the two splash
  screens (\<open>src/kernel/drivers/splash.c\<close>).  The video memory is a function from the index of a
  pixel, a word of 32 bits behind the address \<open>0x80000000\<close>, to its colour; an index is computed with
  unsigned numbers of 32 bits, as in the code.  The virtual machine has no screen.

  The theory shows which pixels a character gets, that a line in UTF-8 is drawn in consecutive cells
  although its degree signs take two bytes, and what the whole screen looks like in the end.
\<close>

unbundle bit_operations_syntax

type_synonym video = "nat \<Rightarrow> 32 word"

section \<open>Drawing\<close>

definition plot :: "8 word list \<Rightarrow> 32 word \<Rightarrow> 32 word \<Rightarrow> 32 word \<Rightarrow> nat \<Rightarrow> nat \<Rightarrow> video \<Rightarrow> video" where
  "plot bitmap x y color dy dx v =
     (if bitmap ! dy AND push_bit dx 1 \<noteq> 0
      then v(unat ((y + of_nat dy) * 1280 + x + of_nat dx) := color) else v)"

text \<open>Eight bytes of the bitmap are read; there is no result when it has fewer.\<close>

definition render ::
    "bool \<Rightarrow> 8 word list \<Rightarrow> 32 word \<Rightarrow> 32 word \<Rightarrow> 32 word \<Rightarrow> video \<Rightarrow> video option" where
  "render virt bitmap x y color v =
     (if virt then Some v
      else if length bitmap < 8 then None
      else Some (fold (\<lambda>dy. fold (plot bitmap x y color dy) [0..<8]) [0..<8] v))"

section \<open>The splash screens\<close>

text \<open>The text of the splash screen, a colour sequence and a line each; the degree sign has two bytes.\<close>

definition ascii :: "string \<Rightarrow> bytes" where
  "ascii s = map of_char s"

definition deg :: bytes where "deg = [0xc2, 0xb0]"

definition splash :: "(bytes \<times> bytes) list" where
  "splash =
     [(27 # ascii ''[91m'',
       ascii '' oooooo    oooooo        MMM         ooooo    oooooo                       oMMMMMM      ''),
      (27 # ascii ''[93m'',
       ascii '' MMMMMM    MMMMMM        '' @ deg @ deg @ deg
        @ ascii ''         MMMMMo   MMMMMM                       '' @ deg @ deg @ deg
        @ ascii ''oMMM      ''),
      (27 # ascii ''[33m'',
       ascii ''   MMMM    MMM'' @ deg @ ascii ''                      '' @ deg
        @ ascii ''MMMMMo    '' @ deg @ ascii ''MMM                           MMM      ''),
      (27 # ascii ''[91m'',
       ascii ''    '' @ deg @ ascii ''MMMooMMM'' @ deg @ ascii ''       oMMMMMM          MMM''
        @ deg @ ascii ''MMM    MMM  oMMMMM   oMMMMM          MMM      ''),
      (27 # ascii ''[95m'',
       ascii ''      '' @ deg @ ascii ''MMMM'' @ deg @ ascii ''          '' @ deg @ deg @ deg
        @ ascii ''MMM          MMM '' @ deg @ ascii ''MMMo  MMM   '' @ deg @ deg
        @ ascii ''MMM    '' @ deg @ deg @ ascii ''MMM          MMM      ''),
      (27 # ascii ''[94m'',
       ascii ''      MMMMMo             MMM          MMM   MMMo MMM     MMM      MMM          MMM      ''),
      (27 # ascii ''[91m'',
       ascii ''    oMMM'' @ deg @ deg
        @ ascii ''MMMo           MMM          MMM    MMMMMMM     MMM      MMM          MMM      ''),
      (27 # ascii ''[33m'',
       ascii ''  oMMM'' @ deg @ ascii ''    '' @ deg
        @ ascii ''MMMo         MMM          MMM     '' @ deg
        @ ascii ''MMMMM     MMMo    oMMM          MMM      ''),
      (27 # ascii ''[93m'',
       ascii ''oMMMMMMo  oMMMMMMo  MMMMMMMMMMMMMM  MMMMMMMM   '' @ deg @ ascii ''MMMM     ''
        @ deg @ ascii ''MMMMMMMMMMMMM   MMMMMMMMMMMMMM''),
      (27 # ascii ''[91m'',
       ascii ''YYYYYYYY  YYYYYYYY  YYYYYYYYYYYYYY  YYYYYYYY     YYY        YYYYY YYYY    YYYYYYYYYYYYYY''),
      (27 # ascii ''[0m'',
       ascii ''= Initializating XiNul, Ensimag' educational RISC-V proto-os ='')]"

text \<open>
  The array holds the addresses \<open>ptrs\<close> of the strings, which \<open>printf\<close> reads through \<open>rd\<close>; the format
  is \<open>"%s%s\n"\<close>.
\<close>

fun print_lines ::
    "(u64 \<Rightarrow> bytes) \<Rightarrow> (nat \<Rightarrow> bytes) \<Rightarrow> (u64 \<times> u64) list \<Rightarrow> kernel \<Rightarrow> kernel option" where
  "print_lines rd stack [] s = Some s"
| "print_lines rd stack ((p, q) # ps) s =
     do { (r, s') \<leftarrow> printf rd stack [37, 115, 37, 115, 10, 0] [p, q] s; print_lines rd stack ps s' }"

definition splash_screen ::
    "(u64 \<Rightarrow> bytes) \<Rightarrow> (nat \<Rightarrow> bytes) \<Rightarrow> (u64 \<times> u64) list \<Rightarrow> kernel \<Rightarrow> kernel option" where
  "splash_screen rd stack ptrs s =
     (if length ptrs < 11 then None else print_lines rd stack (take 11 ptrs) s)"

text \<open>One line of the picture; \<open>x\<close> counts bytes and \<open>delta\<close> those that are not drawn.\<close>

fun splash_line ::
    "bool \<Rightarrow> nat \<Rightarrow> 32 word \<Rightarrow> nat \<Rightarrow> 32 word \<Rightarrow> bytes \<Rightarrow> video \<Rightarrow> video option" where
  "splash_line virt y color x delta [] v = None"
| "splash_line virt y color x delta (c # s) v =
     (if c = 0 then Some v
      else if c \<noteq> 0xc2 then
        do {
          v' \<leftarrow> render virt (font8x8_basic ! unat c) (100 + (of_nat x - delta) * 8)
            (100 + of_nat y * 12) color v;
          splash_line virt y color (x + 1) delta s v'
        }
      else splash_line virt y color (x + 1) (delta + 1) s v)"

definition colors :: "32 word list" where
  "colors =
     [0x00ff0000, 0x00ffff00, 0x00ffff00, 0x00ff0000, 0x00ff00ff, 0x000000ff, 0x00ff0000, 0x00ffff00,
      0x00ffff00, 0x00ff0000, 0x0000ff00]"

fun splash_lines :: "bool \<Rightarrow> nat list \<Rightarrow> video \<Rightarrow> video option" where
  "splash_lines virt [] v = Some v"
| "splash_lines virt (y # ys) v =
     do {
       v' \<leftarrow> splash_line virt y (colors ! y) 0 0 (snd (splash ! y) @ [0]) v;
       splash_lines virt ys v'
     }"

definition splash_vga_screen :: "bool \<Rightarrow> video \<Rightarrow> video option" where
  "splash_vga_screen virt v =
     splash_lines virt [0..<11] (if virt then v else fold (\<lambda>i v. v(i := 0)) [0..<1280 * 768] v)"

section \<open>One character\<close>

text \<open>Whether the pixel with index \<open>i\<close> belongs to the drawn part of a character at \<open>(x, y)\<close>.\<close>

definition in_glyph :: "8 word list \<Rightarrow> nat \<Rightarrow> nat \<Rightarrow> nat \<Rightarrow> bool" where
  "in_glyph bm x y i \<longleftrightarrow>
     y \<le> i div 1280 \<and> i div 1280 < y + 8 \<and> x \<le> i mod 1280 \<and> i mod 1280 < x + 8 \<and>
     bit (bm ! (i div 1280 - y)) (i mod 1280 - x)"

lemma pixel_index:
  assumes "x + 8 \<le> 1280" "y + 8 \<le> 768" "dx < 8" "dy < 8"
  shows "unat ((of_nat y + of_nat dy) * 1280 + of_nat x + of_nat dx :: 32 word) = (y + dy) * 1280 + x + dx"
proof -
  have "(of_nat y + of_nat dy) * 1280 + of_nat x + of_nat dx =
      (of_nat ((y + dy) * 1280 + x + dx) :: 32 word)" by simp
  moreover have "(y + dy) * 1280 + x + dx < 2 ^ 32" using assms by simp
  ultimately show ?thesis by (simp only: unat_of_nat) simp
qed

lemma index_eq_iff: "a < 1280 \<Longrightarrow> i = b * 1280 + a \<longleftrightarrow> i div 1280 = b \<and> i mod 1280 = a" for i :: nat
  using div_mult_mod_eq [of i 1280] by auto

lemma plot_pixel:
  assumes "x + 8 \<le> 1280" "y + 8 \<le> 768" "dx < 8" "dy < 8"
  shows "plot bm (of_nat x) (of_nat y) col dy dx v i =
    (if i div 1280 = y + dy \<and> i mod 1280 = x + dx \<and> bit (bm ! dy) dx then col else v i)"
proof -
  have "x + dx < 1280" using assms by simp
  then have "i = (y + dy) * 1280 + x + dx \<longleftrightarrow> i div 1280 = y + dy \<and> i mod 1280 = x + dx"
    using index_eq_iff [of "x + dx" i "y + dy"] by (simp only: add.assoc)
  moreover have "bm ! dy AND push_bit dx 1 \<noteq> 0 \<longleftrightarrow> bit (bm ! dy) dx"
    by (simp add: bit_iff_and_push_bit_not_eq_0)
  ultimately show ?thesis by (simp only: plot_def pixel_index [OF assms] fun_upd_apply) simp
qed

lemma plot_row:
  assumes "x + 8 \<le> 1280" "y + 8 \<le> 768" "dy < 8" "k \<le> 8"
  shows "fold (plot bm (of_nat x) (of_nat y) col dy) [0..<k] v i =
    (if i div 1280 = y + dy \<and> x \<le> i mod 1280 \<and> i mod 1280 < x + k \<and> bit (bm ! dy) (i mod 1280 - x)
     then col else v i)"
  using assms(4)
proof (induction k)
  case (Suc k)
  have "i mod 1280 < x + Suc k \<longleftrightarrow> i mod 1280 < x + k \<or> i mod 1280 = x + k" by auto
  then show ?case using Suc plot_pixel [OF assms(1,2) _ assms(3), of k] by auto
qed auto

lemma plot_rows:
  assumes "x + 8 \<le> 1280" "y + 8 \<le> 768" "k \<le> 8"
  shows "fold (\<lambda>dy. fold (plot bm (of_nat x) (of_nat y) col dy) [0..<8]) [0..<k] v i =
    (if y \<le> i div 1280 \<and> i div 1280 < y + k \<and> x \<le> i mod 1280 \<and> i mod 1280 < x + 8 \<and>
        bit (bm ! (i div 1280 - y)) (i mod 1280 - x)
     then col else v i)"
  using assms(3)
proof (induction k)
  case (Suc k)
  have "i div 1280 < y + Suc k \<longleftrightarrow> i div 1280 < y + k \<or> i div 1280 = y + k" by auto
  then show ?case using Suc plot_row [OF assms(1,2), of k 8] by auto
qed auto

text \<open>
  \<open>render\<close> colours exactly the pixels of the bitmap, when the character is on the screen: no index
  wraps around and no pixel of another line or of other memory is touched.
\<close>

lemma render_glyph:
  assumes "length bm = 8" "x + 8 \<le> 1280" "y + 8 \<le> 768"
  shows "render False bm (of_nat x) (of_nat y) col v = Some (\<lambda>i. if in_glyph bm x y i then col else v i)"
  using assms(1) plot_rows [OF assms(2,3), of 8 bm col v]
  by (simp add: render_def in_glyph_def fun_eq_iff del: upt_Suc fold_simps)

section \<open>A line\<close>

text \<open>UTF-8 for the characters below \<open>192\<close>, and the pixels of a text in consecutive cells.\<close>

definition utf8 :: "nat \<Rightarrow> bytes" where
  "utf8 c = (if c < 128 then [of_nat c] else [0xc2, of_nat c])"

definition in_text :: "nat list \<Rightarrow> nat \<Rightarrow> nat \<Rightarrow> nat \<Rightarrow> bool" where
  "in_text cs x y i \<longleftrightarrow> (\<exists>k<length cs. in_glyph (font8x8_basic ! (cs ! k)) (x + 8 * k) y i)"

lemma in_text_Nil [simp]: "\<not> in_text [] x y i"
  by (simp add: in_text_def)

lemma in_text_Cons:
  "in_text (c # cs) x y i \<longleftrightarrow> in_glyph (font8x8_basic ! c) x y i \<or> in_text cs (x + 8) y i"
  by (simp add: in_text_def Ex_less_Suc2 add.assoc)

lemma splash_line_char:
  assumes "0 < c" "c < 192" "100 + 8 * k + 8 \<le> 1280" "y < 50" "of_nat x - delta = of_nat k"
  shows "\<exists>x' delta'. of_nat x' - delta' = of_nat (k + 1) \<and>
    splash_line False y col x delta (utf8 c @ s) v =
    splash_line False y col x' delta' s
      (\<lambda>i. if in_glyph (font8x8_basic ! c) (100 + 8 * k) (100 + 12 * y) i then col else v i)"
proof -
  have u: "unat (of_nat c :: 8 word) = c" "(of_nat c :: 8 word) \<noteq> 0" "(of_nat c :: 8 word) \<noteq> 0xc2"
    using assms(1,2) by (auto simp: unat_of_nat word_of_nat_eq_0_iff dest: arg_cong [where f = unat])
  have r: "render False (font8x8_basic ! c) (100 + of_nat k * 8) (100 + of_nat y * 12) col v =
      Some (\<lambda>i. if in_glyph (font8x8_basic ! c) (100 + 8 * k) (100 + 12 * y) i then col else v i)"
    using render_glyph [of "font8x8_basic ! c" "100 + 8 * k" "100 + 12 * y" col v] assms
    by (simp add: mult.commute)
  have s: "of_nat x + 1 - delta = of_nat (k + 1)" "of_nat x + 1 - (delta + 1) = of_nat k"
    using assms(5) by (simp_all add: algebra_simps)
  show ?thesis
  proof (cases "c < 128")
    case True
    then show ?thesis using u r s(1) assms(5)
      by (intro exI [of _ "x + 1"] exI [of _ delta]) (simp add: utf8_def)
  next
    case False
    have "of_nat x + 1 + 1 - (delta + 1) = of_nat (k + 1)" using s by (simp add: algebra_simps)
    then show ?thesis using False u r s
      by (intro exI [of _ "x + 1 + 1"] exI [of _ "delta + 1"]) (simp add: utf8_def)
  qed
qed

lemma splash_line_text:
  assumes "\<forall>c\<in>set cs. 0 < c \<and> c < 192" "100 + 8 * (k + length cs) \<le> 1280" "y < 50"
    "of_nat x - delta = of_nat k"
  shows "splash_line False y col x delta (concat (map utf8 cs) @ [0]) v =
    Some (\<lambda>i. if in_text cs (100 + 8 * k) (100 + 12 * y) i then col else v i)"
  using assms
proof (induction cs arbitrary: k x delta v)
  case (Cons c cs)
  obtain x' delta' where n: "of_nat x' - delta' = of_nat (k + 1)"
    "splash_line False y col x delta (utf8 c @ concat (map utf8 cs) @ [0]) v =
      splash_line False y col x' delta' (concat (map utf8 cs) @ [0])
        (\<lambda>i. if in_glyph (font8x8_basic ! c) (100 + 8 * k) (100 + 12 * y) i then col else v i)"
    using splash_line_char [of c k y x delta col "concat (map utf8 cs) @ [0]" v] Cons.prems by auto
  have e: "100 + 8 * (k + 1) = 100 + 8 * k + 8" by simp
  show ?case using n(2) Cons.IH [of "k + 1" x' delta'] Cons.prems n(1)
    by (auto simp: in_text_Cons e)
qed simp

section \<open>The whole screen\<close>

text \<open>The characters of a line.\<close>

fun codepoints :: "bytes \<Rightarrow> nat list" where
  "codepoints [] = []"
| "codepoints [c] = [unat c]"
| "codepoints (c # d # s) =
     (if c = 0xc2 then unat d # codepoints s else unat c # codepoints (d # s))"

definition codes :: "nat \<Rightarrow> nat list" where
  "codes y = codepoints (snd (splash ! y))"

lemma splash_utf8:
  "length splash = 11 \<and> list_all (\<lambda>(e, l). concat (map utf8 (codepoints l)) = l \<and>
     list_all (\<lambda>c. 0 < c \<and> c < 192) (codepoints l) \<and> length (codepoints l) \<le> 88) splash"
  by code_simp

lemma codes_utf8:
  assumes "y < 11"
  shows "concat (map utf8 (codes y)) = snd (splash ! y)" "\<forall>c\<in>set (codes y). 0 < c \<and> c < 192"
    "length (codes y) \<le> 88"
proof -
  have "splash ! y \<in> set splash" using splash_utf8 assms by (intro nth_mem) simp
  then show "concat (map utf8 (codes y)) = snd (splash ! y)" "\<forall>c\<in>set (codes y). 0 < c \<and> c < 192"
    "length (codes y) \<le> 88"
    using splash_utf8 by (auto simp: list_all_iff codes_def split_def)
qed

text \<open>A pixel of a line determines the line.\<close>

lemma in_text_row: "in_text cs x y i \<Longrightarrow> y \<le> i div 1280 \<and> i div 1280 < y + 8"
  by (auto simp: in_text_def in_glyph_def)

lemma in_text_line: "in_text cs x (100 + 12 * y) i \<Longrightarrow> y = (i div 1280 - 100) div 12"
  by (drule in_text_row) linarith

lemma splash_lines_text:
  "set ys \<subseteq> {..<11} \<Longrightarrow> splash_lines False ys v =
     Some (\<lambda>i. fold (\<lambda>y p. if in_text (codes y) 100 (100 + 12 * y) i then colors ! y else p) ys (v i))"
proof (induction ys arbitrary: v)
  case (Cons y ys)
  have "y < 11" using Cons.prems by simp
  then have "splash_line False y (colors ! y) 0 0 (snd (splash ! y) @ [0]) v =
      Some (\<lambda>i. if in_text (codes y) 100 (100 + 12 * y) i then colors ! y else v i)"
    using splash_line_text [of "codes y" 0 y 0 0 "colors ! y" v] codes_utf8 [of y] by simp
  then show ?case using Cons by simp
qed simp

lemma fold_lines:
  "fold (\<lambda>y p. if in_text (codes y) 100 (100 + 12 * y) i then colors ! y else p) [0..<k] p =
     (if \<exists>y<k. in_text (codes y) 100 (100 + 12 * y) i then colors ! ((i div 1280 - 100) div 12) else p)"
  by (induction k) (auto simp: less_Suc_eq dest: in_text_line)

lemma fold_clear: "fold (\<lambda>i v. v(i := c)) [0..<k] v = (\<lambda>i. if i < k then c else v i)" for v :: "nat \<Rightarrow> 'a"
  by (induction k) (auto simp: fun_eq_iff)

lemma splash_vga_screen_eq:
  "splash_vga_screen False v =
     Some (\<lambda>i. if \<exists>y<11. in_text (codes y) 100 (100 + 12 * y) i then colors ! ((i div 1280 - 100) div 12)
       else if i < 1280 * 768 then 0 else v i)"
proof -
  have "set [0..<11] \<subseteq> {..<11::nat}" by auto
  then show ?thesis unfolding splash_vga_screen_def fold_clear if_False
    by (simp only: splash_lines_text fold_lines)
qed

text \<open>
  The picture: the characters of each line in consecutive cells of eight pixels, in the colour of
  the line, black elsewhere; and nothing behind the last pixel of the screen is written.
\<close>

lemma splash_picture:
  "\<exists>v'. splash_vga_screen False v = Some v' \<and>
    (\<forall>i y. y < 11 \<longrightarrow> in_text (codes y) 100 (100 + 12 * y) i \<longrightarrow> v' i = colors ! y) \<and>
    (\<forall>i<1280 * 768. (\<forall>y<11. \<not> in_text (codes y) 100 (100 + 12 * y) i) \<longrightarrow> v' i = 0) \<and>
    (\<forall>i\<ge>1280 * 768. v' i = v i)"
proof -
  have off: "\<not> in_text (codes y) 100 (100 + 12 * y) i" if "1280 * 768 \<le> i" "y < 11" for i y
  proof
    assume "in_text (codes y) 100 (100 + 12 * y) i"
    from in_text_row [OF this] that show False by linarith
  qed
  show ?thesis unfolding splash_vga_screen_eq
    by (intro exI conjI allI impI, rule refl) (use off in \<open>auto dest: in_text_line\<close>)
qed

text \<open>The virtual machine draws nothing.\<close>

lemma splash_line_virt: "0 \<in> set s \<Longrightarrow> splash_line True y col x delta s v = Some v"
  by (induction s arbitrary: x delta) (auto simp: render_def)

lemma splash_vga_screen_virt: "splash_vga_screen True v = Some v"
proof -
  have "splash_lines True ys v = Some v" for ys by (induction ys) (simp_all add: splash_line_virt)
  then show ?thesis by (simp add: splash_vga_screen_def)
qed

section \<open>The text screen\<close>

text \<open>The strings \<open>printf\<close> finds at the addresses of the array.\<close>

definition points_to :: "(u64 \<Rightarrow> bytes) \<Rightarrow> u64 \<times> u64 \<Rightarrow> bytes \<times> bytes \<Rightarrow> bool" where
  "points_to rd p l \<longleftrightarrow> rd (fst p) = fst l @ [0] \<and> rd (snd p) = snd l @ [0]"

lemma print_lines_text:
  assumes "list_all2 (points_to rd) ps ls" "\<And>k. length (stack k) = k"
    "\<forall>(e, l)\<in>set ls. 0 \<notin> set e \<and> 0 \<notin> set l \<and> length e + length l < 1000"
  shows "print_lines rd stack ps s = Some (fold (\<lambda>(e, l) s. snd (cons_write (e @ l @ [10]) s)) ls s)"
  using assms(1,3)
proof (induction arbitrary: s rule: list_all2_induct)
  case (Cons p ps l ls)
  obtain e t where l: "l = (e, t)" by fastforce
  have tw: "takeWhile (\<lambda>x. x \<noteq> 0) (w @ [0]) = w" if "0 \<notin> set w" for w :: bytes
    using that by (induction w) auto
  have "text_of rd False False [37, 115, 37, 115, 10, 0] [fst p, snd p] = Some (e @ t @ [10])"
    using Cons.hyps(1) Cons.prems by (simp add: points_to_def l conv_text_def tw)
  then have "printf rd stack [37, 115, 37, 115, 10, 0] [fst p, snd p] s =
      Some (int (length (e @ t @ [10])), snd (cons_write (e @ t @ [10]) s))"
    using Cons.prems by (intro printf_text) (auto simp: l assms(2))
  then show ?case using Cons by (cases p) (simp add: l)
qed simp

lemma splash_strings:
  "list_all (\<lambda>(e, l). 0 \<notin> set e \<and> 0 \<notin> set l \<and> length e + length l < 1000) splash"
  by code_simp

text \<open>\<open>splash_screen\<close> writes the eleven lines to the console, each with its colour sequence.\<close>

lemma splash_screen_text:
  assumes "list_all2 (points_to rd) ptrs splash" "\<And>k. length (stack k) = k"
  shows "splash_screen rd stack ptrs s =
    Some (fold (\<lambda>(e, l) s. snd (cons_write (e @ l @ [10]) s)) splash s)"
proof -
  have "length ptrs = 11" using assms(1) splash_utf8 by (simp add: list_all2_lengthD)
  then show ?thesis
    using print_lines_text [OF assms] splash_strings by (simp add: splash_screen_def list_all_iff)
qed

end
