(* ===== verification/Machine_Info.thy ===== *)
theory Machine_Info
  imports Screen
begin

text \<open>
  The description of the processor at boot (\<open>src/kernel/bios/info.c\<close>): the register \<open>misa\<close> is an
  argument, the calls of \<open>printf\<close> write to the console of the kernel.

  The theory shows which text is written, and that every width but zero is shown as 64 bits.
\<close>

unbundle bit_operations_syntax

text \<open>\<open>3 << 30\<close> is an \<open>int\<close>: it overflows, and its sign is extended when it meets the register.\<close>

definition misa_bits :: "u64 \<Rightarrow> u64" where
  "misa_bits isa =
     (if isa AND push_bit 62 3 \<noteq> 0 then 64
      else if isa AND word_of_int (int32 (push_bit 30 3)) \<noteq> 0 then 32
      else 128)"

text \<open>The extensions in the order they are tested, with their bits.\<close>

definition extensions :: "(nat \<times> 8 word) list" where
  "extensions =
     [(8, 73), (12, 77), (0, 65), (1, 66), (2, 67), (3, 68), (4, 69), (5, 70), (6, 71), (7, 72), (9, 74),
      (10, 75), (11, 76), (13, 78), (14, 79), (15, 80), (16, 81), (17, 82), (18, 83), (19, 84), (20, 85),
      (21, 86), (22, 87), (23, 88), (24, 89), (25, 90)]"

text \<open>A sequence of calls of \<open>printf\<close>, each with its format and arguments.\<close>

fun printfs ::
    "(u64 \<Rightarrow> bytes) \<Rightarrow> (nat \<Rightarrow> bytes) \<Rightarrow> (bytes \<times> u64 list) list \<Rightarrow> kernel \<Rightarrow> kernel option" where
  "printfs rd stack [] s = Some s"
| "printfs rd stack ((fmt, as) # calls) s =
     do { (r, s') \<leftarrow> printf rd stack fmt as s; printfs rd stack calls s' }"

definition misa_calls :: "u64 \<Rightarrow> (bytes \<times> u64 list) list" where
  "misa_calls isa =
     [(ascii ''RISC-V '' @ [0], []), (ascii ''%d bits'' @ [0], [misa_bits isa]),
      (ascii '' Extension RV%d'' @ [0], [misa_bits isa])] @
     map (\<lambda>(k, c). ([c, 0], [])) (filter (\<lambda>(k, c). isa AND push_bit k 1 \<noteq> 0) extensions) @ [([10, 0], [])]"

definition display_misa_info :: "(u64 \<Rightarrow> bytes) \<Rightarrow> (nat \<Rightarrow> bytes) \<Rightarrow> u64 \<Rightarrow> kernel \<Rightarrow> kernel option" where
  "display_misa_info rd stack isa s = printfs rd stack (misa_calls isa) s"

definition display_info_proc :: "(u64 \<Rightarrow> bytes) \<Rightarrow> (nat \<Rightarrow> bytes) \<Rightarrow> u64 \<Rightarrow> kernel \<Rightarrow> kernel option" where
  "display_info_proc rd stack isa s = display_misa_info rd stack isa s"

section \<open>Properties\<close>

text \<open>The texts of a sequence of calls, one by one.\<close>

definition prints :: "bytes \<times> u64 list \<Rightarrow> bytes \<Rightarrow> bool" where
  "prints call t \<longleftrightarrow>
     (\<forall>rd. text_of rd False False (fst call) (snd call) = Some t) \<and> \<not> uses_c False (fst call) \<and>
     length t < 2 ^ 31 - 1"

lemma printfs_text:
  assumes "list_all2 prints calls ts" "\<And>k. length (stack k) = k"
  shows "printfs rd stack calls s = Some (fold (\<lambda>t s. snd (cons_write t s)) ts s)"
  using assms(1)
proof (induction arbitrary: s rule: list_all2_induct)
  case (Cons call calls t ts)
  then have "printf rd stack (fst call) (snd call) s = Some (int (length t), snd (cons_write t s))"
    by (intro printf_text) (auto simp: prints_def assms(2))
  then show ?case using Cons by (cases call) simp
qed simp

lemma prints_letter: "c \<noteq> 0 \<Longrightarrow> c \<noteq> 37 \<Longrightarrow> prints ([c, 0], []) [c]"
  by (simp add: prints_def)

definition misa_texts :: "u64 \<Rightarrow> bytes list" where
  "misa_texts isa =
     (let w = dec (unat (misa_bits isa)) in
      [ascii ''RISC-V '', w @ ascii '' bits'', ascii '' Extension RV'' @ w] @
      map (\<lambda>(k, c). [c]) (filter (\<lambda>(k, c). bit isa k) extensions) @ [[10]])"

lemma dec_widths: "dec 64 = [54, 52]" "dec 32 = [51, 50]" "dec 128 = [49, 50, 56]"
  by (simp_all add: dec.simps)

lemma prints_width:
  assumes "w \<in> {64, 32, 128}"
  shows "prints (ascii ''%d bits'' @ [0], [w]) (dec (unat w) @ ascii '' bits'')"
    "prints (ascii '' Extension RV%d'' @ [0], [w]) (ascii '' Extension RV'' @ dec (unat w))"
  using assms
  by (auto simp: prints_def ascii_def conv_text_def long_or_int_def dec_int_def dec_widths int32_def
      signed_take_bit_int_eq_self)

lemma prints_title: "prints (ascii ''RISC-V '' @ [0], []) (ascii ''RISC-V '')"
  by (simp add: prints_def ascii_def)

lemma letters_plain: "list_all (\<lambda>(k, c). c \<noteq> 0 \<and> c \<noteq> 37) extensions"
  by (simp add: extensions_def)

lemma misa_calls_print: "list_all2 prints (misa_calls isa) (misa_texts isa)"
proof -
  let ?es = "filter (\<lambda>(k, c). bit isa k) extensions"
  have f: "filter (\<lambda>(k, c). isa AND push_bit k 1 \<noteq> 0) extensions = ?es"
    by (simp add: bit_iff_and_push_bit_not_eq_0)
  have "list_all (\<lambda>(k, c). c \<noteq> 0 \<and> c \<noteq> 37) ?es" using letters_plain by (simp add: list_all_iff)
  then have "list_all2 prints (map (\<lambda>(k, c). ([c, 0], [])) ?es) (map (\<lambda>(k, c). [c]) ?es)"
    by (auto simp: list_all2_map1 list_all2_map2 list_all_iff prints_letter intro!: list.rel_refl_strong)
  moreover have "misa_bits isa \<in> {64, 32, 128}" by (simp add: misa_bits_def)
  moreover have "prints ([10, 0], []) [10]" by (rule prints_letter) simp_all
  ultimately show ?thesis unfolding misa_calls_def f misa_texts_def Let_def
    by (auto simp: prints_width prints_title intro!: list_all2_appendI)
qed

text \<open>The console gets the width and the letters of the extensions the register has.\<close>

lemma display_misa_info_text:
  "(\<And>k. length (stack k) = k) \<Longrightarrow>
   display_misa_info rd stack isa s = Some (fold (\<lambda>t s. snd (cons_write t s)) (misa_texts isa) s)"
  unfolding display_misa_info_def by (rule printfs_text [OF misa_calls_print])

text \<open>
  The field of the width is the upper two bits, 1 for 32 bits, 2 for 64 and 3 for 128.  All three are
  shown as 64 bits; a register that is zero, which means that it is not implemented, as 128.
\<close>

lemma misa_width_shown: "drop_bit 62 isa \<noteq> 0 \<Longrightarrow> misa_bits isa = 64"
proof -
  assume "drop_bit 62 isa \<noteq> 0"
  then obtain n where "bit (drop_bit 62 isa) n" by (auto simp: bit_eq_iff)
  then have "bit isa (62 + n)" "62 + n < 64" by (auto simp: bit_drop_bit_eq dest: bit_imp_le_length)
  then have "bit (isa AND push_bit 62 3) (62 + n)"
    by (auto simp: bit_and_iff bit_push_bit_iff less_Suc_eq numeral_eq_Suc)
  then have "isa AND push_bit 62 3 \<noteq> 0" by (metis bit_0_eq bot_apply bot_bool_def)
  then show ?thesis by (simp add: misa_bits_def)
qed

lemma misa_zero_shown: "misa_bits 0 = 128"
  by (simp add: misa_bits_def)

end
