(* ===== verification/Boards.thy ===== *)
theory Boards
  imports Drivers
begin

text \<open>
  The sifive board (\<open>src/kernel/drivers/sifive_u\<close>, \<open>src/kernel/boot/sifive_u/setup.c\<close>), the timers of all
  machines (\<open>sifive_clint.c\<close>, \<open>spike_clint.c\<close>, \<open>cep_clint.c\<close>, \<open>virt_clint.c\<close>) and the macros that reach
  their registers (\<open>clint.h\<close>).  Registers are given as in \<open>Drivers\<close>.

  The locale states what the three uarts share, sending a byte by polling; the lemmas show when the
  loop ends and with what, what the initialisation of the board leaves in the registers, and that no
  access of the timer reaches a register other than its own.
\<close>

unbundle bit_operations_syntax

section \<open>The sifive board\<close>

definition SIFIVE_UART0_CTRL_ADDR :: u64 where "SIFIVE_UART0_CTRL_ADDR = 0x55550010"
definition SIFIVE_TEST_CTRL_ADDR :: u64 where "SIFIVE_TEST_CTRL_ADDR = 0x55550002"

definition sifive_auxv :: "(u64 \<times> u64) list" where
  "sifive_auxv =
     [(UART0_CLOCK_FREQ, 32000000), (UART0_BAUD_RATE, 115200), (SIFIVE_UART0_CTRL_ADDR, 0x10013000),
      (SIFIVE_TEST_CTRL_ADDR, 0x10000000), (0, 0)]"

datatype uart_reg = UART_REG_TXFIFO | UART_REG_RXFIFO | UART_REG_TXCTRL | UART_REG_RXCTRL | UART_REG_IE
  | UART_REG_IP | UART_REG_DIV

fun uart_index :: "uart_reg \<Rightarrow> nat" where
  "uart_index UART_REG_TXFIFO = 0"
| "uart_index UART_REG_RXFIFO = 1"
| "uart_index UART_REG_TXCTRL = 2"
| "uart_index UART_REG_RXCTRL = 3"
| "uart_index UART_REG_IE = 4"
| "uart_index UART_REG_IP = 5"
| "uart_index UART_REG_DIV = 6"

definition UART_TXEN :: "32 word" where "UART_TXEN = 1"
definition UART_RXEN :: "32 word" where "UART_RXEN = 1"

text \<open>The address of the registers and the writes to them, in their order.\<close>

definition sifive_uart_init :: "(u64 \<times> u64) list \<Rightarrow> (u64 \<times> (uart_reg \<times> 32 word) list) option" where
  "sifive_uart_init auxv =
     do {
       uart \<leftarrow> getauxval auxv SIFIVE_UART0_CTRL_ADDR;
       uart_freq \<leftarrow> map_option ucast (getauxval auxv UART0_CLOCK_FREQ);
       baud_rate \<leftarrow> map_option ucast (getauxval auxv UART0_BAUD_RATE);
       if baud_rate = 0 then None
       else let divisor = (uart_freq :: 32 word) div baud_rate - 1
         in Some (uart, [(UART_REG_DIV, divisor), (UART_REG_TXCTRL, UART_TXEN),
              (UART_REG_RXCTRL, UART_RXEN), (UART_REG_IE, 2)])
     }"

text \<open>What a sequence of writes leaves in the registers at the address.\<close>

fun uart_write :: "u64 \<Rightarrow> (uart_reg \<times> 32 word) list \<Rightarrow> regs \<Rightarrow> regs" where
  "uart_write uart [] r = r"
| "uart_write uart ((i, w) # ws) r = uart_write uart ws (r(uart + 4 * of_nat (uart_index i) := w))"

definition sifive_uart_getchar :: "32 word \<Rightarrow> int" where
  "sifive_uart_getchar rxfifo = (let ch = sint rxfifo in if ch < 0 then - 1 else ch)"

fun sifive_uart_putchar :: "32 word list \<Rightarrow> int \<Rightarrow> 32 word option" where
  "sifive_uart_putchar [] ch = None"
| "sifive_uart_putchar (txfifo # rest) ch =
     (if sint txfifo < 0 then sifive_uart_putchar rest ch else Some (word_of_int (ch AND 0xff)))"

text \<open>The interrupt controller of this board is written in words of 64 bits, the lower half first.\<close>

definition store64 :: "u64 \<Rightarrow> u64 \<Rightarrow> regs \<Rightarrow> regs" where
  "store64 a w r = r(a := ucast w, a + 4 := ucast (drop_bit 32 w))"

definition SIFIVE_PLIC_ENABLE :: u64 where "SIFIVE_PLIC_ENABLE = 0xc000000 + 0x2000"
definition SIFIVE_PLIC_TARGET :: u64 where "SIFIVE_PLIC_TARGET = 0xc000000 + 0x200000"
definition SIFIVE_PLIC_SOURCE :: u64 where "SIFIVE_PLIC_SOURCE = 0xc000000 + 0x0"

definition sifive_plic_init :: "regs \<Rightarrow> regs" where
  "sifive_plic_init r =
     (let r1 = store64 (SIFIVE_PLIC_ENABLE + 8) (- 1) (store64 SIFIVE_PLIC_ENABLE (- 1) r);
          r2 = (store64 SIFIVE_PLIC_TARGET 0 r1)(SIFIVE_PLIC_SOURCE + 1 * 0x4 := 1);
          r3 = store64 (SIFIVE_PLIC_ENABLE + 0x80 + 8) (- 1) (store64 (SIFIVE_PLIC_ENABLE + 0x80) (- 1) r2)
      in store64 (SIFIVE_PLIC_TARGET + 0x1000) 0 r3)"

definition SIFIVE_TEST_EXIT :: "32 word" where "SIFIVE_TEST_EXIT = 0x5555"

definition sifive_test_init :: "(u64 \<times> u64) list \<Rightarrow> u64 option" where
  "sifive_test_init auxv = getauxval auxv SIFIVE_TEST_CTRL_ADDR"

text \<open>The word that is written; the processor then waits for ever.\<close>

definition sifive_test_poweroff :: "int \<Rightarrow> 32 word" where
  "sifive_test_poweroff status = push_bit 16 (word_of_int status) OR SIFIVE_TEST_EXIT"

section \<open>Timers\<close>

record clint_device =
  dev_clk_freq :: u64
  base_addr :: u64
  supervisor_clint_available :: bool
  user_clint_available :: bool

definition sifive_clint :: clint_device where
  "sifive_clint = \<lparr>dev_clk_freq = 10000000, base_addr = 0x2000000,
     supervisor_clint_available = False, user_clint_available = False\<rparr>"

definition cep_clint :: clint_device where
  "cep_clint = \<lparr>dev_clk_freq = 10000000, base_addr = 0x2000000,
     supervisor_clint_available = True, user_clint_available = True\<rparr>"

definition virt_clint :: clint_device where
  "virt_clint = \<lparr>dev_clk_freq = 10000000, base_addr = 0x2000000,
     supervisor_clint_available = False, user_clint_available = False\<rparr>"

definition spike_clint :: clint_device where
  "spike_clint = \<lparr>dev_clk_freq = 0x2000000, base_addr = 10000000,
     supervisor_clint_available = False, user_clint_available = False\<rparr>"

definition CLINT_STIME :: u64 where "CLINT_STIME = 0xc000"
definition CLINT_STIMECMP :: u64 where "CLINT_STIMECMP = 0xc008"
definition CLINT_UTIME :: u64 where "CLINT_UTIME = 0xd000"
definition CLINT_UTIMECMP :: u64 where "CLINT_UTIMECMP = 0xd008"

definition get_mtime :: "clint_device \<Rightarrow> (u64 \<Rightarrow> u64) \<Rightarrow> u64" where
  "get_mtime d m = m (base_addr d + CLINT_MTIME)"

definition get_mtimecmp :: "clint_device \<Rightarrow> (u64 \<Rightarrow> u64) \<Rightarrow> u64" where
  "get_mtimecmp d m = m (base_addr d + CLINT_MTIMECMP)"

definition get_stime :: "clint_device \<Rightarrow> (u64 \<Rightarrow> u64) \<Rightarrow> u64" where
  "get_stime d m = m (base_addr d + CLINT_STIME)"

definition get_stimecmp :: "clint_device \<Rightarrow> (u64 \<Rightarrow> u64) \<Rightarrow> u64" where
  "get_stimecmp d m = m (base_addr d + CLINT_STIMECMP)"

definition set_stimecmp :: "clint_device \<Rightarrow> u64 \<Rightarrow> (u64 \<Rightarrow> u64) \<Rightarrow> u64 \<Rightarrow> u64" where
  "set_stimecmp d v m = m(base_addr d + CLINT_STIMECMP := v)"

definition get_utime :: "clint_device \<Rightarrow> (u64 \<Rightarrow> u64) \<Rightarrow> u64" where
  "get_utime d m = m (base_addr d + CLINT_UTIME)"

definition get_utimecmp :: "clint_device \<Rightarrow> (u64 \<Rightarrow> u64) \<Rightarrow> u64" where
  "get_utimecmp d m = m (base_addr d + CLINT_UTIMECMP)"

definition set_utimecmp :: "clint_device \<Rightarrow> u64 \<Rightarrow> (u64 \<Rightarrow> u64) \<Rightarrow> u64 \<Rightarrow> u64" where
  "set_utimecmp d v m = m(base_addr d + CLINT_UTIMECMP := v)"

lemmas clint_defs =
  get_mtime_def get_mtimecmp_def get_stime_def get_stimecmp_def get_utime_def get_utimecmp_def
  set_mtimecmp_def set_stimecmp_def set_utimecmp_def
  CLINT_MTIME_def CLINT_MTIMECMP_def CLINT_STIME_def CLINT_STIMECMP_def CLINT_UTIME_def CLINT_UTIMECMP_def

section \<open>Sending by polling\<close>

text \<open>
  A uart that is asked until it is ready and then takes one byte: \<open>putchar\<close> gets the values of the
  status register in the order it reads them.
\<close>

locale polled_uart =
  fixes ready :: "'r \<Rightarrow> bool"
    and send :: "int \<Rightarrow> 'w"
    and putchar :: "'r list \<Rightarrow> int \<Rightarrow> 'w option"
  assumes putchar_nil: "putchar [] ch = None"
    and putchar_ready: "ready r \<Longrightarrow> putchar (r # rs) ch = Some (send ch)"
    and putchar_busy: "\<not> ready r \<Longrightarrow> putchar (r # rs) ch = putchar rs ch"
begin

lemma putchar_ends: "putchar rs ch = (if \<exists>r\<in>set rs. ready r then Some (send ch) else None)"
proof (induction rs)
  case (Cons r rs)
  then show ?case by (cases "ready r") (simp_all add: putchar_ready putchar_busy)
qed (simp add: putchar_nil)

lemma putchar_first: "\<forall>r\<in>set rs. \<not> ready r \<Longrightarrow> ready r \<Longrightarrow> putchar (rs @ r # rs') ch = Some (send ch)"
  by (simp add: putchar_ends)

end

interpretation ns16550a: polled_uart "\<lambda>lsr. lsr AND 0x40 \<noteq> 0" "\<lambda>ch. word_of_int (ch AND 0xff)" ns16550a_putchar
  by unfold_locales auto

interpretation cep_uart: polled_uart "\<lambda>txfifo. 0 \<le> sint txfifo" "\<lambda>ch. word_of_int (ch AND 0xff)" cep_uart_putchar
  by unfold_locales auto

interpretation sifive_uart: polled_uart "\<lambda>txfifo. 0 \<le> sint txfifo" "\<lambda>ch. word_of_int (ch AND 0xff)" sifive_uart_putchar
  by unfold_locales auto

section \<open>Properties\<close>

text \<open>
  A character the uart of the board has received is the one that was sent: what \<open>putchar\<close> writes,
  \<open>getchar\<close> of the other side returns, as a number between 0 and 255.
\<close>

lemma and_255: "ch AND 0xff = ch mod 256" for ch :: int
  using take_bit_eq_mask [of 8 ch] take_bit_eq_mod [of 8 ch] by (simp add: mask_eq_exp_minus_1)

lemma sifive_send_receive:
  assumes "sifive_uart_putchar rs ch = Some w"
  shows "sifive_uart_getchar w = ch mod 256"
proof -
  have w: "w = word_of_int (ch mod 256)"
    using assms sifive_uart.putchar_ends [of rs ch] by (auto simp: and_255 split: if_splits)
  have "sint w = ch mod 256" using pos_mod_bound [of 256 ch] pos_mod_sign [of 256 ch]
    by (simp add: w int_word_sint)
  then show ?thesis using pos_mod_sign [of 256 ch] by (simp add: sifive_uart_getchar_def Let_def)
qed

text \<open>The uart of the board divides by 277, of which the register holds the predecessor, and is enabled in both directions.\<close>

lemma sifive_uart_registers:
  "\<exists>ws. sifive_uart_init sifive_auxv = Some (0x10013000, ws) \<and>
    uart_write 0x10013000 ws r = r(0x10013018 := 276, 0x10013008 := 1, 0x1001300c := 1, 0x10013010 := 2)"
  by (simp add: sifive_uart_init_def sifive_auxv_def UART0_CLOCK_FREQ_def UART0_BAUD_RATE_def
      SIFIVE_UART0_CTRL_ADDR_def SIFIVE_TEST_CTRL_ADDR_def UART_TXEN_def UART_RXEN_def Let_def)

text \<open>
  After the initialisation of the interrupt controller both targets accept every source, the
  thresholds are zero and the uart has a priority; no other register has changed.
\<close>

lemma minus_one_halves: "(ucast (- 1 :: u64) :: 32 word) = - 1" "(ucast (mask 32 :: u64) :: 32 word) = - 1"
  by (simp_all add: bit_eq_iff bit_simps)

lemma sifive_plic_registers:
  "sifive_plic_init r a =
    (if a \<in> {0xc002000, 0xc002004, 0xc002008, 0xc00200c, 0xc002080, 0xc002084, 0xc002088, 0xc00208c} then - 1
     else if a \<in> {0xc200000, 0xc200004, 0xc201000, 0xc201004} then 0
     else if a = 0xc000004 then 1 else r a)"
  by (simp add: sifive_plic_init_def store64_def SIFIVE_PLIC_ENABLE_def SIFIVE_PLIC_TARGET_def
      SIFIVE_PLIC_SOURCE_def Let_def minus_one_halves)

text \<open>The exit status is in the upper half of the word that turns the board off.\<close>

lemma sifive_poweroff_status:
  assumes "0 \<le> status" "status < 2 ^ 16"
  shows "uint (drop_bit 16 (sifive_test_poweroff status)) = status"
proof -
  let ?w = "word_of_int status :: 32 word"
  have "take_bit 16 status = status" using assms by (simp add: take_bit_int_eq_self)
  then have s: "bit status n \<Longrightarrow> n < 16" for n using bit_take_bit_iff [of 16 status n] by simp
  have e: "bit (0x5555 :: 32 word) n \<Longrightarrow> n < 16" for n
    using bit_take_bit_iff [of 16 "0x5555 :: 32 word" n] by simp
  have "drop_bit 16 (sifive_test_poweroff status) = ?w"
    by (rule bit_word_eqI) (auto simp: sifive_test_poweroff_def SIFIVE_TEST_EXIT_def bit_simps dest: s e)
  then show ?thesis using assms by (simp add: uint_word_of_int)
qed

text \<open>Setting a comparator changes what is read from it, and from no other register.\<close>

lemma clint_registers:
  "get_stimecmp d (set_stimecmp d v m) = v" "get_utimecmp d (set_utimecmp d v m) = v"
  "get_mtimecmp d (set_mtimecmp (base_addr d) v m) = v"
  "get_stimecmp d (set_utimecmp d v m) = get_stimecmp d m"
  "get_utimecmp d (set_stimecmp d v m) = get_utimecmp d m"
  "get_stime d (set_stimecmp d v m) = get_stime d m" "get_utime d (set_utimecmp d v m) = get_utime d m"
  "get_mtime d (set_mtimecmp (base_addr d) v m) = get_mtime d m"
  by (simp_all add: clint_defs)

text \<open>
  The timer of spike has the address as its frequency and the frequency as its address: the other
  machines have them the other way round.
\<close>

lemma spike_clint_swapped:
  "base_addr spike_clint = dev_clk_freq virt_clint \<and> dev_clk_freq spike_clint = base_addr virt_clint"
  by (simp add: spike_clint_def virt_clint_def)

end
