(* ===== verification/Shell.thy ===== *)
theory Shell
  imports C_String
begin

text \<open>
  The shell (\<open>src/user/shell/shell.c\<close>) and the heap of user programs (\<open>src/user/ulib/sbrk.c\<close>).  The
  shell runs over a system of type \<open>'s\<close> whose calls \<open>start\<close> and \<open>waitpid\<close> are arguments; what it prints
  is a list of events.

  The theory shows that with a cleared buffer the shell does what a shell on whole lines does, what
  goes wrong without one, and that the heap hands out disjoint ranges.
\<close>

section \<open>The shell\<close>

datatype shell_event = Prompt | Value int | Not_found bytes

record 's shell =
  cmd :: bytes
  ret :: int
  sys :: 's
  shown :: "shell_event list"

definition echo_ret :: bytes where
  "echo_ret = [101, 99, 104, 111, 32, 36, 63]"

text \<open>\<open>"echo $?"\<close> prints the value of the last command; the result is 0 for a builtin.\<close>

definition builtin_cmd :: "'s shell \<Rightarrow> (int \<times> 's shell) option" where
  "builtin_cmd s =
     do {
       c \<leftarrow> strcmp (cmd s) (echo_ret @ [0]);
       Some (if c = 0 then (0, s\<lparr>shown := shown s @ [Value (ret s)]\<rparr>) else (1, s))
     }"

text \<open>The string \<open>start\<close> and \<open>printf\<close> read, up to the terminator.\<close>

definition command :: "bytes \<Rightarrow> bytes option" where
  "command b = (if 0 \<in> set b then Some (takeWhile (\<lambda>c. c \<noteq> 0) b) else None)"

text \<open>
  One turn of the loop, with the characters \<open>cons_read\<close> stores, at most twenty.  \<open>start\<close> gives the
  identifier of the process or \<open>-1\<close>, \<open>waitpid\<close> the value of the process.
\<close>

definition shell_turn ::
    "(bytes \<Rightarrow> 's \<Rightarrow> int \<times> 's) \<Rightarrow> (int \<Rightarrow> 's \<Rightarrow> int \<times> 's) \<Rightarrow> bytes \<Rightarrow> 's shell \<Rightarrow> 's shell option" where
  "shell_turn start waitpid line s =
     do {
       let s0 = s\<lparr>shown := shown s @ [Prompt]\<rparr>;
       let s1 = s0\<lparr>cmd := line @ drop (length line) (cmd s0)\<rparr>;
       (b, s2) \<leftarrow> builtin_cmd s1;
       s3 \<leftarrow> (if b \<noteq> 0 then do {
           name \<leftarrow> command (cmd s2);
           (case start name (sys s2) of (pid, y) \<Rightarrow>
             if pid = - 1
             then Some (s2\<lparr>sys := y, shown := shown s2 @ [Not_found name], ret := - 1\<rparr>)
             else (case waitpid pid y of (v, y') \<Rightarrow> Some (s2\<lparr>sys := y', ret := v\<rparr>))) }
         else Some s2);
       m \<leftarrow> memset (cmd s3) 0 20;
       Some (s3\<lparr>cmd := m\<rparr>)
     }"

fun shell_main ::
    "(bytes \<Rightarrow> 's \<Rightarrow> int \<times> 's) \<Rightarrow> (int \<Rightarrow> 's \<Rightarrow> int \<times> 's) \<Rightarrow> bytes list \<Rightarrow> 's shell \<Rightarrow> 's shell option" where
  "shell_main start waitpid [] s = Some s"
| "shell_main start waitpid (line # lines) s =
     do { s' \<leftarrow> shell_turn start waitpid line s; shell_main start waitpid lines s' }"

section \<open>The heap\<close>

definition HEAP_SIZE :: u64 where "HEAP_SIZE = 0x1000"
definition HEAP :: u64 where "HEAP = 0x50000000"
definition HEAP_END :: u64 where "HEAP_END = HEAP + HEAP_SIZE"

text \<open>The result and the new break; an address that overflows wraps around.\<close>

definition user_sbrk :: "int \<Rightarrow> u64 \<Rightarrow> u64 \<times> u64" where
  "user_sbrk increment brk =
     (let s = brk; c = s + word_of_int increment in
      if c < brk \<or> c > HEAP_END then (- 1, brk) else (s, c))"

section \<open>Properties\<close>

text \<open>A shell on whole lines.\<close>

definition line_turn ::
    "(bytes \<Rightarrow> 's \<Rightarrow> int \<times> 's) \<Rightarrow> (int \<Rightarrow> 's \<Rightarrow> int \<times> 's) \<Rightarrow> bytes \<Rightarrow>
     int \<times> 's \<times> shell_event list \<Rightarrow> int \<times> 's \<times> shell_event list" where
  "line_turn start waitpid line = (\<lambda>(r, y, ev).
     if line = echo_ret then (r, y, ev @ [Prompt, Value r])
     else (case start line y of (pid, y') \<Rightarrow>
       if pid = - 1 then (- 1, y', ev @ [Prompt, Not_found line])
       else (case waitpid pid y' of (v, y'') \<Rightarrow> (v, y'', ev @ [Prompt]))))"

definition shell_abs :: "'s shell \<Rightarrow> int \<times> 's \<times> shell_event list" where
  "shell_abs s = (ret s, sys s, shown s)"

lemma takeWhile_terminated: "0 \<notin> set s \<Longrightarrow> takeWhile (\<lambda>c. c \<noteq> 0) (s @ 0 # x) = s" for s :: bytes
  by (induction s) auto

lemma strcmp_echo:
  assumes "0 \<notin> set line"
  obtains r where "strcmp (line @ 0 # x) (echo_ret @ [0]) = Some r" "r = 0 \<longleftrightarrow> line = echo_ret"
  using strcmp_zero_iff [of line echo_ret x "[]"] assms by (auto simp: echo_ret_def)

lemma shell_turn_line:
  assumes "cmd s = replicate 20 0" "0 \<notin> set line" "length line < 20"
  shows "\<exists>s'. shell_turn start waitpid line s = Some s' \<and>
    shell_abs s' = line_turn start waitpid line (shell_abs s) \<and> cmd s' = replicate 20 0"
proof -
  define rest :: bytes where "rest = replicate (19 - length line) 0"
  have "20 - length line = Suc (19 - length line)" using assms(3) by simp
  then have b: "line @ drop (length line) (cmd s) = line @ 0 # rest"
    by (simp add: assms(1) rest_def)
  have l: "length line + length rest = 19" using assms(3) by (simp add: rest_def)
  obtain r where r: "strcmp (line @ 0 # rest) (echo_ret @ [0]) = Some r" "r = 0 \<longleftrightarrow> line = echo_ret"
    by (rule strcmp_echo [OF assms(2)])
  show ?thesis using r b l assms(2) takeWhile_terminated [of line rest]
    by (cases "line = echo_ret")
      (simp_all add: shell_turn_def builtin_cmd_def Let_def command_def memset_eq line_turn_def shell_abs_def
        split: prod.split)
qed

text \<open>
  From a cleared buffer the shell does with every sequence of lines shorter than its buffer what the
  shell on whole lines does, and leaves the buffer cleared.
\<close>

lemma shell_refines_lines:
  "cmd s = replicate 20 0 \<Longrightarrow> \<forall>line\<in>set lines. 0 \<notin> set line \<and> length line < 20 \<Longrightarrow>
   \<exists>s'. shell_main start waitpid lines s = Some s' \<and>
     shell_abs s' = fold (line_turn start waitpid) lines (shell_abs s) \<and> cmd s' = replicate 20 0"
proof (induction lines arbitrary: s)
  case (Cons line lines)
  then obtain s1 where s1: "shell_turn start waitpid line s = Some s1"
    "shell_abs s1 = line_turn start waitpid line (shell_abs s)" "cmd s1 = replicate 20 0"
    using shell_turn_line [of s line start waitpid] by auto
  show ?case using Cons.IH [OF s1(3)] Cons.prems(2) s1(1,2) by auto
qed simp

text \<open>
  The buffer is not cleared before the first command, so the name the shell looks for then goes on
  with what was on the stack.
\<close>

lemma first_command_reads_stack:
  assumes "0 \<notin> set line" "0 \<notin> set junk" "junk \<noteq> []" "line \<noteq> []" "length line + length junk < 20"
    "cmd s = replicate (length line) c @ junk @ replicate (20 - length line - length junk) 0"
    "line @ junk \<noteq> echo_ret" "fst (start (line @ junk) (sys s)) = - 1"
  shows "\<exists>s'. shell_turn start waitpid line s = Some s' \<and>
    shown s' = shown s @ [Prompt, Not_found (line @ junk)]"
proof -
  define rest :: bytes where "rest = replicate (19 - length line - length junk) 0"
  have "20 - length line - length junk = Suc (19 - length line - length junk)" using assms(5) by simp
  then have b: "line @ drop (length line) (cmd s) = (line @ junk) @ 0 # rest"
    by (simp add: assms(6) rest_def)
  have l: "length line + length junk + length rest = 19" using assms(5) by (simp add: rest_def)
  have z: "0 \<notin> set (line @ junk)" using assms by simp
  obtain r where r: "strcmp ((line @ junk) @ 0 # rest) (echo_ret @ [0]) = Some r" "r \<noteq> 0"
    using assms(7) strcmp_echo [OF z, of rest] by metis
  obtain y where "start (line @ junk) (sys s) = (- 1, y)" using assms(8) by (metis prod.collapse)
  then show ?thesis using r b l z takeWhile_terminated [OF z, of rest]
    by (simp add: shell_turn_def builtin_cmd_def Let_def command_def memset_eq)
qed

text \<open>A line that fills the buffer has no terminator.\<close>

lemma strcmp_not_terminated: "0 \<notin> set x \<Longrightarrow> strcmp x (t @ [0]) \<noteq> Some 0"
proof (induction x arbitrary: t)
  case (Cons a x)
  then show ?case by (cases t) (auto simp: uint_0_iff word_uint_eqI)
qed simp

lemma full_line_not_terminated:
  assumes "length line = 20" "length (cmd s) = 20" "0 \<notin> set line"
  shows "shell_turn start waitpid line s = None"
  using assms strcmp_not_terminated [of line echo_ret]
  by (auto simp: shell_turn_def builtin_cmd_def Let_def command_def split: bind_splits)

text \<open>
  The break stays in the heap; a call succeeds exactly when the increment is not negative and fits,
  and then returns the old break, where the new range starts.
\<close>

lemma user_sbrk_spec:
  assumes "HEAP \<le> brk" "brk \<le> HEAP_END" "- (2 ^ 63) \<le> increment" "increment < 2 ^ 63"
  shows "user_sbrk increment brk =
    (if 0 \<le> increment \<and> uint brk + increment \<le> uint HEAP_END
     then (brk, brk + word_of_int increment) else (- 1, brk))"
proof -
  have b: "0x50000000 \<le> uint brk" "uint brk \<le> 0x50001000"
    using assms(1,2) by (simp_all add: word_le_def HEAP_def HEAP_END_def HEAP_SIZE_def)
  have u: "uint (brk + word_of_int increment) =
      (if uint brk + increment < 0 then uint brk + increment + 2 ^ 64 else uint brk + increment)"
  proof -
    have "uint (brk + word_of_int increment) = (uint brk + increment) mod 2 ^ 64"
      by (simp add: uint_word_ariths uint_word_of_int mod_add_right_eq)
    moreover have "(uint brk + increment) mod 2 ^ 64 = uint brk + increment + 2 ^ 64" if "uint brk + increment < 0"
      by (subst mod_add_self2 [symmetric], rule mod_pos_pos_trivial) (use that assms(3) b in simp_all)
    ultimately show ?thesis using assms(3,4) b by simp
  qed
  show ?thesis using b u assms(3,4)
    by (auto simp: user_sbrk_def Let_def word_less_def HEAP_END_def HEAP_def HEAP_SIZE_def)
qed

lemma user_sbrk_stays:
  assumes "HEAP \<le> brk" "brk \<le> HEAP_END" 
  shows "HEAP \<le> snd (user_sbrk increment brk)" "snd (user_sbrk increment brk) \<le> HEAP_END"
    "brk \<le> snd (user_sbrk increment brk)"
  using assms by (auto simp: user_sbrk_def Let_def)

end
