(* ===== verification/Snake.thy ===== *)
theory Snake
  imports Prelude
begin

text \<open>
  The snake game (\<open>src/user/snake\<close>), the largest user program.  The linked list of nodes from the
  head on is a list of positions; the memory pool of \<open>malloc\<close> is its offset.  The values that
  successive calls of \<open>current_clock\<close> return are an argument, since they are the game's only source
  of randomness, and so is the command read from the message queue.  A turn ends with a new
  state or with the program's \<open>exit\<close>; a search for food that never ends has no result.  The theory
  shows that the snake stays on the board, never crosses itself and never outgrows its memory.
\<close>

unbundle bit_operations_syntax

section \<open>The code\<close>

definition LINES :: int where "LINES = 20"
definition COLUMNS :: int where "COLUMNS = 20"
definition MEMORY_SIZE :: nat where "MEMORY_SIZE = 1000"

datatype direction_t = NORTH | EAST | WEST | SOUTH

record position_t =
  pos_i :: int
  pos_j :: int

record snake_t =
  nodes :: "position_t list"
  direction :: direction_t

record game_t =
  snake :: snake_t
  food :: position_t
  speed :: int
  pool_offset :: nat

datatype 'a outcome = Goes_on 'a | Exits int

text \<open>\<open>malloc\<close> with its global \<open>offset\<close>; no result is \<open>exit(-1)\<close>.  A node and a snake have 16 bytes.\<close>

definition pool_malloc :: "nat \<Rightarrow> nat \<Rightarrow> nat option" where
  "pool_malloc sz ofs = (if ofs + sz > MEMORY_SIZE then None else Some (ofs + sz))"

definition random_case :: "u64 \<Rightarrow> position_t" where
  "random_case clock =
     (let j = c_mod (int32 (sint (clock XOR 0x8172f162019a89ff))) COLUMNS;
          i = c_mod (int32 (sint ((word_of_int j :: u64) XOR 0xf22af2f8849e1b15))) LINES
      in \<lparr>pos_i = i, pos_j = j\<rparr>)"

fun snake_in_case :: "position_t list \<Rightarrow> position_t \<Rightarrow> bool" where
  "snake_in_case [] target = False"
| "snake_in_case (p # ps) target =
     (if pos_i p = pos_i target \<and> pos_j p = pos_j target then True else snake_in_case ps target)"

definition create_snake :: "nat \<Rightarrow> (snake_t \<times> nat) option" where
  "create_snake ofs =
     do {
       o1 \<leftarrow> pool_malloc 16 ofs;
       o2 \<leftarrow> pool_malloc 16 o1;
       o3 \<leftarrow> pool_malloc 16 o2;
       Some (\<lparr>nodes = [\<lparr>pos_i = 5, pos_j = 6\<rparr>, \<lparr>pos_i = 5, pos_j = 5\<rparr>], direction = WEST\<rparr>, o3)
     }"

definition step_to :: "direction_t \<Rightarrow> position_t \<Rightarrow> position_t" where
  "step_to d p =
     (case d of
        NORTH \<Rightarrow> p\<lparr>pos_i := c_mod (pos_i p - 1) LINES\<rparr>
      | SOUTH \<Rightarrow> p\<lparr>pos_i := c_mod (pos_i p + 1) LINES\<rparr>
      | EAST \<Rightarrow> p\<lparr>pos_j := c_mod (pos_j p - 1) COLUMNS\<rparr>
      | WEST \<Rightarrow> p\<lparr>pos_j := c_mod (pos_j p + 1) COLUMNS\<rparr>)"

definition get_next_case :: "snake_t \<Rightarrow> position_t option" where
  "get_next_case s =
     (case nodes s of [] \<Rightarrow> None | p # ps \<Rightarrow> Some (step_to (direction s) p))"

definition is_food_position :: "game_t \<Rightarrow> position_t \<Rightarrow> bool" where
  "is_food_position g p \<longleftrightarrow> pos_i (food g) = pos_i p \<and> pos_j (food g) = pos_j p"

datatype square = Snake_square | Food_square | Free_square

definition print_game :: "game_t \<Rightarrow> square list list" where
  "print_game g =
     map (\<lambda>i. map (\<lambda>j.
       if snake_in_case (nodes (snake g)) \<lparr>pos_i = i, pos_j = j\<rparr> then Snake_square
       else if is_food_position g \<lparr>pos_i = i, pos_j = j\<rparr> then Food_square
       else Free_square) [0..COLUMNS - 1]) [0..LINES - 1]"

text \<open>The loop that draws food positions until one is not on the snake.\<close>

fun place_food :: "u64 list \<Rightarrow> position_t list \<Rightarrow> position_t option" where
  "place_food [] ns = None"
| "place_food (c # clocks) ns =
     (let f = random_case c in if snake_in_case ns f then place_food clocks ns else Some f)"

text \<open>The loop that moves every node to the position of the one before it.\<close>

fun shift_nodes :: "position_t \<Rightarrow> position_t list \<Rightarrow> position_t list" where
  "shift_nodes prev [] = []"
| "shift_nodes prev (p # ps) = prev # shift_nodes p ps"

definition move_snake :: "u64 list \<Rightarrow> game_t \<Rightarrow> game_t outcome option" where
  "move_snake clocks g =
     do {
       let s = snake g;
       next_pos \<leftarrow> get_next_case s;
       if snake_in_case (nodes s) next_pos then Some (Exits 0)
       else if is_food_position g next_pos then
         (case pool_malloc 16 (pool_offset g) of
            None \<Rightarrow> Some (Exits (- 1))
          | Some ofs \<Rightarrow> do {
              let ns = food g # nodes s;
              f \<leftarrow> place_food clocks ns;
              Some (Goes_on (g\<lparr>snake := s\<lparr>nodes := ns\<rparr>, food := f, pool_offset := ofs,
                speed := speed g - c_quot (speed g * 5) 100\<rparr>)) })
       else Some (Goes_on (g\<lparr>snake := s\<lparr>nodes := next_pos # shift_nodes (hd (nodes s)) (tl (nodes s))\<rparr>\<rparr>))
     }"

text \<open>The characters \<open>k w j s l d h a\<close>.\<close>

definition steer :: "int \<Rightarrow> direction_t \<Rightarrow> direction_t" where
  "steer cmd d =
     (if cmd = 107 \<or> cmd = 119 then (if d \<noteq> SOUTH then NORTH else d)
      else if cmd = 106 \<or> cmd = 115 then (if d \<noteq> NORTH then SOUTH else d)
      else if cmd = 108 \<or> cmd = 100 then (if d \<noteq> EAST then WEST else d)
      else if cmd = 104 \<or> cmd = 97 then (if d \<noteq> WEST then EAST else d)
      else d)"

definition new_game :: "u64 \<Rightarrow> game_t option" where
  "new_game clock =
     do {
       (s, ofs) \<leftarrow> create_snake 0;
       Some \<lparr>snake = s, food = random_case clock, speed = 500, pool_offset = ofs\<rparr>
     }"

text \<open>One turn of the loop of \<open>main\<close>: the command, if there is one, and the move.\<close>

definition turn :: "int option \<times> u64 list \<Rightarrow> game_t \<Rightarrow> game_t outcome option" where
  "turn input g =
     (case input of (cmd, clocks) \<Rightarrow>
       let g1 = (case cmd of None \<Rightarrow> g
         | Some c \<Rightarrow> g\<lparr>snake := (snake g)\<lparr>direction := steer c (direction (snake g))\<rparr>\<rparr>)
       in move_snake clocks g1)"

fun play :: "(int option \<times> u64 list) list \<Rightarrow> game_t \<Rightarrow> game_t outcome option" where
  "play [] g = Some (Goes_on g)"
| "play (i # is) g =
     do {
       r \<leftarrow> turn i g;
       case r of Goes_on g' \<Rightarrow> play is g' | Exits c \<Rightarrow> Some (Exits c)
     }"

section \<open>The board\<close>

definition on_board :: "position_t \<Rightarrow> bool" where
  "on_board p \<longleftrightarrow> 0 \<le> pos_i p \<and> pos_i p < LINES \<and> 0 \<le> pos_j p \<and> pos_j p < COLUMNS"

text \<open>A connected snake that does not cross itself, and the use of the memory pool.\<close>

definition game_ok :: "game_t \<Rightarrow> bool" where
  "game_ok g \<longleftrightarrow>
     (let ns = nodes (snake g) in
      2 \<le> length ns \<and> distinct ns \<and> list_all on_board ns \<and> on_board (food g) \<and>
      successively (\<lambda>p q. \<exists>d. p = step_to d q) ns \<and>
      pool_offset g = 16 * (length ns + 1) \<and> pool_offset g \<le> MEMORY_SIZE \<and>
      0 < speed g \<and> speed g \<le> 500)"

lemma c_mod_range [simp]: "0 < b \<Longrightarrow> 0 \<le> c_mod a b \<and> c_mod a b < b"
  by (simp add: c_mod_eq_mod)

lemma snake_in_case_iff: "snake_in_case ns p \<longleftrightarrow> p \<in> set ns"
  by (induction ns) auto

lemma is_food_position_iff: "is_food_position g p \<longleftrightarrow> p = food g"
  by (auto simp: is_food_position_def)

lemma shift_nodes_eq: "shift_nodes p ps = butlast (p # ps)"
  by (induction ps arbitrary: p) auto

lemma on_board_step: "on_board p \<Longrightarrow> on_board (step_to d p)"
  by (cases d) (auto simp: on_board_def step_to_def LINES_def COLUMNS_def)

lemma on_board_random: "on_board (random_case c)"
  by (simp add: on_board_def random_case_def LINES_def COLUMNS_def Let_def)

lemma place_food_free: "place_food clocks ns = Some f \<Longrightarrow> f \<notin> set ns \<and> on_board f"
  by (induction clocks) (auto simp: Let_def snake_in_case_iff on_board_random split: if_splits)

lemma successively_butlast: "successively P xs \<Longrightarrow> successively P (butlast xs)"
  by (cases xs rule: rev_cases) (auto simp: successively_append_iff)

lemma start_connected: "\<exists>d. \<lparr>pos_i = 5, pos_j = 6\<rparr> = step_to d \<lparr>pos_i = 5, pos_j = 5\<rparr>"
  by (rule exI [of _ WEST]) (simp add: step_to_def c_mod_eq_mod COLUMNS_def)

lemma new_game_ok: "new_game c = Some g \<Longrightarrow> game_ok g"
  using on_board_random
  by (auto simp: new_game_def create_snake_def pool_malloc_def game_ok_def MEMORY_SIZE_def
      on_board_def LINES_def COLUMNS_def start_connected)

lemma speed_step: "0 < v \<Longrightarrow> 0 < v - c_quot (v * 5) 100 \<and> v - c_quot (v * 5) 100 \<le> v"
  using int_div_less_self [of v 20] by (simp add: c_quot_nonneg)

lemma move_keeps_ok:
  assumes ok: "game_ok g" and m: "move_snake clocks g = Some (Goes_on g')"
  shows "game_ok g'"
proof -
  let ?ns = "nodes (snake g)"
  obtain h ps where ns: "?ns = h # ps" "ps \<noteq> []" using ok by (cases ?ns) (force simp: game_ok_def Let_def)+
  let ?p = "step_to (direction (snake g)) h"
  have p: "?p \<notin> set ?ns" using m ns by (auto simp: move_snake_def get_next_case_def snake_in_case_iff Let_def)
  have b: "on_board ?p" using ok ns by (auto simp: game_ok_def Let_def on_board_step)
  show ?thesis
  proof (cases "?p = food g")
    case True
    then obtain f where f: "place_food clocks (?p # ?ns) = Some f" and g': "g' = g\<lparr>snake := (snake g)\<lparr>nodes := ?p # ?ns\<rparr>,
        food := f, pool_offset := pool_offset g + 16, speed := speed g - c_quot (speed g * 5) 100\<rparr>"
      "pool_offset g + 16 \<le> MEMORY_SIZE"
      using m p ns by (auto simp: move_snake_def get_next_case_def snake_in_case_iff is_food_position_iff
          pool_malloc_def Let_def split: if_splits bind_splits)
    show ?thesis
      using ok p b ns place_food_free [OF f] g' speed_step [of "speed g"]
      by (auto simp: game_ok_def Let_def successively_Cons)
  next
    case False
    then have g': "g' = g\<lparr>snake := (snake g)\<lparr>nodes := ?p # butlast ?ns\<rparr>\<rparr>"
      using m p ns by (auto simp: move_snake_def get_next_case_def snake_in_case_iff is_food_position_iff
          shift_nodes_eq Let_def)
    have "successively (\<lambda>p q. \<exists>d. p = step_to d q) (?p # butlast ?ns)"
    proof -
      have "successively (\<lambda>p q. \<exists>d. p = step_to d q) (butlast ?ns)"
        using ok by (intro successively_butlast) (simp add: game_ok_def Let_def)
      moreover have "butlast ?ns = h # butlast ps" using ns by simp
      ultimately show ?thesis by (auto simp: successively.simps)
    qed
    moreover have "list_all on_board (butlast ?ns)" "distinct (butlast ?ns)" "?p \<notin> set (butlast ?ns)"
      using ok p by (auto simp: game_ok_def Let_def list_all_iff distinct_butlast dest: in_set_butlastD)
    ultimately show ?thesis using ok b g' ns by (auto simp: game_ok_def Let_def)
  qed
qed

lemma turn_keeps_ok:
  assumes "game_ok g" "turn i g = Some (Goes_on g')"
  shows "game_ok g'"
proof -
  obtain cmd clocks where i: "i = (cmd, clocks)" by (cases i)
  let ?g = "case cmd of None \<Rightarrow> g
    | Some c \<Rightarrow> g\<lparr>snake := (snake g)\<lparr>direction := steer c (direction (snake g))\<rparr>\<rparr>"
  have "game_ok ?g" using assms(1) by (auto simp: game_ok_def split: option.split)
  then show ?thesis using assms(2) by (auto simp: turn_def i Let_def intro: move_keeps_ok)
qed

lemma play_keeps_ok: "game_ok g \<Longrightarrow> play is g = Some (Goes_on g') \<Longrightarrow> game_ok g'"
  by (induction "is" g rule: play.induct)
    (auto dest: turn_keeps_ok split: bind_splits outcome.splits)

text \<open>
  C40.  Whatever the commands and the clock, a game that goes on has a connected snake on the board
  that does not cross itself, has at most 61 nodes, and uses 16 bytes of the pool per node and 16
  for the snake; the food is on the board and the delay is positive.
\<close>

theorem snake_stays_valid:
  assumes "new_game clock = Some g0" "play is g0 = Some (Goes_on g)"
  shows "game_ok g \<and> length (nodes (snake g)) \<le> 61"
proof -
  have "game_ok g" using assms new_game_ok play_keeps_ok by blast
  then show ?thesis by (simp add: game_ok_def Let_def MEMORY_SIZE_def)
qed

text \<open>Two turns, the first with the command \<open>j\<close>.\<close>

theorem snake_stays_valid_witness:
  "\<exists>g0 g. new_game 0 = Some g0 \<and> play [(Some 106, []), (None, [])] g0 = Some (Goes_on g) \<and>
     nodes (snake g) = [\<lparr>pos_i = 7, pos_j = 6\<rparr>, \<lparr>pos_i = 6, pos_j = 6\<rparr>] \<and> game_ok g"
proof -
  have "random_case 0 = \<lparr>pos_i = 14, pos_j = 7\<rparr>"
    by (simp add: random_case_def) code_simp
  then have g: "new_game 0 = Some \<lparr>snake = \<lparr>nodes = [\<lparr>pos_i = 5, pos_j = 6\<rparr>, \<lparr>pos_i = 5, pos_j = 5\<rparr>],
      direction = WEST\<rparr>, food = \<lparr>pos_i = 14, pos_j = 7\<rparr>, speed = 500, pool_offset = 48\<rparr>"
    (is "_ = Some ?g")
    by (simp add: new_game_def create_snake_def pool_malloc_def MEMORY_SIZE_def)
  have "\<exists>g. play [(Some 106, []), (None, [])] ?g = Some (Goes_on g) \<and>
      nodes (snake g) = [\<lparr>pos_i = 7, pos_j = 6\<rparr>, \<lparr>pos_i = 6, pos_j = 6\<rparr>]"
    by (simp add: turn_def move_snake_def get_next_case_def step_to_def steer_def is_food_position_def
        c_mod_eq_mod LINES_def)
  then show ?thesis using g snake_stays_valid [OF g] by blast
qed

text \<open>
  The row of a random square is computed from its column alone, so that food appears on at most
  20 of the 400 squares of the board.
\<close>

lemma food_squares: "finite (range random_case) \<and> card (range random_case) \<le> 20"
proof -
  define row where "row j = c_mod (int32 (sint ((word_of_int j :: u64) XOR 0xf22af2f8849e1b15))) LINES" for j
  have "range random_case \<subseteq> (\<lambda>j. \<lparr>pos_i = row j, pos_j = j\<rparr>) ` {0..<20}"
    using c_mod_range [of COLUMNS] by (auto simp: random_case_def row_def Let_def COLUMNS_def)
  moreover have "card ((\<lambda>j. \<lparr>pos_i = row j, pos_j = j\<rparr>) ` {0..<20 :: int}) \<le> 20"
    using card_image_le [of "{0..<20 :: int}"] by fastforce
  ultimately show ?thesis
    by (meson card_mono finite_atLeastLessThan_int finite_imageI finite_subset order_trans)
qed

end
