(* ===== verification/Test_Math.thy ===== *)
theory Test_Math
  imports Prelude
begin

text \<open>
  The arithmetic of the test programs (\<open>src/user/tests/tlib/math.c\<close>, the same code as
  \<open>src/kernel/tests/math.c\<close>): division of 64-bit numbers by shifting and subtracting,
  multiplication by parts of 16 bits, and the random number generator.  The theory shows that the
  two routines compute the division and the product of 64-bit words, and which sequence the
  generator runs through.
\<close>

unbundle bit_operations_syntax

section \<open>The code\<close>

text \<open>The first loop of \<open>div64\<close> doubles the divisor while it stays below the dividend.\<close>

partial_function (option) div64_scale :: "u64 \<Rightarrow> u64 \<Rightarrow> u64 \<Rightarrow> (u64 \<times> u64) option" where
  "div64_scale x d mul =
     (if drop_bit 32 d AND 0x80000000 \<noteq> 0 then Some (d, mul)
      else let newd = d + d in
        if newd > x then Some (d, mul) else div64_scale x newd (mul + mul))"

lemma half_less: "m div 2 \<noteq> 0 \<Longrightarrow> unat (m div 2) < unat (m :: u64)"
  by (cases "m = 0") (auto simp: unat_div unat_gt_0 intro!: div_less_dividend)

text \<open>The second one halves it and subtracts where it can.\<close>

function div64_reduce :: "u64 \<Rightarrow> u64 \<Rightarrow> u64 \<Rightarrow> u64 \<Rightarrow> u64 \<times> u64" where
  "div64_reduce q x d mul =
     (let mul' = mul div 2; d' = d div 2 in
      if mul' = 0 then (q, x)
      else if x < d' then div64_reduce q x d' mul'
      else div64_reduce (q + mul') (x - d') d' mul')"
  by auto
termination
  by (relation "measure (\<lambda>(q, x, d, mul). unat mul)") (auto intro: half_less)

declare div64_reduce.simps [simp del]

text \<open>The quotient and the remainder stored through \<open>rem\<close>.\<close>

definition div64 :: "u64 \<Rightarrow> u64 \<Rightarrow> (u64 \<times> u64) option" where
  "div64 x d =
     (if d > x \<or> d = 0 then Some (0, x)
      else do {
        (d', mul) \<leftarrow> div64_scale x d 1;
        Some (div64_reduce mul (x - d') d' mul) })"

definition mul64 :: "u64 \<Rightarrow> u64 \<Rightarrow> u64" where
  "mul64 x y =
     (let a = x AND 0xffff; x1 = drop_bit 16 x;
          b = x1 AND 0xffff; x2 = drop_bit 16 x1;
          c = x2 AND 0xffff; x3 = drop_bit 16 x2;
          d = x3 AND 0xffff;
          e = y AND 0xffff; y1 = drop_bit 16 y;
          f = y1 AND 0xffff; y2 = drop_bit 16 y1;
          g = y2 AND 0xffff; y3 = drop_bit 16 y2;
          h = y3 AND 0xffff;
          res1 = push_bit 16 (d * e + c * f + b * g + a * h);
          res2 = push_bit 16 (res1 + c * e + b * f + a * g);
          res3 = push_bit 16 (res2 + b * e + a * f)
      in res3 + a * e)"

definition multiplier :: u64 where "multiplier = 0x5DEECE66D"
definition addend :: u64 where "addend = 0xB"
definition mask48 :: u64 where "mask48 = push_bit 48 1 - 1"

text \<open>The generator returns the number and the new value of \<open>_seed\<close>; \<open>1 \<le> bits \<le> 32\<close>.\<close>

definition randBits :: "nat \<Rightarrow> u64 \<Rightarrow> u64 \<times> u64" where
  "randBits bits seed =
     (let nextseed = (mul64 seed multiplier + addend) AND mask48;
          rbits = drop_bit 16 nextseed
      in (drop_bit (32 - bits) rbits, nextseed))"

definition randShort :: "u64 \<Rightarrow> int \<times> u64" where
  "randShort seed = (case randBits 15 seed of (r, seed') \<Rightarrow> (int16 (uint r), seed'))"

definition rand :: "u64 \<Rightarrow> u64 \<times> u64" where
  "rand seed = randBits 32 seed"

section \<open>Division\<close>

lemma div64_reduce_correct:
  assumes "unat mul = 2 ^ k" "unat d = d0 * 2 ^ k" "unat x < d0 * 2 ^ k" "0 < d0"
    "unat q + unat x div d0 < 2 ^ 64"
  shows "\<exists>q' x'. div64_reduce q x d mul = (q', x') \<and>
    unat q' = unat q + unat x div d0 \<and> unat x' = unat x mod d0"
  using assms
proof (induction k arbitrary: q x d mul)
  case 0
  then have "mul div 2 = 0" by (simp add: unat_div flip: unat_eq_0)
  then show ?case using 0 by (simp add: div64_reduce.simps [of q])
next
  case (Suc k)
  let ?m = "mul div 2" and ?d = "d div 2"
  have m: "unat ?m = 2 ^ k" and d: "unat ?d = d0 * 2 ^ k" using Suc.prems(1,2) by (simp_all add: unat_div)
  then have nz: "?m \<noteq> 0" by (metis unat_0 power_not_zero zero_neq_numeral)
  show ?case
  proof (cases "x < ?d")
    case True
    then have "unat x < d0 * 2 ^ k" using d by (simp add: word_less_nat_alt)
    then show ?thesis
      using Suc.IH [OF m d _ Suc.prems(4,5)] True nz by (simp add: div64_reduce.simps [of q])
  next
    case False
    then have le: "d0 * 2 ^ k \<le> unat x" using d by (simp add: word_le_nat_alt not_less)
    then have x': "unat (x - ?d) = unat x - d0 * 2 ^ k" using d by (simp add: unat_sub word_le_nat_alt)
    have split: "unat x = (unat x - d0 * 2 ^ k) + 2 ^ k * d0" using le by (simp add: mult.commute)
    have dv: "unat x div d0 = (unat x - d0 * 2 ^ k) div d0 + 2 ^ k"
      using Suc.prems(4) by (subst split) simp
    have md: "unat x mod d0 = (unat x - d0 * 2 ^ k) mod d0" by (subst split) simp
    have q': "unat (q + ?m) = unat q + 2 ^ k"
      using Suc.prems(5) dv m by (subst unat_add_lem [THEN iffD1]) auto
    have "\<exists>q' r'. div64_reduce (q + ?m) (x - ?d) ?d ?m = (q', r') \<and>
        unat q' = unat (q + ?m) + unat (x - ?d) div d0 \<and> unat r' = unat (x - ?d) mod d0"
      using Suc.prems(3,5) Suc.prems(4) x' q' dv by (intro Suc.IH [OF m d]) auto
    then show ?thesis
      using False nz x' q' dv md by (simp add: div64_reduce.simps [of q] Let_def add_ac)
  qed
qed

lemma top_bit_test: "drop_bit 32 d AND 0x80000000 \<noteq> 0 \<longleftrightarrow> 2 ^ 63 \<le> unat (d :: u64)"
proof -
  have "drop_bit 32 d AND 0x80000000 \<noteq> 0 \<longleftrightarrow> bit d 63"
    using and_exp_eq_0_iff_not_bit [of "drop_bit 32 d" 31] by (simp add: bit_drop_bit_eq)
  also have "\<dots> \<longleftrightarrow> odd (unat d div 2 ^ 63)"
    using bit_unsigned_iff [of d 63, where 'a = nat] by (simp add: bit_iff_odd)
  also have "\<dots> \<longleftrightarrow> 2 ^ 63 \<le> unat d"
  proof -
    have "unat d div 2 ^ 63 < 2" using unsigned_less [of d, where 'a = nat] by (simp add: div_less_iff_less_mult)
    then show ?thesis by (cases "unat d div 2 ^ 63 = 0") (auto simp: div_eq_0_iff less_2_cases_iff)
  qed
  finally show ?thesis .
qed

lemma div64_scale_correct:
  assumes "unat mul = 2 ^ k" "unat d = d0 * 2 ^ k" "unat d \<le> unat x" "0 < d0"
  shows "\<exists>d' mul' k'. div64_scale x d mul = Some (d', mul') \<and> unat mul' = 2 ^ k' \<and>
    unat d' = d0 * 2 ^ k' \<and> unat d' \<le> unat x \<and> unat x < 2 * unat d'"
  using assms
proof (induction "2 ^ 64 - unat d" arbitrary: d mul k rule: less_induct)
  case less
  note x = unsigned_less [of x, where 'a = nat, simplified]
  consider (top) "2 ^ 63 \<le> unat d" | (stop) "unat d < 2 ^ 63" "x < d + d"
    | (step) "unat d < 2 ^ 63" "d + d \<le> x" by force
  then show ?case
  proof cases
    case top
    then show ?thesis
      using less.prems x by (intro exI [of _ d] exI [of _ mul] exI [of _ k])
        (simp add: div64_scale.simps top_bit_test)
  next
    case stop
    then have "unat (d + d) = 2 * unat d" by (simp add: unat_word_ariths)
    then have "unat x < 2 * unat d" using stop(2) by (simp add: word_less_nat_alt)
    then show ?thesis
      using less.prems stop by (intro exI [of _ d] exI [of _ mul] exI [of _ k])
        (simp add: div64_scale.simps top_bit_test Let_def)
  next
    case step
    have two: "unat (d + d) = 2 * unat d" using step(1) by (simp add: unat_word_ariths)
    then have dd: "unat (d + d) = d0 * 2 ^ Suc k" using less.prems(2) by simp
    have le: "unat d \<ge> 2 ^ k" using less.prems(2,4) by simp
    have mm: "unat (mul + mul) = 2 ^ Suc k"
      using step(1) less.prems(1) le by (simp add: unat_word_ariths)
    have "2 ^ 64 - unat (d + d) < 2 ^ 64 - unat d"
      unfolding two using step(1) le less_le_trans [of 0 "2 ^ k" "unat d"] by simp
    from less.hyps [OF this mm dd _ less.prems(4)] step show ?thesis
      by (simp add: div64_scale.simps [of x d] top_bit_test Let_def word_le_nat_alt word_less_nat_alt)
  qed
qed

text \<open>
  C39.  Equivalence: \<open>div64\<close> always returns, and returns the quotient and the remainder of 64-bit
  division; a zero divisor gives zero and the dividend.
\<close>

theorem div64_divides: "div64 x d = Some (x div d, x mod d)"
proof (cases "d > x \<or> d = 0")
  case True
  then show ?thesis by (auto simp: div64_def div_word_less mod_word_less)
next
  case False
  then have d: "0 < unat d" "unat d \<le> unat x" by (auto simp: unat_gt_0 word_le_nat_alt not_less)
  obtain d' mul k where s: "div64_scale x d 1 = Some (d', mul)" "unat mul = 2 ^ k"
    "unat d' = unat d * 2 ^ k" "unat d' \<le> unat x" "unat x < 2 * unat d'"
    using div64_scale_correct [of 1 0 d "unat d" x] d by auto
  have sub: "unat (x - d') = unat x - unat d * 2 ^ k" using s(3,4) by (simp add: unat_sub word_le_nat_alt)
  have split: "unat x = unat (x - d') + 2 ^ k * unat d" using sub s(3,4) by (simp add: mult.commute)
  have dv: "unat x div unat d = 2 ^ k + unat (x - d') div unat d"
    using d(1) by (subst split) simp
  moreover have "unat x div unat d < 2 ^ 64"
    using le_less_trans [OF div_le_dividend unsigned_less [of x, where 'a = nat]] by simp
  ultimately have "\<exists>q r. div64_reduce mul (x - d') d' mul = (q, r) \<and>
      unat q = unat mul + unat (x - d') div unat d \<and> unat r = unat (x - d') mod unat d"
    using s d sub by (intro div64_reduce_correct [of mul k]) auto
  moreover have "unat x mod unat d = unat (x - d') mod unat d" by (subst split) simp
  ultimately have "div64_reduce mul (x - d') d' mul = (x div d, x mod d)"
    using s(2) dv by (auto simp: word_unat_eq_iff unat_div unat_mod)
  then show ?thesis using False s(1) by (simp add: div64_def)
qed

section \<open>Multiplication and random numbers\<close>

lemma word_parts: "(x :: u64) = (x AND 0xffff) + 65536 * drop_bit 16 x"
  using bits_ident [of 16 x] by (simp add: push_bit_eq_mult take_bit_eq_mask mask_eq_exp_minus_1 ac_simps)

lemma product_of_parts:
  fixes a b c d e f g h w :: "'a::comm_ring_1"
  assumes "w * w * w * w = 0"
  shows "w * (w * (w * (d * e + c * f + b * g + a * h) + c * e + b * f + a * g) + b * e + a * f) + a * e
    = (a + w * (b + w * (c + w * d))) * (e + w * (f + w * (g + w * h)))" (is "?l = ?r")
proof -
  have "?r = ?l + w * w * w * w * (b * h + c * g + d * f + w * (c * h + d * g) + w * w * (d * h))"
    by (simp add: algebra_simps)
  then show ?thesis by (simp add: assms)
qed

lemma four_parts:
  fixes x :: u64
  shows "x = (x AND 0xffff) + 65536 * ((drop_bit 16 x AND 0xffff) + 65536 *
    ((drop_bit 32 x AND 0xffff) + 65536 * (drop_bit 48 x AND 0xffff)))"
proof -
  have "drop_bit 64 x = 0" by (rule bit_word_eqI) (simp add: bit_drop_bit_eq)
  then have "drop_bit 48 x = drop_bit 48 x AND 0xffff"
    using word_parts [of "drop_bit 48 x"] by simp
  moreover have "drop_bit 32 x = (drop_bit 32 x AND 0xffff) + 65536 * drop_bit 48 x"
    using word_parts [of "drop_bit 32 x"] by simp
  moreover have "drop_bit 16 x = (drop_bit 16 x AND 0xffff) + 65536 * drop_bit 32 x"
    using word_parts [of "drop_bit 16 x"] by simp
  ultimately show ?thesis using word_parts [of x] by argo
qed

lemma mul64_eq: "mul64 x y = x * y"
proof -
  have shift: "push_bit 16 z = 65536 * z" "drop_bit 16 (drop_bit 16 z) = drop_bit 32 z"
    "drop_bit 32 (drop_bit 16 z) = drop_bit 48 z" for z :: u64
    by (simp_all add: push_bit_eq_mult mult.commute)
  have zero: "(65536 :: u64) * 65536 * 65536 * 65536 = 0" by simp
  have "mul64 x y =
      ((x AND 0xffff) + 65536 * ((drop_bit 16 x AND 0xffff) + 65536 *
        ((drop_bit 32 x AND 0xffff) + 65536 * (drop_bit 48 x AND 0xffff)))) *
      ((y AND 0xffff) + 65536 * ((drop_bit 16 y AND 0xffff) + 65536 *
        ((drop_bit 32 y AND 0xffff) + 65536 * (drop_bit 48 y AND 0xffff))))"
    unfolding mul64_def Let_def shift by (rule product_of_parts [OF zero])
  then show ?thesis by (simp only: four_parts [symmetric])
qed

lemma seed_step: "unat ((mul64 s multiplier + addend) AND mask48) = (unat s * 0x5DEECE66D + 11) mod 2 ^ 48"
proof -
  have "mask48 = mask 48" by (simp add: mask48_def mask_eq_exp_minus_1)
  then have "w AND mask48 = take_bit 48 w" for w by (simp only: take_bit_eq_mask)
  then have "unat (w AND mask48) = unat w mod 2 ^ 48" for w
    by (simp add: take_bit_eq_mod unat_mod)
  moreover have "unat (s * 0x5DEECE66D + 11) mod 2 ^ 48 = (unat s * 0x5DEECE66D + 11) mod 2 ^ 48"
    by (simp add: unat_word_ariths mod_mod_cancel mod_simps)
  ultimately show ?thesis by (simp add: mul64_eq multiplier_def addend_def)
qed

lemma unat_drop_bit: "unat (drop_bit k (w :: u64)) = unat w div 2 ^ k"
  using unat_drop_bit_eq [of k w] by (simp only: drop_bit_eq_div [of k "unat w"])

text \<open>
  The generator runs through the linear congruential sequence with multiplier \<open>0x5DEECE66D\<close> and
  increment 11 modulo \<open>2 ^ 48\<close> and returns its top bits: a number of 32 bits for \<open>rand\<close>, one of 15
  bits, never negative, for \<open>randShort\<close>.
\<close>

lemma rand_sequence:
  "unat (snd (rand s)) = (unat s * 0x5DEECE66D + 11) mod 2 ^ 48 \<and>
   unat (fst (rand s)) = unat (snd (rand s)) div 2 ^ 16 \<and> unat (fst (rand s)) < 2 ^ 32 \<and>
   fst (randShort s) = int (unat (snd (rand s)) div 2 ^ 33) \<and>
   0 \<le> fst (randShort s) \<and> fst (randShort s) < 2 ^ 15"
proof -
  define w where "w = (mul64 s multiplier + addend) AND mask48"
  have w: "unat w = (unat s * 0x5DEECE66D + 11) mod 2 ^ 48" unfolding w_def by (rule seed_step)
  then have "unat w < 2 ^ 48" by simp
  then have b: "unat w div 2 ^ 16 < 2 ^ 32" "unat w div 2 ^ 33 < 2 ^ 15"
    by (simp_all add: div_less_iff_less_mult)
  then have "int16 (int (unat w div 2 ^ 33)) = int (unat w div 2 ^ 33)"
    by (intro int16_id) simp_all
  moreover have "unat (drop_bit 17 (drop_bit 16 w)) = unat w div 2 ^ 33"
    using unat_drop_bit [of 33 w] by simp
  moreover have r: "randBits k s = (drop_bit (32 - k) (drop_bit 16 w), w)" for k
    by (simp only: randBits_def Let_def w_def)
  have "rand s = (drop_bit 16 w, w)" using r [of 32] by (simp add: rand_def)
  moreover have "randShort s = (int16 (int (unat (drop_bit 17 (drop_bit 16 w)))), w)"
    using r [of 15] by (simp add: randShort_def)
  ultimately show ?thesis
    using b w unat_drop_bit [of 16 w] by (simp only: fst_conv snd_conv) simp
qed

end
