(* ===== verification/Philosophers.thy ===== *)
theory Philosophers
  imports Prelude
begin

text \<open>
  The dining philosophers of the test suite (\<open>user/tests/test20\<close>), as five processes that go through
  \<open>philosophe.c\<close> at their own pace, over the locks of \<open>user/tests/tlib/xlock.c\<close>.  The tests are built
  with \<open>WITH_MSG\<close>: a lock is a message queue of capacity 2, of which only the number of messages and
  the processes that wait for one matter.  A position in the program is a call of a lock or the body
  of a critical section; the arrays in shared memory are read and written only in these bodies.
  What is proved: neighbours never eat at the same time, no assertion fails, and every run ends with
  all philosophers having eaten six times.
\<close>

section \<open>Locks made of message queues\<close>

text \<open>
  \<open>preceive\<close> of process \<open>i\<close> takes a message or joins the waiting processes (the philosophers have the
  same priority, so these are served in turn); \<open>psend\<close> gives the message to the first of them, if
  there is one; \<open>pcount\<close> is negative while processes wait.
\<close>

record xlock =
  msgs :: nat
  receivers :: "nat list"

definition xscreate :: xlock where
  "xscreate = \<lparr>msgs = 0, receivers = []\<rparr>"

definition lock_preceive :: "nat \<Rightarrow> xlock \<Rightarrow> bool \<times> xlock" where
  "lock_preceive i l =
     (if msgs l > 0 then (True, l\<lparr>msgs := msgs l - 1\<rparr>) else (False, l\<lparr>receivers := receivers l @ [i]\<rparr>))"

definition lock_psend :: "xlock \<Rightarrow> nat option \<times> xlock" where
  "lock_psend l =
     (case receivers l of [] \<Rightarrow> (None, l\<lparr>msgs := msgs l + 1\<rparr>) | j # js \<Rightarrow> (Some j, l\<lparr>receivers := js\<rparr>))"

definition lock_pcount :: "xlock \<Rightarrow> int" where
  "lock_pcount l = (if receivers l \<noteq> [] then - int (length (receivers l)) else int (msgs l))"

section \<open>The philosophers\<close>

definition NR_PHILO :: nat where "NR_PHILO = 5"

text \<open>
  The critical sections of a round: \<open>manger\<close> and \<open>penser\<close> have two each, \<open>main\<close> has a last one.  A
  philosopher is before a section (about to call \<open>xwait\<close>), queued in that call, in the section,
  leaving it (about to send the message of \<open>xsignal\<close>), or checking the count behind the send;
  around its own lock, it is about to wait or waits.  \<open>Failed\<close> is a failed assertion.
\<close>

datatype sc = Prendre | Manger1 | Manger2 | Poser | Penser1 | Penser2 | Fin

datatype pc = Before sc | Queued sc | Inner sc | Leaving sc | Checking sc
  | BeforeOwn | QueuedOwn | Done | Failed

text \<open>The locks of \<open>struct philo\<close>: \<open>mutex_philo\<close> and \<open>s[i]\<close>; \<open>ph_k\<close> is the loop counter of \<open>main\<close>.\<close>

datatype lock_id = Mutex | Own nat

record dinner =
  ph_f :: "nat \<Rightarrow> int"
  ph_bloque :: "nat \<Rightarrow> int"
  ph_etat :: "nat \<Rightarrow> char"
  ph_locks :: "lock_id \<Rightarrow> xlock"
  ph_pc :: "nat \<Rightarrow> pc"
  ph_k :: "nat \<Rightarrow> nat"

definition philo_go :: "nat \<Rightarrow> pc \<Rightarrow> dinner \<Rightarrow> dinner" where
  "philo_go i p d = d\<lparr>ph_pc := (ph_pc d)(i := p)\<rparr>"

text \<open>Where a philosopher goes on when the message it waits for arrives.\<close>

fun philo_resume :: "pc \<Rightarrow> pc" where
  "philo_resume (Queued c) = Inner c"
| "philo_resume QueuedOwn = Before Manger1"
| "philo_resume p = p"

definition xwait :: "nat \<Rightarrow> lock_id \<Rightarrow> pc \<Rightarrow> pc \<Rightarrow> dinner \<Rightarrow> dinner" where
  "xwait i n got waits d =
     (case lock_preceive i (ph_locks d n) of
        (ok, l) \<Rightarrow> philo_go i (if ok then got else waits) (d\<lparr>ph_locks := (ph_locks d)(n := l)\<rparr>))"

definition send :: "lock_id \<Rightarrow> dinner \<Rightarrow> dinner" where
  "send n d =
     (case lock_psend (ph_locks d n) of
        (None, l) \<Rightarrow> d\<lparr>ph_locks := (ph_locks d)(n := l)\<rparr>
      | (Some j, l) \<Rightarrow> philo_go j (philo_resume (ph_pc d j)) (d\<lparr>ph_locks := (ph_locks d)(n := l)\<rparr>))"

text \<open>
  \<open>xsignal\<close> on the lock of a philosopher, inside a critical section, with the check of the count right
  behind the send: the caller holds the mutex, so nobody else can send in between.
\<close>

definition xsignal :: "lock_id \<Rightarrow> dinner \<Rightarrow> dinner option" where
  "xsignal n d = (let d' = send n d in if lock_pcount (ph_locks d' n) < 2 then Some d' else None)"

definition test :: "nat \<Rightarrow> dinner \<Rightarrow> bool" where
  "test i d \<longleftrightarrow> ph_f d i = 0 \<and> ph_f d ((i + 1) mod NR_PHILO) = 0"

definition prendre_fourchettes :: "nat \<Rightarrow> dinner \<Rightarrow> dinner option" where
  "prendre_fourchettes i d =
     (if test i d then
        xsignal (Own i) (d\<lparr>ph_f := (ph_f d)(i := 1, (i + 1) mod NR_PHILO := 1)\<rparr>)
      else Some (d\<lparr>ph_bloque := (ph_bloque d)(i := 1)\<rparr>))"

definition poser_gauche :: "nat \<Rightarrow> dinner \<Rightarrow> dinner option" where
  "poser_gauche i d =
     (let l = (i + NR_PHILO - 1) mod NR_PHILO in
      if ph_bloque d l \<noteq> 0 \<and> ph_f d l = 0 then
        xsignal (Own l) (d\<lparr>ph_f := (ph_f d)(l := 1), ph_bloque := (ph_bloque d)(l := 0)\<rparr>)
      else Some (d\<lparr>ph_f := (ph_f d)(i := 0)\<rparr>))"

definition poser_droite :: "nat \<Rightarrow> dinner \<Rightarrow> dinner option" where
  "poser_droite i d =
     (let r = (i + 1) mod NR_PHILO; r2 = (i + 2) mod NR_PHILO in
      if ph_bloque d r \<noteq> 0 \<and> ph_f d r2 = 0 then
        xsignal (Own r) (d\<lparr>ph_f := (ph_f d)(r2 := 1), ph_bloque := (ph_bloque d)(r := 0)\<rparr>)
      else Some (d\<lparr>ph_f := (ph_f d)(r := 0)\<rparr>))"

definition poser_fourchettes :: "nat \<Rightarrow> dinner \<Rightarrow> dinner option" where
  "poser_fourchettes i d = do { d1 \<leftarrow> poser_gauche i d; poser_droite i d1 }"

definition set_etat :: "nat \<Rightarrow> char \<Rightarrow> dinner \<Rightarrow> dinner" where
  "set_etat i c d = d\<lparr>ph_etat := (ph_etat d)(i := c)\<rparr>"

fun section_body :: "sc \<Rightarrow> nat \<Rightarrow> dinner \<Rightarrow> dinner option" where
  "section_body Prendre i d = prendre_fourchettes i d"
| "section_body Manger1 i d = Some (set_etat i CHR ''m'' d)"
| "section_body Manger2 i d = Some (set_etat i CHR ''-'' d)"
| "section_body Poser i d = poser_fourchettes i d"
| "section_body Penser1 i d = Some (set_etat i CHR ''p'' d)"
| "section_body Penser2 i d = Some (set_etat i CHR ''-'' d)"
| "section_body Fin i d = Some (set_etat i CHR ''-'' d)"

text \<open>Where \<open>main\<close> goes on behind a critical section; the loop runs for \<open>k = 0, ..., 5\<close>.\<close>

fun next_pc :: "sc \<Rightarrow> nat \<Rightarrow> pc" where
  "next_pc Prendre n = BeforeOwn"
| "next_pc Manger1 n = Before Manger2"
| "next_pc Manger2 n = Before Poser"
| "next_pc Poser n = Before Penser1"
| "next_pc Penser1 n = Before Penser2"
| "next_pc Penser2 n = (if n + 1 < 6 then Before Prendre else Before Fin)"
| "next_pc Fin n = Done"

definition philo_step :: "nat \<Rightarrow> dinner \<Rightarrow> dinner option" where
  "philo_step i d =
     (case ph_pc d i of
        Before c \<Rightarrow> Some (xwait i Mutex (Inner c) (Queued c) d)
      | Inner c \<Rightarrow>
          Some (case section_body c i d of None \<Rightarrow> philo_go i Failed d | Some d' \<Rightarrow> philo_go i (Leaving c) d')
      | Leaving c \<Rightarrow> Some (send Mutex (philo_go i (Checking c) d))
      | Checking c \<Rightarrow>
          Some (if lock_pcount (ph_locks d Mutex) < 2
                then philo_go i (next_pc c (ph_k d i))
                  (if c = Penser2 then d\<lparr>ph_k := (ph_k d)(i := ph_k d i + 1)\<rparr> else d)
                else philo_go i Failed d)
      | BeforeOwn \<Rightarrow> Some (xwait i (Own i) (Before Manger1) QueuedOwn d)
      | _ \<Rightarrow> None)"

inductive dinner_step :: "dinner \<Rightarrow> dinner \<Rightarrow> bool" where
  "i < NR_PHILO \<Longrightarrow> philo_step i d = Some d' \<Longrightarrow> dinner_step d d'"

text \<open>The state \<open>test20\<close> sets up before it starts the philosophers.\<close>

definition test20_init :: dinner where
  "test20_init =
     (let m = snd (lock_psend xscreate)
      in \<lparr>ph_f = (\<lambda>_. 0), ph_bloque = (\<lambda>_. 0), ph_etat = (\<lambda>_. CHR ''-''),
          ph_locks = (\<lambda>n. case n of Mutex \<Rightarrow> m | Own j \<Rightarrow> xscreate), ph_pc = (\<lambda>_. Before Prendre), ph_k = (\<lambda>_. 0)\<rparr>)"

section \<open>Neighbours\<close>

definition left_of :: "nat \<Rightarrow> nat" where "left_of i = (i + NR_PHILO - 1) mod NR_PHILO"
definition right_of :: "nat \<Rightarrow> nat" where "right_of i = (i + 1) mod NR_PHILO"

lemma neighbours_eqs:
  "(i + NR_PHILO - 1) mod NR_PHILO = left_of i" "(i + 1) mod NR_PHILO = right_of i"
  "(i + 2) mod NR_PHILO = right_of (right_of i)"
  by (simp_all add: left_of_def right_of_def NR_PHILO_def mod_Suc_eq)

lemma neighbours [simp]:
  assumes "i < NR_PHILO"
  shows "left_of i < NR_PHILO" "right_of i < NR_PHILO" "left_of (right_of i) = i" "right_of (left_of i) = i"
    "left_of i \<noteq> i" "right_of i \<noteq> i" "left_of i \<noteq> right_of i" "right_of (right_of i) \<noteq> i"
    "right_of (right_of i) \<noteq> left_of i" "right_of (right_of i) \<noteq> right_of i" "left_of (left_of i) \<noteq> i"
    "left_of (left_of i) \<noteq> right_of i" "left_of (left_of i) \<noteq> left_of i" 
    "left_of (left_of i) \<noteq> right_of (right_of i)"
    "right_of (right_of (right_of i)) = left_of (left_of i)" "left_of (left_of (left_of i)) = right_of (right_of i)"
proof -
  have "i = 0 \<or> i = 1 \<or> i = 2 \<or> i = 3 \<or> i = 4" using assms by (auto simp: NR_PHILO_def)
  then show "left_of i < NR_PHILO" "right_of i < NR_PHILO" "left_of (right_of i) = i" "right_of (left_of i) = i"
    "left_of i \<noteq> i" "right_of i \<noteq> i" "left_of i \<noteq> right_of i" "right_of (right_of i) \<noteq> i"
    "right_of (right_of i) \<noteq> left_of i" "right_of (right_of i) \<noteq> right_of i" "left_of (left_of i) \<noteq> i"
    "left_of (left_of i) \<noteq> right_of i" "left_of (left_of i) \<noteq> left_of i"
    "left_of (left_of i) \<noteq> right_of (right_of i)"
    "right_of (right_of (right_of i)) = left_of (left_of i)" "left_of (left_of (left_of i)) = right_of (right_of i)"
    by (elim disjE; simp add: left_of_def right_of_def NR_PHILO_def)+
qed

lemma around_table:
  assumes "i < NR_PHILO" "j < NR_PHILO"
  obtains "j = i" | "j = left_of i" | "j = right_of i" | "j = right_of (right_of i)" | "j = left_of (left_of i)"
proof -
  have "i = 0 \<or> i = 1 \<or> i = 2 \<or> i = 3 \<or> i = 4" "j = 0 \<or> j = 1 \<or> j = 2 \<or> j = 3 \<or> j = 4"
    using assms by (auto simp: NR_PHILO_def)
  then have "j = i \<or> j = left_of i \<or> j = right_of i \<or> j = right_of (right_of i) \<or> j = left_of (left_of i)"
    by (elim disjE; simp add: left_of_def right_of_def NR_PHILO_def)
  then show thesis using that by blast
qed

section \<open>The invariant\<close>

datatype stage = Idle | Asking | Asleep | Served | Eating | Sated | Broken

fun stage_of :: "pc \<Rightarrow> stage" where
  "stage_of (Before c) = (case c of Manger1 \<Rightarrow> Served | Manger2 \<Rightarrow> Eating | Poser \<Rightarrow> Sated | _ \<Rightarrow> Idle)"
| "stage_of (Queued c) = (case c of Manger1 \<Rightarrow> Served | Manger2 \<Rightarrow> Eating | Poser \<Rightarrow> Sated | _ \<Rightarrow> Idle)"
| "stage_of (Inner c) = (case c of Manger1 \<Rightarrow> Served | Manger2 \<Rightarrow> Eating | Poser \<Rightarrow> Sated | _ \<Rightarrow> Idle)"
| "stage_of (Leaving c) = (case c of Prendre \<Rightarrow> Asking | Manger1 \<Rightarrow> Eating | Manger2 \<Rightarrow> Sated | _ \<Rightarrow> Idle)"
| "stage_of (Checking c) = (case c of Prendre \<Rightarrow> Asking | Manger1 \<Rightarrow> Eating | Manger2 \<Rightarrow> Sated | _ \<Rightarrow> Idle)"
| "stage_of BeforeOwn = Asking"
| "stage_of QueuedOwn = Asleep"
| "stage_of Done = Idle"
| "stage_of Failed = Broken"

definition has_forks :: "stage \<Rightarrow> int \<Rightarrow> bool" where
  "has_forks c b \<longleftrightarrow> c = Served \<or> c = Eating \<or> c = Sated \<or> c = Asking \<and> b = 0"

abbreviation holds :: "dinner \<Rightarrow> nat \<Rightarrow> bool" where
  "holds d i \<equiv> has_forks (stage_of (ph_pc d i)) (ph_bloque d i)"

definition own_ok :: "nat \<Rightarrow> stage \<Rightarrow> int \<Rightarrow> xlock \<Rightarrow> bool" where
  "own_ok i c b l \<longleftrightarrow>
     (if c = Asking then l = \<lparr>msgs = if b = 0 then 1 else 0, receivers = []\<rparr>
      else if c = Asleep then b \<noteq> 0 \<and> l = \<lparr>msgs = 0, receivers = [i]\<rparr>
      else c \<noteq> Broken \<and> b = 0 \<and> l = \<lparr>msgs = 0, receivers = []\<rparr>)"

definition seat_ok :: "dinner \<Rightarrow> nat \<Rightarrow> bool" where
  "seat_ok d i \<longleftrightarrow> own_ok i (stage_of (ph_pc d i)) (ph_bloque d i) (ph_locks d (Own i)) \<and>
     (ph_etat d i = CHR ''m'' \<longrightarrow> stage_of (ph_pc d i) = Eating)"

definition forks_ok :: "dinner \<Rightarrow> nat \<Rightarrow> bool" where
  "forks_ok d i \<longleftrightarrow> (ph_f d i \<noteq> 0 \<longleftrightarrow> holds d i \<or> holds d (left_of i)) \<and> \<not> (holds d i \<and> holds d (right_of i)) \<and>
     (ph_bloque d i \<noteq> 0 \<longrightarrow> ph_f d i \<noteq> 0 \<or> ph_f d (right_of i) \<noteq> 0)"

fun in_section :: "pc \<Rightarrow> bool" where
  "in_section (Inner c) = True"
| "in_section (Leaving c) = True"
| "in_section _ = False"

fun in_queue :: "pc \<Rightarrow> bool" where
  "in_queue (Queued c) = True"
| "in_queue _ = False"

definition mutex_ok :: "dinner \<Rightarrow> bool" where
  "mutex_ok d \<longleftrightarrow>
     (let m = ph_locks d Mutex in
      distinct (receivers m) \<and> set (receivers m) = {i. i < NR_PHILO \<and> in_queue (ph_pc d i)} \<and>
      (msgs m = 1 \<and> receivers m = [] \<and> (\<forall>i < NR_PHILO. \<not> in_section (ph_pc d i)) \<or>
       msgs m = 0 \<and> (\<exists>h < NR_PHILO. \<forall>i < NR_PHILO. in_section (ph_pc d i) \<longleftrightarrow> i = h)))"

fun last_round :: "pc \<Rightarrow> bool" where
  "last_round (Before c) = (c = Fin)"
| "last_round (Queued c) = (c = Fin)"
| "last_round (Inner c) = (c = Fin)"
| "last_round (Leaving c) = (c = Fin)"
| "last_round (Checking c) = (c = Fin)"
| "last_round Done = True"
| "last_round _ = False"

definition round_ok :: "dinner \<Rightarrow> nat \<Rightarrow> bool" where
  "round_ok d i \<longleftrightarrow> (if last_round (ph_pc d i) then ph_k d i = 6 else ph_k d i < 6)"

definition table_ok :: "dinner \<Rightarrow> bool" where
  "table_ok d \<longleftrightarrow> (\<forall>i < NR_PHILO. seat_ok d i \<and> forks_ok d i)"

definition dinner_inv :: "dinner \<Rightarrow> bool" where
  "dinner_inv d \<longleftrightarrow> mutex_ok d \<and> table_ok d \<and> (\<forall>i < NR_PHILO. round_ok d i)"

lemma init_inv: "dinner_inv test20_init"
  by (auto simp: dinner_inv_def table_ok_def mutex_ok_def seat_ok_def forks_ok_def round_ok_def test20_init_def Let_def
      lock_psend_def xscreate_def own_ok_def has_forks_def)


section \<open>Steps around the mutex\<close>

lemma table_cong:
  assumes "table_ok d" "ph_f d' = ph_f d" "ph_bloque d' = ph_bloque d" "ph_etat d' = ph_etat d"
    "\<And>i. i < NR_PHILO \<Longrightarrow> stage_of (ph_pc d' i) = stage_of (ph_pc d i)"
    "\<And>i. ph_locks d' (Own i) = ph_locks d (Own i)"
  shows "table_ok d'"
proof -
  have "seat_ok d' i = seat_ok d i" "forks_ok d' i = forks_ok d i" if "i < NR_PHILO" for i
    using that by (simp_all add: seat_ok_def forks_ok_def assms(2-6))
  then show ?thesis using assms(1) by (simp add: table_ok_def)
qed

lemma mutex_cong:
  assumes "mutex_ok d" "ph_locks d' Mutex = ph_locks d Mutex"
    "\<And>i. i < NR_PHILO \<Longrightarrow> in_section (ph_pc d' i) = in_section (ph_pc d i) \<and> in_queue (ph_pc d' i) = in_queue (ph_pc d i)"
  shows "mutex_ok d'"
  using assms(1) by (simp add: mutex_ok_def Let_def assms(2,3) cong: conj_cong)

lemma enter_mutex:
  assumes "mutex_ok d" "i < NR_PHILO" "ph_pc d i = Before c"
  shows "mutex_ok (xwait i Mutex (Inner c) (Queued c) d)"
proof (cases "msgs (ph_locks d Mutex) > 0")
  case True
  then show ?thesis using assms
    by (auto simp: mutex_ok_def Let_def xwait_def lock_preceive_def philo_go_def intro!: exI [of _ i])
next
  case False
  then obtain h where "h < NR_PHILO" "\<forall>i < NR_PHILO. in_section (ph_pc d i) \<longleftrightarrow> i = h"
    using assms(1) by (auto simp: mutex_ok_def Let_def)
  moreover from this have "h \<noteq> i" using assms(2,3) by auto
  ultimately show ?thesis using assms False
    by (auto simp: mutex_ok_def Let_def xwait_def lock_preceive_def philo_go_def intro!: exI [of _ h])
qed

lemma section_owner:
  assumes "mutex_ok d" "i < NR_PHILO" "in_section (ph_pc d i)"
  shows "msgs (ph_locks d Mutex) = 0" "j < NR_PHILO \<Longrightarrow> in_section (ph_pc d j) \<longleftrightarrow> j = i"
  using assms unfolding mutex_ok_def Let_def by metis+

lemma leave_mutex:
  assumes "mutex_ok d" "i < NR_PHILO" "ph_pc d i = Leaving c"
  shows "mutex_ok (send Mutex (philo_go i (Checking c) d))"
proof (cases "receivers (ph_locks d Mutex)")
  case Nil
  then show ?thesis using assms section_owner [OF assms(1,2)]
    by (auto simp: mutex_ok_def Let_def send_def lock_psend_def philo_go_def)
next
  case (Cons j js)
  then have j: "j < NR_PHILO" "in_queue (ph_pc d j)" using assms(1) by (auto simp: mutex_ok_def Let_def)
  then obtain c' where c': "ph_pc d j = Queued c'" by (cases "ph_pc d j") auto
  then have ji: "j \<noteq> i" using assms(3) by auto
  let ?d = "send Mutex (philo_go i (Checking c) d)"
  have d': "ph_pc ?d = (ph_pc d)(i := Checking c, j := Inner c')"
      "ph_locks ?d Mutex = (ph_locks d Mutex)\<lparr>receivers := js\<rparr>"
    using Cons c' ji by (auto simp: send_def lock_psend_def philo_go_def)
  have own: "msgs (ph_locks d Mutex) = 0" "\<And>x. x < NR_PHILO \<Longrightarrow> in_section (ph_pc d x) \<longleftrightarrow> x = i"
    using section_owner [OF assms(1,2)] assms(3) by simp_all
  have q: "distinct (j # js)" "x \<in> set (j # js) \<longleftrightarrow> x < NR_PHILO \<and> in_queue (ph_pc d x)" for x
    using assms(1) Cons by (simp_all add: mutex_ok_def Let_def)
  have "x \<in> set js \<longleftrightarrow> x < NR_PHILO \<and> in_queue (ph_pc ?d x)" for x
    using q(1) q(2) [of x] assms(3) unfolding d' by (cases "x = j"; cases "x = i") simp_all
  then have "set js = {x. x < NR_PHILO \<and> in_queue (ph_pc ?d x)}" by blast
  moreover have "\<forall>x < NR_PHILO. in_section (ph_pc ?d x) \<longleftrightarrow> x = j" using own(2) unfolding d' by simp
  ultimately show ?thesis using own(1) j(1) q(1) unfolding mutex_ok_def Let_def d'(2)
    by simp (rule exI [of _ j], simp)
qed


section \<open>Forks\<close>

text \<open>Giving a blocked philosopher its forks: it gets its message, whether it waits already or not.\<close>

lemma xsignal_grant:
  assumes "seat_ok d j" "ph_bloque d j \<noteq> 0"
  obtains d' where "xsignal (Own j) (d\<lparr>ph_f := F, ph_bloque := (ph_bloque d)(j := 0)\<rparr>) = Some d'"
    "ph_f d' = F" "ph_bloque d' = (ph_bloque d)(j := 0)" "ph_etat d' = ph_etat d" "ph_k d' = ph_k d"
    "\<And>i. i \<noteq> j \<Longrightarrow> ph_pc d' i = ph_pc d i" "\<And>n. n \<noteq> Own j \<Longrightarrow> ph_locks d' n = ph_locks d n"
    "seat_ok d' j" "has_forks (stage_of (ph_pc d' j)) 0"
    "ph_pc d' j = (if ph_pc d j = QueuedOwn then Before Manger1 else ph_pc d j)"
proof (cases "stage_of (ph_pc d j) = Asking")
  case True
  then have l: "ph_locks d (Own j) = \<lparr>msgs = 0, receivers = []\<rparr>" using assms by (simp add: seat_ok_def own_ok_def)
  show thesis
    by (rule that [of "send (Own j) (d\<lparr>ph_f := F, ph_bloque := (ph_bloque d)(j := 0)\<rparr>)"])
      (use assms l True in \<open>auto simp: xsignal_def send_def lock_psend_def lock_pcount_def seat_ok_def own_ok_def
        has_forks_def Let_def\<close>)
next
  case False
  then have a: "stage_of (ph_pc d j) = Asleep" and l: "ph_locks d (Own j) = \<lparr>msgs = 0, receivers = [j]\<rparr>"
    using assms by (auto simp: seat_ok_def own_ok_def split: if_splits)
  have q: "ph_pc d j = QueuedOwn" using a by (cases "ph_pc d j") (auto split: sc.splits)
  show thesis
    by (rule that [of "send (Own j) (d\<lparr>ph_f := F, ph_bloque := (ph_bloque d)(j := 0)\<rparr>)"])
      (use assms l q in \<open>auto simp: xsignal_def send_def lock_psend_def lock_pcount_def seat_ok_def own_ok_def
        has_forks_def philo_go_def Let_def\<close>)
qed


lemma poser_gauche_eq: "poser_gauche i d =
    (if ph_bloque d (left_of i) \<noteq> 0 \<and> ph_f d (left_of i) = 0 then
       xsignal (Own (left_of i)) (d\<lparr>ph_f := (ph_f d)(left_of i := 1), ph_bloque := (ph_bloque d)(left_of i := 0)\<rparr>)
     else Some (d\<lparr>ph_f := (ph_f d)(i := 0)\<rparr>))"
  unfolding poser_gauche_def neighbours_eqs Let_def by (rule refl)

lemma poser_droite_eq: "poser_droite i d =
    (if ph_bloque d (right_of i) \<noteq> 0 \<and> ph_f d (right_of (right_of i)) = 0 then
       xsignal (Own (right_of i)) (d\<lparr>ph_f := (ph_f d)(right_of (right_of i) := 1), ph_bloque := (ph_bloque d)(right_of i := 0)\<rparr>)
     else Some (d\<lparr>ph_f := (ph_f d)(right_of i := 0)\<rparr>))"
  unfolding poser_droite_def neighbours_eqs Let_def by (rule refl)

text \<open>The two halves of \<open>poser_fourchettes\<close> together: who gets which fork.\<close>

lemma poser_effect:
  assumes "table_ok d" "i < NR_PHILO" "stage_of (ph_pc d i) = Sated"
  defines "l \<equiv> left_of i" and "r \<equiv> right_of i"
  defines "gl \<equiv> ph_bloque d l \<noteq> 0 \<and> ph_f d l = 0" and "gr \<equiv> ph_bloque d r \<noteq> 0 \<and> ph_f d (right_of r) = 0"
  obtains d' where "poser_fourchettes i d = Some d'"
    "ph_f d' = (\<lambda>j. if gl \<and> j = l \<or> gr \<and> j = right_of r then 1 else if \<not> gl \<and> j = i \<or> \<not> gr \<and> j = r then 0 else ph_f d j)"
    "ph_bloque d' = (\<lambda>j. if gl \<and> j = l \<or> gr \<and> j = r then 0 else ph_bloque d j)"
    "ph_etat d' = ph_etat d" "ph_k d' = ph_k d" "ph_locks d' Mutex = ph_locks d Mutex"
    "\<And>j. j < NR_PHILO \<Longrightarrow> seat_ok d' j"
    "gl \<Longrightarrow> has_forks (stage_of (ph_pc d' l)) 0" "gr \<Longrightarrow> has_forks (stage_of (ph_pc d' r)) 0"
    "\<And>j. ph_pc d' j = (if (gl \<and> j = l \<or> gr \<and> j = r) \<and> ph_pc d j = QueuedOwn then Before Manger1 else ph_pc d j)"
proof -
  have seats: "seat_ok d j" if "j < NR_PHILO" for j using assms(1) that by (simp add: table_ok_def)
  have lr: "l < NR_PHILO" "r < NR_PHILO" "l \<noteq> i" "r \<noteq> i" "l \<noteq> r" "right_of r \<noteq> l" "right_of r \<noteq> i" "right_of r \<noteq> r"
    using assms(2) by (simp_all add: l_def r_def)
  obtain d1 where d1: "poser_gauche i d = Some d1"
    "ph_f d1 = (\<lambda>j. if gl \<and> j = l then 1 else if \<not> gl \<and> j = i then 0 else ph_f d j)"
    "ph_bloque d1 = (\<lambda>j. if gl \<and> j = l then 0 else ph_bloque d j)"
    "ph_etat d1 = ph_etat d" "ph_k d1 = ph_k d" "ph_locks d1 Mutex = ph_locks d Mutex"
    "\<And>j. j < NR_PHILO \<Longrightarrow> seat_ok d1 j" "gl \<Longrightarrow> has_forks (stage_of (ph_pc d1 l)) 0"
    "\<And>j. ph_pc d1 j = (if gl \<and> j = l \<and> ph_pc d j = QueuedOwn then Before Manger1 else ph_pc d j)"
  proof (cases gl)
    case True
    then have "ph_bloque d l \<noteq> 0" by (simp add: gl_def)
    from xsignal_grant [OF seats [OF lr(1)] this, of "(ph_f d)(l := 1)"] obtain d1 where
      g: "xsignal (Own l) (d\<lparr>ph_f := (ph_f d)(l := 1), ph_bloque := (ph_bloque d)(l := 0)\<rparr>) = Some d1"
      "ph_f d1 = (ph_f d)(l := 1)" "ph_bloque d1 = (ph_bloque d)(l := 0)" "ph_etat d1 = ph_etat d" "ph_k d1 = ph_k d"
      "\<And>i. i \<noteq> l \<Longrightarrow> ph_pc d1 i = ph_pc d i" "\<And>n. n \<noteq> Own l \<Longrightarrow> ph_locks d1 n = ph_locks d n"
      "seat_ok d1 l" "has_forks (stage_of (ph_pc d1 l)) 0"
      "ph_pc d1 l = (if ph_pc d l = QueuedOwn then Before Manger1 else ph_pc d l)" by blast
    have "seat_ok d1 j" if "j < NR_PHILO" for j
      using g seats [OF that] by (cases "j = l") (simp_all add: seat_ok_def)
    moreover have "ph_pc d1 j = (if gl \<and> j = l \<and> ph_pc d j = QueuedOwn then Before Manger1 else ph_pc d j)" for j
      using g(6,10) True by (cases "j = l") auto
    ultimately show thesis
      using g(1-5,7,9) True by (intro that [of d1]) (auto simp: poser_gauche_eq l_def [symmetric] gl_def)
  next
    case False
    then have "poser_gauche i d = Some (d\<lparr>ph_f := (ph_f d)(i := 0)\<rparr>)"
      by (auto simp: poser_gauche_eq l_def [symmetric] gl_def Let_def)
    then show thesis using False seats
      by (intro that [of "d\<lparr>ph_f := (ph_f d)(i := 0)\<rparr>"]) (auto simp: seat_ok_def)
  qed
  have gr1: "gr \<longleftrightarrow> ph_bloque d1 r \<noteq> 0 \<and> ph_f d1 (right_of r) = 0" using lr by (simp add: d1(2,3) gr_def)
  show thesis
  proof (cases gr)
    case True
    then have "ph_bloque d1 r \<noteq> 0" by (simp add: gr1)
    from xsignal_grant [OF d1(7) [OF lr(2)] this, of "(ph_f d1)(right_of r := 1)"] obtain d2 where
      g: "xsignal (Own r) (d1\<lparr>ph_f := (ph_f d1)(right_of r := 1), ph_bloque := (ph_bloque d1)(r := 0)\<rparr>) = Some d2"
      "ph_f d2 = (ph_f d1)(right_of r := 1)" "ph_bloque d2 = (ph_bloque d1)(r := 0)" "ph_etat d2 = ph_etat d1" "ph_k d2 = ph_k d1"
      "\<And>i. i \<noteq> r \<Longrightarrow> ph_pc d2 i = ph_pc d1 i" "\<And>n. n \<noteq> Own r \<Longrightarrow> ph_locks d2 n = ph_locks d1 n"
      "seat_ok d2 r" "has_forks (stage_of (ph_pc d2 r)) 0"
      "ph_pc d2 r = (if ph_pc d1 r = QueuedOwn then Before Manger1 else ph_pc d1 r)" by blast
    have s: "seat_ok d2 j" if "j < NR_PHILO" for j
      using g d1(7) [OF that] by (cases "j = r") (simp_all add: seat_ok_def)
    have "poser_fourchettes i d = Some d2"
      using g(1) True gr1 by (simp add: poser_fourchettes_def d1(1) poser_droite_eq r_def [symmetric])
    moreover have "ph_pc d2 j = (if (gl \<and> j = l \<or> gr \<and> j = r) \<and> ph_pc d j = QueuedOwn then Before Manger1 else ph_pc d j)" for j
      using g(6) [of j] g(10) d1(9) [of j] True lr(5) by (cases "j = r") auto
    ultimately show thesis
      using g(2-5,7-9) g(6) [OF lr(5)] s True lr d1(2-6,8) by (intro that [of d2]) auto
  next
    case False
    then have "poser_fourchettes i d = Some (d1\<lparr>ph_f := (ph_f d1)(r := 0)\<rparr>)"
      using gr1 by (auto simp: poser_fourchettes_def d1(1) poser_droite_eq r_def [symmetric] Let_def)
    then show thesis using False d1 lr
      by (intro that [of "d1\<lparr>ph_f := (ph_f d1)(r := 0)\<rparr>"]) (auto simp: seat_ok_def)
  qed
qed


lemma forks_after_poser:
  fixes h h' :: "nat \<Rightarrow> bool" and F F' B B' :: "nat \<Rightarrow> int"
  assumes i: "i < NR_PHILO" "h i" "B i = 0"
    and old: "\<And>j. j < NR_PHILO \<Longrightarrow> (F j \<noteq> 0 \<longleftrightarrow> h j \<or> h (left_of j)) \<and> \<not> (h j \<and> h (right_of j)) \<and>
      (B j \<noteq> 0 \<longrightarrow> F j \<noteq> 0 \<or> F (right_of j) \<noteq> 0)"
  defines "l \<equiv> left_of i" and "r \<equiv> right_of i"
  defines "gl \<equiv> B l \<noteq> 0 \<and> F l = 0" and "gr \<equiv> B r \<noteq> 0 \<and> F (right_of r) = 0"
  assumes F': "F' = (\<lambda>j. if gl \<and> j = l \<or> gr \<and> j = right_of r then 1 else if \<not> gl \<and> j = i \<or> \<not> gr \<and> j = r then 0 else F j)"
    and B': "B' = (\<lambda>j. if gl \<and> j = l \<or> gr \<and> j = r then 0 else B j)"
    and h': "\<And>j. j < NR_PHILO \<Longrightarrow> h' j \<longleftrightarrow> j \<noteq> i \<and> (h j \<or> gl \<and> j = l \<or> gr \<and> j = r)"
    and j: "j < NR_PHILO"
  shows "(F' j \<noteq> 0 \<longleftrightarrow> h' j \<or> h' (left_of j)) \<and> \<not> (h' j \<and> h' (right_of j)) \<and>
    (B' j \<noteq> 0 \<longrightarrow> F' j \<noteq> 0 \<or> F' (right_of j) \<noteq> 0)"
proof -
  define a z where "a = right_of r" and "z = left_of l"
  have lt: "l < NR_PHILO" "r < NR_PHILO" "a < NR_PHILO" "z < NR_PHILO"
    using i(1) by (simp_all add: l_def r_def a_def z_def)
  have nb: "left_of i = l" "right_of i = r" "left_of l = z" "right_of l = i" "left_of r = i" "right_of r = a"
      "left_of a = r" "right_of a = z" "left_of z = a" "right_of z = l"
    using i(1) by (simp_all add: l_def r_def a_def z_def)
  have "distinct [i, l, r, a, z]"
    using neighbours [OF i(1)] by (simp add: l_def r_def a_def z_def) metis
  then have ne: "i \<noteq> l" "l \<noteq> i" "i \<noteq> r" "r \<noteq> i" "i \<noteq> a" "a \<noteq> i" "i \<noteq> z" "z \<noteq> i" "l \<noteq> r" "r \<noteq> l" "l \<noteq> a" "a \<noteq> l"
      "l \<noteq> z" "z \<noteq> l" "r \<noteq> a" "a \<noteq> r" "r \<noteq> z" "z \<noteq> r" "a \<noteq> z" "z \<noteq> a" by auto
  note old5 = old [OF i(1), unfolded nb] old [OF lt(1), unfolded nb] old [OF lt(2), unfolded nb]
    old [OF lt(3), unfolded nb] old [OF lt(4), unfolded nb]
  have new: "h' i = False" "h' l = gl" "h' r = gr" "h' a = h a" "h' z = h z"
    using h' [OF i(1)] h' [OF lt(1)] h' [OF lt(2)] h' [OF lt(3)] h' [OF lt(4)] old5 i(2) by (simp_all add: ne)
  have f: "F' i \<noteq> 0 \<longleftrightarrow> gl" "F' l \<noteq> 0 \<longleftrightarrow> gl \<or> F l \<noteq> 0" "F' r \<noteq> 0 \<longleftrightarrow> gr" "F' a \<noteq> 0 \<longleftrightarrow> gr \<or> F a \<noteq> 0" "F' z = F z"
    using old5 i(2) by (simp_all add: F' nb ne)
  have b: "B' i = 0" "B' l = (if gl then 0 else B l)" "B' r = (if gr then 0 else B r)" "B' a = B a" "B' z = B z"
    using i(3) by (simp_all add: B' ne)
  have gr: "gr \<longleftrightarrow> B r \<noteq> 0 \<and> F a = 0" by (simp add: gr_def nb)
  consider "j = i" | "j = l" | "j = r" | "j = a" | "j = z"
    using around_table [OF i(1) j] by (auto simp: l_def r_def a_def z_def)
  then show ?thesis
  proof cases
    case 1
    show ?thesis using i(2) unfolding 1 nb new f b by blast
  next
    case 2
    show ?thesis using old5 i(2) unfolding 2 nb new f b gl_def by auto
  next
    case 3
    show ?thesis using old5 i(2) unfolding 3 nb new f b gr by auto
  next
    case 4
    show ?thesis using old5 i(2) unfolding 4 nb new f b gr by auto
  next
    case 5
    show ?thesis using old5 i(2) unfolding 5 nb new f b gl_def by auto
  qed
qed

lemma poser_table:
  assumes t: "table_ok d" and i: "i < NR_PHILO" "stage_of (ph_pc d i) = Sated"
    and m: "mutex_ok d" "in_section (ph_pc d i)"
  obtains d' where "poser_fourchettes i d = Some d'" "table_ok (philo_go i (Leaving Poser) d')"
    "mutex_ok (philo_go i (Leaving Poser) d')" "ph_k d' = ph_k d"
    "\<And>j. j \<noteq> i \<Longrightarrow> ph_pc d' j = ph_pc d j \<or> ph_pc d j = QueuedOwn \<and> ph_pc d' j = Before Manger1"
proof -
  define l r where "l = left_of i" and "r = right_of i"
  define gl where "gl \<longleftrightarrow> ph_bloque d l \<noteq> 0 \<and> ph_f d l = 0"
  define gr where "gr \<longleftrightarrow> ph_bloque d r \<noteq> 0 \<and> ph_f d (right_of r) = 0"
  have seats: "seat_ok d j" "forks_ok d j" if "j < NR_PHILO" for j using t that by (simp_all add: table_ok_def)
  obtain d' where d': "poser_fourchettes i d = Some d'"
    "ph_f d' = (\<lambda>j. if gl \<and> j = l \<or> gr \<and> j = right_of r then 1 else if \<not> gl \<and> j = i \<or> \<not> gr \<and> j = r then 0 else ph_f d j)"
    "ph_bloque d' = (\<lambda>j. if gl \<and> j = l \<or> gr \<and> j = r then 0 else ph_bloque d j)"
    "ph_etat d' = ph_etat d" "ph_k d' = ph_k d" "ph_locks d' Mutex = ph_locks d Mutex"
    "\<And>j. j < NR_PHILO \<Longrightarrow> seat_ok d' j"
    "gl \<Longrightarrow> has_forks (stage_of (ph_pc d' l)) 0" "gr \<Longrightarrow> has_forks (stage_of (ph_pc d' r)) 0"
    "\<And>j. ph_pc d' j = (if (gl \<and> j = l \<or> gr \<and> j = r) \<and> ph_pc d j = QueuedOwn then Before Manger1 else ph_pc d j)"
    by (rule poser_effect [OF t i, folded l_def r_def, folded gl_def gr_def]) blast
  let ?d = "philo_go i (Leaving Poser) d'"
  have b: "ph_bloque d i = 0" using seats(1) [OF i(1)] i(2) by (simp add: seat_ok_def own_ok_def)
  have li: "l \<noteq> i" "r \<noteq> i" using i(1) by (simp_all add: l_def r_def)
  have h': "holds ?d j \<longleftrightarrow> j \<noteq> i \<and> (holds d j \<or> gl \<and> j = l \<or> gr \<and> j = r)" for j
    using d'(8,9) d'(10) [of j] by (auto simp: philo_go_def has_forks_def d'(3) gl_def gr_def)
  have "forks_ok ?d j" if "j < NR_PHILO" for j
    unfolding forks_ok_def
  proof (rule forks_after_poser [where i = i and h = "holds d" and B = "ph_bloque d" and F = "ph_f d"
        and h' = "holds ?d", folded l_def r_def, folded gl_def gr_def])
    show "holds d i" using i(2) by (simp add: has_forks_def)
    show "(ph_f d j \<noteq> 0 \<longleftrightarrow> holds d j \<or> holds d (left_of j)) \<and> \<not> (holds d j \<and> holds d (right_of j)) \<and>
      (ph_bloque d j \<noteq> 0 \<longrightarrow> ph_f d j \<noteq> 0 \<or> ph_f d (right_of j) \<noteq> 0)" if "j < NR_PHILO" for j
      using seats(2) [OF that] unfolding forks_ok_def by blast
    show "holds ?d j \<longleftrightarrow> j \<noteq> i \<and> (holds d j \<or> gl \<and> j = l \<or> gr \<and> j = r)" for j by (rule h')
  qed (use that i(1) b in \<open>simp_all add: philo_go_def d'(2,3)\<close>)
  moreover have "seat_ok ?d j" if "j < NR_PHILO" for j
    using d'(7) [OF that] d'(10) [of i] i(2) li by (auto simp: seat_ok_def philo_go_def own_ok_def)
  ultimately have "table_ok ?d" by (simp add: table_ok_def)
  moreover have "mutex_ok ?d"
    by (rule mutex_cong [OF m(1)]) (use d'(6,10) m(2) in \<open>auto simp: philo_go_def elim: in_section.elims\<close>)
  ultimately show thesis using d'(1,5,10) by (intro that [of d']) auto
qed


text \<open>Taking both forks, or being marked as blocked.\<close>

lemma forks_after_prendre:
  fixes h h' :: "nat \<Rightarrow> bool" and F B B' :: "nat \<Rightarrow> int"
  assumes i: "i < NR_PHILO" "\<not> h i" "F i = 0" "F (right_of i) = 0"
    and old: "\<And>j. j < NR_PHILO \<Longrightarrow> (F j \<noteq> 0 \<longleftrightarrow> h j \<or> h (left_of j)) \<and> \<not> (h j \<and> h (right_of j)) \<and>
      (B j \<noteq> 0 \<longrightarrow> F j \<noteq> 0 \<or> F (right_of j) \<noteq> 0)"
    and h': "\<And>j. h' j \<longleftrightarrow> h j \<or> j = i" and j: "j < NR_PHILO"
  defines "F' \<equiv> F(i := 1, right_of i := 1)"
  shows "(F' j \<noteq> 0 \<longleftrightarrow> h' j \<or> h' (left_of j)) \<and> \<not> (h' j \<and> h' (right_of j)) \<and>
    (B j \<noteq> 0 \<longrightarrow> F' j \<noteq> 0 \<or> F' (right_of j) \<noteq> 0)"
proof -
  have nh: "\<not> h (left_of i)" "\<not> h (right_of i)" using old [OF i(1)] old [of "right_of i"] i by auto
  have "left_of j = i \<longleftrightarrow> j = right_of i" "right_of j = i \<longleftrightarrow> j = left_of i" using i(1) j by auto
  moreover have "right_of i \<noteq> i" using i(1) by simp
  ultimately show ?thesis using old [OF j] nh i(2) by (auto simp: h' F'_def)
qed

lemma prendre_table:
  assumes t: "table_ok d" and i: "i < NR_PHILO" "stage_of (ph_pc d i) = Idle"
    and m: "mutex_ok d" "in_section (ph_pc d i)"
  obtains d' where "prendre_fourchettes i d = Some d'" "table_ok (philo_go i (Leaving Prendre) d')"
    "mutex_ok (philo_go i (Leaving Prendre) d')" "ph_k d' = ph_k d" "ph_pc d' = ph_pc d"
proof -
  have seats: "seat_ok d j" "forks_ok d j" if "j < NR_PHILO" for j using t that by (simp_all add: table_ok_def)
  have own: "ph_bloque d i = 0" "ph_locks d (Own i) = \<lparr>msgs = 0, receivers = []\<rparr>" "ph_etat d i \<noteq> CHR ''m''"
    using seats(1) [OF i(1)] i(2) by (auto simp: seat_ok_def own_ok_def)
  have old: "(ph_f d j \<noteq> 0 \<longleftrightarrow> holds d j \<or> holds d (left_of j)) \<and> \<not> (holds d j \<and> holds d (right_of j)) \<and>
      (ph_bloque d j \<noteq> 0 \<longrightarrow> ph_f d j \<noteq> 0 \<or> ph_f d (right_of j) \<noteq> 0)" if "j < NR_PHILO" for j
    using seats(2) [OF that] unfolding forks_ok_def by blast
  have eq: "prendre_fourchettes i d =
      (if ph_f d i = 0 \<and> ph_f d (right_of i) = 0 then xsignal (Own i) (d\<lparr>ph_f := (ph_f d)(i := 1, right_of i := 1)\<rparr>)
       else Some (d\<lparr>ph_bloque := (ph_bloque d)(i := 1)\<rparr>))"
    unfolding prendre_fourchettes_def test_def neighbours_eqs by (rule refl)
  show thesis
  proof (cases "ph_f d i = 0 \<and> ph_f d (right_of i) = 0")
    case True
    let ?d = "d\<lparr>ph_f := (ph_f d)(i := 1, right_of i := 1),
      ph_locks := (ph_locks d)(Own i := \<lparr>msgs = 1, receivers = []\<rparr>)\<rparr>"
    let ?e = "philo_go i (Leaving Prendre) ?d"
    have h': "holds ?e j \<longleftrightarrow> holds d j \<or> j = i" for j
      using own(1) by (auto simp: philo_go_def has_forks_def)
    have F: "ph_f ?e = (ph_f d)(i := 1, right_of i := 1)" "ph_bloque ?e = ph_bloque d"
      by (simp_all add: philo_go_def)
    have "\<not> holds d i" using i(2) by (simp add: has_forks_def)
    note after = forks_after_prendre [OF i(1) this _ _ old h']
    have "forks_ok ?e j" if "j < NR_PHILO" for j
      using after [of j] True that unfolding forks_ok_def F by blast
    moreover have "seat_ok ?e j" if "j < NR_PHILO" for j
      using seats(1) [OF that] own by (auto simp: seat_ok_def philo_go_def own_ok_def)
    ultimately have "table_ok ?e" by (simp add: table_ok_def)
    moreover have "mutex_ok ?e"
      by (rule mutex_cong [OF m(1)]) (use m(2) in \<open>auto simp: philo_go_def elim: in_section.elims\<close>)
    moreover have "prendre_fourchettes i d = Some ?d"
      using True own(2) by (simp add: eq xsignal_def send_def lock_psend_def lock_pcount_def Let_def)
    ultimately show thesis by (intro that [of ?d]) auto
  next
    case False
    let ?d = "d\<lparr>ph_bloque := (ph_bloque d)(i := 1)\<rparr>"
    let ?e = "philo_go i (Leaving Prendre) ?d"
    have h': "holds ?e j \<longleftrightarrow> holds d j" for j
      using i(2) by (auto simp: philo_go_def has_forks_def)
    have "forks_ok ?e j" if "j < NR_PHILO" for j
      using old [OF that] False unfolding forks_ok_def h' by (auto simp: philo_go_def)
    moreover have "seat_ok ?e j" if "j < NR_PHILO" for j
      using seats(1) [OF that] own by (auto simp: seat_ok_def philo_go_def own_ok_def)
    ultimately have "table_ok ?e" by (simp add: table_ok_def)
    moreover have "mutex_ok ?e"
      by (rule mutex_cong [OF m(1)]) (use m(2) in \<open>auto simp: philo_go_def elim: in_section.elims\<close>)
    moreover have "prendre_fourchettes i d = Some ?d" using False by (auto simp: eq)
    ultimately show thesis by (intro that [of ?d]) auto
  qed
qed


section \<open>Every step keeps the invariant and makes progress\<close>

primrec rest_of_round :: "sc \<Rightarrow> nat" where
  "rest_of_round Prendre = 27"
| "rest_of_round Manger1 = 20"
| "rest_of_round Manger2 = 15"
| "rest_of_round Poser = 10"
| "rest_of_round Penser1 = 5"
| "rest_of_round Penser2 = 0"
| "rest_of_round Fin = 0"

primrec left_in_round :: "pc \<Rightarrow> nat" where
  "left_in_round (Before c) = 5 + rest_of_round c"
| "left_in_round (Queued c) = 4 + rest_of_round c"
| "left_in_round (Inner c) = 3 + rest_of_round c"
| "left_in_round (Leaving c) = 2 + rest_of_round c"
| "left_in_round (Checking c) = 1 + rest_of_round c"
| "left_in_round BeforeOwn = 27"
| "left_in_round QueuedOwn = 26"
| "left_in_round Done = 0"
| "left_in_round Failed = 0"

definition rank :: "dinner \<Rightarrow> nat \<Rightarrow> nat" where
  "rank d i = left_in_round (ph_pc d i) + 40 * (6 - ph_k d i)"

definition progress :: "dinner \<Rightarrow> nat \<Rightarrow> dinner \<Rightarrow> bool" where
  "progress d i d' \<longleftrightarrow> dinner_inv d' \<and> rank d' i < rank d i \<and> (\<forall>j. j \<noteq> i \<longrightarrow> rank d' j \<le> rank d j)"

lemma progressI:
  assumes "dinner_inv d" "i < NR_PHILO" "mutex_ok d'" "table_ok d'" "ph_k d' = ph_k d"
    "last_round (ph_pc d' i) = last_round (ph_pc d i)" "left_in_round (ph_pc d' i) < left_in_round (ph_pc d i)"
    "\<And>j. j \<noteq> i \<Longrightarrow> ph_pc d' j = ph_pc d j \<or> ph_pc d' j = philo_resume (ph_pc d j)"
  shows "progress d i d'"
proof -
  have "last_round (philo_resume p) = last_round p" "left_in_round (philo_resume p) \<le> left_in_round p" for p
    by (cases p; simp)+
  then have o: "last_round (ph_pc d' j) = last_round (ph_pc d j)" "left_in_round (ph_pc d' j) \<le> left_in_round (ph_pc d j)"
    if "j \<noteq> i" for j using assms(8) [OF that] by auto
  have "round_ok d' j" if "j < NR_PHILO" for j
    using assms(1,5,6) o(1) [of j] that by (cases "j = i") (auto simp: dinner_inv_def round_ok_def)
  then show ?thesis using assms(3-5,7) o(2) by (simp add: progress_def dinner_inv_def rank_def)
qed

lemma before_progress:
  assumes "dinner_inv d" "i < NR_PHILO" "ph_pc d i = Before c"
  shows "progress d i (xwait i Mutex (Inner c) (Queued c) d)"
proof (rule progressI [OF assms(1,2)])
  let ?d = "xwait i Mutex (Inner c) (Queued c) d"
  have eqs: "ph_f ?d = ph_f d" "ph_bloque ?d = ph_bloque d" "ph_etat ?d = ph_etat d" "ph_k ?d = ph_k d"
      "ph_locks ?d (Own j) = ph_locks d (Own j)" "j \<noteq> i \<Longrightarrow> ph_pc ?d j = ph_pc d j"
      "ph_pc ?d i = Inner c \<or> ph_pc ?d i = Queued c" for j
    by (auto simp: xwait_def philo_go_def split: prod.split)
  have "stage_of (ph_pc ?d j) = stage_of (ph_pc d j)" for j
    using eqs(6) [of j] eqs(7) assms(3) by (cases "j = i") auto
  moreover have "table_ok d" using assms(1) by (simp add: dinner_inv_def)
  ultimately show "table_ok ?d" using table_cong [of d ?d] eqs(1-5) by blast
  show "mutex_ok ?d" using enter_mutex assms by (simp add: dinner_inv_def)
  show "last_round (ph_pc ?d i) = last_round (ph_pc d i)" "left_in_round (ph_pc ?d i) < left_in_round (ph_pc d i)"
    using eqs(7) assms(3) by auto
qed (auto simp: xwait_def philo_go_def split: prod.split)

lemma leaving_progress:
  assumes "dinner_inv d" "i < NR_PHILO" "ph_pc d i = Leaving c"
  shows "progress d i (send Mutex (philo_go i (Checking c) d))"
proof (rule progressI [OF assms(1,2)])
  let ?d = "send Mutex (philo_go i (Checking c) d)"
  show "mutex_ok ?d" using leave_mutex assms by (simp add: dinner_inv_def)
  have q: "in_queue (ph_pc d j)" if "receivers (ph_locks d Mutex) = j # js" for j js
    using assms(1) that by (auto simp: dinner_inv_def mutex_ok_def Let_def)
  have st: "stage_of (philo_resume p) = stage_of p" if "in_queue p" for p using that by (cases p) simp_all
  have pcs: "ph_pc ?d i = Checking c" "j \<noteq> i \<Longrightarrow> ph_pc ?d j = ph_pc d j \<or> in_queue (ph_pc d j) \<and> ph_pc ?d j = philo_resume (ph_pc d j)" for j
  proof -
    have "i \<noteq> j" if "receivers (ph_locks d Mutex) = j # js" for j js using q [OF that] assms(3) by auto
    then show "ph_pc ?d i = Checking c" by (auto simp: send_def lock_psend_def philo_go_def split: list.split)
    show "ph_pc ?d j = ph_pc d j \<or> in_queue (ph_pc d j) \<and> ph_pc ?d j = philo_resume (ph_pc d j)" if "j \<noteq> i" for j
      using q that by (cases "receivers (ph_locks d Mutex)") (simp_all add: send_def lock_psend_def philo_go_def)
  qed
  have "stage_of (ph_pc ?d j) = stage_of (ph_pc d j)" for j
    using pcs(1) pcs(2) [of j] st assms(3) by (cases "j = i") auto
  moreover have "table_ok d" using assms(1) by (simp add: dinner_inv_def)
  moreover have eqs: "ph_f ?d = ph_f d" "ph_bloque ?d = ph_bloque d" "ph_etat ?d = ph_etat d" "ph_k ?d = ph_k d"
      "ph_locks ?d (Own j) = ph_locks d (Own j)" for j
    by (simp_all add: send_def lock_psend_def philo_go_def split: list.split)
  ultimately show "table_ok ?d" using table_cong [of d ?d] by blast
  show "ph_k ?d = ph_k d" by (rule eqs(4))
  show "last_round (ph_pc ?d i) = last_round (ph_pc d i)" "left_in_round (ph_pc ?d i) < left_in_round (ph_pc d i)"
    using pcs(1) assms(3) by auto
  show "ph_pc ?d j = ph_pc d j \<or> ph_pc ?d j = philo_resume (ph_pc d j)" if "j \<noteq> i" for j using pcs(2) [OF that] by blast
qed


lemma forks_cong:
  assumes "forks_ok d j" "ph_f d' = ph_f d" "ph_bloque d' = ph_bloque d" "\<And>j. holds d' j \<longleftrightarrow> holds d j"
  shows "forks_ok d' j"
  using assms(1) unfolding forks_ok_def assms(4) unfolding assms(2,3) .

lemma own_progress:
  assumes "dinner_inv d" "i < NR_PHILO" "ph_pc d i = BeforeOwn"
  shows "progress d i (xwait i (Own i) (Before Manger1) QueuedOwn d)"
proof (rule progressI [OF assms(1,2)])
  let ?d = "xwait i (Own i) (Before Manger1) QueuedOwn d"
  have seats: "seat_ok d j" "forks_ok d j" if "j < NR_PHILO" for j
    using assms(1) that by (simp_all add: dinner_inv_def table_ok_def)
  have l: "ph_locks d (Own i) = \<lparr>msgs = if ph_bloque d i = 0 then 1 else 0, receivers = []\<rparr>"
    using seats(1) [OF assms(2)] assms(3) by (simp add: seat_ok_def own_ok_def)
  let ?p = "if ph_bloque d i = 0 then Before Manger1 else QueuedOwn"
  let ?l = "\<lparr>msgs = 0, receivers = if ph_bloque d i = 0 then [] else [i]\<rparr>"
  have d': "?d = philo_go i ?p (d\<lparr>ph_locks := (ph_locks d)(Own i := ?l)\<rparr>)"
    by (simp add: xwait_def lock_preceive_def l)
  have "holds ?d j \<longleftrightarrow> holds d j" for j
    using assms(3) unfolding d' by (auto simp: philo_go_def has_forks_def)
  then have "forks_ok ?d j" if "j < NR_PHILO" for j
    by (rule forks_cong [OF seats(2) [OF that], rotated -1]) (simp_all add: d' philo_go_def)
  moreover have "seat_ok ?d j" if "j < NR_PHILO" for j
    using seats(1) [OF that] assms(3) unfolding d' by (auto simp: seat_ok_def philo_go_def own_ok_def)
  ultimately show "table_ok ?d" by (simp add: table_ok_def)
  show "mutex_ok ?d"
    by (rule mutex_cong [of d]) (use assms in \<open>auto simp: dinner_inv_def d' philo_go_def\<close>)
qed (use assms(3) in \<open>auto simp: xwait_def lock_preceive_def philo_go_def\<close>)

lemma etat_progress:
  assumes "dinner_inv d" "i < NR_PHILO" "ph_pc d i = Inner c" "c \<noteq> Prendre" "c \<noteq> Poser"
    "e = CHR ''m'' \<longleftrightarrow> c = Manger1"
  shows "progress d i (philo_go i (Leaving c) (set_etat i e d))"
proof (rule progressI [OF assms(1,2)])
  let ?d = "philo_go i (Leaving c) (set_etat i e d)"
  have seats: "seat_ok d j" "forks_ok d j" if "j < NR_PHILO" for j
    using assms(1) that by (simp_all add: dinner_inv_def table_ok_def)
  have "holds ?d j \<longleftrightarrow> holds d j" for j
    using assms(3-5) by (cases c) (auto simp: philo_go_def set_etat_def has_forks_def)
  then have "forks_ok ?d j" if "j < NR_PHILO" for j
    by (rule forks_cong [OF seats(2) [OF that], rotated -1]) (simp_all add: philo_go_def set_etat_def)
  moreover have "seat_ok ?d j" if "j < NR_PHILO" for j
    using seats(1) [OF that] assms(3-6)
    by (cases c) (auto simp: seat_ok_def philo_go_def set_etat_def own_ok_def)
  ultimately show "table_ok ?d" by (simp add: table_ok_def)
  show "mutex_ok ?d"
    by (rule mutex_cong [of d]) (use assms in \<open>auto simp: dinner_inv_def philo_go_def set_etat_def\<close>)
qed (use assms(3) in \<open>auto simp: philo_go_def set_etat_def\<close>)

lemma inner_progress:
  assumes "dinner_inv d" "i < NR_PHILO" "ph_pc d i = Inner c"
  obtains d' where "section_body c i d = Some d'" "progress d i (philo_go i (Leaving c) d')"
proof (cases "c = Prendre \<or> c = Poser")
  case False
  then obtain e where "section_body c i d = Some (set_etat i e d)" "e = CHR ''m'' \<longleftrightarrow> c = Manger1"
    by (cases c) auto
  then show thesis using etat_progress [OF assms] False that by blast
next
  case True
  have inv: "table_ok d" "mutex_ok d" "in_section (ph_pc d i)" using assms by (simp_all add: dinner_inv_def)
  from True show thesis
  proof
    assume c: "c = Prendre"
    obtain d' where d': "prendre_fourchettes i d = Some d'" "table_ok (philo_go i (Leaving Prendre) d')"
        "mutex_ok (philo_go i (Leaving Prendre) d')" "ph_k d' = ph_k d" "ph_pc d' = ph_pc d"
      using prendre_table [OF inv(1) assms(2) _ inv(2,3)] assms(3) c by auto
    have "progress d i (philo_go i (Leaving Prendre) d')"
      by (rule progressI [OF assms(1,2) d'(3,2)]) (use d'(4,5) assms(3) c in \<open>auto simp: philo_go_def\<close>)
    then show thesis using that d'(1) c by simp
  next
    assume c: "c = Poser"
    obtain d' where d': "poser_fourchettes i d = Some d'" "table_ok (philo_go i (Leaving Poser) d')"
        "mutex_ok (philo_go i (Leaving Poser) d')" "ph_k d' = ph_k d"
        "\<And>j. j \<noteq> i \<Longrightarrow> ph_pc d' j = ph_pc d j \<or> ph_pc d j = QueuedOwn \<and> ph_pc d' j = Before Manger1"
      using poser_table [OF inv(1) assms(2) _ inv(2,3)] assms(3) c by auto
    have "ph_pc d' j = ph_pc d j \<or> ph_pc d' j = philo_resume (ph_pc d j)" if "j \<noteq> i" for j
      using d'(5) [OF that] by auto
    then have "progress d i (philo_go i (Leaving Poser) d')"
      by (intro progressI [OF assms(1,2) d'(3,2)]) (use d'(4) assms(3) c in \<open>simp_all add: philo_go_def\<close>)
    then show thesis using that d'(1) c by simp
  qed
qed

lemma checking_progress:
  assumes "dinner_inv d" "i < NR_PHILO" "ph_pc d i = Checking c"
  shows "lock_pcount (ph_locks d Mutex) < 2" "progress d i (philo_go i (next_pc c (ph_k d i))
    (if c = Penser2 then d\<lparr>ph_k := (ph_k d)(i := ph_k d i + 1)\<rparr> else d))"
proof -
  show "lock_pcount (ph_locks d Mutex) < 2"
    using assms(1) by (auto simp: dinner_inv_def mutex_ok_def Let_def lock_pcount_def)
  let ?d = "philo_go i (next_pc c (ph_k d i)) (if c = Penser2 then d\<lparr>ph_k := (ph_k d)(i := ph_k d i + 1)\<rparr> else d)"
  have k: "c \<noteq> Fin \<Longrightarrow> ph_k d i < 6" "c = Fin \<Longrightarrow> ph_k d i = 6"
    using assms by (auto simp: dinner_inv_def round_ok_def split: if_splits)
  have "stage_of (ph_pc ?d j) = stage_of (ph_pc d j)" for j
    using assms(3) by (cases c) (auto simp: philo_go_def)
  then have "table_ok ?d"
    using table_cong [of d ?d] assms(1) by (simp add: dinner_inv_def philo_go_def)
  moreover have "in_section (ph_pc ?d j) = in_section (ph_pc d j) \<and> in_queue (ph_pc ?d j) = in_queue (ph_pc d j)" for j
    using assms(3) by (cases c) (auto simp: philo_go_def)
  then have "mutex_ok ?d"
    using mutex_cong [of d ?d] assms(1) by (simp add: dinner_inv_def philo_go_def)
  moreover have "round_ok ?d j" if "j < NR_PHILO" for j
    using assms(1) k that by (cases c) (auto simp: dinner_inv_def round_ok_def philo_go_def)
  moreover have "rank ?d i < rank d i" using k assms(3) by (cases c) (auto simp: rank_def philo_go_def)
  moreover have "rank ?d j = rank d j" if "j \<noteq> i" for j using that by (auto simp: rank_def philo_go_def)
  ultimately show "progress d i ?d" by (simp add: progress_def dinner_inv_def)
qed

lemma step_progress:
  assumes "dinner_inv d" "i < NR_PHILO" "philo_step i d = Some d'"
  shows "progress d i d'"
proof (cases "ph_pc d i")
  case (Inner c)
  then show ?thesis using assms inner_progress [OF assms(1,2)] by (force simp: philo_step_def)
qed (use assms before_progress [OF assms(1,2)] leaving_progress [OF assms(1,2)] own_progress [OF assms(1,2)]
    checking_progress [OF assms(1,2)] in \<open>auto simp: philo_step_def\<close>)


lemma run_inv: "dinner_step\<^sup>*\<^sup>* test20_init d \<Longrightarrow> dinner_inv d"
  by (induction rule: rtranclp_induct)
    (auto simp: init_inv progress_def elim!: dinner_step.cases dest: step_progress)

text \<open>A philosopher that is not done and does not wait can go on; if all others wait, nobody holds forks.\<close>

lemma stuck_done:
  assumes inv: "dinner_inv d" and stuck: "\<And>i. i < NR_PHILO \<Longrightarrow> philo_step i d = None" and i: "i < NR_PHILO"
  shows "ph_pc d i = Done"
proof -
  have seats: "seat_ok d j" "forks_ok d j" if "j < NR_PHILO" for j
    using inv that by (simp_all add: dinner_inv_def table_ok_def)
  have stop: "ph_pc d j = Done \<or> ph_pc d j = QueuedOwn \<or> in_queue (ph_pc d j)" if "j < NR_PHILO" for j
    using stuck [OF that] seats(1) [OF that]
    by (cases "ph_pc d j") (auto simp: philo_step_def seat_ok_def own_ok_def)
  have "\<not> in_section (ph_pc d j)" if "j < NR_PHILO" for j using stop [OF that] by (cases "ph_pc d j") auto
  then have "receivers (ph_locks d Mutex) = []" using inv by (auto simp: dinner_inv_def mutex_ok_def Let_def)
  then have nq: "\<not> in_queue (ph_pc d j)" if "j < NR_PHILO" for j
    using inv that by (auto simp: dinner_inv_def mutex_ok_def Let_def)
  then have nh: "\<not> holds d j" if "j < NR_PHILO" for j
    using stop [OF that] nq [OF that] by (auto simp: has_forks_def)
  have "ph_bloque d i = 0"
    using seats(2) [OF i] seats(2) [of "right_of i"] nh i by (auto simp: forks_ok_def)
  then show ?thesis using stop [OF i] nq [OF i] seats(1) [OF i] by (auto simp: seat_ok_def own_ok_def)
qed

definition total :: "dinner \<Rightarrow> nat" where
  "total d = (\<Sum>i < NR_PHILO. rank d i)"

lemma total_decreases: "dinner_inv d \<Longrightarrow> dinner_step d d' \<Longrightarrow> dinner_inv d' \<and> total d' < total d"
proof (erule dinner_step.cases, goal_cases)
  case (1 i)
  then have p: "progress d i d'" using step_progress by blast
  then have "total d' < total d" unfolding total_def progress_def
    using 1(4) by (intro sum_strict_mono_ex1) (auto intro: order.strict_implies_order simp: le_less)
  then show ?case using p by (simp add: progress_def)
qed

lemma run_length: "(dinner_step ^^ n) test20_init d \<Longrightarrow> dinner_inv d \<and> n + total d \<le> total test20_init"
proof (induction n arbitrary: d)
  case 0
  then show ?case using init_inv by simp
next
  case (Suc n)
  then obtain d1 where d1: "(dinner_step ^^ n) test20_init d1" "dinner_step d1 d" by auto
  then show ?case using Suc.IH [OF d1(1)] total_decreases [of d1 d] by auto
qed

lemma total_init: "total test20_init = 1360"
  by (simp add: total_def rank_def test20_init_def NR_PHILO_def Let_def)

text \<open>
  C14.  Whatever the order in which the philosophers run, two neighbours are never shown as eating at
  the same time, at most one philosopher is in a critical section, and no assertion of \<open>xsignal\<close> fails.
\<close>

theorem neighbours_never_eat_together:
  assumes "dinner_step\<^sup>*\<^sup>* test20_init d" "i < NR_PHILO" "j < NR_PHILO"
  shows "\<not> (ph_etat d i = CHR ''m'' \<and> ph_etat d ((i + 1) mod NR_PHILO) = CHR ''m'') \<and>
    (in_section (ph_pc d i) \<longrightarrow> in_section (ph_pc d j) \<longrightarrow> i = j) \<and> ph_pc d i \<noteq> Failed"
proof -
  have inv: "dinner_inv d" by (rule run_inv [OF assms(1)])
  then have seats: "seat_ok d j" "forks_ok d j" if "j < NR_PHILO" for j
    using that by (simp_all add: dinner_inv_def table_ok_def)
  have "\<not> (ph_etat d i = CHR ''m'' \<and> ph_etat d (right_of i) = CHR ''m'')"
    using seats [OF assms(2)] seats(1) [of "right_of i"] assms(2) by (auto simp: seat_ok_def forks_ok_def has_forks_def)
  moreover have "in_section (ph_pc d i) \<longrightarrow> in_section (ph_pc d j) \<longrightarrow> i = j"
    using section_owner(2) [of d i j] inv assms(2,3) by (auto simp: dinner_inv_def)
  moreover have "ph_pc d i \<noteq> Failed" using seats(1) [OF assms(2)] by (auto simp: seat_ok_def own_ok_def)
  ultimately show ?thesis unfolding neighbours_eqs by blast
qed

text \<open>
  C13.  The dinner ends: no run has more than 1360 steps, and in a state in which no philosopher can go
  on all of them are done and have eaten six times.  So there is no deadlock, and every philosopher
  gets the forks it asks for.
\<close>

theorem dinner_ends:
  assumes "(dinner_step ^^ n) test20_init d"
  shows "n \<le> 1360 \<and> ((\<exists>d'. dinner_step d d') \<or> (\<forall>i < NR_PHILO. ph_pc d i = Done \<and> ph_k d i = 6))"
proof -
  have inv: "dinner_inv d" "n + total d \<le> 1360" using run_length [OF assms] by (simp_all add: total_init)
  have "ph_pc d i = Done \<and> ph_k d i = 6" if "\<nexists>d'. dinner_step d d'" "i < NR_PHILO" for i
  proof -
    have "philo_step i d = None" if "i < NR_PHILO" for i
      using \<open>\<nexists>d'. dinner_step d d'\<close> dinner_step.intros [OF that, of d] by (cases "philo_step i d") auto
    then have "ph_pc d i = Done" using stuck_done [OF inv(1)] that(2) by blast
    then show ?thesis using inv(1) that(2) by (auto simp: dinner_inv_def round_ok_def)
  qed
  then show ?thesis using inv(2) by auto
qed

section \<open>A concrete run\<close>

text \<open>The steps of the philosophers in a given order.\<close>

fun dinner_run :: "nat list \<Rightarrow> dinner \<Rightarrow> dinner option" where
  "dinner_run [] d = Some d"
| "dinner_run (i # is) d = (if i < NR_PHILO then Option.bind (philo_step i d) (dinner_run is) else None)"

lemma dinner_run_steps: "dinner_run is d = Some d' \<Longrightarrow> (dinner_step ^^ length is) d d'"
proof (induction "is" arbitrary: d)
  case (Cons i "is")
  then obtain d1 where d1: "dinner_step d d1" "dinner_run is d1 = Some d'"
    by (auto simp: bind_eq_Some_conv split: if_splits intro: dinner_step.intros)
  show ?case using relpowp_Suc_I2 [of dinner_step d d1, OF d1(1) Cons.IH [OF d1(2)]] by simp
qed simp

lemma first_eats: "\<exists>d. dinner_run (replicate 7 0) test20_init = Some d \<and> ph_etat d 0 = CHR ''m'' \<and>
    ph_pc d 0 = Leaving Manger1"
proof -
  have "replicate 7 (0 :: nat) = [0, 0, 0, 0, 0, 0, 0]" by (simp add: numeral_eq_Suc)
  then show ?thesis
    by (simp add: philo_step_def test20_init_def xwait_def lock_preceive_def lock_psend_def xscreate_def philo_go_def
      prendre_fourchettes_def test_def xsignal_def send_def lock_pcount_def set_etat_def NR_PHILO_def Let_def)
qed

theorem neighbours_never_eat_together_witness:
  "\<exists>d. dinner_step\<^sup>*\<^sup>* test20_init d \<and> ph_etat d 0 = CHR ''m'' \<and> ph_etat d 1 \<noteq> CHR ''m''"
proof -
  obtain d where d: "dinner_run (replicate 7 0) test20_init = Some d" "ph_etat d 0 = CHR ''m''"
    using first_eats by blast
  have "dinner_step\<^sup>*\<^sup>* test20_init d" by (rule relpowp_imp_rtranclp [OF dinner_run_steps [OF d(1)]])
  moreover from neighbours_never_eat_together [OF this, of 0 0] d(2) have "ph_etat d 1 \<noteq> CHR ''m''"
    by (simp add: NR_PHILO_def)
  ultimately show ?thesis using d(2) by blast
qed

theorem dinner_ends_witness: "\<exists>d d'. (dinner_step ^^ 7) test20_init d \<and> ph_pc d 0 \<noteq> Done \<and> dinner_step d d'"
proof -
  obtain d where d: "dinner_run (replicate 7 0) test20_init = Some d" "ph_pc d 0 = Leaving Manger1"
    using first_eats by blast
  have r: "(dinner_step ^^ 7) test20_init d" using dinner_run_steps [OF d(1)] by (simp only: length_replicate)
  from dinner_ends [OF r] d(2) have "\<exists>d'. dinner_step d d'" by (auto simp: NR_PHILO_def)
  then show ?thesis using r d(2) by auto
qed

end
