(* ===== verification/Queue_Lock.thy ===== *)
theory Queue_Lock
  imports Msg_Queue Philosophers
begin

text \<open>
  The locks of the test library on the message queues of the kernel: \<open>psend\<close>, \<open>preceive\<close> and \<open>pcount\<close>
  of theory \<open>Msg_Queue\<close> do to a queue what \<open>lock_psend\<close>, \<open>lock_preceive\<close> and \<open>lock_pcount\<close> of theory
  \<open>Philosophers\<close> do to a lock, as long as the queue does not fill up and the processes that wait on it
  have the same priority, whatever other processes the scheduler wakes, frees or switches to.
\<close>

definition lock_at :: "nat \<Rightarrow> kernel \<Rightarrow> xlock" where
  "lock_at i s = \<lparr>msgs = number_of_msgs (the (all_queues s i)), receivers = rev (queues s (ConsQ i))\<rparr>"

text \<open>A queue that is used as a lock: no producer waits, and the consumers that wait have priority \<open>n\<close>.\<close>

definition used_as_lock :: "nat \<Rightarrow> int \<Rightarrow> kernel \<Rightarrow> bool" where
  "used_as_lock i n s \<longleftrightarrow> queues s (ProdQ i) = [] \<and>
     (\<forall>p \<in> set (queues s (ConsQ i)). map_option prio (procs s p) = Some n)"

lemma same_msg_lock: "same_msg s s' \<Longrightarrow> lock_at i s' = lock_at i s"
  by (auto simp: msg_part_def lock_at_def fun_eq_iff)

lemma scheduler_lock: "scheduler c s = Some s' \<Longrightarrow> lock_at i s' = lock_at i s"
  using postD [OF msg_sched.scheduler_post [of s s]] same_msg_lock by blast

lemma psend_lock:
  assumes "msg_wf s" "valid_fid fid s" "all_queues s (nat fid) = Some q" "number_of_msgs q < msg_size q"
    "psend fid m s = Some s'"
  shows "lock_at (nat fid) s' = snd (lock_psend (lock_at (nat fid) s))"
proof -
  let ?i = "nat fid"
  obtain q' where q': "all_queues s ?i = Some q'" "ring_ok q'" "is_empty q' = Some (number_of_msgs q' = 0)"
      "queues s (ConsQ ?i) \<noteq> [] \<Longrightarrow> number_of_msgs q' = 0"
    using queue_cases [OF assms(1,2)] by blast
  have q: "ring_ok q" "is_empty q = Some (number_of_msgs q = 0)" "queues s (ConsQ ?i) \<noteq> [] \<Longrightarrow> number_of_msgs q = 0"
    using q' assms(3) by auto
  show ?thesis
  proof (cases "queues s (ConsQ ?i) = []")
    case True
    obtain q1 where q1: "add_message q m = Some q1" "messages q1 = messages q @ [m]" using messages_add [OF q(1) assms(4)] by blast
    then have "number_of_msgs q1 = number_of_msgs q + 1" by (metis length_append_singleton length_messages Suc_eq_plus1)
    then show ?thesis using assms True q q1
      by (auto simp: psend_def Let_def is_full_def return_int_def lock_at_def lock_psend_def put_queue_def stay_def)
  next
    case False
    then obtain cs p where cs: "queues s (ConsQ ?i) = cs @ [p]" by (metis rev_exhaust)
    then obtain s1 where s1: "scheduler (KRet SUCCES []) s1 = Some s'"
        "all_queues s1 = all_queues s" "queues s1 (ConsQ ?i) = cs"
      using assms(2,3,5) q
      by (auto simp: psend_def Let_def q_out_def upd_proc_def q_add_def bind_eq_Some_conv split: option.splits if_splits)
    then show ?thesis using scheduler_lock [OF s1(1)] cs by (simp add: lock_at_def lock_psend_def)
  qed
qed

lemma preceive_lock:
  assumes "msg_wf s" "valid_fid fid s" "used_as_lock (nat fid) n s" "get_current_process s = Some p"
    "map_option prio (procs s p) = Some n" "preceive fid w s = Some s'"
  shows "lock_at (nat fid) s' = snd (lock_preceive p (lock_at (nat fid) s))"
proof -
  let ?i = "nat fid"
  obtain q where q: "all_queues s ?i = Some q" "ring_ok q" "is_empty q = Some (number_of_msgs q = 0)"
    using queue_cases [OF assms(1,2)] by blast
  have np: "queues s (ProdQ ?i) = []" using assms(3) by (simp add: used_as_lock_def)
  show ?thesis
  proof (cases "number_of_msgs q = 0")
    case True
    let ?g = "\<lambda>x. x\<lparr>state := BLOCKEDQUEUE, blocked_head := ConsQ ?i\<rparr>"
    obtain s1 s2 where s1: "upd_proc p ?g s = Some s1" and s2: "q_add prio p (ConsQ ?i) s1 = Some s2"
      and s': "scheduler (KPreceive p w) s2 = Some s'"
      using assms(2,4,6) q True np by (auto simp: preceive_def Let_def bind_eq_Some_conv)
    have pr: "\<not> prio (the (procs s1 x)) < prio (the (procs s1 p))" if "x \<in> set (queues s (ConsQ ?i))" for x
      using s1 assms(3,5) that by (cases "x = p") (auto simp: upd_proc_def used_as_lock_def split: option.splits)
    have "qinsert (\<lambda>x. prio (the (procs s1 x))) p (queues s (ConsQ ?i)) = p # queues s (ConsQ ?i)"
      using pr by (cases "queues s (ConsQ ?i)") (auto simp: qinsert_def)
    then have "queues s2 (ConsQ ?i) = p # queues s (ConsQ ?i)" "all_queues s2 = all_queues s"
      using s1 s2 by (auto simp: upd_proc_def q_add_def bind_eq_Some_conv split: option.splits if_splits)
    then show ?thesis using scheduler_lock [OF s'] q True by (simp add: lock_at_def lock_preceive_def)
  next
    case False
    then obtain m ms where m: "messages q = m # ms" by (cases "messages q") (auto simp: messages_def)
    then obtain q1 where q1: "pop_oldest_msg q = Some (m, q1)" "messages q1 = ms"
      using messages_pop [OF q(2)] by blast
    have "number_of_msgs q1 = number_of_msgs q - 1"
      using arg_cong [OF q1(2), of length] arg_cong [OF m, of length] by simp
    then show ?thesis using assms(2,6) q np False q1
      by (auto simp: preceive_def Let_def lock_at_def lock_preceive_def put_queue_def stay_def)
  qed
qed

lemma lock_returns:
  assumes "msg_wf s" "valid_fid fid s" "used_as_lock (nat fid) n s"
    "number_of_msgs (the (all_queues s (nat fid))) < msg_size (the (all_queues s (nat fid)))"
  shows "receivers (lock_at (nat fid) s) = [] \<Longrightarrow> \<exists>s'. psend fid m s = Some s'"
    "msgs (lock_at (nat fid) s) > 0 \<Longrightarrow> \<exists>s'. preceive fid w s = Some s'"
proof -
  let ?i = "nat fid"
  obtain q where q: "all_queues s ?i = Some q" "ring_ok q" "is_empty q = Some (number_of_msgs q = 0)"
    using queue_cases [OF assms(1,2)] by blast
  show "\<exists>s'. psend fid m s = Some s'" if "receivers (lock_at ?i s) = []"
    using messages_add [OF q(2), of m] q assms(2,4) that
    by (auto simp: psend_def Let_def is_full_def return_int_def lock_at_def)
  show "\<exists>s'. preceive fid w s = Some s'" if pos: "msgs (lock_at ?i s) > 0"
  proof -
    obtain m ms where "messages q = m # ms" using pos q(1) by (cases "messages q") (auto simp: messages_def lock_at_def)
    then show ?thesis using messages_pop [OF q(2)] q assms(2,3) pos
      by (fastforce simp: preceive_def Let_def lock_at_def used_as_lock_def)
  qed
qed


definition demo_queue_lock :: kernel where
  "demo_queue_lock = demo_kernel\<lparr>
     all_queues := [3 \<mapsto> \<lparr>msg_arr = [0, 0], msg_arr_null = False, msg_size = 2, number_of_msgs = 0, iffc = 0\<rparr>],
     procs := [40 \<mapsto> demo_process 4 9 ACTIF None], pid_table := [4 \<mapsto> 40], current_pid := 4\<rparr>"


end
