(* ===== verification/Queue_Test.thy ===== *)
theory Queue_Test
  imports Msg_Queue C_String
begin

text \<open>
  The test of the message queues that runs inside the kernel (\<open>kernel/tests/test10.c\<close>): a queue as
  temporary storage.  A call that returns leaves its result in the continuation of the processor; a
  failed assertion, or a call that has to wait, ends the test (\<open>None\<close>).  Characters are unsigned, as
  on RISC-V; the messages that the test prints are left out.  What is shown: what is written to a new
  queue with enough room is read back, and the queue is empty again.
\<close>

section \<open>The code\<close>

fun test10_write :: "int \<Rightarrow> bytes \<Rightarrow> kernel \<Rightarrow> kernel option" where
  "test10_write fid [] s = Some s"
| "test10_write fid (b # bs) s =
     do {
       s1 \<leftarrow> psend fid (uint b) s;
       if kont (cpu s1) = KRet 0 [] then test10_write fid bs s1 else None }"

fun test10_read :: "int \<Rightarrow> nat \<Rightarrow> kernel \<Rightarrow> (bytes \<times> kernel) option" where
  "test10_read fid 0 s = Some ([], s)"
| "test10_read fid (Suc n) s =
     do {
       s1 \<leftarrow> preceive fid True s;
       case kont (cpu s1) of
         KRet r [msg] \<Rightarrow>
           if r = 0 then do { (bs, s2) \<leftarrow> test10_read fid n s1; Some (word_of_int msg # bs, s2) } else None
       | _ \<Rightarrow> None }"

text \<open>\<open>test10\<close> up to the call of \<open>pdelete\<close>; \<open>str\<close> is the string \<open>abcde\<close> in the source and \<open>cap\<close> is 5.\<close>

definition test10 :: "int \<Rightarrow> bytes \<Rightarrow> kernel \<Rightarrow> kernel option" where
  "test10 cap str s =
     (case pcreate cap s of
        (fid, s1) \<Rightarrow>
          if fid < 0 then None
          else do {
            s2 \<leftarrow> test10_write fid str s1;
            (buf, s3) \<leftarrow> test10_read fid (length str) s2;
            r \<leftarrow> strcmp (str @ [0]) (buf @ [0]);
            if r = 0 then pdelete fid s3 else None })"

section \<open>A queue nobody waits on\<close>

definition plain_queue :: "nat \<Rightarrow> nat \<Rightarrow> int list \<Rightarrow> kernel \<Rightarrow> bool" where
  "plain_queue i n ms s \<longleftrightarrow> i < NBQUEUES \<and> queues s (ConsQ i) = [] \<and> queues s (ProdQ i) = [] \<and>
     (\<exists>q. all_queues s i = Some q \<and> ring_rep n q ms)"

lemma pcreate_plain:
  assumes "pcreate n s = (fid, s')" "0 \<le> fid"
  shows "plain_queue (nat fid) (nat n) [] s'"
proof -
  have "i < NBQUEUES" if "get_first_free_index s = Some i" for i
    using that by (auto simp: get_first_free_index_def find_Some_iff)
  then show ?thesis using assms
    by (auto simp: pcreate_def plain_queue_def Let_def put_queue_def ring_rep_def ring_ok_def messages_def
        split: if_splits option.splits prod.splits)
qed

lemma psend_plain:
  assumes "plain_queue i n ms s" "length ms < n"
  shows "\<exists>s'. psend (int i) m s = Some s' \<and> kont (cpu s') = KRet 0 [] \<and> plain_queue i n (ms @ [m]) s'"
proof -
  obtain q where q: "all_queues s i = Some q" "ring_rep n q ms" "i < NBQUEUES"
      "queues s (ConsQ i) = []" "queues s (ProdQ i) = []"
    using assms(1) by (auto simp: plain_queue_def)
  then obtain q' where q': "add_message q m = Some q'" "ring_rep n q' (ms @ [m])"
    using assms(2) messages_add [of q m] by (auto simp: ring_rep_def messages_def)
  have "is_empty q = Some (number_of_msgs q = 0)" "\<not> is_full q"
    using q(2) assms(2) by (auto simp: is_empty_def is_full_def ring_rep_def ring_ok_def messages_def)
  then show ?thesis using q q'
    by (auto simp: psend_def valid_fid_def return_int_def stay_def put_queue_def plain_queue_def SUCCES_def)
qed

lemma preceive_plain:
  assumes "plain_queue i n (m # ms) s"
  shows "\<exists>s'. preceive (int i) True s = Some s' \<and> kont (cpu s') = KRet 0 [m] \<and> plain_queue i n ms s'"
proof -
  obtain q where q: "all_queues s i = Some q" "ring_rep n q (m # ms)" "i < NBQUEUES"
      "queues s (ConsQ i) = []" "queues s (ProdQ i) = []"
    using assms(1) by (auto simp: plain_queue_def)
  then obtain q' where q': "pop_oldest_msg q = Some (m, q')" "ring_rep n q' ms"
    using messages_pop [of q m ms] by (auto simp: ring_rep_def)
  have "is_empty q = Some False"
    using q(2) by (cases "number_of_msgs q") (auto simp: is_empty_def ring_rep_def ring_ok_def messages_def)
  then show ?thesis using q q'
    by (auto simp: preceive_def valid_fid_def stay_def put_queue_def plain_queue_def SUCCES_def outs_if_def)
qed

lemma test10_write_plain:
  assumes "plain_queue i n ms s" "length ms + length bs \<le> n"
  shows "\<exists>s'. test10_write (int i) bs s = Some s' \<and> plain_queue i n (ms @ map uint bs) s'"
  using assms
proof (induction bs arbitrary: ms s)
  case (Cons b bs)
  then obtain s1 where s1: "psend (int i) (uint b) s = Some s1" "kont (cpu s1) = KRet 0 []"
      "plain_queue i n (ms @ [uint b]) s1"
    using psend_plain [of i n ms s "uint b"] by auto
  then show ?case using Cons.IH [of "ms @ [uint b]" s1] Cons.prems(2) by simp
qed simp

lemma test10_read_plain:
  "plain_queue i n (map uint bs) s \<Longrightarrow>
   \<exists>s'. test10_read (int i) (length bs) s = Some (bs, s') \<and> plain_queue i n [] s'"
proof (induction bs arbitrary: s)
  case (Cons b bs)
  then obtain s1 where s1: "preceive (int i) True s = Some s1" "kont (cpu s1) = KRet 0 [uint b]"
      "plain_queue i n (map uint bs) s1"
    using preceive_plain [of i n "uint b" "map uint bs" s] by auto
  then show ?case using Cons.IH [of s1] by (auto simp: word_uint_eqI)
qed simp

lemma strcmp_same: "strcmp (bs @ [0]) (bs @ [0]) = Some 0"
  by (induction bs) simp_all

text \<open>
  C16.  A message queue stores what is written to it: on a queue that \<open>pcreate\<close> made, with room for the
  string, \<open>write\<close> returns without waiting, \<open>read\<close> then gives back the same characters in the same order,
  and the queue is empty with nobody waiting on it; so \<open>test10\<close> comes to its last call, \<open>pdelete\<close>.
\<close>

theorem write_read_roundtrip:
  assumes "pcreate cap s = (fid, s1)" "0 \<le> fid" "length bs \<le> nat cap"
  shows "\<exists>s2 s3. test10_write fid bs s1 = Some s2 \<and> test10_read fid (length bs) s2 = Some (bs, s3) \<and>
    plain_queue (nat fid) (nat cap) [] s3 \<and> test10 cap bs s = pdelete fid s3"
proof -
  obtain s2 where s2: "test10_write fid bs s1 = Some s2" "plain_queue (nat fid) (nat cap) (map uint bs) s2"
    using test10_write_plain [OF pcreate_plain [OF assms(1,2)], of bs] assms(2,3) by auto
  then show ?thesis using test10_read_plain [OF s2(2)] assms(1,2) by (auto simp: test10_def strcmp_same)
qed

theorem write_read_roundtrip_witness:
  "\<exists>s1 s2 s3. pcreate 5 demo_msgs = (0, s1) \<and> test10_write 0 [97, 98, 99, 100, 101] s1 = Some s2 \<and>
     test10_read 0 (length [97, 98, 99, 100, 101 :: 8 word]) s2 = Some ([97, 98, 99, 100, 101], s3)"
proof -
  obtain s1 where s1: "pcreate 5 demo_msgs = (0, s1)"
    by (simp add: pcreate_def get_first_free_index_def NBQUEUES_def upt_rec demo_msgs_def demo_kernel_def malloc_def
        alloc_ok_def put_queue_def Let_def)
  have "length [97, 98, 99, 100, 101 :: 8 word] \<le> nat 5" by simp
  from write_read_roundtrip [OF s1 order_refl this] s1 show ?thesis by blast
qed

end
