(* ===== verification/Round_Robin.thy ===== *)
theory Round_Robin
  imports Trap
begin

text \<open>
  The timer and the scheduler together share the processor in turn.  The abstract machine has the
  processes of the highest priority in the order in which they run, the saved contexts and the
  context on the processor; a turn of it is a rotation.  The kernel simulates it over any number of
  timer interrupts: whatever the running process does to its registers between two interrupts, it
  finds them again when its turn comes.
\<close>

section \<open>The abstract machine\<close>

type_synonym turn_state = "ptr list \<times> (ptr \<Rightarrow> context_t) \<times> context_t"

text \<open>\<open>w\<close> is what the running process does to the processor until the interrupt.\<close>

fun rr_turn :: "kont \<Rightarrow> (context_t \<Rightarrow> context_t) \<Rightarrow> turn_state \<Rightarrow> turn_state" where
  "rr_turn k w (ps, cs, c) =
     (let cs' = cs(hd ps := (w c)\<lparr>kont := k\<rparr>); ps' = rotate1 ps in (ps', cs', cs' (hd ps')))"

section \<open>Simulation\<close>

text \<open>
  A state of the kernel with the processes \<open>ps\<close> of priority \<open>n\<close>, the first of them running, the
  processes \<open>low\<close> of lower priority ready, nobody asleep and nobody dead.
\<close>

definition rr_process :: "int \<Rightarrow> ptr \<Rightarrow> kernel \<Rightarrow> bool" where
  "rr_process n p s \<longleftrightarrow> (\<exists>x. procs s p = Some x \<and> prio x = n \<and> context_process x \<noteq> None \<and> 0 \<le> pid x \<and>
     pid_table s (pid x) = Some p)"

definition rr_running :: "ptr \<Rightarrow> kernel \<Rightarrow> bool" where
  "rr_running p s \<longleftrightarrow> (\<exists>x. procs s p = Some x \<and> state x = ACTIF \<and> next_prev x = None \<and> current_pid s = pid x)"

definition rr_env :: "int \<Rightarrow> ptr list \<Rightarrow> kernel \<Rightarrow> bool" where
  "rr_env n low s \<longleftrightarrow> queues s AsleepQ = [] \<and> queues s DeadQ = [] \<and> scheduler_main s \<noteq> None \<and>
     started_user_process s \<and> (\<forall>p \<in> set low. \<exists>x. procs s p = Some x \<and> prio x < n)"

definition rr_rel :: "int \<Rightarrow> ptr list \<Rightarrow> turn_state \<Rightarrow> kernel \<Rightarrow> bool" where
  "rr_rel n low a s \<longleftrightarrow>
     (case a of (ps, cs, c) \<Rightarrow>
        ps \<noteq> [] \<and> distinct ps \<and> set low \<inter> set ps = {} \<and> rr_env n low s \<and>
        queues s ActivatableQ = low @ rev (tl ps) \<and> list_all (\<lambda>p. rr_process n p s) ps \<and> rr_running (hd ps) s \<and>
        (\<forall>p \<in> set (tl ps). map_option context_process (procs s p) = Some (Some (cs p))) \<and> cpu s = c)"

lemma qinsert_behind_low:
  "\<forall>p \<in> set low. pr p < pr e \<Longrightarrow> \<forall>p \<in> set xs. pr p = pr e \<Longrightarrow> qinsert pr e (low @ xs) = low @ e # xs"
  by (cases xs) (auto simp: qinsert_def)

lemma keep_state:
  assumes "rr_env n low s" "queues s ActivatableQ = low" "rr_running p s" "rr_process n p s"
  shows "scheduler k s = Some (stay k (s\<lparr>spp := False\<rparr>))"
proof -
  let ?s = "s\<lparr>spp := False\<rparr>"
  obtain x where x: "procs s p = Some x" "state x = ACTIF" "current_pid s = pid x" "prio x = n" "0 \<le> pid x"
      "pid_table s (pid x) = Some p"
    using assms(3,4) by (auto simp: rr_running_def rr_process_def)
  have env: "queues s AsleepQ = []" "queues s DeadQ = []" "scheduler_main s \<noteq> None" "started_user_process s"
    using assms(1) by (simp_all add: rr_env_def)
  have "awake_sleeping_process ?s = Some ?s"
    by (rule awake_idle [of _ 0]) (simp_all add: get_next_wake_time_def q_top_def env(1))
  moreover have "free_dead_process ?s = Some ?s" using env(2) by (intro free_dead_idle) simp
  moreover have "\<exists>y. procs s (last low) = Some y \<and> prio y < n" if "low \<noteq> []"
    using assms(1) last_in_set [OF that] by (auto simp: rr_env_def)
  ultimately show ?thesis using env x assms(2)
    by (auto simp: scheduler_def choose_process_def getpid_def get_current_process_def q_top_def swap_process_def)
qed

lemma scheduler_turn:
  assumes "rr_rel n low a s"
  shows "\<exists>s'. scheduler k s = Some s' \<and> rr_rel n low (rr_turn k id a) s'"
proof -
  obtain p qs cs where a: "a = (p # qs, cs, cpu s)" and d: "distinct (p # qs)" "set low \<inter> set (p # qs) = {}"
    and env: "rr_env n low s" and q: "queues s ActivatableQ = low @ rev qs"
    and pr: "list_all (\<lambda>p. rr_process n p s) (p # qs)" and run: "rr_running p s"
    and ctx: "\<forall>p \<in> set qs. map_option context_process (procs s p) = Some (Some (cs p))"
    using assms by (cases a; cases "fst a") (auto simp: rr_rel_def)
  show ?thesis
  proof (cases qs)
    case Nil
    then have "scheduler k s = Some (stay k (s\<lparr>spp := False\<rparr>))"
      using keep_state [OF env _ run] q pr by simp
    then show ?thesis using a d env q pr run Nil
      by (simp add: rr_rel_def rr_env_def rr_process_def rr_running_def stay_def Let_def)
  next
    case (Cons t rest)
    obtain x where x: "procs s p = Some x" "state x = ACTIF" "next_prev x = None" "current_pid s = pid x"
        "prio x = n" "0 \<le> pid x" "pid_table s (pid x) = Some p" "context_process x \<noteq> None"
      using run pr by (auto simp: rr_running_def rr_process_def)
    obtain y where y: "procs s t = Some y" "context_process y = Some (cs t)" "prio y = n" "0 \<le> pid y" "pid_table s (pid y) = Some t"
      using pr ctx Cons by (auto simp: rr_process_def)
    have al: "list_all (alive s) (low @ rev rest)"
      using env pr Cons by (auto simp: list_all_iff alive_def rr_env_def rr_process_def)
    have ins: "qinsert (\<lambda>p. prio (the (procs s p))) p (low @ rev rest) = low @ p # rev rest"
      by (rule qinsert_behind_low) (use env pr Cons x in \<open>fastforce simp: rr_env_def rr_process_def list_all_iff\<close>)+
    let ?s = "s\<lparr>spp := False, current_pid := pid y, cpu := cs t,
      queues := (queues s)(ActivatableQ := low @ p # rev rest),
      procs := (procs s)(t \<mapsto> y\<lparr>next_prev := None, state := ACTIF\<rparr>,
        p \<mapsto> x\<lparr>state := ACTIVATABLE, next_prev := Some ActivatableQ, context_process := Some ((cpu s)\<lparr>kont := k\<rparr>)\<rparr>)\<rparr>"
    have s': "scheduler k s = Some ?s"
      using env x y q d Cons al
      by (subst yield_state [where w = 0 and cur = p and t = t and x = x and y = y and qs = "low @ rev rest" and c = "cs t"])
        (auto simp: rr_env_def ins get_next_wake_time_def q_top_def get_current_process_def getpid_def)
    have "rr_env n low ?s"
      using env d x y Cons by (auto simp: rr_env_def)
    moreover have "list_all (\<lambda>p. rr_process n p ?s) (t # rest @ [p])"
      using pr x y Cons by (auto simp: list_all_iff rr_process_def)
    moreover have "rr_running t ?s" using y x d Cons by (auto simp: rr_running_def)
    moreover have "\<forall>r \<in> set (rest @ [p]). map_option context_process (procs ?s r) =
        Some (Some ((cs(p := (cpu s)\<lparr>kont := k\<rparr>)) r))"
      using ctx d Cons by auto
    ultimately have "rr_rel n low (rr_turn k id a) ?s"
      using a d Cons by (auto simp: rr_rel_def)
    then show ?thesis using s' by blast
  qed
qed

text \<open>A timer interrupt, after the running process has worked for a while.\<close>

definition timer_kont :: "bool \<Rightarrow> kont" where
  "timer_kont virt = (if virt then KTimer 0 else KVoid)"

fun timer_turns :: "bool \<Rightarrow> (context_t \<Rightarrow> context_t) list \<Rightarrow> kernel \<Rightarrow> kernel option" where
  "timer_turns virt [] s = Some s"
| "timer_turns virt (w # ws) s =
     do { s1 \<leftarrow> handle_stimer_interrupt virt 0 (s\<lparr>cpu := w (cpu s)\<rparr>); timer_turns virt ws s1 }"

lemma timer_turn:
  assumes "rr_rel n low a s"
  shows "\<exists>s'. handle_stimer_interrupt virt 0 (s\<lparr>cpu := w (cpu s)\<rparr>) = Some s' \<and>
    rr_rel n low (rr_turn (timer_kont virt) w a) s'"
proof -
  obtain ps cs where a: "a = (ps, cs, cpu s)" using assms by (cases a) (auto simp: rr_rel_def)
  have "rr_rel n low (ps, cs, w (cpu s)) s1"
    if "s1 = s\<lparr>cpu := w (cpu s), counter := v\<rparr> \<or> s1 = s\<lparr>cpu := w (cpu s), counter := v, stimecmp := u\<rparr>" for s1 v u
    using assms that a by (auto simp: rr_rel_def rr_env_def rr_process_def rr_running_def)
  note rel = scheduler_turn [OF this [OF disjI1 [OF refl]]] scheduler_turn [OF this [OF disjI2 [OF refl]]]
  have "rr_turn (timer_kont virt) id (ps, cs, w (cpu s)) = rr_turn (timer_kont virt) w a" by (simp add: a Let_def)
  then show ?thesis
    using rel(1) [of "timer_kont virt" "counter s + 1"]
      rel(2) [of "timer_kont virt" "mtime s + (TIC_PER * clk_freq s) div 1000" "counter s + 1"]
    by (cases virt)
      (auto simp: handle_stimer_interrupt_def timer_kont_def set_supervisor_timer_interrupt_def simp del: rr_turn.simps)
qed

lemma fst_rr_turn [simp]: "fst (rr_turn k w a) = rotate1 (fst a)"
  by (cases a) (simp add: Let_def)

lemma running_is_current: "rr_rel n low a s \<Longrightarrow> get_current_process s = Some (hd (fst a))"
  by (cases "fst a")
    (auto simp: rr_rel_def rr_running_def rr_process_def get_current_process_def getpid_def split: prod.splits)

text \<open>
  C6.  The kernel shares the processor in turn.  Over any sequence of timer interrupts the processes of
  the highest priority run one after the other, in the order of the queue: after \<open>m\<close> interrupts the
  running process is the one at position \<open>m\<close> modulo their number, and it continues with the context the
  abstract machine saved for it.  No interrupt stops the machine.
\<close>

theorem timer_round_robin:
  assumes "rr_rel n low (ps, cs, cpu s) s"
  shows "\<exists>s'. timer_turns virt ws s = Some s' \<and>
    rr_rel n low (fold (rr_turn (timer_kont virt)) ws (ps, cs, cpu s)) s' \<and>
    get_current_process s' = Some (ps ! (length ws mod length ps))"
proof -
  have sim: "\<exists>s'. timer_turns virt ws s = Some s' \<and> rr_rel n low (fold (rr_turn (timer_kont virt)) ws a) s'"
    if "rr_rel n low a s" for a s
    using that
  proof (induction ws arbitrary: a s)
    case (Cons w ws)
    then show ?case using timer_turn [OF Cons.prems, of virt w] by fastforce
  qed simp
  have order: "fst (fold (rr_turn k) ws a) = rotate (length ws) (fst a)" for k a
    by (induction ws arbitrary: a) (simp_all add: rotate1_rotate_swap)
  obtain s' where s': "timer_turns virt ws s = Some s'"
      "rr_rel n low (fold (rr_turn (timer_kont virt)) ws (ps, cs, cpu s)) s'"
    using sim [OF assms] by blast
  moreover have "ps \<noteq> []" using assms by (simp add: rr_rel_def)
  ultimately show ?thesis using running_is_current [OF s'(2)] by (auto simp: order hd_rotate_conv_nth)
qed


definition demo_turns :: kernel where
  "demo_turns = demo_kernel\<lparr>
     procs := [10 \<mapsto> demo_process 1 1 ACTIVATABLE (Some ActivatableQ), 20 \<mapsto> demo_process 2 5 ACTIF None,
               30 \<mapsto> demo_process 3 5 ACTIVATABLE (Some ActivatableQ),
               40 \<mapsto> demo_process 4 5 ACTIVATABLE (Some ActivatableQ)],
     pid_table := [1 \<mapsto> 10, 2 \<mapsto> 20, 3 \<mapsto> 30, 4 \<mapsto> 40], current_pid := 2,
     queues := (\<lambda>_. [])(ActivatableQ := [10, 40, 30])\<rparr>"

theorem timer_round_robin_witness:
  "\<exists>s'. timer_turns True [id, id, id, id] demo_turns = Some s' \<and> get_current_process s' = Some 30"
proof -
  have "rr_rel 5 [10] ([20, 30, 40], \<lambda>_. demo_context, cpu demo_turns) demo_turns"
    by (auto simp: rr_rel_def rr_env_def rr_process_def rr_running_def demo_turns_def demo_kernel_def demo_process_def)
  from timer_round_robin [OF this, of True "[id, id, id, id]"] show ?thesis by auto
qed

end
