(* ===== verification/Isolation.thy ===== *)
theory Isolation
  imports Proc_Memory
begin

text \<open>
  Memory isolation (\<open>kernel/process/process_memory.c\<close> over \<open>kernel/memory\<close>): what the address space of
  a new process reaches.  \<open>U\<close> is the set of frames in use before; the theory follows the allocator of
  process memory through its loops and shows that it takes its page tables and frames from the free
  ones, writes nowhere else, stops at no assertion, and that user mode reaches only these frames,
  none of which holds a page table.
\<close>

section \<open>Taking and writing frames\<close>

text \<open>\<open>F\<close>: the frames taken since the memory was \<open>m0\<close>; nothing but them was written.\<close>

definition grown :: "nat \<Rightarrow> u64 set \<Rightarrow> memory \<Rightarrow> u64 set \<Rightarrow> memory \<Rightarrow> bool" where
  "grown N U m0 F m \<longleftrightarrow> falloc_inv N (m, U \<union> F) \<and> F \<inter> U = {} \<and> memory_end m \<le> 2 ^ 56 \<and>
     (\<forall>a. (\<forall>f \<in> F. \<not> in_page f a) \<longrightarrow> mem m a = mem m0 a)"

lemma grown_start: "falloc_inv N (m, U) \<Longrightarrow> memory_end m \<le> 2 ^ 56 \<Longrightarrow> grown N U m {} m"
  by (simp add: grown_def)

lemma managed_frame:
  assumes "falloc_inv N (m, U)" "memory_end m \<le> 2 ^ 56" "f \<in> U \<or> get_frame m = (Some f, m')"
  shows "aligned f" "f < 2 ^ 56" "f \<noteq> 0"
proof -
  obtain fs z where c: "layout m N" "chain (mem m) (mem_ptr m) fs z" "set (fs @ [z]) \<union> U = frame_addr m ` {..<N}"
    using assms(1) by (auto simp: falloc_inv_def)
  have "f \<in> set (fs @ [z]) \<union> U"
    using assms(3) c(2) by (cases fs) (auto simp: get_frame_def split: if_splits)
  then obtain i where i: "i < N" "f = frame_addr m i" using c(3) by blast
  note r = frame_addr_in_range [OF c(1) i(1), folded i(2)]
  show "aligned f" using r(3) by (simp add: aligned_def take_bit_eq_mask mask_eq_exp_minus_1)
  show "f < 2 ^ 56" using r(2) assms(2) by (rule less_le_trans)
  show "f \<noteq> 0" by (rule r(4))
qed

lemma grown_frame:
  "grown N U m0 F m \<Longrightarrow> f \<in> U \<union> F \<Longrightarrow> aligned f \<and> f < 2 ^ 56 \<and> f \<noteq> 0"
  unfolding grown_def using managed_frame by blast

lemma grown_take:
  assumes "grown N U m0 F m" "get_frame m = (Some f, m')"
  shows "grown N U m0 (insert f F) m'" "f \<notin> U \<union> F" "mem m' = mem m"
proof -
  have inv: "falloc_inv N (m, U \<union> F)" using assms(1) by (simp add: grown_def)
  have "falloc_inv N (m', insert f (U \<union> F))" by (rule falloc_step_inv [OF falloc_step.take [OF assms(2)] inv])
  moreover show m': "mem m' = mem m" using assms(2) by (auto simp: get_frame_def split: if_splits)
  moreover have "memory_end m' = memory_end m" using assms(2) by (auto simp: get_frame_def split: if_splits)
  moreover show fresh: "f \<notin> U \<union> F"
  proof -
    obtain fs z where "chain (mem m) (mem_ptr m) fs z" "set (fs @ [z]) \<inter> (U \<union> F) = {}"
      using inv by (auto simp: falloc_inv_def)
    then show ?thesis using assms(2) by (cases fs) (auto simp: get_frame_def split: if_splits)
  qed
  ultimately show "grown N U m0 (insert f F) m'" using assms(1) by (auto simp: grown_def)
qed

lemma grown_write:
  assumes "grown N U m0 F m" "f \<in> F" "\<And>a. \<not> in_page f a \<Longrightarrow> w a = mem m a"
  shows "grown N U m0 F (m\<lparr>mem := w\<rparr>)"
proof -
  obtain fs z where c: "layout m N" "chain (mem m) (mem_ptr m) fs z" "distinct (fs @ [z])"
      "set (fs @ [z]) \<inter> (U \<union> F) = {}" "set (fs @ [z]) \<union> (U \<union> F) = frame_addr m ` {..<N}"
    using assms(1) by (auto simp: grown_def falloc_inv_def)
  have "w g = mem m g" if g: "g \<in> set (fs @ [z])" for g
  proof -
    obtain i where i: "i < N" "g = frame_addr m i" using c(5) g by blast
    have "aligned g" using frame_addr_in_range(3) [OF c(1) i(1)] i(2)
      by (simp add: aligned_def take_bit_eq_mask mask_eq_exp_minus_1)
    moreover have "aligned f" using grown_frame [OF assms(1)] assms(2) by blast
    moreover have "f \<noteq> g" using assms(2) c(4) g by blast
    ultimately have "\<not> in_page f g" using in_page_unique [of f g g] by auto
    then show ?thesis by (rule assms(3))
  qed
  then have "chain w (mem_ptr m) fs z" using c(2) chain_cong [of fs z w "mem m"] by blast
  moreover have "layout (m\<lparr>mem := w\<rparr>) N" "frame_addr (m\<lparr>mem := w\<rparr>) = frame_addr m"
    using c(1) by (auto simp: layout_def frame_addr_def)
  ultimately have "falloc_inv N (m\<lparr>mem := w\<rparr>, U \<union> F)"
    using c(3-5) unfolding falloc_inv_def prod.case by (intro conjI exI [of _ fs] exI [of _ z]) auto
  moreover have "w a = mem m0 a" if "\<forall>g \<in> F. \<not> in_page g a" for a
    using assms that by (simp add: grown_def)
  ultimately show ?thesis using assms(1) by (simp add: grown_def)
qed

section \<open>The address space under construction\<close>

text \<open>
  \<open>t2\<close>, \<open>t1\<close> and \<open>L\<close>: the tables of the three levels; \<open>D\<close>: the frames given to the process.  Valid
  entries of \<open>t1\<close> lead to tables in \<open>L\<close>, valid entries of these to frames in \<open>D\<close>.
\<close>

definition space_ok :: "u64 \<Rightarrow> u64 set \<Rightarrow> u64 set \<Rightarrow> (u64 \<Rightarrow> u64) \<Rightarrow> bool" where
  "space_ok t1 L D w \<longleftrightarrow>
     (\<forall>i < 512. valid (w (pte_addr t1 i)) = 0 \<or>
        \<not> is_leaf (w (pte_addr t1 i)) \<and> find_pte_adress (w (pte_addr t1 i)) \<in> L) \<and>
     (\<forall>l \<in> L. \<forall>i < 512. valid (w (pte_addr l i)) = 0 \<or> find_pte_adress (w (pte_addr l i)) \<in> D)"

definition building ::
    "nat \<Rightarrow> u64 set \<Rightarrow> memory \<Rightarrow> u64 \<Rightarrow> (nat \<Rightarrow> u64) \<Rightarrow> u64 \<Rightarrow> u64 set \<Rightarrow> u64 set \<Rightarrow> memory \<Rightarrow> bool" where
  "building N U m0 t2 e2 t1 L D m \<longleftrightarrow> grown N U m0 (insert t2 (insert t1 (L \<union> D))) m \<and>
     t1 \<noteq> t2 \<and> t1 \<notin> L \<union> D \<and> t2 \<notin> L \<union> D \<and> L \<inter> D = {} \<and> space_ok t1 L D (mem m) \<and>
     (\<forall>i < 512. mem m (pte_addr t2 i) = e2 i)"

lemma entry_of_other_frame:
  assumes "grown N U m0 F m" "f \<in> F" "t \<in> F" "f \<noteq> t" "i < 512"
  shows "\<not> in_page f (pte_addr t i)"
  using assms grown_frame [OF assms(1)] in_page_unique [OF _ _ _ in_page_pte [OF assms(5), of t]] by blast

lemma building_frame:
  assumes b: "building N U m0 t2 e2 t1 L D m" and f: "get_frame m = (Some f, m1)"
    and w: "\<And>a. \<not> in_page f a \<Longrightarrow> w a = mem m a"
  shows "building N U m0 t2 e2 t1 L (insert f D) (m1\<lparr>mem := w\<rparr>)" "aligned f" "f < 2 ^ 56"
proof -
  let ?F = "insert t2 (insert t1 (L \<union> D))"
  have g: "grown N U m0 ?F m" using b by (simp add: building_def)
  note t = grown_take [OF g f]
  have fresh: "f \<noteq> t2" "f \<noteq> t1" "f \<notin> L" "f \<notin> D" using t(2) by auto
  have same: "w (pte_addr u i) = mem m (pte_addr u i)" if "u \<in> insert t2 (insert t1 L)" "i < 512" for u i
    by (rule w [OF entry_of_other_frame [OF t(1) _ _ _ that(2)]]) (use that(1) fresh in auto)
  have "grown N U m0 (insert f ?F) (m1\<lparr>mem := w\<rparr>)" by (rule grown_write [OF t(1), of f]) (use w t(3) in auto)
  moreover have "insert f ?F = insert t2 (insert t1 (L \<union> insert f D))" by auto
  moreover have "space_ok t1 L (insert f D) w" using b same by (auto simp: building_def space_ok_def)
  ultimately show "building N U m0 t2 e2 t1 L (insert f D) (m1\<lparr>mem := w\<rparr>)"
    using b fresh same by (auto simp: building_def)
  show "aligned f" "f < 2 ^ 56" using grown_frame [OF t(1), of f] by auto
qed

lemma building_entry:
  assumes b: "building N U m0 t2 e2 t1 L D m" and t: "t = t1 \<and> \<not> is_leaf e \<and> find_pte_adress e \<in> L \<or> t \<in> L \<and> find_pte_adress e \<in> D"
    and i: "i < 512"
  shows "building N U m0 t2 e2 t1 L D (m\<lparr>mem := (mem m)(pte_addr t i := e)\<rparr>)"
proof -
  let ?F = "insert t2 (insert t1 (L \<union> D))" and ?w = "(mem m)(pte_addr t i := e)"
  have g: "grown N U m0 ?F m" using b by (simp add: building_def)
  have tF: "t \<in> ?F" "t \<noteq> t2" using t b by (auto simp: building_def)
  have same: "?w (pte_addr u j) = (if u = t \<and> j = i then e else mem m (pte_addr u j))" if "u \<in> ?F" "j < 512" for u j
    using entry_of_other_frame [OF g that(1) tF(1) _ i] in_page_pte [OF that(2), of u] pte_addr_eq_iff [OF that(2) i, of u]
    by auto metis
  have "grown N U m0 ?F (m\<lparr>mem := ?w\<rparr>)"
    by (rule grown_write [OF g tF(1)]) (use in_page_pte [OF i, of t] in auto)
  moreover have "space_ok t1 L D ?w"
    unfolding space_ok_def using b t same by (auto simp: building_def space_ok_def)
  moreover have "?w (pte_addr t2 j) = e2 j" if "j < 512" for j
    using same [OF _ that, of t2] tF(2) b that by (simp add: building_def)
  ultimately show ?thesis using b by (simp add: building_def)
qed

lemma building_table:
  assumes b: "building N U m0 t2 e2 t1 L D m" and f: "create_page_table m = (Some l, m')"
  shows "building N U m0 t2 e2 t1 (insert l L) D m'" "l \<noteq> 0" "l \<notin> L"
proof -
  let ?F = "insert t2 (insert t1 (L \<union> D))"
  obtain m1 where m1: "get_frame m = (Some l, m1)" "m' = memset_frame l 0 m1"
    using f by (auto simp: create_page_table_def split: prod.splits option.splits)
  have g: "grown N U m0 ?F m" using b by (simp add: building_def)
  note t = grown_take [OF g m1(1)]
  have fresh: "l \<noteq> t2" "l \<noteq> t1" "l \<notin> L" "l \<notin> D" using t(2) by auto
  have same: "mem m' (pte_addr u i) = mem m (pte_addr u i)" if "u \<in> insert t2 (insert t1 L)" "i < 512" for u i
    using entry_of_other_frame [OF t(1) _ _ _ that(2), of l u] that(1) fresh t(3) by (auto simp: m1 memset_frame_def)
  have zero: "mem m' (pte_addr l i) = 0" if "i < 512" for i
    using in_page_pte [OF that, of l] by (simp add: m1 memset_frame_def)
  have "grown N U m0 (insert l ?F) m'"
    unfolding m1(2) memset_frame_def by (rule grown_write [OF t(1), of l]) auto
  moreover have "insert l ?F = insert t2 (insert t1 (insert l L \<union> D))" by auto
  moreover have "valid 0 = 0" by (simp add: valid_def get_field_def)
  ultimately show "building N U m0 t2 e2 t1 (insert l L) D m'"
    using b fresh same zero by (auto simp: building_def space_ok_def)
  show "l \<noteq> 0" using grown_frame [OF t(1), of l] by auto
  show "l \<notin> L" by (rule fresh(3))
qed

section \<open>Giving frames to the process\<close>

lemma no_frame: "get_frame m = (None, m') \<Longrightarrow> m' = m"
  by (auto simp: get_frame_def split: if_splits)

text \<open>
  The inner loop takes the frames \<open>fs\<close> and enters them in the table \<open>l\<close> from entry \<open>i\<close> on; no other
  entry changes.
\<close>

lemma allocate_frames_exact:
  assumes "building N U m0 t2 e2 t1 L D m" "l \<in> L" "i + n \<le> 512"
  shows "\<exists>r m' fs. allocate_frames l i n w m = Some (r, m') \<and> building N U m0 t2 e2 t1 L (D \<union> set fs) m' \<and>
    distinct fs \<and> set fs \<inter> D = {} \<and> length fs \<le> n \<and> (r \<noteq> None \<longrightarrow> length fs = n) \<and>
    (\<forall>k < length fs. find_pte_adress (mem m' (pte_addr l (i + k))) = fs ! k) \<and>
    (\<forall>t \<in> insert t1 L. \<forall>j < 512. t \<noteq> l \<or> j < i \<or> i + n \<le> j \<longrightarrow> mem m' (pte_addr t j) = mem m (pte_addr t j))"
  using assms
proof (induction n arbitrary: i w m D)
  case (Suc n)
  obtain wr data left where w: "w = (wr, data, left)" by (cases w)
  show ?case
  proof (cases "get_frame m")
    case (Pair fo m1)
    show ?thesis
    proof (cases fo)
      case None
      then show ?thesis using Suc(2) Pair no_frame [of m m1]
        by (intro exI [of _ None] exI [of _ m] exI [of _ "[]"]) (auto simp: w)
    next
      case (Some f)
      define v where "v = (if wr \<and> 0 \<le> left then memcpy_frame f data m1 else if wr then m1 else memset_frame f 0 m1)"
      define w' where "w' = (if wr \<and> 0 \<le> left then (True, data + FRAME_SIZE, left - 4096) else (False, data, left))"
      have g: "get_frame m = (Some f, m1)" using Pair Some by simp
      then have m1: "mem m1 = mem m" by (auto simp: get_frame_def split: if_splits)
      have v: "v = m1\<lparr>mem := mem v\<rparr>" by (simp add: v_def memcpy_frame_def memset_frame_def)
      have out: "mem v a = mem m a" if "\<not> in_page f a" for a
        using that m1 by (simp add: v_def memcpy_frame_def memset_frame_def)
      note bf = building_frame [OF Suc(2) g out]
      have fD: "f \<notin> insert t2 (insert t1 (L \<union> D))"
        using grown_take(2) [OF _ g, of N U m0 "insert t2 (insert t1 (L \<union> D))"] Suc(2) by (auto simp: building_def)
      let ?e = "link_pte (flags_set (mem v (pte_addr l i)) True True (fst w') True) f"
      define m2 where "m2 = v\<lparr>mem := (mem v)(pte_addr l i := ?e)\<rparr>"
      have b2: "building N U m0 t2 e2 t1 L (insert f D) m2"
        using building_entry [OF bf(1), of l ?e i] Suc(3,4) find_link_aligned [OF bf(2,3)] v by (auto simp: m2_def)
      have e2: "find_pte_adress (mem m2 (pte_addr l i)) = f"
        using find_link_aligned [OF bf(2,3)] by (simp add: m2_def)
      have same: "mem m2 (pte_addr t j) = mem m (pte_addr t j)" if "t \<in> insert t1 L" "j < 512" "t \<noteq> l \<or> j \<noteq> i" for t j
      proof -
        have gr: "grown N U m0 (insert t2 (insert t1 (L \<union> insert f D))) m2" using b2 by (simp add: building_def)
        have "\<not> in_page f (pte_addr t j)" by (rule entry_of_other_frame [OF gr _ _ _ that(2)]) (use that(1) fD in auto)
        moreover have "pte_addr t j \<noteq> pte_addr l i"
        proof (cases "t = l")
          case True
          then show ?thesis using that(3) pte_addr_eq_iff [OF that(2), of i l] Suc(4) by auto
        next
          case False
          then show ?thesis using entry_of_other_frame [OF gr _ _ _ that(2), of l t] that(1) Suc(3) in_page_pte [of i l] Suc(4) by auto
        qed
        ultimately show ?thesis using out by (simp add: m2_def)
      qed
      have step: "allocate_frames l i (Suc n) w m = allocate_frames l (Suc i) n w' m2"
        using g by (simp add: upd_pte_def configure_KILO v_def w'_def w m2_def)
      from Suc.IH [OF b2 Suc(3), of "Suc i" w'] Suc(4) obtain r m' fs where
        a: "allocate_frames l (Suc i) n w' m2 = Some (r, m')" "building N U m0 t2 e2 t1 L (insert f D \<union> set fs) m'"
          "distinct fs" "set fs \<inter> insert f D = {}" "length fs \<le> n" "r \<noteq> None \<longrightarrow> length fs = n"
          "\<forall>k < length fs. find_pte_adress (mem m' (pte_addr l (Suc i + k))) = fs ! k"
          "\<forall>t \<in> insert t1 L. \<forall>j < 512. t \<noteq> l \<or> j < Suc i \<or> Suc i + n \<le> j \<longrightarrow> mem m' (pte_addr t j) = mem m2 (pte_addr t j)"
        by auto
      have "mem m' (pte_addr l i) = mem m2 (pte_addr l i)" using a(8) Suc(3,4) by auto
      then have "find_pte_adress (mem m' (pte_addr l (i + k))) = (f # fs) ! k" if "k < length (f # fs)" for k
        using e2 a(7) that by (cases k) auto
      moreover have "mem m' (pte_addr t j) = mem m (pte_addr t j)"
        if "t \<in> insert t1 L" "j < 512" "t \<noteq> l \<or> j < i \<or> i + Suc n \<le> j" for t j
        using a(8) same [OF that(1,2)] that by auto
      moreover have "insert f D \<union> set fs = D \<union> set (f # fs)" by auto
      ultimately show ?thesis using step a fD
        by (intro exI [of _ r] exI [of _ m'] exI [of _ "f # fs"]) auto
    qed
  qed
qed auto

text \<open>
  A level 0 node, the frames its table maps, and the state in which exactly the nodes \<open>ds\<close> have been
  filled: no frame is mapped twice.
\<close>

definition node_ok :: "page_table_link_list \<Rightarrow> bool" where
  "node_ok nd \<longleftrightarrow> usage nd \<le> 512 \<and> stack_usage nd = 0 \<and> heap_usage nd = 0 \<and> shared_memory_usage nd = 0"

definition node_frames :: "memory \<Rightarrow> page_table_link_list \<Rightarrow> u64 list" where
  "node_frames m nd = map (\<lambda>i. find_pte_adress (mem m (pte_addr (node_table nd) i))) [0..<usage nd]"

definition mapped :: "u64 \<Rightarrow> memory \<Rightarrow> u64 set \<Rightarrow> page_table_link_list list \<Rightarrow> bool" where
  "mapped t1 m D ds \<longleftrightarrow> distinct (concat (map (node_frames m) ds)) \<and> D = set (concat (map (node_frames m) ds)) \<and>
     (\<forall>nd \<in> set ds. find_pte_adress (mem m (pte_addr t1 (nat (index nd)))) = node_table nd)"

lemma mapped_snoc:
  assumes "mapped t1 m D ds" "\<And>nd. nd \<in> set ds \<Longrightarrow> node_frames m' nd = node_frames m nd"
    "\<And>nd. nd \<in> set ds \<Longrightarrow> mem m' (pte_addr t1 (nat (index nd))) = mem m (pte_addr t1 (nat (index nd)))"
    "node_frames m' nd = fs" "distinct fs" "set fs \<inter> D = {}"
    "find_pte_adress (mem m' (pte_addr t1 (nat (index nd)))) = node_table nd"
  shows "mapped t1 m' (D \<union> set fs) (ds @ [nd])"
proof -
  have eq: "map (node_frames m') ds = map (node_frames m) ds" using assms(2) by simp
  have "concat (map (node_frames m') (ds @ [nd])) = concat (map (node_frames m) ds) @ fs"
    using assms(4) by (simp only: eq map_append concat_append list.map concat.simps append_Nil2)
  then show ?thesis using assms by (simp add: mapped_def Int_commute)
qed

lemma allocate_tables_building:
  assumes "building N U m0 t2 e2 t1 L D m" "mapped t1 m D ds" "\<forall>nd \<in> set (ds @ nodes). node_ok nd \<and> node_table nd \<in> L"
    "distinct (map node_table (ds @ nodes))" "\<forall>nd \<in> set ds. 0 \<le> index nd \<and> index nd < int i"
    "\<forall>k < n. k < length nodes \<and> index (nodes ! k) = int (i + k)" "i + n \<le> 512"
  shows "\<exists>r m' D'. allocate_tables t1 nodes i n w m = Some (r, m') \<and> (r = 0 \<or> r = - 1) \<and>
    building N U m0 t2 e2 t1 L D' m' \<and> (r = 0 \<longrightarrow> mapped t1 m' D' (ds @ take n nodes))"
  using assms
proof (induction n arbitrary: nodes i w m D ds)
  case (Suc n)
  obtain nd ns where nodes: "nodes = nd # ns" using Suc.prems(6) by (cases nodes) auto
  have nd: "node_ok nd" "index nd = int i" "node_table nd \<in> L" using Suc.prems(3,6) nodes by auto
  then have us: "usage nd \<le> 512" by (auto simp: node_ok_def)
  have i: "i < 512" using Suc.prems(7) by simp
  have tl: "t1 \<notin> L" using Suc.prems(1) by (simp add: building_def)
  have fr: "aligned (node_table nd)" "node_table nd < 2 ^ 56" "node_table nd \<noteq> 0"
    using grown_frame [of N U m0 "insert t2 (insert t1 (L \<union> D))" m "node_table nd"] Suc.prems(1) nd(3)
    by (auto simp: building_def)
  let ?e = "link_pte (flags_set (mem m (pte_addr t1 i)) False False False True) (node_table nd)"
  define m1 where "m1 = m\<lparr>mem := (mem m)(pte_addr t1 i := ?e)\<rparr>"
  have b: "building N U m0 t2 e2 t1 L D m1"
    unfolding m1_def by (rule building_entry [OF Suc.prems(1)])
      (use i nd(3) find_link_aligned [OF fr(1,2)] in \<open>auto simp: is_leaf_def\<close>)
  obtain r m' fs where a: "allocate_frames (node_table nd) 0 (usage nd) w m1 = Some (r, m')"
      "building N U m0 t2 e2 t1 L (D \<union> set fs) m'" "distinct fs" "set fs \<inter> D = {}" "r \<noteq> None \<longrightarrow> length fs = usage nd"
      "\<forall>k < length fs. find_pte_adress (mem m' (pte_addr (node_table nd) k)) = fs ! k"
      "\<forall>t \<in> insert t1 L. \<forall>j < 512. t \<noteq> node_table nd \<longrightarrow> mem m' (pte_addr t j) = mem m1 (pte_addr t j)"
    using allocate_frames_exact [OF b nd(3), of 0 "usage nd" w] us by auto
  have step: "allocate_tables t1 nodes i (Suc n) w m =
      (case r of None \<Rightarrow> Some (- 1, m') | Some w' \<Rightarrow> allocate_tables t1 ns (Suc i) n w' m')"
    using nd(2) fr(3) a(1) by (simp add: nodes upd_pte_def configure_KILO m1_def)
  show ?case
  proof (cases r)
    case None
    then show ?thesis using step a(2) by auto
  next
    case (Some w')
    have gr: "grown N U m0 (insert t2 (insert t1 (L \<union> D))) m" using Suc.prems(1) by (simp add: building_def)
    have m1: "mem m1 (pte_addr t j) = mem m (pte_addr t j)" if "t \<in> insert t1 L" "j < 512" "t \<noteq> t1 \<or> j \<noteq> i" for t j
      using that entry_of_other_frame [OF gr _ _ _ that(2), of t1 t] in_page_pte [OF i, of t1] pte_addr_eq_iff [OF that(2) i, of t1] tl
      by (cases "t = t1") (auto simp: m1_def)
    have fs: "node_frames m' nd = fs" using a(5,6) Some by (auto simp: node_frames_def intro!: nth_equalityI)
    have old: "node_frames m' nd' = node_frames m nd'" if "nd' \<in> set ds" for nd'
    proof -
      have "node_table nd' \<noteq> node_table nd" using Suc.prems(4) that nodes by (simp add: image_iff) metis
      moreover have "node_table nd' \<in> L" using Suc.prems(3) that by simp
      ultimately have "mem m' (pte_addr (node_table nd') j) = mem m (pte_addr (node_table nd') j)" if "j < 512" for j
        using a(7) [rule_format, of "node_table nd'" j] m1 [of "node_table nd'" j] tl that by auto
      moreover have "usage nd' \<le> 512" using Suc.prems(3) that by (auto simp: node_ok_def)
      ultimately show ?thesis by (auto simp: node_frames_def)
    qed
    have ent: "mem m' (pte_addr t1 j) = mem m1 (pte_addr t1 j)" if "j < 512" for j using a(7) tl nd(3) that by auto
    have "mapped t1 m' (D \<union> set fs) (ds @ [nd])"
    proof (rule mapped_snoc [OF Suc.prems(2) old _ fs a(3,4)])
      fix nd' assume "nd' \<in> set ds"
      then have "nat (index nd') < i" using Suc.prems(5) by auto
      then show "mem m' (pte_addr t1 (nat (index nd'))) = mem m (pte_addr t1 (nat (index nd')))"
        using ent m1 i by simp
    next
      show "find_pte_adress (mem m' (pte_addr t1 (nat (index nd)))) = node_table nd"
        using ent [OF i] nd(2) find_link_aligned [OF fr(1,2)] by (simp add: m1_def)
    qed
    moreover have "\<forall>k < n. k < length ns \<and> index (ns ! k) = int (Suc i + k)"
      using Suc.prems(6) nodes by (auto dest: spec [of _ "Suc _"])
    moreover have "\<forall>nd \<in> set (ds @ [nd]). 0 \<le> index nd \<and> index nd < int (Suc i)" using Suc.prems(5) nd(2) by auto
    ultimately show ?thesis
      using Suc.IH [OF a(2), of "ds @ [nd]" ns "Suc i" w'] step Some Suc.prems(3,4,7) nodes by simp
  qed
qed auto

section \<open>The nodes of a process\<close>

text \<open>
  The nodes are numbered from 0 for code and stack, and from 128 for the heap, in this order in the
  list; the counters of the level 1 node are their numbers.
\<close>

definition node_index :: "nat \<Rightarrow> nat \<Rightarrow> nat" where
  "node_index su k = (if k < su then k else 128 + (k - su))"

definition nodes_ok :: "u64 \<Rightarrow> lvl1_list \<Rightarrow> bool" where
  "nodes_ok t1 l \<longleftrightarrow> node_table (lvl1 l) = t1 \<and> (\<forall>nd \<in> set (lvl0_nodes l). node_ok nd) \<and>
     distinct (map node_table (lvl0_nodes l)) \<and> shared_memory_usage (lvl1 l) = 0 \<and>
     stack_usage (lvl1 l) \<le> 128 \<and> heap_usage (lvl1 l) \<le> 128 \<and>
     length (lvl0_nodes l) = stack_usage (lvl1 l) + heap_usage (lvl1 l) \<and>
     (\<forall>k < length (lvl0_nodes l). index (lvl0_nodes l ! k) = int (node_index (stack_usage (lvl1 l)) k))"

abbreviation node_tables :: "lvl1_list \<Rightarrow> u64 set" where
  "node_tables l \<equiv> node_table ` set (lvl0_nodes l)"

text \<open>What \<open>allocate_memory_final\<close> does for the nodes from number \<open>k\<close> on, \<open>n\<close> of them.\<close>

lemma final_building:
  assumes "nodes_ok t1 l" "building N U m0 t2 e2 t1 (node_tables l) D (mm s)" "mapped t1 (mm s) D (take k (lvl0_nodes l))"
    "(i, n, k) = (0, stack_usage (lvl1 l), 0) \<or> (i, n, k) = (128, heap_usage (lvl1 l), stack_usage (lvl1 l))"
  shows "\<exists>r m' D'. allocate_memory_final (Some l) i (i + n) data size_data s = Some (r, s\<lparr>mm := m'\<rparr>) \<and>
    (r = 0 \<or> r = - 1) \<and> building N U m0 t2 e2 t1 (node_tables l) D' m' \<and>
    (r = 0 \<longrightarrow> 0 < n \<and> mapped t1 m' D' (take (k + n) (lvl0_nodes l)))"
proof -
  define nodes where "nodes = dropWhile (\<lambda>nd. index nd \<noteq> int i) (lvl0_nodes l)"
  show ?thesis
  proof (cases "nodes = []")
    case True
    then show ?thesis using assms(2)
      by (intro exI [of _ "- 1"] exI [of _ "mm s"] exI [of _ D]) (simp add: allocate_memory_final_def nodes_def)
  next
    case False
    have len: "length (lvl0_nodes l) = stack_usage (lvl1 l) + heap_usage (lvl1 l)"
      and le: "stack_usage (lvl1 l) \<le> 128" "heap_usage (lvl1 l) \<le> 128"
      and idx: "\<And>j. j < length (lvl0_nodes l) \<Longrightarrow> index (lvl0_nodes l ! j) = int (node_index (stack_usage (lvl1 l)) j)"
      using assms(1) by (auto simp: nodes_ok_def)
    have n: "0 < n"
    proof (rule ccontr)
      assume "\<not> 0 < n"
      then have "\<forall>nd \<in> set (lvl0_nodes l). index nd \<noteq> int i"
        using assms(4) idx len le by (auto simp: in_set_conv_nth node_index_def)
      then show False using False by (simp add: nodes_def)
    qed
    have drop: "nodes = drop k (lvl0_nodes l)"
    proof -
      have "takeWhile (\<lambda>nd. index nd \<noteq> int i) (lvl0_nodes l) = take k (lvl0_nodes l)"
        by (rule takeWhile_eq_take_P_nth) (use assms(4) idx len le n in \<open>auto simp: node_index_def\<close>)
      then show ?thesis using n assms(4) len
        unfolding nodes_def dropWhile_eq_drop by auto
    qed
    have all: "take k (lvl0_nodes l) @ nodes = lvl0_nodes l" by (simp add: drop)
    have "\<forall>nd \<in> set (take k (lvl0_nodes l)). 0 \<le> index nd \<and> index nd < int i"
      using assms(4) idx len le by (auto simp: in_set_conv_nth node_index_def)
    moreover have "\<forall>j < n. j < length nodes \<and> index (nodes ! j) = int (i + j)" "i + n \<le> 512"
      using assms(4) idx len le by (auto simp: node_index_def drop)
    moreover have "\<forall>nd \<in> set (lvl0_nodes l). node_ok nd \<and> node_table nd \<in> node_tables l" "distinct (map node_table (lvl0_nodes l))"
      using assms(1) by (auto simp: nodes_ok_def)
    ultimately obtain r m' D' where "allocate_tables t1 nodes i n
        (if data \<noteq> 0 \<and> size_data \<noteq> 0 then (True, data, size_data) else (False, 0, 0)) (mm s) = Some (r, m')"
      "r = 0 \<or> r = - 1" "building N U m0 t2 e2 t1 (node_tables l) D' m'"
      "r = 0 \<longrightarrow> mapped t1 m' D' (take k (lvl0_nodes l) @ take n nodes)"
      using allocate_tables_building [OF assms(2,3), of nodes i n] unfolding all by blast
    then show ?thesis using False assms(1) n
      by (auto simp: allocate_memory_final_def nodes_ok_def Let_def take_add drop simp flip: nodes_def)
  qed
qed

text \<open>
  A process whose frames are reserved but not yet taken, one whose frames are taken and mapped, and
  an address space on which the construction stopped.
\<close>

definition proc_building ::
    "nat \<Rightarrow> u64 set \<Rightarrow> memory \<Rightarrow> u64 \<Rightarrow> (nat \<Rightarrow> u64) \<Rightarrow> u64 \<Rightarrow> ptr \<Rightarrow> bool \<Rightarrow> kernel \<Rightarrow> bool" where
  "proc_building N U m0 t2 e2 t1 p heap s \<longleftrightarrow>
     (\<exists>x l. procs s p = Some x \<and> page_table_level_2 x = t2 \<and> page_tables_lvl_1_list x = Some l \<and>
        app_pointer x \<noteq> None \<and> nodes_ok t1 l \<and> (\<not> heap \<longrightarrow> heap_usage (lvl1 l) = 0) \<and>
        building N U m0 t2 e2 t1 (node_tables l) {} (mm s))"

definition proc_built ::
    "nat \<Rightarrow> u64 set \<Rightarrow> memory \<Rightarrow> u64 \<Rightarrow> (nat \<Rightarrow> u64) \<Rightarrow> u64 \<Rightarrow> ptr \<Rightarrow> kernel \<Rightarrow> bool" where
  "proc_built N U m0 t2 e2 t1 p s \<longleftrightarrow>
     (\<exists>x l D. procs s p = Some x \<and> page_table_level_2 x = t2 \<and> page_tables_lvl_1_list x = Some l \<and> nodes_ok t1 l \<and>
        0 < stack_usage (lvl1 l) \<and> building N U m0 t2 e2 t1 (node_tables l) D (mm s) \<and> mapped t1 (mm s) D (lvl0_nodes l))"

definition half_built :: "nat \<Rightarrow> u64 set \<Rightarrow> memory \<Rightarrow> u64 \<Rightarrow> (nat \<Rightarrow> u64) \<Rightarrow> u64 \<Rightarrow> kernel \<Rightarrow> bool" where
  "half_built N U m0 t2 e2 t1 s \<longleftrightarrow> (\<exists>L D. building N U m0 t2 e2 t1 L D (mm s))"

lemma process_frames_building:
  assumes "proc_building N U m0 t2 e2 t1 p True s"
  shows "\<exists>r s'. process_frames_alloc p s = Some (r, s') \<and>
    (r = 0 \<and> proc_built N U m0 t2 e2 t1 p s' \<or> r = - 1 \<and> half_built N U m0 t2 e2 t1 s')"
proof -
  obtain x l where x: "procs s p = Some x" "page_tables_lvl_1_list x = Some l" "nodes_ok t1 l"
      "page_table_level_2 x = t2" "app_pointer x \<noteq> None" "building N U m0 t2 e2 t1 (node_tables l) {} (mm s)"
    using assms by (auto simp: proc_building_def)
  obtain a where a: "app_pointer x = Some a" using x(5) by blast
  have none: "mapped t1 (mm s) {} (take 0 (lvl0_nodes l))" by (simp add: mapped_def)
  obtain r m' D' where 1: "allocate_memory_final (Some l) 0 (stack_usage (lvl1 l)) (app_start a) (code_size a) s =
      Some (r, s\<lparr>mm := m'\<rparr>)" "r = 0 \<or> r = - 1" "building N U m0 t2 e2 t1 (node_tables l) D' m'"
      "r = 0 \<longrightarrow> 0 < stack_usage (lvl1 l) \<and> mapped t1 m' D' (take (stack_usage (lvl1 l)) (lvl0_nodes l))"
    using final_building [OF x(3,6) none, of 0 "stack_usage (lvl1 l)" "app_start a" "code_size a"] by auto
  show ?thesis
  proof (cases "r = 0")
    case False
    then show ?thesis using 1 x(1,2) a by (auto simp: process_frames_alloc_def half_built_def)
  next
    case True
    have len: "stack_usage (lvl1 l) + heap_usage (lvl1 l) = length (lvl0_nodes l)" using x(3) by (simp add: nodes_ok_def)
    obtain r' m'' D'' where 2: "allocate_memory_final (Some l) 128 (128 + heap_usage (lvl1 l)) 0 0 (s\<lparr>mm := m'\<rparr>) =
        Some (r', s\<lparr>mm := m''\<rparr>)" "r' = 0 \<or> r' = - 1" "building N U m0 t2 e2 t1 (node_tables l) D'' m''"
        "r' = 0 \<longrightarrow> mapped t1 m'' D'' (lvl0_nodes l)"
      using final_building [OF x(3), of N U m0 t2 e2 D' "s\<lparr>mm := m'\<rparr>" "stack_usage (lvl1 l)" 128 "heap_usage (lvl1 l)" 0 0]
        1(3,4) True len by auto
    then show ?thesis using x a 1(1,4) True by (auto simp: process_frames_alloc_def half_built_def proc_built_def)
  qed
qed

lemma find_room_Some: "find_room ty i ns = Some j \<Longrightarrow> i \<le> j \<and> j - i < length ns \<and> has_room ty (ns ! (j - i))"
proof (induction ns arbitrary: i)
  case (Cons n ns)
  show ?case
  proof (cases "has_room ty n")
    case False
    then have "Suc i \<le> j \<and> j - Suc i < length ns \<and> has_room ty (ns ! (j - Suc i))"
      using Cons.IH [of "Suc i"] Cons.prems by simp
    then show ?thesis by (auto simp: nth_Cons')
  qed (use Cons.prems in auto)
qed simp

section \<open>Reserving frames\<close>

lemma malloc_mm: "malloc s = (r, s') \<Longrightarrow> mm s' = mm s \<and> procs s' = procs s"
  by (auto simp: malloc_def alloc_ok_def split: list.splits if_splits)

lemma nodes_ok_bump:
  assumes "nodes_ok t1 l" "i < length (lvl0_nodes l)" "usage (lvl0_nodes l ! i) < 512"
  shows "nodes_ok t1 (bump_usage i l)" "lvl1 (bump_usage i l) = lvl1 l" "node_tables (bump_usage i l) = node_tables l"
proof -
  have "node_ok (lvl0_nodes l ! i)" using assms(1,2) by (auto simp: nodes_ok_def)
  then have "node_ok ((lvl0_nodes l ! i)\<lparr>usage := usage (lvl0_nodes l ! i) + 1\<rparr>)"
    using assms(3) by (simp add: node_ok_def)
  moreover have map: "map node_table (lvl0_nodes (bump_usage i l)) = map node_table (lvl0_nodes l)"
    using assms(2) by (auto simp: bump_usage_def map_update intro: list_update_same_conv [THEN iffD2])
  ultimately show "nodes_ok t1 (bump_usage i l)" using assms(1,2) set_update_subset_insert [of "lvl0_nodes l" i]
    by (fastforce simp: nodes_ok_def bump_usage_def nth_list_update)
  show "lvl1 (bump_usage i l) = lvl1 l" by (simp add: bump_usage_def)
  show "node_tables (bump_usage i l) = node_tables l" using map by (metis list.set_map)
qed

text \<open>A new node at the end of the list.\<close>

definition new_node :: "u64 \<Rightarrow> page_t \<Rightarrow> lvl1_list \<Rightarrow> lvl1_list" where
  "new_node t ty l =
     (case take_index ty (lvl1 l) of (n, par) \<Rightarrow>
        l\<lparr>lvl1 := par\<lparr>usage := usage par + 1\<rparr>,
          lvl0_nodes := lvl0_nodes l @ [\<lparr>node_table = t, usage = 0, stack_usage = 0, heap_usage = 0,
            shared_memory_usage = 0, index = int (space_start ty + n)\<rparr>]\<rparr>)"

lemma nodes_ok_new:
  assumes "nodes_ok t1 l" "stack_usage (lvl1 l) < 128" "heap_usage (lvl1 l) < 128" "t \<notin> node_tables l"
    "ty = STACK_CODE_PAGE \<and> heap_usage (lvl1 l) = 0 \<or> ty = HEAP_PAGE"
  shows "nodes_ok t1 (new_node t ty l)" "node_tables (new_node t ty l) = insert t (node_tables l)"
  using assms by (auto simp: nodes_ok_def new_node_def node_ok_def node_index_def nth_append less_Suc_eq)

lemma add_child_cases:
  assumes "add_child_node_page_table l ty s = (r, l', s')"
  obtains "r = - 1" "mm s' = mm s" "procs s' = procs s"
  | t where "create_page_table (mm s) = (Some t, mm s')" "procs s' = procs s" "r = - 1"
  | t where "create_page_table (mm s) = (Some t, mm s')" "procs s' = procs s" "r = 0" "l' = new_node t ty l"
      "stack_usage (lvl1 l) < 128" "heap_usage (lvl1 l) < 128"
proof (cases "usage (lvl1 l) \<ge> PT_SIZE \<or> stack_usage (lvl1 l) \<ge> STACK_FRAME_SIZE \<or>
    heap_usage (lvl1 l) \<ge> HEAP_FRAME_SIZE \<or> shared_memory_usage (lvl1 l) \<ge> SHARED_FRAME_SIZE")
  case True
  then show thesis using assms that(1) by (auto simp: add_child_node_page_table_def Let_def)
next
  case False
  obtain t m1 where c: "create_page_table (mm s) = (t, m1)" by fastforce
  obtain a s2 where ml: "malloc (s\<lparr>mm := m1\<rparr>) = (a, s2)" by fastforce
  then have s2: "mm s2 = m1" "procs s2 = procs s" using malloc_mm [OF ml] by auto
  show thesis
  proof (cases t)
    case None
    then have "m1 = mm s" using c no_frame by (fastforce simp: create_page_table_def split: prod.splits option.splits)
    then show thesis using assms False None c that(1)
      by (auto simp: add_child_node_page_table_def Let_def create_page_table_k_def)
  next
    case (Some f)
    show thesis
    proof (cases "f = 0 \<or> a = None")
      case True
      then have "r = - 1" "mm s' = m1" "procs s' = procs s" using assms False c Some ml s2
        by (cases "f = 0"; auto simp: add_child_node_page_table_def Let_def create_page_table_k_def
            configure_page_table_linked_list_entry_def)+
      then show thesis using that(2) c Some by simp
    next
      case f: False
      then have "r = 0" "l' = new_node f ty l" "mm s' = m1" "procs s' = procs s" using assms False c Some ml s2
        by (auto simp: add_child_node_page_table_def Let_def create_page_table_k_def new_node_def
            configure_page_table_linked_list_entry_def split: prod.splits)
      then show thesis using that(3) [of f] c Some False by (auto simp: STACK_FRAME_SIZE_def HEAP_FRAME_SIZE_def)
    qed
  qed
qed

lemma put_building:
  assumes "procs s p = Some x" "page_table_level_2 x = t2" "app_pointer x \<noteq> None" "nodes_ok t1 l"
    "\<not> heap \<longrightarrow> heap_usage (lvl1 l) = 0" "building N U m0 t2 e2 t1 (node_tables l) {} (mm s)"
  shows "\<exists>s'. put_lvl1 p l s = Some s' \<and> proc_building N U m0 t2 e2 t1 p heap s' \<and> mm s' = mm s \<and>
    procs s' = (procs s)(p \<mapsto> x\<lparr>page_tables_lvl_1_list := Some l\<rparr>)"
  using assms by (auto simp: put_lvl1_def upd_proc_def proc_building_def)

lemma add_frame_building:
  assumes "proc_building N U m0 t2 e2 t1 p heap s" "ty = STACK_CODE_PAGE \<and> \<not> heap \<or> ty = HEAP_PAGE \<and> heap"
  shows "\<exists>r s'. add_frame_to_process p ty s = Some (r, s') \<and>
    (r = 0 \<and> proc_building N U m0 t2 e2 t1 p heap s' \<or> r = - 1 \<and> half_built N U m0 t2 e2 t1 s')"
proof -
  obtain x l where x: "procs s p = Some x" "page_tables_lvl_1_list x = Some l" "nodes_ok t1 l"
      "page_table_level_2 x = t2" "app_pointer x \<noteq> None" "building N U m0 t2 e2 t1 (node_tables l) {} (mm s)"
      "\<not> heap \<longrightarrow> heap_usage (lvl1 l) = 0"
    using assms(1) unfolding proc_building_def by blast
  have ns: "ty \<noteq> SHARED_PAGE" and tc: "ty = STACK_CODE_PAGE \<and> heap_usage (lvl1 l) = 0 \<or> ty = HEAP_PAGE"
    using assms(2) x(7) by auto
  show ?thesis
  proof (cases "find_room ty 0 (lvl0_nodes l)")
    case (Some i)
    then have i: "i < length (lvl0_nodes l)" "usage (lvl0_nodes l ! i) < 512"
      using find_room_Some [OF Some] by (auto simp: has_room_def PT_SIZE_def)
    note b = nodes_ok_bump [OF x(3) i]
    then show ?thesis using put_building [OF x(1,4,5) b(1), of heap N U m0 e2] x(1,2,6,7) Some ns
      by (auto simp: add_frame_to_process_def)
  next
    case None
    obtain r l' s' where c: "add_child_node_page_table l ty s = (r, l', s')" by (metis prod_cases3)
    have add: "add_frame_to_process p ty s = (if r < 0 then Some (- 1, s') else do {
        s2 \<leftarrow> put_lvl1 p l' s';
        s3 \<leftarrow> put_lvl1 p (bump_usage (length (lvl0_nodes l') - 1) l') s2; Some (0, s3) })"
      using x(1,2) None c ns by (simp add: add_frame_to_process_def)
    show ?thesis
      using c
    proof (cases rule: add_child_cases)
      case 1
      then show ?thesis using x(6) add by (auto simp: half_built_def)
    next
      case (2 t)
      then show ?thesis using building_table [OF x(6) 2(1)] add by (auto simp: half_built_def)
    next
      case (3 t)
      have fresh: "t \<notin> node_tables l" using building_table(3) [OF x(6) 3(1)] by simp
      note n = nodes_ok_new [OF x(3) 3(5,6) fresh tc, folded 3(4)]
      have b: "building N U m0 t2 e2 t1 (node_tables l') {} (mm s')"
        using building_table(1) [OF x(6) 3(1)] n(2) by simp
      have h: "\<not> heap \<longrightarrow> heap_usage (lvl1 l') = 0" using assms(2) x(7) 3(4) by (auto simp: new_node_def)
      have pr: "procs s' p = Some x" using 3(2) x(1) by simp
      obtain s2 where s2: "put_lvl1 p l' s' = Some s2" "mm s2 = mm s'"
          "procs s2 = (procs s')(p \<mapsto> x\<lparr>page_tables_lvl_1_list := Some l'\<rparr>)"
        using put_building [OF pr x(4,5) n(1) h b] by blast
      have i: "length (lvl0_nodes l') - 1 < length (lvl0_nodes l')" "usage (lvl0_nodes l' ! (length (lvl0_nodes l') - 1)) < 512"
        by (auto simp: 3(4) new_node_def nth_append split: prod.splits)
      note bu = nodes_ok_bump [OF n(1) i]
      have "procs s2 p = Some (x\<lparr>page_tables_lvl_1_list := Some l'\<rparr>)" using s2(3) by simp
      from put_building [OF this _ _ bu(1), of t2 heap N U m0 e2] show ?thesis
        using add 3(3) s2 h b bu(2,3) x(4,5) by auto
    qed
  qed
qed

lemma shift_building:
  assumes "proc_building N U m0 t2 e2 t1 p heap s"
  shows "\<exists>s'. upd_proc p (\<lambda>x. x\<lparr>stack_shift := stack_shift x + 1\<rparr>) s = Some s' \<and>
    proc_building N U m0 t2 e2 t1 p heap s'"
  using assms by (fastforce simp: proc_building_def upd_proc_def)

lemma loop_building:
  assumes "proc_building N U m0 t2 e2 t1 p heap s" "ty = STACK_CODE_PAGE \<and> \<not> heap \<or> ty = HEAP_PAGE \<and> heap"
  shows "\<exists>r s'. add_frames_loop ty shift sz p s = Some (r, s') \<and>
    (r = 0 \<and> proc_building N U m0 t2 e2 t1 p heap s' \<or> r = - 1 \<and> half_built N U m0 t2 e2 t1 s')"
  using assms(1)
proof (induction "nat sz" arbitrary: sz s rule: less_induct)
  case less
  obtain r s1 where 1: "add_frame_to_process p ty s = Some (r, s1)"
      "r = 0 \<and> proc_building N U m0 t2 e2 t1 p heap s1 \<or> r = - 1 \<and> half_built N U m0 t2 e2 t1 s1"
    using add_frame_building [OF less.prems assms(2)] by blast
  show ?case
  proof (cases "r = 0")
    case False
    then show ?thesis by (subst add_frames_loop.simps) (use 1 in auto)
  next
    case True
    then have pb: "proc_building N U m0 t2 e2 t1 p heap s1" using 1(2) by simp
    obtain s2 where 2: "(if shift then upd_proc p (\<lambda>x. x\<lparr>stack_shift := stack_shift x + 1\<rparr>) s1 else Some s1) = Some s2"
        "proc_building N U m0 t2 e2 t1 p heap s2"
      using pb shift_building [OF pb] that by (cases shift) auto
    have eq: "add_frames_loop ty shift sz p s =
        (if sz - 4096 > 0 then add_frames_loop ty shift (sz - 4096) p s2 else Some (0, s2))"
      by (subst add_frames_loop.simps) (use 1(1) 2(1) True in auto)
    show ?thesis
    proof (cases "sz - 4096 > 0")
      case True
      then show ?thesis using eq less.hyps [of "sz - 4096" s2] 2(2) by auto
    qed (use eq 2 in auto)
  qed
qed

lemma proc_building_heap: "proc_building N U m0 t2 e2 t1 p False s \<Longrightarrow> proc_building N U m0 t2 e2 t1 p heap s"
  unfolding proc_building_def by blast

lemma add_frames_building:
  assumes "proc_building N U m0 t2 e2 t1 p False s"
  shows "\<exists>r s'. add_frames_process p c h z s = Some (r, s') \<and>
    (r = 0 \<and> proc_building N U m0 t2 e2 t1 p True s' \<or> r = - 1 \<and> half_built N U m0 t2 e2 t1 s')"
proof -
  obtain r1 s1 where 1: "add_frames_loop STACK_CODE_PAGE True c p s = Some (r1, s1)"
      "r1 = 0 \<and> proc_building N U m0 t2 e2 t1 p False s1 \<or> r1 = - 1 \<and> half_built N U m0 t2 e2 t1 s1"
    using loop_building [OF assms, of STACK_CODE_PAGE True c] by auto
  show ?thesis
  proof (cases "r1 = 0")
    case True
    then obtain r2 s2 where 2: "add_frames_loop STACK_CODE_PAGE True z p s1 = Some (r2, s2)"
        "r2 = 0 \<and> proc_building N U m0 t2 e2 t1 p False s2 \<or> r2 = - 1 \<and> half_built N U m0 t2 e2 t1 s2"
      using 1(2) loop_building [of N U m0 t2 e2 t1 p False s1 STACK_CODE_PAGE True z] by auto
    show ?thesis
    proof (cases "r2 = 0")
      case r2: True
      then have "proc_building N U m0 t2 e2 t1 p True s2" using 2(2) proc_building_heap by simp
      from loop_building [OF this, of HEAP_PAGE False h] show ?thesis
        using 1(1) 2(1) True r2 by (auto simp: add_frames_process_def)
    qed (use 1 2 True in \<open>auto simp: add_frames_process_def\<close>)
  qed (use 1 in \<open>auto simp: add_frames_process_def\<close>)
qed

section \<open>What user mode reaches\<close>

text \<open>The frames that the Sv39 walk reaches with a leaf entry for user mode.\<close>

definition user_frames :: "memory \<Rightarrow> u64 \<Rightarrow> u64 set" where
  "user_frames m t2 = {f. \<exists>va pa e. sv39_walk m 2 t2 va = Some (pa, e) \<and> resU e = 1 \<and> aligned f \<and> in_page f pa}"

text \<open>Outside the gigabyte of the processes the directory maps nothing for user mode.\<close>

definition kernel_only :: "memory \<Rightarrow> u64 \<Rightarrow> bool" where
  "kernel_only m tbl \<longleftrightarrow>
     (\<forall>i < 512. i \<noteq> USERSPACE \<longrightarrow> valid (mem m (pte_addr tbl i)) = 0 \<or>
        is_leaf (mem m (pte_addr tbl i)) \<and> resU (mem m (pte_addr tbl i)) = 0)"

lemma vpn_bound: "unat (get_field k 9 va) < 512"
  using take_bit_nat_less_exp [of 9 "unat (drop_bit k va)"] by (simp add: get_field_def unsigned_take_bit_eq)

lemma aligned_offset:
  assumes "aligned d"
  shows "in_page d (d OR take_bit 12 va)"
proof -
  have "\<not> bit d n \<or> \<not> bit (take_bit 12 va) n" for n
    using assms bit_take_bit_iff [of 12 d n] by (auto simp: aligned_def bit_simps)
  then have "d OR take_bit 12 va = d + take_bit 12 va" using disjunctive_add [of d "take_bit 12 va"] by simp
  moreover have "take_bit 12 va < 4096"
    using take_bit_nat_less_exp [of 12 "unat va"] by (simp add: word_less_nat_alt unsigned_take_bit_eq)
  ultimately show ?thesis by (simp add: in_page_def FRAME_SIZE_def)
qed

text \<open>
  The tables \<open>T\<close> of an address space and the frames \<open>D\<close> it maps: outside the gigabyte of the process
  the directory has only entries for the kernel, and its entry for the process leads to the level 1 table.
\<close>

definition space_of :: "memory \<Rightarrow> u64 \<Rightarrow> u64 set \<Rightarrow> u64 set \<Rightarrow> bool" where
  "space_of m t2 T D \<longleftrightarrow>
     (\<exists>t1 L e. T = insert t2 (insert t1 L) \<and> space_ok t1 L D (mem m) \<and> kernel_only m t2 \<and>
        mem m (pte_addr t2 USERSPACE) = link_pte (flags_set e False False False True) t1)"

lemma building_space:
  assumes b: "building N U m0 t2 e2 t1 L D m" and u: "e2 USERSPACE = link_pte (flags_set e False False False True) t1"
    and k: "\<And>i. i < 512 \<Longrightarrow> i \<noteq> USERSPACE \<Longrightarrow> valid (e2 i) = 0 \<or> is_leaf (e2 i) \<and> resU (e2 i) = 0"
  shows "space_of m t2 (insert t2 (insert t1 L)) D"
proof -
  have e: "mem m (pte_addr t2 i) = e2 i" if "i < 512" for i using b that by (simp add: building_def)
  then have "mem m (pte_addr t2 USERSPACE) = link_pte (flags_set e False False False True) t1"
    using u by (simp add: USERSPACE_def)
  moreover have "kernel_only m t2" using e k by (simp add: kernel_only_def)
  moreover have "space_ok t1 L D (mem m)" using b by (simp add: building_def)
  ultimately show ?thesis unfolding space_of_def by blast
qed

lemma walk_down:
  assumes "sv39_walk m (Suc l) tbl va = Some r" "e = mem m (pte_addr tbl (unat (get_field (12 + 9 * Suc l) 9 va)))"
    "\<not> is_leaf e"
  shows "sv39_walk m l (find_pte_adress e) va = Some r"
  using assms(1) unfolding sv39_walk.simps [of m "Suc l"] assms(2) [symmetric]
  by (simp only: Let_def assms(3) if_False nat.case option.distinct split: if_splits)

lemma user_frames_space:
  assumes sp: "space_of m t2 T D" and fr: "\<And>f. f \<in> T \<union> D \<Longrightarrow> aligned f \<and> f < 2 ^ 56"
  shows "user_frames m t2 \<subseteq> D"
proof
  fix f
  assume "f \<in> user_frames m t2"
  then obtain va pa pte where w: "sv39_walk m 2 t2 va = Some (pa, pte)" "resU pte = 1" "aligned f" "in_page f pa"
    by (auto simp: user_frames_def)
  obtain t1 L e where g: "T = insert t2 (insert t1 L)" "space_ok t1 L D (mem m)" "kernel_only m t2"
      and u: "mem m (pte_addr t2 USERSPACE) = link_pte (flags_set e False False False True) t1"
    using sp by (auto simp: space_of_def)
  define i2 i1 i0 where i: "i2 = unat (get_field 30 9 va)" "i1 = unat (get_field 21 9 va)" "i0 = unat (get_field 12 9 va)"
  have lt: "i2 < 512" "i1 < 512" "i0 < 512" unfolding i by (rule vpn_bound)+
  have t1: "find_pte_adress (mem m (pte_addr t2 USERSPACE)) = t1"
    unfolding u by (rule find_link_aligned) (use fr [of t1] g(1) in auto)
  have "i2 = USERSPACE"
  proof (rule ccontr)
    assume "i2 \<noteq> USERSPACE"
    then have "valid (mem m (pte_addr t2 i2)) = 0 \<or> is_leaf (mem m (pte_addr t2 i2)) \<and> resU (mem m (pte_addr t2 i2)) = 0"
      using g(3) lt(1) by (simp add: kernel_only_def)
    then show False using w(1,2) by (auto simp: i numeral_2_eq_2 Let_def split: if_splits)
  qed
  then have w1: "sv39_walk m 1 t1 va = Some (pa, pte)"
    using walk_down [of m 1 t2 va "(pa, pte)", OF _ refl] w(1) t1 u by (simp add: i numeral_2_eq_2 is_leaf_def del: sv39_walk.simps)
  define p1 where "p1 = mem m (pte_addr t1 i1)"
  have "valid p1 = 0 \<or> \<not> is_leaf p1 \<and> find_pte_adress p1 \<in> L" using g(2) lt(2) by (simp add: space_ok_def p1_def)
  then have l: "find_pte_adress p1 \<in> L" and w0: "sv39_walk m 0 (find_pte_adress p1) va = Some (pa, pte)"
    using w1 by (auto simp: i p1_def Let_def split: if_splits)
  define p0 where "p0 = mem m (pte_addr (find_pte_adress p1) i0)"
  have "valid p0 = 0 \<or> find_pte_adress p0 \<in> D" using g(2) lt(3) l by (simp add: space_ok_def p0_def)
  then have d: "find_pte_adress p0 \<in> D" and pa: "pa = find_pte_adress p0 OR take_bit 12 va"
    using w0 by (auto simp: i p0_def Let_def split: if_splits)
  have al: "aligned (find_pte_adress p0)" using fr [of "find_pte_adress p0"] d by auto
  show "f \<in> D" using in_page_unique [OF w(3) al w(4)] aligned_offset [OF al, of va] pa d by simp
qed

section \<open>The allocator of process memory\<close>

text \<open>
  The records of a process describe its address space: its nodes list the tables, and the frames are
  those that the tables map, each of them once.
\<close>

definition described :: "process \<Rightarrow> u64 set \<Rightarrow> u64 set \<Rightarrow> memory \<Rightarrow> bool" where
  "described x T D m \<longleftrightarrow>
     (\<exists>l. page_tables_lvl_1_list x = Some l \<and> nodes_ok (node_table (lvl1 l)) l \<and> 0 < stack_usage (lvl1 l) \<and>
        T = insert (page_table_level_2 x) (insert (node_table (lvl1 l)) (node_tables l)) \<and>
        page_table_level_2 x \<noteq> node_table (lvl1 l) \<and> page_table_level_2 x \<notin> node_tables l \<and>
        node_table (lvl1 l) \<notin> node_tables l \<and> mapped (node_table (lvl1 l)) m D (lvl0_nodes l))"

definition isolated :: "nat \<Rightarrow> u64 set \<Rightarrow> memory \<Rightarrow> ptr \<Rightarrow> int \<Rightarrow> kernel \<Rightarrow> bool" where
  "isolated N U m0 p r s \<longleftrightarrow> (r = 0 \<or> r = - 1) \<and>
     (\<exists>T D. grown N U m0 (T \<union> D) (mm s) \<and> T \<inter> D = {} \<and>
       (r = 0 \<longrightarrow> (\<exists>x. procs s p = Some x \<and> space_of (mm s) (page_table_level_2 x) T D \<and> described x T D (mm s))))"

lemma isolated_failed: "grown N U m0 F (mm s) \<Longrightarrow> isolated N U m0 p (- 1) s"
  unfolding isolated_def by (intro conjI exI [of _ F] exI [of _ "{}"]) auto

lemma building_failed: "building N U m0 t2 e2 t1 L D (mm s) \<Longrightarrow> isolated N U m0 p (- 1) s"
  by (rule isolated_failed [of N U m0 "insert t2 (insert t1 (L \<union> D))"]) (simp add: building_def)

lemma directory_building:
  assumes g: "grown N U m0 {t2} m" and c: "create_page_table m = (Some t1, m')"
    and e: "\<And>i. i < 512 \<Longrightarrow> mem m (pte_addr t2 i) = e2 i"
  shows "building N U m0 t2 e2 t1 {} {} m'"
proof -
  obtain m1 where m1: "get_frame m = (Some t1, m1)" "m' = memset_frame t1 0 m1"
    using c by (auto simp: create_page_table_def split: prod.splits option.splits)
  note t = grown_take [OF g m1(1)]
  have ne: "t1 \<noteq> t2" using t(2) by auto
  have "grown N U m0 {t1, t2} m'"
    unfolding m1(2) memset_frame_def by (rule grown_write [OF t(1), of t1]) auto
  moreover have "mem m' (pte_addr t2 i) = e2 i" if "i < 512" for i
    using entry_of_other_frame [OF t(1) _ _ ne that] e [OF that] t(3) by (simp add: m1 memset_frame_def)
  moreover have "mem m' (pte_addr t1 i) = 0" if "i < 512" for i
    using in_page_pte [OF that, of t1] by (simp add: m1 memset_frame_def)
  moreover have "valid 0 = 0" by (simp add: valid_def get_field_def)
  ultimately show ?thesis using ne by (simp add: building_def space_ok_def insert_commute)
qed

lemma directory_entry:
  assumes b: "building N U m0 t2 e2 t1 {} {} m" and i: "i < 512"
  shows "building N U m0 t2 (e2(i := e)) t1 {} {} (m\<lparr>mem := (mem m)(pte_addr t2 i := e)\<rparr>)"
proof -
  let ?F = "{t2, t1}"
  have g: "grown N U m0 ?F m" "t1 \<noteq> t2" "space_ok t1 {} {} (mem m)" using b by (auto simp: building_def)
  have other: "pte_addr t1 j \<noteq> pte_addr t2 i" if "j < 512" for j
    using entry_of_other_frame [OF g(1) _ _ g(2) i] in_page_pte [OF that, of t1] by auto
  have "grown N U m0 ?F (m\<lparr>mem := (mem m)(pte_addr t2 i := e)\<rparr>)"
    by (rule grown_write [OF g(1), of t2]) (use in_page_pte [OF i, of t2] in auto)
  then show ?thesis using b other i pte_addr_eq_iff [of _ i t2]
    by (auto simp: building_def space_ok_def)
qed

lemma copied_directory:
  assumes g: "falloc_inv N (m, U)" "memory_end m \<le> 2 ^ 56" and c: "create_page_table m = (Some t2, m1)"
    and base: "base \<in> U"
  shows "grown N U m {t2} (memcpy_frame t2 base m1)"
    "i < 512 \<Longrightarrow> mem (memcpy_frame t2 base m1) (pte_addr t2 i) = mem m (pte_addr base i)"
proof -
  obtain m' where m': "get_frame m = (Some t2, m')" "m1 = memset_frame t2 0 m'"
    using c by (auto simp: create_page_table_def split: prod.splits option.splits)
  note t = grown_take [OF grown_start [OF g] m'(1)]
  show "grown N U m {t2} (memcpy_frame t2 base m1)"
    using grown_write [OF t(1), of t2 "mem (memcpy_frame t2 base m1)"] t(3)
    by (simp add: m' memset_frame_def memcpy_frame_def)
  assume i: "i < 512"
  have "base \<noteq> t2" "aligned base" "aligned t2"
    using t(2) base grown_frame [OF t(1), of base] grown_frame [OF t(1), of t2] by auto
  then have "\<not> in_page t2 (pte_addr base i)" using in_page_unique in_page_pte [OF i, of base] by blast
  then show "mem (memcpy_frame t2 base m1) (pte_addr t2 i) = mem m (pte_addr base i)"
    using in_page_pte [OF i, of t2] t(3) by (simp add: m' memset_frame_def memcpy_frame_def pte_addr_def)
qed

lemma frames_isolated:
  assumes b: "proc_building N U m0 t2 e2 t1 p False s" and u: "e2 USERSPACE = link_pte (flags_set e False False False True) t1"
    and k: "\<And>i. i < 512 \<Longrightarrow> i \<noteq> USERSPACE \<Longrightarrow> valid (e2 i) = 0 \<or> is_leaf (e2 i) \<and> resU (e2 i) = 0"
  shows "\<exists>r s'. (do {
      (r, s8) \<leftarrow> add_frames_process p c h z s;
      if r < 0 then Some (- 1, s8)
      else do { (r', s9) \<leftarrow> process_frames_alloc p s8; if r' < 0 then Some (- 1, s9) else Some (0, s9) } }) = Some (r, s') \<and>
    isolated N U m0 p r s'"
proof -
  have fin: "isolated N U m0 p 0 s'" if pb: "proc_built N U m0 t2 e2 t1 p s'" for s'
  proof -
    obtain x l D where x: "procs s' p = Some x" "page_table_level_2 x = t2" "page_tables_lvl_1_list x = Some l"
        "nodes_ok t1 l" "building N U m0 t2 e2 t1 (node_tables l) D (mm s')" "mapped t1 (mm s') D (lvl0_nodes l)"
        "0 < stack_usage (lvl1 l)"
      using pb unfolding proc_built_def by blast
    have "node_table (lvl1 l) = t1" using x(4) by (simp add: nodes_ok_def)
    then have "described x (insert t2 (insert t1 (node_tables l))) D (mm s')"
      using x unfolding described_def building_def by (intro exI [of _ l]) auto
    then show ?thesis using building_space [OF x(5) u k] x(1,2,5) unfolding isolated_def
      by (intro conjI exI [of _ "insert t2 (insert t1 (node_tables l))"] exI [of _ D]) (auto simp: building_def)
  qed
  have half: "isolated N U m0 p (- 1) s'" if "half_built N U m0 t2 e2 t1 s'" for s'
    using that building_failed by (auto simp: half_built_def)
  obtain r s8 where 1: "add_frames_process p c h z s = Some (r, s8)"
      "r = 0 \<and> proc_building N U m0 t2 e2 t1 p True s8 \<or> r = - 1 \<and> half_built N U m0 t2 e2 t1 s8"
    using add_frames_building [OF b] by blast
  show ?thesis
  proof (cases "r = 0")
    case True
    then obtain r' s9 where 2: "process_frames_alloc p s8 = Some (r', s9)"
        "r' = 0 \<and> proc_built N U m0 t2 e2 t1 p s9 \<or> r' = - 1 \<and> half_built N U m0 t2 e2 t1 s9"
      using 1(2) process_frames_building [of N U m0 t2 e2 t1 p s8] by auto
    then show ?thesis using 1(1) True fin [of s9] half [of s9] by auto
  qed (use 1 half in auto)
qed

lemma no_nodes: "procs s p = Some x \<Longrightarrow> page_tables_lvl_1_list x = None \<Longrightarrow> add_frames_process p c h z s = Some (- 1, s)"
  by (simp add: add_frames_process_def add_frames_loop.simps [of _ _ c] add_frame_to_process_def)

text \<open>The part of \<open>process_memory_allocator\<close> behind the creation of the level 1 table.\<close>

lemma allocator_tail:
  assumes b: "building N U m0 t2 e2 t1 {} {} (mm s)"
    and k: "\<And>i. i < 512 \<Longrightarrow> i \<noteq> USERSPACE \<Longrightarrow> valid (e2 i) = 0 \<or> is_leaf (e2 i) \<and> resU (e2 i) = 0"
    and x: "procs s p = Some x" "page_tables_lvl_1_list x = None" "page_table_level_2 x = t2"
  shows "\<exists>r s'.
    (case configure_page_table_linked_list_entry t1 None STACK_CODE_PAGE (int USERSPACE) s of
       (conf, s5) \<Rightarrow> do {
         s6 \<leftarrow> (case conf of None \<Rightarrow> Some s5 | Some (n, _) \<Rightarrow> put_lvl1 p \<lparr>lvl1 = n, lvl0_nodes = []\<rparr> s5);
         s7 \<leftarrow> upd_pte_k t2 USERSPACE (\<lambda>e. configure_page_entry e t1 False False False True KILO) s6;
         x \<leftarrow> procs s7 p;
         case app_pointer x of
           None \<Rightarrow> Some (- 1, s7)
         | Some a \<Rightarrow> do {
             (r, s8) \<leftarrow> add_frames_process p (code_size a) 1 (int32 (uint sz)) s7;
             if r < 0 then Some (- 1, s8)
             else do {
               (r', s9) \<leftarrow> process_frames_alloc p s8;
               if r' < 0 then Some (- 1, s9) else Some (0, s9) } } }) = Some (r, s') \<and>
    isolated N U m0 p r s'"
proof -
  have t1: "t1 \<noteq> 0" using b grown_frame [of N U m0 "{t2, t1}" "mm s" t1] by (auto simp: building_def)
  obtain a s5 where ml: "malloc s = (a, s5)" by fastforce
  note f = malloc_mm [OF ml]
  define e where "e = link_pte (flags_set (mem (mm s) (pte_addr t2 USERSPACE)) False False False True) t1"
  define m7 where "m7 = (mm s)\<lparr>mem := (mem (mm s))(pte_addr t2 USERSPACE := e)\<rparr>"
  let ?e2 = "e2(USERSPACE := e)"
  have b7: "building N U m0 t2 ?e2 t1 {} {} m7"
    unfolding m7_def by (rule directory_entry [OF b]) (simp add: USERSPACE_def)
  have pte: "upd_pte_k t2 USERSPACE (\<lambda>e. configure_page_entry e t1 False False False True KILO) s' = Some (s'\<lparr>mm := m7\<rparr>)"
    if "mm s' = mm s" for s'
    using that by (simp add: upd_pte_k_def upd_pte_def configure_KILO m7_def e_def)
  show ?thesis
  proof (cases a)
    case None
    have 1: "procs (s5\<lparr>mm := m7\<rparr>) p = Some x" using f x(1) by simp
    have "isolated N U m0 p (- 1) (s5\<lparr>mm := m7\<rparr>)" by (rule building_failed [of N U m0 t2 ?e2 t1 "{}" "{}"]) (simp add: b7)
    then show ?thesis using None t1 ml f pte [of s5] 1 no_nodes [OF 1 x(2)]
      by (auto simp: configure_page_table_linked_list_entry_def split: option.split)
  next
    case (Some q)
    define l where "l = \<lparr>lvl1 = \<lparr>node_table = t1, usage = 0, stack_usage = 0, heap_usage = 0,
      shared_memory_usage = 0, index = int USERSPACE\<rparr>, lvl0_nodes = []\<rparr>"
    define s7 where "s7 = s5\<lparr>procs := (procs s5)(p \<mapsto> x\<lparr>page_tables_lvl_1_list := Some l\<rparr>), mm := m7\<rparr>"
    have put: "put_lvl1 p l s5 = Some (s7\<lparr>mm := mm s5\<rparr>)"
      using f x(1) by (simp add: put_lvl1_def upd_proc_def s7_def)
    show ?thesis
    proof (cases "app_pointer x")
      case None
      have "isolated N U m0 p (- 1) s7" by (rule building_failed [of N U m0 t2 ?e2 t1 "{}" "{}"]) (simp add: b7 s7_def)
      then show ?thesis using None Some t1 ml f put pte [of "s7\<lparr>mm := mm s5\<rparr>"]
        by (auto simp: configure_page_table_linked_list_entry_def l_def [symmetric] s7_def)
    next
      case a: (Some ap)
      have "nodes_ok t1 l" by (simp add: nodes_ok_def l_def)
      then have "proc_building N U m0 t2 ?e2 t1 p False s7"
        unfolding proc_building_def using b7 x a by (auto simp: s7_def l_def)
      from frames_isolated [OF this _ , of "mem (mm s) (pte_addr t2 USERSPACE)" "code_size ap" 1 "int32 (uint sz)"] k
      obtain r s' where fi: "do {
          (r, s8) \<leftarrow> add_frames_process p (code_size ap) 1 (int32 (uint sz)) s7;
          if r < 0 then Some (- 1, s8)
          else do { (r', s9) \<leftarrow> process_frames_alloc p s8; if r' < 0 then Some (- 1, s9) else Some (0, s9) } } = Some (r, s')"
        "isolated N U m0 p r s'"
        by (auto simp: e_def)
      have "procs s7 p = Some (x\<lparr>page_tables_lvl_1_list := Some l\<rparr>)" "s7\<lparr>mm := m7\<rparr> = s7" by (simp_all add: s7_def)
      then show ?thesis using Some a t1 ml f put pte [of "s7\<lparr>mm := mm s5\<rparr>"] fi
        by (simp add: configure_page_table_linked_list_entry_def l_def [symmetric])
    qed
  qed
qed

lemma allocator_isolated:
  assumes inv: "falloc_inv N (mm s, U)" "memory_end (mm s) \<le> 2 ^ 56"
    and base: "kernel_base_page_table s \<in> U" "kernel_only (mm s) (kernel_base_page_table s)"
    and x: "procs s p = Some x" "page_tables_lvl_1_list x = None"
  shows "\<exists>r s'. process_memory_allocator p sz s = Some (r, s') \<and> isolated N U (mm s) p r s'"
proof (cases "sz > 0x40000000")
  case True
  then show ?thesis using isolated_failed [OF grown_start [OF inv]] by (simp add: process_memory_allocator_def)
next
  case False
  let ?b = "kernel_base_page_table s"
  define x0 where "x0 = x\<lparr>stack_shift := 0\<rparr>"
  define s0 where "s0 = s\<lparr>procs := (procs s)(p \<mapsto> x0)\<rparr>"
  have s0: "upd_proc p (stack_shift_update (\<lambda>_. 0)) s = Some s0" "mm s0 = mm s" "kernel_base_page_table s0 = ?b"
    using x(1) by (simp_all add: upd_proc_def s0_def x0_def)
  obtain o2 m1 where c2: "create_page_table (mm s) = (o2, m1)" by fastforce
  then have k2: "create_page_table_k s0 = (o2, s0\<lparr>mm := m1\<rparr>)" by (simp add: create_page_table_k_def s0(2))
  show ?thesis
  proof (cases o2)
    case None
    then have "m1 = mm s" using c2 no_frame by (fastforce simp: create_page_table_def split: prod.splits option.splits)
    then show ?thesis using isolated_failed [of N U "mm s" "{}" "s0\<lparr>mm := m1\<rparr>" p] grown_start [OF inv] s0 k2 None False
      by (simp add: process_memory_allocator_def)
  next
    case (Some t2)
    define m3 where "m3 = memcpy_frame t2 ?b m1"
    define x2 where "x2 = x0\<lparr>page_table_level_2 := t2\<rparr>"
    define s3 where "s3 = s\<lparr>procs := (procs s)(p \<mapsto> x2), mm := m3\<rparr>"
    note c2' = c2 [unfolded Some]
    note g3 = copied_directory [OF inv c2' base(1), folded m3_def]
    have s3: "upd_proc p (page_table_level_2_update (\<lambda>_. t2)) (s0\<lparr>mm := m1\<rparr>) = Some (s3\<lparr>mm := m1\<rparr>)"
      by (simp add: upd_proc_def s0_def s3_def x2_def)
    obtain o1 m4 where c1: "create_page_table m3 = (o1, m4)" by fastforce
    then have k1: "create_page_table_k s3 = (o1, s3\<lparr>mm := m4\<rparr>)" by (simp add: create_page_table_k_def s3_def)
    show ?thesis
    proof (cases o1)
      case None
      then have "m4 = m3" using c1 no_frame by (fastforce simp: create_page_table_def split: prod.splits option.splits)
      then show ?thesis using isolated_failed [of N U "mm s" "{t2}" "s3\<lparr>mm := m4\<rparr>" p] g3(1) s0 s3 k2 k1 None False Some
        by (auto simp: process_memory_allocator_def s3_def m3_def)
    next
      case o1: (Some t1)
      have "building N U (mm s) t2 (\<lambda>i. mem (mm s) (pte_addr ?b i)) t1 {} {} (mm (s3\<lparr>mm := m4\<rparr>))"
        using directory_building [OF g3(1) c1 [unfolded o1]] g3(2) by simp
      from allocator_tail [OF this, of p x2 sz] base(2) x(2)
      show ?thesis using s0 s3 k2 k1 o1 Some False
        by (simp add: process_memory_allocator_def kernel_only_def s3_def x2_def x0_def m3_def)
    qed
  qed
qed

text \<open>The directory of the kernel is such a table: \<open>init_directory\<close> takes a frame and maps nothing for user mode.\<close>

lemma kernel_only_entry:
  assumes "kernel_only m d" "i < 512" "i = USERSPACE \<or> is_leaf e \<and> resU e = 0"
  shows "kernel_only (m\<lparr>mem := (mem m)(pte_addr d i := e)\<rparr>) d"
  using assms pte_addr_eq_iff [of _ i d] by (auto simp: kernel_only_def)

lemma init_directory_kernel_only:
  assumes inv: "falloc_inv N (m, U)" "memory_end m \<le> 2 ^ 56" and g: "get_frame m = (Some d, m1)"
  shows "\<exists>m'. init_directory virt m = Some (Some d, m') \<and> falloc_inv N (m', insert d U) \<and>
    memory_end m' = memory_end m \<and> kernel_only m' d"
proof -
  define ok where "ok n \<longleftrightarrow> grown N U m {d} n \<and> memory_end n = memory_end m \<and> kernel_only n d" for n
  note t = grown_take [OF grown_start [OF inv] g]
  have me: "memory_end m1 = memory_end m" using g by (auto simp: get_frame_def split: if_splits)
  have "grown N U m {d} (memset_frame d 0 m1)"
    unfolding memset_frame_def by (rule grown_write [OF t(1), of d]) auto
  moreover have "kernel_only (memset_frame d 0 m1) d"
    using in_page_pte [of _ d] by (simp add: kernel_only_def memset_frame_def valid_def get_field_def)
  ultimately have z: "ok (memset_frame d 0 m1)" using me by (simp add: ok_def memset_frame_def)
  have "\<exists>n'. upd_pte d i (\<lambda>p. configure_page_entry p a r w x u GIGA) n = Some n' \<and> ok n'"
    if "ok n" "i < 512" "i = USERSPACE \<or> r \<and> \<not> u" for n i a r w x u
  proof -
    define e where "e = set_field 19 9 0 (set_field 10 9 0 (link_pte (flags_set (mem n (pte_addr d i)) r w x u) a))"
    have "grown N U m {d} (n\<lparr>mem := (mem n)(pte_addr d i := e)\<rparr>)"
      by (rule grown_write [of N U m "{d}" n d]) (use that(1) in_page_pte [OF that(2), of d] in \<open>auto simp: ok_def\<close>)
    moreover have "kernel_only (n\<lparr>mem := (mem n)(pte_addr d i := e)\<rparr>) d"
      by (rule kernel_only_entry) (use that in \<open>auto simp: ok_def e_def is_leaf_def\<close>)
    ultimately show ?thesis using that(1) by (simp add: upd_pte_def configure_GIGA ok_def e_def)
  qed
  note step = this [simplified]
  have "\<exists>m'. init_directory virt m = Some (Some d, m') \<and> ok m'"
  proof (cases virt)
    case True
    from step [OF z, of 0 True False 0 True True] obtain n2 where
      2: "upd_pte d 0 (\<lambda>p. configure_page_entry p 0 True True True False GIGA) (memset_frame d 0 m1) = Some n2" "ok n2"
      by auto
    from step [OF 2(2), of 2 True False "0x80000000" True True] 2(1) g True show ?thesis
      by (auto simp: init_directory_def create_page_table_def)
  next
    case False
    from step [OF z, of 0 True False 0 True True] obtain n2 where
      2: "upd_pte d 0 (\<lambda>p. configure_page_entry p 0 True True True False GIGA) (memset_frame d 0 m1) = Some n2" "ok n2"
      by auto
    from step [OF 2(2), of USERSPACE False True "0x40000000" False False] obtain n3 where
      3: "upd_pte d USERSPACE (\<lambda>p. configure_page_entry p 0x40000000 False False False True GIGA) n2 = Some n3" "ok n3"
      by (auto simp: USERSPACE_def)
    from step [OF 3(2), of 2 True False "0x80000000" True False] obtain n4 where
      4: "upd_pte d 2 (\<lambda>p. configure_page_entry p 0x80000000 True True False False GIGA) n3 = Some n4" "ok n4"
      by auto
    from step [OF 4(2), of 3 True False "0xc0000000" True False] 2(1) 3(1) 4(1) g False show ?thesis
      by (auto simp: init_directory_def create_page_table_def)
  qed
  then show ?thesis by (auto simp: ok_def grown_def)
qed

text \<open>
  C3.  Memory isolation.  For a new process, \<open>process_memory_allocator\<close> stops at no assertion; it takes
  its page tables (\<open>T\<close>) and the frames of the process (\<open>D\<close>) from frames that were not in use, and
  writes to no other memory, so that the processes and the kernel keep their data.  If it succeeds,
  every address that user mode can reach through the new page tables lies in a frame of the
  process; so no process sees a frame of another one, of the kernel, or a page table.  The base
  directory that is copied must map nothing for user mode, as \<open>init_directory\<close> provides it.
\<close>

theorem new_process_isolated:
  assumes "falloc_inv N (mm s, U)" "memory_end (mm s) \<le> 2 ^ 56"
    "kernel_base_page_table s \<in> U" "kernel_only (mm s) (kernel_base_page_table s)"
    "procs s p = Some x" "page_tables_lvl_1_list x = None"
  shows "\<exists>r s' T D. process_memory_allocator p sz s = Some (r, s') \<and> (r = 0 \<or> r = - 1) \<and>
    falloc_inv N (mm s', U \<union> (T \<union> D)) \<and> (T \<union> D) \<inter> U = {} \<and> T \<inter> D = {} \<and>
    (\<forall>a. (\<forall>f \<in> T \<union> D. \<not> in_page f a) \<longrightarrow> mem (mm s') a = mem (mm s) a) \<and>
    (r = 0 \<longrightarrow> (\<exists>x'. procs s' p = Some x' \<and> page_table_level_2 x' \<in> T \<and>
       user_frames (mm s') (page_table_level_2 x') \<subseteq> D))"
proof -
  obtain r s' where "process_memory_allocator p sz s = Some (r, s')" "isolated N U (mm s) p r s'"
    using allocator_isolated [OF assms] by blast
  then obtain T D where i: "process_memory_allocator p sz s = Some (r, s')" "r = 0 \<or> r = - 1"
      "grown N U (mm s) (T \<union> D) (mm s')" "T \<inter> D = {}"
      "r = 0 \<longrightarrow> (\<exists>x. procs s' p = Some x \<and> space_of (mm s') (page_table_level_2 x) T D \<and> described x T D (mm s'))"
    unfolding isolated_def by blast
  have "page_table_level_2 x' \<in> T \<and> user_frames (mm s') (page_table_level_2 x') \<subseteq> D"
    if "space_of (mm s') (page_table_level_2 x') T D" for x'
    using user_frames_space [OF that] grown_frame [OF i(3)] that by (auto simp: space_of_def)
  then show ?thesis using i unfolding grown_def by blast
qed

text \<open>A machine with 18 frames and a process that runs a program of half a page.\<close>

definition demo_ram :: memory where
  "demo_ram = \<lparr>mem = (\<lambda>_. 0), mem_ptr = 0, free_memory_start = 0x80000000, memory_end = 0x80012000,
     curptr = 0, heap_end = 0\<rparr>"

definition demo_isolation :: "memory \<Rightarrow> kernel" where
  "demo_isolation m = demo_kernel\<lparr>mm := m, kernel_base_page_table := 0x80000000,
     procs := [7 \<mapsto> (demo_process 1 5 ACTIVATABLE None)\<lparr>app_pointer :=
       Some \<lparr>app_name = Abs_cstring [105], app_start = 0x1000, app_end = 0x1800\<rparr>\<rparr>]\<rparr>"

lemma demo_isolation_runs:
  "\<exists>m1 m2 s' x f n. init_frames demo_ram = Some m1 \<and> init_directory False m1 = Some (Some 0x80000000, m2) \<and>
     process_memory_allocator 7 100 (demo_isolation m2) = Some (0, s') \<and> procs s' 7 = Some x \<and>
     get_frame (mm s') = (Some f, n)"
  by (simp add: init_frames_def init_frames_loop.simps init_directory_def configure_GIGA demo_ram_def
      demo_isolation_def demo_kernel_def demo_process_def alloc_eval)

text \<open>The state of this machine behind \<open>init_directory\<close> satisfies what the creation of a process relies on.\<close>

lemma demo_isolation_ok:
  assumes "init_frames demo_ram = Some m1" "init_directory False m1 = Some (Some 0x80000000, m2)"
  shows "falloc_inv 18 (mm (demo_isolation m2), {0x80000000})" "memory_end (mm (demo_isolation m2)) \<le> 2 ^ 56"
    "kernel_base_page_table (demo_isolation m2) \<in> {0x80000000}"
    "kernel_only (mm (demo_isolation m2)) (kernel_base_page_table (demo_isolation m2))"
    "\<exists>y. procs (demo_isolation m2) 7 = Some y \<and> page_tables_lvl_1_list y = None"
proof -
  have "layout demo_ram 18" by (simp add: layout_def demo_ram_def)
  from init_frames_inv [OF this] assms(1) have inv: "falloc_inv 18 (m1, {})" "memory_end m1 \<le> 2 ^ 56"
    by (auto simp: demo_ram_def)
  obtain n where g: "get_frame m1 = (Some 0x80000000, n)"
    using assms(2) by (auto simp: init_directory_def create_page_table_def bind_eq_Some_conv split: prod.splits option.splits if_splits)
  have "falloc_inv 18 (m2, {0x80000000}) \<and> memory_end m2 \<le> 2 ^ 56 \<and> kernel_only m2 0x80000000"
    using init_directory_kernel_only [OF inv g, of False] assms(2) inv(2) by auto
  then show "falloc_inv 18 (mm (demo_isolation m2), {0x80000000})" "memory_end (mm (demo_isolation m2)) \<le> 2 ^ 56"
    "kernel_base_page_table (demo_isolation m2) \<in> {0x80000000}"
    "kernel_only (mm (demo_isolation m2)) (kernel_base_page_table (demo_isolation m2))"
    "\<exists>y. procs (demo_isolation m2) 7 = Some y \<and> page_tables_lvl_1_list y = None"
    by (simp_all add: demo_isolation_def demo_process_def)
qed

theorem new_process_isolated_witness:
  "\<exists>m1 m2 s' x' D. init_frames demo_ram = Some m1 \<and> init_directory False m1 = Some (Some 0x80000000, m2) \<and>
     process_memory_allocator 7 100 (demo_isolation m2) = Some (0, s') \<and> procs s' 7 = Some x' \<and>
     user_frames (mm s') (page_table_level_2 x') \<subseteq> D \<and> 0x80000000 \<notin> D"
proof -
  obtain m1 m2 s' where s: "init_frames demo_ram = Some m1" "init_directory False m1 = Some (Some 0x80000000, m2)"
      "process_memory_allocator 7 100 (demo_isolation m2) = Some (0, s')"
    using demo_isolation_runs by blast
  note ok = demo_isolation_ok [OF s(1,2)]
  obtain y where "procs (demo_isolation m2) 7 = Some y" "page_tables_lvl_1_list y = None" using ok(5) by blast
  from new_process_isolated [OF ok(1-4) this, of 100] s show ?thesis by fastforce
qed

end
