(* ===== verification/Frame_Return.thy ===== *)
theory Frame_Return
  imports Isolation Shared_Memory
begin

text \<open>
  The end of a process (\<open>free_process_memory\<close> of \<open>kernel/process/process_memory.c\<close>): the frames behind its
  page tables and the tables themselves go back to the allocator, each of them once.
\<close>

section \<open>Releasing frames\<close>

lemma release_keeps:
  "a \<noteq> f \<Longrightarrow> mem (release_frame f m) a = mem m a" "memory_end (release_frame f m) = memory_end m"
  by (auto simp: release_frame_def)

lemma release_list_keeps:
  "a \<notin> set fs \<Longrightarrow> mem (fold release_frame fs m) a = mem m a" "memory_end (fold release_frame fs m) = memory_end m"
  by (induction fs arbitrary: m) (simp_all add: release_keeps)

lemma release_list:
  assumes "falloc_inv N (m, V)" "distinct fs" "set fs \<subseteq> V"
  shows "falloc_inv N (fold release_frame fs m, V - set fs)"
  using assms
proof (induction fs arbitrary: m V)
  case (Cons f fs)
  have "falloc_inv N (release_frame f m, V - {f})"
    using falloc_step_inv [OF falloc_step.give_back Cons.prems(1)] Cons.prems(3) by auto
  from Cons.IH [OF this] show ?case using Cons.prems by (auto simp: set_diff_eq insert_commute Diff_insert2)
qed simp

lemma free_indexed_list:
  assumes "fs = map (\<lambda>k. find_pte_adress (mem m (pte_addr tbl k))) [i..<j]"
    "\<And>k. i \<le> k \<Longrightarrow> k < j \<Longrightarrow> pte_addr tbl k \<notin> set fs"
  shows "free_frames_indexed tbl i j m = fold release_frame fs m"
proof -
  have gen: "fold (\<lambda>i m. release_frame (find_pte_adress (mem m (pte_addr tbl i))) m) ks n =
      fold release_frame (map (\<lambda>k. find_pte_adress (mem n (pte_addr tbl k))) ks) n"
    if "\<And>k k'. k \<in> set ks \<Longrightarrow> k' \<in> set ks \<Longrightarrow> pte_addr tbl k \<noteq> find_pte_adress (mem n (pte_addr tbl k'))" for ks n
    using that
  proof (induction ks arbitrary: n)
    case (Cons k ks)
    let ?n = "release_frame (find_pte_adress (mem n (pte_addr tbl k))) n"
    have same: "mem ?n (pte_addr tbl j) = mem n (pte_addr tbl j)" if "j \<in> set ks" for j
      by (rule release_keeps(1)) (use Cons.prems [of j k] that in auto)
    have eq: "map (\<lambda>k. find_pte_adress (mem ?n (pte_addr tbl k))) ks = map (\<lambda>k. find_pte_adress (mem n (pte_addr tbl k))) ks"
      using same by simp
    have "pte_addr tbl j \<noteq> find_pte_adress (mem ?n (pte_addr tbl j'))" if "j \<in> set ks" "j' \<in> set ks" for j j'
      using Cons.prems [of j j'] same that by simp
    from Cons.IH [OF this] show ?case unfolding eq by simp
  qed simp
  have "pte_addr tbl k \<noteq> find_pte_adress (mem m (pte_addr tbl k'))" if "k \<in> set [i..<j]" "k' \<in> set [i..<j]" for k k'
    using assms(2) [of k] that by (auto simp: assms(1))
  from gen [of "[i..<j]" m, OF this] show ?thesis by (simp add: free_frames_indexed_def assms(1))
qed

section \<open>The frames of a process\<close>

text \<open>
  An entry of a table is not the first word of a frame of the process, so that releasing these frames
  does not change the tables.
\<close>

lemma entry_not_frame:
  assumes "aligned t" "aligned f" "f \<noteq> t" "k < 512"
  shows "pte_addr t k \<noteq> f"
  using in_page_unique [OF assms(1,2), of "pte_addr t k"] in_page_pte [OF assms(4), of t] in_page_self [of f] assms(3) by auto

lemma node_frames_same:
  assumes "node_ok nd" "\<And>k. k < 512 \<Longrightarrow> mem m' (pte_addr (node_table nd) k) = mem m (pte_addr (node_table nd) k)"
  shows "node_frames m' nd = node_frames m nd"
  using assms by (simp add: node_frames_def node_ok_def)

lemma free_nodes:
  assumes "\<forall>nd \<in> set ns. node_ok nd \<and> index nd < 256 \<and> aligned (node_table nd)"
    "\<forall>f \<in> set (concat (map (node_frames m) ns)). aligned f \<and> f \<notin> node_table ` set ns"
  shows "fold free_frames_page_table ns m = fold release_frame (concat (map (node_frames m) ns)) m"
  using assms
proof (induction ns arbitrary: m)
  case (Cons nd ns)
  have nd: "node_ok nd" "index nd < 256" "aligned (node_table nd)" using Cons.prems(1) by auto
  have us: "usage nd \<le> 512" using nd(1) by (simp add: node_ok_def)
  let ?m = "fold release_frame (node_frames m nd) m"
  have ent: "pte_addr (node_table nd') k \<notin> set (node_frames m nd)" if "nd' \<in> set (nd # ns)" "k < 512" for nd' k
  proof
    assume f: "pte_addr (node_table nd') k \<in> set (node_frames m nd)"
    then have "aligned (pte_addr (node_table nd') k)" "pte_addr (node_table nd') k \<noteq> node_table nd'"
      using Cons.prems(2) that(1) by auto
    then show False using entry_not_frame [OF _ _ _ that(2), of "node_table nd'"] Cons.prems(1) that(1) by blast
  qed
  have "free_frames_indexed (node_table nd) 0 (usage nd) m = ?m"
    by (rule free_indexed_list) (use us ent [of nd] in \<open>auto simp: node_frames_def\<close>)
  then have one: "free_frames_page_table nd m = ?m" using nd(1,2) by (simp add: free_frames_page_table_def node_ok_def)
  have same: "node_frames ?m nd' = node_frames m nd'" if "nd' \<in> set ns" for nd'
  proof (rule node_frames_same)
    show "node_ok nd'" using Cons.prems(1) that by simp
    show "mem ?m (pte_addr (node_table nd') k) = mem m (pte_addr (node_table nd') k)" if "k < 512" for k
      by (rule release_list_keeps(1)) (use ent [OF _ that, of nd'] \<open>nd' \<in> set ns\<close> in auto)
  qed
  have eq: "map (node_frames ?m) ns = map (node_frames m) ns" using same by simp
  have "fold free_frames_page_table ns ?m = fold release_frame (concat (map (node_frames ?m) ns)) ?m"
    by (rule Cons.IH) (use Cons.prems eq in auto)
  then show ?case using one eq by simp
qed simp

lemma free_level1:
  assumes l: "nodes_ok t1 l" "0 < stack_usage (lvl1 l)" and al: "aligned t1"
    and t: "\<And>nd. nd \<in> set (lvl0_nodes l) \<Longrightarrow> aligned (node_table nd) \<and> node_table nd \<noteq> t1"
    and e: "\<And>nd. nd \<in> set (lvl0_nodes l) \<Longrightarrow> find_pte_adress (mem m (pte_addr t1 (nat (index nd)))) = node_table nd"
  shows "free_frames_page_table (lvl1 l) m = fold release_frame (map node_table (lvl0_nodes l)) m"
proof -
  define su hu where "su = stack_usage (lvl1 l)" "hu = heap_usage (lvl1 l)"
  define ns where "ns = lvl0_nodes l"
  have le: "su \<le> 128" "hu \<le> 128" "length ns = su + hu" "node_table (lvl1 l) = t1" "shared_memory_usage (lvl1 l) = 0"
    using l(1) by (auto simp: nodes_ok_def su_hu_def ns_def)
  have idx: "index (ns ! k) = int (node_index su k)" if "k < length ns" for k
    using l(1) that by (simp add: nodes_ok_def su_hu_def ns_def)
  have ent: "find_pte_adress (mem m' (pte_addr t1 (node_index su k))) = node_table (ns ! k)"
    if "k < length ns" "\<And>j. j < 512 \<Longrightarrow> mem m' (pte_addr t1 j) = mem m (pte_addr t1 j)" for k m'
  proof -
    have "ns ! k \<in> set (lvl0_nodes l)" using that(1) by (simp add: ns_def)
    moreover have "node_index su k < 512" using that(1) le by (auto simp: node_index_def)
    ultimately show ?thesis using e [of "ns ! k"] idx [OF that(1)] that(2) by simp
  qed
  have out: "pte_addr t1 k \<noteq> node_table nd" if "k < 512" "nd \<in> set ns" for k nd
    by (rule entry_not_frame [OF al _ _ that(1)]) (use t that(2) in \<open>auto simp: ns_def\<close>)
  let ?m1 = "fold release_frame (map node_table (take su ns)) m"
  have keep: "mem ?m1 (pte_addr t1 j) = mem m (pte_addr t1 j)" if "j < 512" for j
    by (rule release_list_keeps(1)) (use out [OF that] in \<open>auto dest!: in_set_takeD\<close>)
  have 1: "free_frames_indexed t1 0 su m = ?m1"
  proof (rule free_indexed_list)
    have "node_table (ns ! k) = find_pte_adress (mem m (pte_addr t1 k))" if "k < su" for k
      using ent [of k m] that le(3) by (simp add: node_index_def)
    then show "map node_table (take su ns) = map (\<lambda>k. find_pte_adress (mem m (pte_addr t1 k))) [0..<su]"
      using le(3) by (auto intro!: nth_equalityI)
  qed (use out le in \<open>auto dest!: in_set_takeD\<close>)
  have 2: "free_frames_indexed t1 128 (128 + hu) ?m1 = fold release_frame (map node_table (drop su ns)) ?m1"
  proof (rule free_indexed_list)
    have "node_table (ns ! (su + k)) = find_pte_adress (mem ?m1 (pte_addr t1 (128 + k)))" if "k < hu" for k
      using ent [of "su + k" ?m1, OF _ keep] that le(3) by (simp add: node_index_def)
    then show "map node_table (drop su ns) = map (\<lambda>k. find_pte_adress (mem ?m1 (pte_addr t1 k))) [128..<128 + hu]"
      using le(3) by (auto intro!: nth_equalityI)
  qed (use out le in \<open>auto dest!: in_set_dropD\<close>)
  have "map node_table (take su ns) @ map node_table (drop su ns) = map node_table ns"
    by (metis append_take_drop_id map_append)
  then have "fold release_frame (map node_table (drop su ns)) ?m1 = fold release_frame (map node_table ns) m"
    by (metis fold_append comp_apply)
  then show ?thesis using 1 2 l(2) le(4,5)
    by (simp add: free_frames_page_table_def su_hu_def [symmetric] ns_def [symmetric] free_frames_indexed_def [of _ 256])
qed

lemma free_page_tables_list:
  assumes d: "described x T D m" and td: "T \<inter> D = {}" and al: "\<And>f. f \<in> T \<union> D \<Longrightarrow> aligned f \<and> f \<noteq> 0"
  shows "\<exists>fs. free_page_tables x m = Some (release_frame (sscratch_frame x) (fold release_frame fs m)) \<and>
    distinct fs \<and> set fs = T \<union> D"
proof -
  obtain l where l: "page_tables_lvl_1_list x = Some l" "nodes_ok (node_table (lvl1 l)) l" "0 < stack_usage (lvl1 l)"
      "T = insert (page_table_level_2 x) (insert (node_table (lvl1 l)) (node_tables l))"
      "page_table_level_2 x \<noteq> node_table (lvl1 l)" "page_table_level_2 x \<notin> node_tables l"
      "node_table (lvl1 l) \<notin> node_tables l" "mapped (node_table (lvl1 l)) m D (lvl0_nodes l)"
    using d unfolding described_def by blast
  define t1 t2 ns fr where defs: "t1 = node_table (lvl1 l)" "t2 = page_table_level_2 x" "ns = lvl0_nodes l"
    "fr = concat (map (node_frames m) ns)"
  have D: "distinct fr" "D = set fr" "\<And>nd. nd \<in> set ns \<Longrightarrow> find_pte_adress (mem m (pte_addr t1 (nat (index nd)))) = node_table nd"
    using l(8) by (auto simp: mapped_def defs)
  have nd: "node_ok nd \<and> index nd < 256 \<and> aligned (node_table nd)" if n: "nd \<in> set ns" for nd
  proof -
    obtain k where "k < length ns" "nd = ns ! k" using n by (auto simp: in_set_conv_nth)
    then have "index nd < 256" using l(2) by (auto simp: nodes_ok_def node_index_def defs)
    moreover have "node_table nd \<in> T" using n l(4) by (auto simp: defs)
    ultimately show ?thesis using l(2) n al by (auto simp: nodes_ok_def defs)
  qed
  let ?m1 = "fold release_frame fr m"
  have 1: "fold free_frames_page_table ns m = ?m1"
    unfolding defs(4) by (rule free_nodes) (use nd al td D(2) l(4) in \<open>auto simp: defs\<close>)
  have al1: "aligned t1" "t1 \<in> T" using al l(4) by (auto simp: defs)
  have same: "mem ?m1 (pte_addr t1 k) = mem m (pte_addr t1 k)" if "k < 512" for k
  proof (rule release_list_keeps(1), rule notI)
    assume "pte_addr t1 k \<in> set fr"
    then have "aligned (pte_addr t1 k)" "pte_addr t1 k \<noteq> t1" using al D(2) td al1(2) by auto
    then show False using entry_not_frame [OF al1(1) _ _ that] by blast
  qed
  have 2: "free_frames_page_table (lvl1 l) ?m1 = fold release_frame (map node_table ns) ?m1"
    unfolding defs(3)
  proof (rule free_level1 [OF l(2,3)])
    fix nd assume n: "nd \<in> set (lvl0_nodes l)"
    then obtain k where "k < length ns" "nd = ns ! k" by (auto simp: in_set_conv_nth defs)
    then have "nat (index nd) < 512" using l(2) by (auto simp: nodes_ok_def node_index_def defs)
    then show "find_pte_adress (mem (fold release_frame fr m) (pte_addr (node_table (lvl1 l)) (nat (index nd)))) = node_table nd"
      using same D(3) n by (simp add: defs)
    show "aligned (node_table nd) \<and> node_table nd \<noteq> node_table (lvl1 l)" using nd [of nd] l(7) n by (metis defs(3) image_eqI)
  qed (use al1 in \<open>simp add: defs\<close>)
  have "distinct (fr @ map node_table ns @ [t1, t2])" "set (fr @ map node_table ns @ [t1, t2]) = T \<union> D"
    using D(1,2) l(2,4-7) td by (auto simp: nodes_ok_def defs)
  moreover have "t2 \<noteq> 0" using al l(4) by (auto simp: defs)
  ultimately show ?thesis using 1 2 l(1)
    by (intro exI [of _ "fr @ map node_table ns @ [t1, t2]"]) (auto simp: free_page_tables_def Let_def defs)
qed

lemma aligned_other_page: "aligned f \<Longrightarrow> aligned g \<Longrightarrow> f \<noteq> g \<Longrightarrow> in_page g a \<Longrightarrow> a \<noteq> f"
  using in_page_unique [of f g a] in_page_self [of f] by blast

lemma described_cong:
  assumes "described x T D m" "\<And>f a. f \<in> T \<Longrightarrow> in_page f a \<Longrightarrow> mem m' a = mem m a"
  shows "described x T D m'"
proof -
  obtain l where l: "page_tables_lvl_1_list x = Some l" "nodes_ok (node_table (lvl1 l)) l" "0 < stack_usage (lvl1 l)"
      "T = insert (page_table_level_2 x) (insert (node_table (lvl1 l)) (node_tables l))"
      "page_table_level_2 x \<noteq> node_table (lvl1 l)" "page_table_level_2 x \<notin> node_tables l"
      "node_table (lvl1 l) \<notin> node_tables l" "mapped (node_table (lvl1 l)) m D (lvl0_nodes l)"
    using assms(1) unfolding described_def by blast
  have ent: "mem m' (pte_addr t k) = mem m (pte_addr t k)" if "t \<in> T" "k < 512" for t k
    using assms(2) [OF that(1) in_page_pte [OF that(2)]] .
  have "node_frames m' nd = node_frames m nd" if "nd \<in> set (lvl0_nodes l)" for nd
    by (rule node_frames_same) (use l(2,4) that ent in \<open>auto simp: nodes_ok_def\<close>)
  then have fr: "map (node_frames m') (lvl0_nodes l) = map (node_frames m) (lvl0_nodes l)" by simp
  have "mem m' (pte_addr (node_table (lvl1 l)) (nat (index nd))) = mem m (pte_addr (node_table (lvl1 l)) (nat (index nd)))"
    if n: "nd \<in> set (lvl0_nodes l)" for nd
  proof -
    obtain k where "k < length (lvl0_nodes l)" "nd = lvl0_nodes l ! k" using n by (auto simp: in_set_conv_nth)
    then have "nat (index nd) < 512" using l(2) by (auto simp: nodes_ok_def node_index_def)
    then show ?thesis using ent l(4) by simp
  qed
  then have "mapped (node_table (lvl1 l)) m' D (lvl0_nodes l)" using l(8) unfolding mapped_def fr by simp
  then show ?thesis using l(1-7) unfolding described_def by blast
qed

lemma process_end:
  assumes inv: "falloc_inv N (m, V)" "memory_end m \<le> 2 ^ 56" and d: "described x T D m" "T \<inter> D = {}" "T \<union> D \<subseteq> V"
    and sc: "sscratch_frame x \<in> V" "sscratch_frame x \<notin> T \<union> D"
  defines "F \<equiv> insert (sscratch_frame x) (T \<union> D)"
  shows "\<exists>m'. free_page_tables x m = Some m' \<and> falloc_inv N (m', V - F) \<and> memory_end m' = memory_end m \<and>
    (\<forall>g \<in> V - F. \<forall>a. in_page g a \<longrightarrow> mem m' a = mem m a)"
proof -
  have al: "aligned f \<and> f \<noteq> 0" if "f \<in> V" for f using managed_frame [OF inv] that by blast
  obtain fs where fs: "free_page_tables x m = Some (release_frame (sscratch_frame x) (fold release_frame fs m))"
      "distinct fs" "set fs = T \<union> D"
    using free_page_tables_list [OF d(1,2)] al d(3) by blast
  let ?fs = "fs @ [sscratch_frame x]"
  have l: "distinct ?fs" "set ?fs = F" "set ?fs \<subseteq> V" using fs sc d(3) by (auto simp: F_def)
  have "falloc_inv N (fold release_frame ?fs m, V - F)" using release_list [OF inv(1) l(1,3)] l(2) by simp
  moreover have "mem (fold release_frame ?fs m) a = mem m a" if "g \<in> V - F" "in_page g a" for g a
  proof (rule release_list_keeps(1))
    show "a \<notin> set ?fs" using aligned_other_page [of _ g a] al that l(2,3) by blast
  qed
  ultimately show ?thesis using fs(1) release_list_keeps(2) [of ?fs m] by auto
qed

text \<open>
  C4.  The memory of a process is given back.  When a process was created and its frame for \<open>sscratch\<close>
  taken, releasing its memory does not fail, and afterwards exactly the frames that were in use
  before its creation are in use: no frame is lost and none is released twice.  The contents of
  these frames are what they were before.
\<close>

theorem process_memory_returned:
  assumes "falloc_inv N (mm s, U)" "memory_end (mm s) \<le> 2 ^ 56"
    "kernel_base_page_table s \<in> U" "kernel_only (mm s) (kernel_base_page_table s)"
    "procs s p = Some y" "page_tables_lvl_1_list y = None"
    "process_memory_allocator p sz s = Some (0, s1)" "procs s1 p = Some x" "get_frame (mm s1) = (Some f, m1)"
  shows "\<exists>m2. free_page_tables (x\<lparr>sscratch_frame := f\<rparr>) m1 = Some m2 \<and> falloc_inv N (m2, U) \<and>
    (\<forall>g \<in> U. \<forall>a. in_page g a \<longrightarrow> mem m2 a = mem (mm s) a)"
proof -
  obtain T D where g: "grown N U (mm s) (T \<union> D) (mm s1)" "T \<inter> D = {}" "described x T D (mm s1)"
    using allocator_isolated [OF assms(1-6), of sz] assms(7,8) by (auto simp: isolated_def)
  note t = grown_take [OF g(1) assms(9)]
  have "described x T D m1" by (rule described_cong [OF g(3)]) (simp add: t(3))
  then have "described (x\<lparr>sscratch_frame := f\<rparr>) T D m1" by (simp add: described_def)
  moreover have "falloc_inv N (m1, U \<union> insert f (T \<union> D))" "memory_end m1 \<le> 2 ^ 56" using t(1) by (auto simp: grown_def)
  ultimately obtain m2 where m2: "free_page_tables (x\<lparr>sscratch_frame := f\<rparr>) m1 = Some m2"
      "falloc_inv N (m2, U \<union> insert f (T \<union> D) - insert f (T \<union> D))"
      "\<forall>g \<in> U \<union> insert f (T \<union> D) - insert f (T \<union> D). \<forall>a. in_page g a \<longrightarrow> mem m2 a = mem m1 a"
    using process_end [of N m1 "U \<union> insert f (T \<union> D)" "x\<lparr>sscratch_frame := f\<rparr>" T D] g(2) t(2) by auto
  have U: "U \<union> insert f (T \<union> D) - insert f (T \<union> D) = U" using t(1) by (auto simp: grown_def)
  have "mem m1 a = mem (mm s) a" if "g \<in> U" "in_page g a" for g a
  proof -
    have "\<not> in_page h a" if "h \<in> insert f (T \<union> D)" for h
      using in_page_unique [of h g a] grown_frame [OF t(1), of h] grown_frame [OF t(1), of g] that \<open>g \<in> U\<close> \<open>in_page g a\<close> U
      by blast
    then show ?thesis using t(1) by (simp add: grown_def)
  qed
  then show ?thesis using m2 U by auto
qed

theorem process_memory_returned_witness:
  "\<exists>m2 s1 x f m3 m4. process_memory_allocator 7 100 (demo_isolation m2) = Some (0, s1) \<and> procs s1 7 = Some x \<and>
     get_frame (mm s1) = (Some f, m3) \<and> free_page_tables (x\<lparr>sscratch_frame := f\<rparr>) m3 = Some m4 \<and>
     falloc_inv 18 (m4, {0x80000000})"
proof -
  obtain m1 m2 s1 x f m3 where s: "init_frames demo_ram = Some m1" "init_directory False m1 = Some (Some 0x80000000, m2)"
      "process_memory_allocator 7 100 (demo_isolation m2) = Some (0, s1)" "procs s1 7 = Some x" "get_frame (mm s1) = (Some f, m3)"
    using demo_isolation_runs by blast
  note ok = demo_isolation_ok [OF s(1,2)]
  obtain y where "procs (demo_isolation m2) 7 = Some y" "page_tables_lvl_1_list y = None" using ok(5) by blast
  from process_memory_returned [OF ok(1-4) this s(3-5)] s(3-5) show ?thesis by blast
qed

end
