(* ===== verification/Isolation_Run.thy ===== *)
theory Isolation_Run
  imports Frame_Return Boot
begin

text \<open>
  A running system of isolated processes: processes are created by the code behind \<open>start\<close>
  (\<open>kernel/process/process_api.c\<close>), write to their memory in user mode, through the page tables, and
  give their memory back when they end.  The theory shows that whatever the order of these steps, the
  frames that different processes reach are disjoint, that no process reaches a page table or a
  free frame, and that the end of a process never fails.  Shared memory is not among these steps.
\<close>

section \<open>What creating a process leaves alone\<close>

definition others :: "ptr \<Rightarrow> kernel \<Rightarrow> kernel \<Rightarrow> bool" where
  "others p s0 s \<longleftrightarrow> (\<forall>q. q \<noteq> p \<longrightarrow> procs s q = procs s0 q) \<and>
     kernel_base_page_table s = kernel_base_page_table s0"

abbreviation others_snd :: "ptr \<Rightarrow> kernel \<Rightarrow> 'a \<times> kernel \<Rightarrow> bool" where
  "others_snd p s0 \<equiv> \<lambda>(a, s). others p s0 s"

named_theorems others_rules "what an operation on one process leaves alone"

lemma others_binds [others_rules]:
  fixes m :: "kernel option" and n :: "('a \<times> kernel) option" and f :: "kernel \<Rightarrow> kernel option"
    and f' :: "kernel \<Rightarrow> ('b \<times> kernel) option" and g :: "'a \<times> kernel \<Rightarrow> ('b \<times> kernel) option"
  shows "post (others p s0) m \<Longrightarrow> (\<And>s. others p s0 s \<Longrightarrow> post (others p s0) (f s)) \<Longrightarrow> post (others p s0) (m \<bind> f)"
    "post (others p s0) m \<Longrightarrow> (\<And>s. others p s0 s \<Longrightarrow> post (others_snd p s0) (f' s)) \<Longrightarrow> post (others_snd p s0) (m \<bind> f')"
    "post (others_snd p s0) n \<Longrightarrow> (\<And>a s. others p s0 s \<Longrightarrow> post (others_snd p s0) (g (a, s))) \<Longrightarrow> post (others_snd p s0) (n \<bind> g)"
  by (auto intro: post_bind)

lemma others_cases [others_rules]:
  fixes r :: "'a \<times> kernel" and h :: "'a \<Rightarrow> kernel \<Rightarrow> ('b \<times> kernel) option"
    and r' :: "'a \<times> 'c \<times> kernel" and h' :: "'a \<Rightarrow> 'c \<Rightarrow> kernel \<Rightarrow> ('b \<times> kernel) option"
  shows "others p s0 (snd r) \<Longrightarrow> (\<And>a s. others p s0 s \<Longrightarrow> post (others_snd p s0) (h a s)) \<Longrightarrow>
      post (others_snd p s0) (case r of (a, s) \<Rightarrow> h a s)"
    "others p s0 (snd (snd r')) \<Longrightarrow> (\<And>a c s. others p s0 s \<Longrightarrow> post (others_snd p s0) (h' a c s)) \<Longrightarrow>
      post (others_snd p s0) (case r' of (a, c, s) \<Rightarrow> h' a c s)"
  by (cases r, simp) (cases r', simp)

lemmas others_values [others_rules] =
  post_bind_value [where 'a = process] post_bind_value [where 'a = lvl1_list] post_bind_value [where 'a = uapps]
  post_bind_value [where 'a = "int \<times> memory"]

lemma others_basic [others_rules]:
  "others p s0 s \<Longrightarrow> post (others p s0) (upd_proc p f s)"
  "others p s0 s \<Longrightarrow> others p s0 (snd (malloc s))"
  "others p s0 s \<Longrightarrow> others p s0 (snd (create_page_table_k s))"
  "others p s0 s \<Longrightarrow> post (others p s0) (upd_pte_k t i g s)"
  "others p s0 s \<Longrightarrow> post (others p s0) (put_lvl1 p l s)"
  "others p s0 s \<Longrightarrow> others p s0 (s\<lparr>mm := m\<rparr>)"
  by (auto simp: others_def upd_proc_def malloc_def alloc_ok_def create_page_table_k_def upd_pte_k_def put_lvl1_def
      bind_eq_Some_conv post_def split: option.split list.split prod.split)

lemma configure_entry_others [others_rules]: "others p s0 s \<Longrightarrow> others p s0 (snd (configure_page_table_linked_list_entry t po ty i s))"
  using others_basic(2) [of p s0 s]
  by (auto simp: configure_page_table_linked_list_entry_def Let_def split: prod.split option.split)

lemma add_child_others [others_rules]: "others p s0 s \<Longrightarrow> others p s0 (snd (snd (add_child_node_page_table l ty s)))"
  by (cases "add_child_node_page_table l ty s")
    (auto simp: others_def add_child_node_page_table_def create_page_table_k_def configure_page_table_linked_list_entry_def
      malloc_def alloc_ok_def Let_def split: prod.splits option.splits if_splits list.splits)

lemma link_lvl1_others [others_rules]:
  "others p s0 s \<Longrightarrow> post (others_snd p s0) (link_lvl1_table_shared_page lo i j t s)"
  by (auto simp: link_lvl1_table_shared_page_def intro!: others_rules split: option.split)

lemma add_frame_others [others_rules]:
  "others p s0 s \<Longrightarrow> post (others_snd p s0) (add_frame_to_process p ty s)"
  unfolding add_frame_to_process_def by (auto simp: Let_def intro!: others_rules split: option.split)

lemma add_frames_loop_others [others_rules]:
  "others p s0 s \<Longrightarrow> post (others_snd p s0) (add_frames_loop ty shift sz p s)"
proof (induction "nat sz" arbitrary: sz s rule: less_induct)
  case less
  then show ?case
    by (subst add_frames_loop.simps) (auto intro!: others_rules)
qed

lemma allocator_others:
  "others p s0 s \<Longrightarrow> post (others_snd p s0) (allocate_memory_final lo i j d n s)"
  "others p s0 s \<Longrightarrow> post (others_snd p s0) (add_frames_process p c h z s)"
  by (auto simp: allocate_memory_final_def add_frames_process_def Let_def intro!: others_rules split: option.split)

lemma process_frames_others:
  "others p s0 s \<Longrightarrow> post (others_snd p s0) (process_frames_alloc p s)"
  by (auto simp: process_frames_alloc_def intro!: others_rules allocator_others)

lemma process_memory_others:
  "others p s0 s \<Longrightarrow> post (others_snd p s0) (process_memory_allocator p sz s)"
  by (auto simp: process_memory_allocator_def Let_def
      intro!: others_rules allocator_others process_frames_others split: option.split)

section \<open>Creating a process\<close>

lemma name_copy_effect:
  assumes "process_name_copy p name s = Some (r, s')"
  shows "mm s' = mm s" "others p s0 s \<Longrightarrow> others p s0 s'"
  using assms
  by (auto simp: process_name_copy_def upd_proc_def others_def malloc_def alloc_ok_def Let_def bind_eq_Some_conv
      split: if_splits option.splits list.splits prod.splits)

definition created :: "nat \<Rightarrow> u64 set \<Rightarrow> kernel \<Rightarrow> ptr option \<Rightarrow> kernel \<Rightarrow> bool" where
  "created N U s po s' \<longleftrightarrow> others (next_ptr s) s s' \<and>
     (\<exists>T D. grown N U (mm s) (T \<union> D) (mm s') \<and> T \<inter> D = {} \<and>
       (\<forall>p. po = Some p \<longrightarrow> p = next_ptr s \<and>
         (\<exists>x. procs s' p = Some x \<and> space_of (mm s') (page_table_level_2 x) T D \<and> described x T D (mm s'))))"

lemma created_failed:
  "falloc_inv N (mm s, U) \<Longrightarrow> memory_end (mm s) \<le> 2 ^ 56 \<Longrightarrow> others (next_ptr s) s s' \<Longrightarrow> mm s' = mm s \<Longrightarrow>
   created N U s None s'"
  unfolding created_def by (intro conjI exI [of _ "{}"]) (auto intro: grown_start)

lemma upd_proc_mm: "upd_proc p f s = Some s' \<Longrightarrow> mm s' = mm s"
  by (auto simp: upd_proc_def split: option.splits)

lemma new_process_created:
  assumes inv: "falloc_inv N (mm s, U)" "memory_end (mm s) \<le> 2 ^ 56"
    and base: "kernel_base_page_table s \<in> U" "kernel_only (mm s) (kernel_base_page_table s)"
    and new: "new_process name z pri app s = Some (po, s')"
  shows "created N U s po s'"
proof -
  note fail = created_failed [OF inv]
  obtain q s1 where m: "malloc s = (q, s1)" by fastforce
  have s1: "mm s1 = mm s" "procs s1 = procs s" "kernel_base_page_table s1 = kernel_base_page_table s"
    using m by (auto simp: malloc_def alloc_ok_def split: list.splits if_splits)
  show ?thesis
  proof (cases q)
    case None
    then show ?thesis using new m s1 fail [of s1] by (simp add: new_process_def others_def)
  next
    case (Some p)
    then have p: "p = next_ptr s" using malloc_fresh m by blast
    obtain i s2 where i: "increment_pid_and_get_new_pid s1 = (i, s2)" by fastforce
    define s3 where "s3 = snd (alloc_ok (s2\<lparr>procs := (procs s2)(p \<mapsto> (junk s2)\<lparr>next_prev := None, pid := i\<rparr>),
       pid_table := (pid_table s2)(i \<mapsto> p)\<rparr>))"
    have "mm s2 = mm s" "procs s2 = procs s" "kernel_base_page_table s2 = kernel_base_page_table s"
      using i s1 by (auto simp: increment_pid_and_get_new_pid_def Let_def split: list.splits)
    then have s3: "mm s3 = mm s" "others p s s3"
      by (auto simp: s3_def alloc_ok_def others_def split: list.split)
    from new m i Some obtain s4 r s5 where
      4: "upd_proc p (prio_update (\<lambda>_. pri)) s3 = Some s4" and
      5: "process_name_copy p name s4 = Some (r, s5)" and
      rest: "(if r < 0 then Some (None, s5)
         else do {
           s6 \<leftarrow> upd_proc p (\<lambda>x. x\<lparr>ssize := take_bit 32 (z + PROCESS_SETUP_SIZE),
             page_table_level_2 := 0, page_tables_lvl_1_list := None, released_pages_list := []\<rparr>) s5;
           s7 \<leftarrow> (case app of None \<Rightarrow> Some s6 | Some a \<Rightarrow> upd_proc p (app_pointer_update (\<lambda>_. a)) s6);
           x \<leftarrow> procs s7 p;
           if app = Some None then Some (None, s7)
           else do {
             (r', s8) \<leftarrow> process_memory_allocator p (ssize x) s7;
             if r' < 0 then Some (None, s8) else Some (Some p, s8) } }) = Some (po, s')"
      by (auto simp: new_process_def Let_def s3_def [symmetric] bind_eq_Some_conv split: prod.splits)
    have s4: "mm s4 = mm s" "others p s s4"
      using upd_proc_mm [OF 4] s3 postD [OF others_basic(1) [OF s3(2)] 4] by auto
    have s5: "mm s5 = mm s" "others p s s5" using name_copy_effect [OF 5] s4 by auto
    show ?thesis
    proof (cases "r < 0")
      case True
      then show ?thesis using rest fail [of s5] s5 p by auto
    next
      case False
      with rest obtain s6 s7 x where
        6: "upd_proc p (\<lambda>x. x\<lparr>ssize := take_bit 32 (z + PROCESS_SETUP_SIZE),
             page_table_level_2 := 0, page_tables_lvl_1_list := None, released_pages_list := []\<rparr>) s5 = Some s6" and
        7: "(case app of None \<Rightarrow> Some s6 | Some a \<Rightarrow> upd_proc p (app_pointer_update (\<lambda>_. a)) s6) = Some s7" and
        x: "procs s7 p = Some x" and
        8: "(if app = Some None then Some (None, s7)
           else do {
             (r', s8) \<leftarrow> process_memory_allocator p (ssize x) s7;
             if r' < 0 then Some (None, s8) else Some (Some p, s8) }) = Some (po, s')"
        by (auto simp: bind_eq_Some_conv)
      have s6: "mm s6 = mm s" "others p s s6"
        using upd_proc_mm [OF 6] s5 postD [OF others_basic(1) [OF s5(2)] 6] by auto
      have s7: "mm s7 = mm s" "others p s s7"
        using upd_proc_mm [of p _ s6 s7] s6 7 others_basic(1) [OF s6(2)] by (auto simp: post_def split: option.splits)
      have none: "page_tables_lvl_1_list x = None"
        using 6 7 x by (auto simp: upd_proc_def split: option.splits)
      show ?thesis
      proof (cases "app = Some None")
        case True
        then show ?thesis using 8 fail [of s7] s7 p by auto
      next
        case False
        have "falloc_inv N (mm s7, U)" "memory_end (mm s7) \<le> 2 ^ 56" "kernel_base_page_table s7 \<in> U"
            "kernel_only (mm s7) (kernel_base_page_table s7)"
          using inv base s7 by (auto simp: others_def)
        from allocator_isolated [OF this x none, of "ssize x"] obtain r' s8 where
          a: "process_memory_allocator p (ssize x) s7 = Some (r', s8)" "isolated N U (mm s7) p r' s8" by blast
        have "others p s s8" using postD [OF process_memory_others [OF s7(2)] a(1)] by simp
        then show ?thesis using 8 a False s7(1) p by (auto simp: created_def isolated_def split: if_splits)
      qed
    qed
  qed
qed

section \<open>The system as a transition system\<close>

text \<open>
  A state has the set of the processes that were created.  The creation is \<open>new_process\<close> and the frame
  for \<open>sscratch\<close> that \<open>start\<close> takes afterwards; when one of them fails the process does not run.  In user
  mode a process writes a double word at a virtual address that its page tables map, for user mode
  and for writing.  At its end the memory of a process is released.
\<close>

inductive iso_step :: "kernel \<times> ptr set \<Rightarrow> kernel \<times> ptr set \<Rightarrow> bool" where
  create: "new_process name z pri app s = Some (Some p, s1) \<Longrightarrow> get_frame (mm s1) = (Some f, m) \<Longrightarrow>
    upd_proc p (sscratch_frame_update (\<lambda>_. f)) (s1\<lparr>mm := m\<rparr>) = Some s' \<Longrightarrow> iso_step (s, R) (s', insert p R)"
| create_fails: "new_process name z pri app s = Some (po, s') \<Longrightarrow> iso_step (s, R) (s', R)"
| user_write: "p \<in> R \<Longrightarrow> procs s p = Some x \<Longrightarrow> sv39_walk (mm s) 2 (page_table_level_2 x) va = Some (pa, e) \<Longrightarrow>
    resU e = 1 \<Longrightarrow> write_bit e = 1 \<Longrightarrow> take_bit 3 va = 0 \<Longrightarrow>
    iso_step (s, R) (s\<lparr>mm := (mm s)\<lparr>mem := (mem (mm s))(pa := v)\<rparr>\<rparr>, R)"
| finish: "p \<in> R \<Longrightarrow> procs s p = Some x \<Longrightarrow> free_page_tables x (mm s) = Some m \<Longrightarrow>
    iso_step (s, R) (s\<lparr>mm := m\<rparr>, R - {p})"

text \<open>
  The ownership of frames: \<open>A p\<close> are the tables and the frames that process \<open>p\<close> can reach; besides them
  it has the frame for \<open>sscratch\<close>.
\<close>

definition frames_of :: "(ptr \<Rightarrow> u64 set \<times> u64 set) \<Rightarrow> process \<Rightarrow> ptr \<Rightarrow> u64 set" where
  "frames_of A x p = insert (sscratch_frame x) (fst (A p) \<union> snd (A p))"

definition owner_ok :: "memory \<Rightarrow> u64 set \<Rightarrow> (ptr \<rightharpoonup> process) \<Rightarrow> (ptr \<Rightarrow> u64 set \<times> u64 set) \<Rightarrow> ptr \<Rightarrow> bool" where
  "owner_ok m U ps A p \<longleftrightarrow>
     (\<exists>x. ps p = Some x \<and> frames_of A x p \<subseteq> U \<and> fst (A p) \<inter> snd (A p) = {} \<and>
        sscratch_frame x \<notin> fst (A p) \<union> snd (A p) \<and>
        space_of m (page_table_level_2 x) (fst (A p)) (snd (A p)) \<and> described x (fst (A p)) (snd (A p)) m)"

definition memory_ok :: "nat \<Rightarrow> u64 set \<Rightarrow> u64 \<Rightarrow> memory \<Rightarrow> bool" where
  "memory_ok N U base m \<longleftrightarrow> falloc_inv N (m, U) \<and> memory_end m \<le> 2 ^ 56 \<and> base \<in> U \<and> kernel_only m base"

text \<open>Frames of different processes are different, and the base directory belongs to none.\<close>

definition apart :: "u64 \<Rightarrow> (ptr \<rightharpoonup> process) \<Rightarrow> (ptr \<Rightarrow> u64 set \<times> u64 set) \<Rightarrow> ptr set \<Rightarrow> bool" where
  "apart base ps A R \<longleftrightarrow>
     (\<forall>p \<in> R. \<forall>x. ps p = Some x \<longrightarrow> base \<notin> frames_of A x p \<and>
        (\<forall>q \<in> R. \<forall>y. ps q = Some y \<longrightarrow> p \<noteq> q \<longrightarrow> frames_of A x p \<inter> frames_of A y q = {}))"

definition iso_inv :: "nat \<Rightarrow> kernel \<times> ptr set \<Rightarrow> bool" where
  "iso_inv N st \<longleftrightarrow> (case st of (s, R) \<Rightarrow> (\<exists>b. queues_inv b s) \<and>
     (\<exists>U A. memory_ok N U (kernel_base_page_table s) (mm s) \<and> (\<forall>p \<in> R. owner_ok (mm s) U (procs s) A p) \<and>
        apart (kernel_base_page_table s) (procs s) A R))"

lemma page_of: "aligned (a AND NOT (mask 12))" "in_page (a AND NOT (mask 12)) (a :: u64)"
proof -
  show al: "aligned (a AND NOT (mask 12))"
    unfolding aligned_def by (rule bit_word_eqI) (auto simp: bit_simps)
  have "(a AND NOT (mask 12)) OR take_bit 12 a = a" by (rule bit_word_eqI) (auto simp: bit_simps)
  then show "in_page (a AND NOT (mask 12)) a" using aligned_offset [OF al, of a] by simp
qed

lemma space_of_cong:
  assumes "space_of m t2 T D" "\<And>f a. f \<in> T \<Longrightarrow> in_page f a \<Longrightarrow> mem m' a = mem m a"
  shows "space_of m' t2 T D"
proof -
  have "mem m' (pte_addr t i) = mem m (pte_addr t i)" if "t \<in> T" "i < 512" for t i
    using assms(2) [OF that(1) in_page_pte [OF that(2)]] .
  moreover obtain t1 L e where "T = insert t2 (insert t1 L)" "space_ok t1 L D (mem m)" "kernel_only m t2"
      "mem m (pte_addr t2 USERSPACE) = link_pte (flags_set e False False False True) t1"
    using assms(1) by (auto simp: space_of_def)
  ultimately show ?thesis unfolding space_of_def space_ok_def kernel_only_def USERSPACE_def
    by (intro exI [of _ t1] exI [of _ L] exI [of _ e]) simp
qed

lemma kernel_only_cong:
  assumes "kernel_only m t" "\<And>a. in_page t a \<Longrightarrow> mem m' a = mem m a"
  shows "kernel_only m' t"
  using assms in_page_pte [of _ t] by (simp add: kernel_only_def)

lemma managed: "memory_ok N U base m \<Longrightarrow> f \<in> U \<Longrightarrow> aligned f \<and> f < 2 ^ 56"
  using managed_frame [of N m U f] by (auto simp: memory_ok_def)

lemma owner_frames:
  assumes "memory_ok N U base m" "owner_ok m U ps A p" "ps p = Some x"
  shows "user_frames m (page_table_level_2 x) \<subseteq> snd (A p)" "page_table_level_2 x \<in> fst (A p)"
proof -
  have sp: "space_of m (page_table_level_2 x) (fst (A p)) (snd (A p))" using assms(2,3) by (auto simp: owner_ok_def)
  then show "page_table_level_2 x \<in> fst (A p)" by (auto simp: space_of_def)
  show "user_frames m (page_table_level_2 x) \<subseteq> snd (A p)"
    by (rule user_frames_space [OF sp]) (use managed [OF assms(1)] assms(2,3) in \<open>auto simp: owner_ok_def frames_of_def\<close>)
qed

text \<open>A change of the memory outside the tables of a process keeps its address space.\<close>

lemma owner_cong:
  assumes "owner_ok m U ps A p" "ps p = Some x" "frames_of A x p \<subseteq> U'" "ps' p = ps p" "A' p = A p"
    "\<And>f a. f \<in> fst (A p) \<Longrightarrow> in_page f a \<Longrightarrow> mem m' a = mem m a"
  shows "owner_ok m' U' ps' A' p"
  using assms space_of_cong [OF _ assms(6)] described_cong [OF _ assms(6)] by (auto simp: owner_ok_def frames_of_def)

lemma memory_cong:
  assumes "memory_ok N U base m" "falloc_inv N (m', U')" "memory_end m' \<le> 2 ^ 56" "base \<in> U'"
    "\<And>a. in_page base a \<Longrightarrow> mem m' a = mem m a"
  shows "memory_ok N U' base m'"
  using assms kernel_only_cong [OF _ assms(5)] by (auto simp: memory_ok_def)

lemma iso_invI:
  "queues_inv b s \<Longrightarrow> memory_ok N U (kernel_base_page_table s) (mm s) \<Longrightarrow>
   (\<And>p. p \<in> R \<Longrightarrow> owner_ok (mm s) U (procs s) A p) \<Longrightarrow> apart (kernel_base_page_table s) (procs s) A R \<Longrightarrow> iso_inv N (s, R)"
  unfolding iso_inv_def by auto

lemma iso_invE:
  assumes "iso_inv N (s, R)"
  obtains b U A where "queues_inv b s" "memory_ok N U (kernel_base_page_table s) (mm s)"
    "\<And>p. p \<in> R \<Longrightarrow> owner_ok (mm s) U (procs s) A p" "apart (kernel_base_page_table s) (procs s) A R"
  using assms unfolding iso_inv_def prod.case by blast

lemma owner_mono: "owner_ok m U ps A p \<Longrightarrow> U \<subseteq> U' \<Longrightarrow> owner_ok m U' ps A p"
  unfolding owner_ok_def by blast

lemma apart_cong:
  assumes "apart base ps A R" "\<And>p. p \<in> R \<Longrightarrow> ps' p = ps p \<and> A' p = A p"
  shows "apart base ps' A' R"
  using assms by (simp add: apart_def frames_of_def)

lemma apart_insert:
  assumes "apart base ps A R" "ps p = Some y" "base \<notin> frames_of A y p" "F \<inter> frames_of A y p = {}"
    "\<And>q z. q \<in> R \<Longrightarrow> ps q = Some z \<Longrightarrow> frames_of A z q \<subseteq> F"
  shows "apart base ps A (insert p R)"
proof -
  have *: "frames_of A y p \<inter> frames_of A z q = {}" "frames_of A z q \<inter> frames_of A y p = {}" if "q \<in> R" "ps q = Some z" for q z
    using assms(4) assms(5) [OF that] by auto
  show ?thesis using assms(1-3) * unfolding apart_def by (metis insert_iff option.inject)
qed

text \<open>What \<open>new_process\<close> does to a running system: the tables \<open>T\<close> and frames \<open>D\<close> are new.\<close>

lemma new_process_inv:
  assumes inv: "iso_inv N (s, R)" and new: "new_process name z pri app s = Some (po, s1)"
  obtains b U A T D where "queues_inv b s1" "memory_ok N (U \<union> (T \<union> D)) (kernel_base_page_table s1) (mm s1)"
    "\<And>p. p \<in> R \<Longrightarrow> owner_ok (mm s1) U (procs s1) A p" "apart (kernel_base_page_table s1) (procs s1) A R"
    "(T \<union> D) \<inter> U = {}" "kernel_base_page_table s1 \<in> U" "T \<inter> D = {}" "next_ptr s \<notin> R"
    "\<And>p. po = Some p \<Longrightarrow> p = next_ptr s \<and>
      (\<exists>x. procs s1 p = Some x \<and> space_of (mm s1) (page_table_level_2 x) T D \<and> described x T D (mm s1))"
proof -
  let ?b = "kernel_base_page_table s" and ?p = "next_ptr s"
  obtain b U A where q: "queues_inv b s" and m: "memory_ok N U ?b (mm s)"
      and o: "\<And>p. p \<in> R \<Longrightarrow> owner_ok (mm s) U (procs s) A p" and ap: "apart ?b (procs s) A R"
    using inv unfolding iso_inv_def prod.case by blast
  have "created N U s po s1" using new_process_created [OF _ _ _ _ new] m by (auto simp: memory_ok_def)
  then obtain T D where c: "others ?p s s1" "grown N U (mm s) (T \<union> D) (mm s1)" "T \<inter> D = {}"
      "\<And>p. po = Some p \<Longrightarrow> p = ?p \<and>
        (\<exists>x. procs s1 p = Some x \<and> space_of (mm s1) (page_table_level_2 x) T D \<and> described x T D (mm s1))"
    unfolding created_def by blast
  have base: "kernel_base_page_table s1 = ?b" using c(1) by (simp add: others_def)
  have same: "mem (mm s1) a = mem (mm s) a" if "f \<in> U" "in_page f a" for f a
  proof -
    have "\<not> in_page g a" if "g \<in> T \<union> D" for g
      using in_page_unique [of g f a] grown_frame [OF c(2), of g] grown_frame [OF c(2), of f] that \<open>f \<in> U\<close> \<open>in_page f a\<close> c(2)
      by (auto simp: grown_def)
    then show ?thesis using c(2) by (simp add: grown_def)
  qed
  have "procs s p \<noteq> None \<Longrightarrow> p < next_ptr s" for p using q by (simp add: queues_inv_def chained_def)
  then have fresh: "?p \<notin> R" using o [of ?p] by (fastforce simp: owner_ok_def)
  have pr: "procs s1 p = procs s p" if "p \<in> R" for p
  proof -
    have "p \<noteq> ?p" using that fresh by blast
    then show ?thesis using c(1) by (simp add: others_def)
  qed
  show thesis
  proof (rule that)
    show "queues_inv b s1" using postD [OF new_process_keeps [OF q] new] by simp
    show "memory_ok N (U \<union> (T \<union> D)) (kernel_base_page_table s1) (mm s1)"
      unfolding base by (rule memory_cong [OF m]) (use c(2) m same [of ?b] in \<open>auto simp: grown_def memory_ok_def\<close>)
    show "owner_ok (mm s1) U (procs s1) A p" if r: "p \<in> R" for p
    proof -
      obtain x where x: "procs s p = Some x" "frames_of A x p \<subseteq> U" using o [OF r] by (auto simp: owner_ok_def)
      show ?thesis by (rule owner_cong [OF o [OF r] x]) (use pr [OF r] same x(2) in \<open>auto simp: frames_of_def\<close>)
    qed
    show "apart (kernel_base_page_table s1) (procs s1) A R" unfolding base by (rule apart_cong [OF ap]) (use pr in auto)
    show "(T \<union> D) \<inter> U = {}" using c(2) by (simp add: grown_def)
    show "kernel_base_page_table s1 \<in> U" using m base by (simp add: memory_ok_def)
  qed (use c(3,4) fresh in auto)
qed

lemma create_fails_inv:
  assumes "iso_inv N (s, R)" "new_process name z pri app s = Some (po, s')"
  shows "iso_inv N (s', R)"
  using assms by (rule new_process_inv) (auto intro!: iso_invI intro: owner_mono)

lemma create_inv:
  assumes inv: "iso_inv N (s, R)" and new: "new_process name z pri app s = Some (Some p, s1)"
    and g: "get_frame (mm s1) = (Some f, m)" and u: "upd_proc p (sscratch_frame_update (\<lambda>_. f)) (s1\<lparr>mm := m\<rparr>) = Some s'"
  shows "iso_inv N (s', insert p R)"
proof -
  obtain b U A T D where q: "queues_inv b s1" and m1: "memory_ok N (U \<union> (T \<union> D)) (kernel_base_page_table s1) (mm s1)"
    and o: "\<And>p. p \<in> R \<Longrightarrow> owner_ok (mm s1) U (procs s1) A p" and ap: "apart (kernel_base_page_table s1) (procs s1) A R"
    and d: "(T \<union> D) \<inter> U = {}" "kernel_base_page_table s1 \<in> U" "T \<inter> D = {}" "next_ptr s \<notin> R"
    and "p = next_ptr s \<and>
      (\<exists>x. procs s1 p = Some x \<and> space_of (mm s1) (page_table_level_2 x) T D \<and> described x T D (mm s1))"
    using new_process_inv [OF inv new] by metis
  then obtain x where p: "p = next_ptr s" "p \<notin> R" and x: "procs s1 p = Some x"
      "space_of (mm s1) (page_table_level_2 x) T D" "described x T D (mm s1)"
    by blast
  let ?U = "U \<union> (T \<union> D)" and ?b = "kernel_base_page_table s1"
  have "grown N ?U (mm s1) {} (mm s1)" using m1 by (simp add: grown_start memory_ok_def)
  note t = grown_take [OF this g]
  have f: "f \<notin> ?U" using t(2) by simp
  define y where "y = x\<lparr>sscratch_frame := f\<rparr>"
  have s': "s' = s1\<lparr>mm := m, procs := (procs s1)(p \<mapsto> y)\<rparr>" using u x(1) by (simp add: upd_proc_def y_def)
  define A' where "A' = A(p := (T, D))"
  have mem: "mem m = mem (mm s1)" by (rule t(3))
  have own: "owner_ok m (insert f ?U) (procs s') A' r" if r: "r \<in> R" for r
  proof -
    obtain xr where xr: "procs s1 r = Some xr" "frames_of A xr r \<subseteq> U" using o [OF r] by (auto simp: owner_ok_def)
    show ?thesis by (rule owner_cong [OF o [OF r] xr(1)]) (use xr p(2) r s' mem in \<open>auto simp: A'_def frames_of_def\<close>)
  qed
  have ownp: "owner_ok m (insert f ?U) (procs s') A' p"
    using space_of_cong [OF x(2), of m] described_cong [OF x(3), of m] mem f d(3) unfolding owner_ok_def
    by (intro exI [of _ y]) (auto simp: s' A'_def y_def described_def frames_of_def)
  have "queues_inv b s'" using upd_proc_keeps [of b "s1\<lparr>mm := m\<rparr>" "sscratch_frame_update (\<lambda>_. f)" p] q u by (auto simp: post_def)
  moreover have "memory_ok N (insert f ?U) (kernel_base_page_table s') (mm s')"
    unfolding s' using m1 t(1) mem kernel_only_cong [of "mm s1" ?b m] by (auto simp: memory_ok_def grown_def)
  moreover have "apart (kernel_base_page_table s') (procs s') A' (insert p R)"
  proof -
    have old: "frames_of A' xr r \<subseteq> U" if "r \<in> R" "procs s' r = Some xr" for r xr
      using o [OF that(1)] that p(2) by (auto simp: owner_ok_def s' A'_def frames_of_def split: if_splits)
    have "apart ?b (procs s') A' R" by (rule apart_cong [OF ap]) (use p(2) in \<open>auto simp: s' A'_def\<close>)
    moreover have "frames_of A' y p = insert f (T \<union> D)" "procs s' p = Some y" by (simp_all add: A'_def y_def s' frames_of_def)
    moreover have "U \<inter> insert f (T \<union> D) = {}" using f d(1) by auto
    moreover have "kernel_base_page_table s' = ?b" by (simp add: s')
    ultimately show ?thesis using apart_insert [of ?b "procs s'" A' R p y U] old d(2) by auto
  qed
  moreover have "owner_ok (mm s') (insert f ?U) (procs s') A' r" if "r \<in> insert p R" for r
    using own ownp that by (auto simp: s')
  ultimately show ?thesis using iso_invI by blast
qed

lemma write_inv:
  assumes inv: "iso_inv N (s, R)" and p: "p \<in> R" "procs s p = Some x"
    and w: "sv39_walk (mm s) 2 (page_table_level_2 x) va = Some (pa, e)" "resU e = 1"
  shows "iso_inv N (s\<lparr>mm := (mm s)\<lparr>mem := (mem (mm s))(pa := v)\<rparr>\<rparr>, R)"
proof -
  let ?b = "kernel_base_page_table s" and ?m = "(mm s)\<lparr>mem := (mem (mm s))(pa := v)\<rparr>"
  obtain b U A where q: "queues_inv b s" and m: "memory_ok N U ?b (mm s)"
      and o: "\<And>p. p \<in> R \<Longrightarrow> owner_ok (mm s) U (procs s) A p" and ap: "apart ?b (procs s) A R"
    using inv unfolding iso_inv_def prod.case by blast
  define f where "f = pa AND NOT (mask 12)"
  have f: "f \<in> snd (A p)" "aligned f" "in_page f pa"
    using owner_frames(1) [OF m o [OF p(1)] p(2)] w page_of [of pa] by (auto simp: user_frames_def f_def)
  have own: "frames_of A x p \<subseteq> U" "fst (A p) \<inter> snd (A p) = {}" using o [OF p(1)] p(2) by (auto simp: owner_ok_def)
  have fU: "f \<in> U" "f \<noteq> ?b" using own(1) f(1) ap p by (auto simp: apart_def frames_of_def)
  have same: "a \<noteq> pa" if "g \<in> U" "g \<noteq> f" "in_page g a" for g a
    using in_page_unique [of f g a] managed [OF m that(1)] f that by auto
  have "grown N {} (mm s) U (mm s)" using m by (simp add: grown_def memory_ok_def)
  then have "grown N {} (mm s) U ?m"
    by (rule grown_write [OF _ fU(1)]) (use f(3) in auto)
  then have m': "memory_ok N U ?b ?m"
    by (intro memory_cong [OF m]) (use m fU same [of ?b] in \<open>auto simp: memory_ok_def grown_def\<close>)
  have "owner_ok ?m U (procs s) A r" if r: "r \<in> R" for r
  proof -
    obtain y where y: "procs s r = Some y" "frames_of A y r \<subseteq> U" using o [OF r] by (auto simp: owner_ok_def)
    have "f \<notin> fst (A r)"
    proof (cases "r = p")
      case False
      then have "frames_of A x p \<inter> frames_of A y r = {}" using ap p r y(1) unfolding apart_def by metis
      then show ?thesis using f(1) by (auto simp: frames_of_def)
    qed (use own(2) f(1) in auto)
    then show ?thesis
      by (intro owner_cong [OF o [OF r] y]) (use y(2) same in \<open>auto simp: frames_of_def\<close>)
  qed
  then show ?thesis using q m' ap by (intro iso_invI [where b = b and U = U and A = A]) auto
qed

lemma owner_end:
  assumes m: "memory_ok N U base (mm s)" and o: "owner_ok (mm s) U (procs s) A p" and x: "procs s p = Some x"
  shows "\<exists>m'. free_page_tables x (mm s) = Some m' \<and> falloc_inv N (m', U - frames_of A x p) \<and>
    memory_end m' = memory_end (mm s) \<and> (\<forall>g \<in> U - frames_of A x p. \<forall>a. in_page g a \<longrightarrow> mem m' a = mem (mm s) a)"
proof -
  have "described x (fst (A p)) (snd (A p)) (mm s)" "fst (A p) \<inter> snd (A p) = {}" "fst (A p) \<union> snd (A p) \<subseteq> U"
    "sscratch_frame x \<in> U" "sscratch_frame x \<notin> fst (A p) \<union> snd (A p)"
    using o x by (auto simp: owner_ok_def frames_of_def)
  from process_end [OF _ _ this, of N] show ?thesis using m by (simp add: memory_ok_def frames_of_def)
qed

lemma finish_inv:
  assumes inv: "iso_inv N (s, R)" and p: "p \<in> R" "procs s p = Some x" and f: "free_page_tables x (mm s) = Some m'"
  shows "iso_inv N (s\<lparr>mm := m'\<rparr>, R - {p})"
proof -
  let ?b = "kernel_base_page_table s"
  obtain b U A where q: "queues_inv b s" and m: "memory_ok N U ?b (mm s)"
      and o: "\<And>p. p \<in> R \<Longrightarrow> owner_ok (mm s) U (procs s) A p" and ap: "apart ?b (procs s) A R"
    using inv unfolding iso_inv_def prod.case by blast
  define U' where "U' = U - frames_of A x p"
  have e: "falloc_inv N (m', U')" "memory_end m' = memory_end (mm s)"
      and same: "\<And>g a. g \<in> U' \<Longrightarrow> in_page g a \<Longrightarrow> mem m' a = mem (mm s) a"
    using owner_end [OF m o [OF p(1)] p(2)] f by (auto simp: U'_def)
  have bU: "?b \<in> U'" using m ap p by (auto simp: memory_ok_def apart_def U'_def)
  have "memory_ok N U' ?b m'" by (rule memory_cong [OF m e(1)]) (use e(2) m bU same in \<open>auto simp: memory_ok_def\<close>)
  moreover have "owner_ok m' U' (procs s) A r" if r: "r \<in> R - {p}" for r
  proof -
    have rR: "r \<in> R" "p \<noteq> r" using r by auto
    obtain y where y: "procs s r = Some y" "frames_of A y r \<subseteq> U" using o [OF rR(1)] by (auto simp: owner_ok_def)
    have "frames_of A x p \<inter> frames_of A y r = {}" using ap p rR y(1) unfolding apart_def by metis
    then have "frames_of A y r \<subseteq> U'" using y(2) by (auto simp: U'_def)
    then show ?thesis by (intro owner_cong [OF o [OF rR(1)] y(1)]) (use same in \<open>auto simp: frames_of_def\<close>)
  qed
  moreover have "apart ?b (procs s) A (R - {p})" using ap unfolding apart_def by blast
  ultimately show ?thesis using q by (intro iso_invI [where b = b and U = U' and A = A]) auto
qed

section \<open>Properties\<close>

lemma run_iso:
  assumes "iso_step\<^sup>*\<^sup>* st st'" "iso_inv N st"
  shows "iso_inv N st'"
  using assms
proof (induction rule: rtranclp_induct)
  case (step st1 st2)
  from step(2) step.IH [OF step.prems] show ?case
    by cases (simp_all only: create_inv create_fails_inv write_inv finish_inv)
qed

text \<open>
  C2.  Processes are isolated from each other.  From a memory in which \<open>U\<close> are the frames in use and the
  base directory maps nothing for user mode, after any sequence of creations of processes, of
  writes of these processes in user mode, and of ends of processes: no frame is reached by two
  processes; no process reaches the page directory of a process, the base directory, or the frame that the
  allocator will hand out next; and the memory of each process can be released without an error.
\<close>

theorem processes_isolated:
  assumes "queues_inv b s" "falloc_inv N (mm s, U)" "memory_end (mm s) \<le> 2 ^ 56"
    "kernel_base_page_table s \<in> U" "kernel_only (mm s) (kernel_base_page_table s)"
    "iso_step\<^sup>*\<^sup>* (s, {}) (s', R)" "p \<in> R" "q \<in> R" "p \<noteq> q" "procs s' p = Some x" "procs s' q = Some y"
  defines "reach \<equiv> \<lambda>x. user_frames (mm s') (page_table_level_2 x)"
  shows "reach x \<inter> reach y = {} \<and> page_table_level_2 x \<notin> reach x \<and> page_table_level_2 y \<notin> reach x \<and>
    kernel_base_page_table s' \<notin> reach x \<and> (\<forall>f m. get_frame (mm s') = (Some f, m) \<longrightarrow> f \<notin> reach x) \<and>
    free_page_tables x (mm s') \<noteq> None"
proof -
  have "iso_inv N (s, {})" using assms(1-5) by (intro iso_invI [where b = b and U = U]) (auto simp: memory_ok_def apart_def)
  from run_iso [OF assms(6) this] obtain U' A where
    m: "memory_ok N U' (kernel_base_page_table s') (mm s')" and
    o: "\<And>p. p \<in> R \<Longrightarrow> owner_ok (mm s') U' (procs s') A p" and
    ap: "apart (kernel_base_page_table s') (procs s') A R"
    unfolding iso_inv_def prod.case by blast
  note px = owner_frames [OF m o [OF assms(7)] assms(10)] and qy = owner_frames [OF m o [OF assms(8)] assms(11)]
  have own: "snd (A p) \<subseteq> U'" "fst (A p) \<inter> snd (A p) = {}"
    using o [OF assms(7)] assms(10) by (auto simp: owner_ok_def frames_of_def)
  have "frames_of A x p \<inter> frames_of A y q = {}" using ap assms(7-11) unfolding apart_def by metis
  then have d: "snd (A p) \<inter> snd (A q) = {}" "snd (A p) \<inter> fst (A q) = {}" by (auto simp: frames_of_def)
  have b: "kernel_base_page_table s' \<notin> snd (A p)" using ap assms(7,10) by (auto simp: apart_def frames_of_def)
  have "f \<notin> U'" if "get_frame (mm s') = (Some f, n)" for f n
    using grown_take(2) [OF grown_start that, of N U'] m by (auto simp: memory_ok_def)
  moreover have "free_page_tables x (mm s') \<noteq> None" using owner_end [OF m o [OF assms(7)] assms(10)] by auto
  ultimately show ?thesis using px qy own d b unfolding reach_def by blast
qed

lemma demo_two_processes:
  "\<exists>m1 m2 s1 f m3 s2 s3 g m4. init_frames demo_ram = Some m1 \<and> init_directory False m1 = Some (Some 0x80000000, m2) \<and>
     new_process idle_name 100 5 (Some (Some \<lparr>app_name = idle_name, app_start = 0x1000, app_end = 0x1800\<rparr>))
       (demo_kernel\<lparr>mm := m2, kernel_base_page_table := 0x80000000\<rparr>) = Some (Some 100, s1) \<and>
     get_frame (mm s1) = (Some f, m3) \<and> upd_proc 100 (sscratch_frame_update (\<lambda>_. f)) (s1\<lparr>mm := m3\<rparr>) = Some s2 \<and>
     new_process shell_name 100 5 (Some (Some \<lparr>app_name = shell_name, app_start = 0x2000, app_end = 0x2800\<rparr>)) s2
       = Some (Some 105, s3) \<and> get_frame (mm s3) = (Some g, m4)"
  by (simp add: init_frames_def init_frames_loop.simps init_directory_def configure_GIGA demo_ram_def
      demo_kernel_def demo_process_def demo_names demo_copies alloc_eval start_eval)

theorem processes_isolated_witness:
  "\<exists>s s' x y. iso_step\<^sup>*\<^sup>* (s, {}) (s', {100, 105}) \<and> procs s' 100 = Some x \<and> procs s' 105 = Some y \<and>
     user_frames (mm s') (page_table_level_2 x) \<inter> user_frames (mm s') (page_table_level_2 y) = {}"
proof -
  obtain m1 m2 s1 f m3 s2 s3 g m4 where s: "init_frames demo_ram = Some m1" "init_directory False m1 = Some (Some 0x80000000, m2)"
      "new_process idle_name 100 5 (Some (Some \<lparr>app_name = idle_name, app_start = 0x1000, app_end = 0x1800\<rparr>))
         (demo_kernel\<lparr>mm := m2, kernel_base_page_table := 0x80000000\<rparr>) = Some (Some 100, s1)"
      "get_frame (mm s1) = (Some f, m3)" "upd_proc 100 (sscratch_frame_update (\<lambda>_. f)) (s1\<lparr>mm := m3\<rparr>) = Some s2"
      "new_process shell_name 100 5 (Some (Some \<lparr>app_name = shell_name, app_start = 0x2000, app_end = 0x2800\<rparr>)) s2
         = Some (Some 105, s3)" "get_frame (mm s3) = (Some g, m4)"
    using demo_two_processes by blast
  define s0 where "s0 = demo_kernel\<lparr>mm := m2, kernel_base_page_table := 0x80000000\<rparr>"
  have ok: "falloc_inv 18 (mm s0, {0x80000000})" "memory_end (mm s0) \<le> 2 ^ 56"
      "kernel_base_page_table s0 \<in> {0x80000000}" "kernel_only (mm s0) (kernel_base_page_table s0)"
    using demo_isolation_ok [OF s(1,2)] by (simp_all add: s0_def demo_isolation_def)
  have q: "queues_inv True s0"
    by (simp add: s0_def demo_kernel_def queues_inv_def chained_def ready_sorted_def)
  have i0: "iso_inv 18 (s0, {})"
    using q ok by (intro iso_invI [where b = True and U = "{0x80000000}"]) (auto simp: memory_ok_def apart_def)
  have 1: "iso_step (s0, {}) (s2, {100})" by (rule iso_step.create [OF s(3) [folded s0_def] s(4,5)])
  from new_process_inv [OF run_iso [OF r_into_rtranclp [where r = iso_step, OF 1] i0] s(6)]
  obtain y where "procs s3 105 = Some y" by metis
  then obtain s4 where u: "upd_proc 105 (sscratch_frame_update (\<lambda>_. g)) (s3\<lparr>mm := m4\<rparr>) = Some s4"
    by (simp add: upd_proc_def)
  have 2: "iso_step (s2, {100}) (s4, {105, 100})" by (rule iso_step.create [OF s(6,7) u])
  have run: "iso_step\<^sup>*\<^sup>* (s0, {}) (s4, {105, 100})"
    using 1 2 by (rule converse_rtranclp_into_rtranclp [OF _ r_into_rtranclp])
  from run_iso [OF run i0] obtain x y where xy: "procs s4 100 = Some x" "procs s4 105 = Some y"
    unfolding iso_inv_def prod.case owner_ok_def by (metis insertI1 insertI2)
  have "user_frames (mm s4) (page_table_level_2 x) \<inter> user_frames (mm s4) (page_table_level_2 y) = {}"
    using processes_isolated [OF q ok run _ _ _ xy] by simp
  moreover have "{105, 100} = {100, 105 :: nat}" by auto
  ultimately show ?thesis using run xy by metis
qed

end
