(* ===== verification/Malloc_Chunk.thy ===== *)
theory Malloc_Chunk
  imports Frame_Alloc
begin

text \<open>
  The allocator of the kernel heap (\<open>src/lib/stdlib/malloc.c\<close>), in the configuration of the file:
  \<open>HAVE_MMAP\<close> is 0, \<open>MORECORE\<close> is the \<open>sbrk\<close> of \<open>src/kernel/memory/mem.c\<close>, which \<open>Frame_Alloc\<close> models,
  assertions and checks are compiled away.  The structure \<open>av_\<close> is a record; its bins are links
  of the lists of free chunks and lie in memory, from the address \<open>bins_addr\<close> on.  A pointer is a
  number of 64 bits, 0 for \<open>NULL\<close>; a chunk is given by its address.  Loops over lists of chunks are
  partial functions: the result is \<open>None\<close> when they do not end.
\<close>

unbundle bit_operations_syntax

section \<open>Sizes\<close>

definition SIZE_SZ :: u64 where "SIZE_SZ = 8"
definition MALLOC_ALIGNMENT :: u64 where "MALLOC_ALIGNMENT = 2 * SIZE_SZ"
definition MALLOC_ALIGN_MASK :: u64 where "MALLOC_ALIGN_MASK = MALLOC_ALIGNMENT - 1"
definition MIN_CHUNK_SIZE :: u64 where "MIN_CHUNK_SIZE = 32"
definition MINSIZE :: u64 where
  "MINSIZE = (MIN_CHUNK_SIZE + MALLOC_ALIGN_MASK) AND NOT MALLOC_ALIGN_MASK"

definition chunk2mem :: "u64 \<Rightarrow> u64" where "chunk2mem p = p + 2 * SIZE_SZ"
definition mem2chunk :: "u64 \<Rightarrow> u64" where "mem2chunk m = m - 2 * SIZE_SZ"

definition REQUEST_OUT_OF_RANGE :: "u64 \<Rightarrow> bool" where
  "REQUEST_OUT_OF_RANGE req \<longleftrightarrow> req \<ge> - 2 * MINSIZE"

definition request2size :: "u64 \<Rightarrow> u64" where
  "request2size req =
     (if req + SIZE_SZ + MALLOC_ALIGN_MASK < MINSIZE then MINSIZE
      else (req + SIZE_SZ + MALLOC_ALIGN_MASK) AND NOT MALLOC_ALIGN_MASK)"

section \<open>Bins\<close>

definition NBINS :: nat where "NBINS = 96"
definition NSMALLBINS :: "32 word" where "NSMALLBINS = 32"
definition SMALLBIN_WIDTH :: nat where "SMALLBIN_WIDTH = 8"
definition MIN_LARGE_SIZE :: u64 where "MIN_LARGE_SIZE = 256"

definition in_smallbin_range :: "u64 \<Rightarrow> bool" where
  "in_smallbin_range sz \<longleftrightarrow> sz < MIN_LARGE_SIZE"

definition smallbin_index :: "u64 \<Rightarrow> nat" where
  "smallbin_index sz = unat (drop_bit 3 (ucast sz :: 32 word))"

text \<open>The size is passed as a number of 32 bits.  The position of the highest bit is computed without branches.\<close>

definition highest_bit :: "32 word \<Rightarrow> 32 word" where
  "highest_bit x =
     (let n = drop_bit 16 (x - 0x100) AND 8;
          x = push_bit (unat n) x;
          m = drop_bit 16 (x - 0x1000) AND 4;
          n = n + m;
          x = push_bit (unat m) x;
          m = drop_bit 16 (x - 0x4000) AND 2;
          n = n + m;
          x = drop_bit 14 (push_bit (unat m) x)
      in 13 - n + (x AND NOT (drop_bit 1 x)))"

definition largebin_index :: "u64 \<Rightarrow> nat" where
  "largebin_index s =
     (let sz = ucast s :: 32 word; x = drop_bit SMALLBIN_WIDTH sz in
      if x \<ge> 0x10000 then NBINS - 1
      else let m = highest_bit x
        in unat (NSMALLBINS + push_bit 2 m + (drop_bit (unat (m + 6)) sz AND 3)))"

definition bin_index :: "u64 \<Rightarrow> nat" where
  "bin_index sz = (if in_smallbin_range sz then smallbin_index sz else largebin_index sz)"

definition BINMAPSHIFT :: nat where "BINMAPSHIFT = 5"
definition BINMAPSIZE :: nat where "BINMAPSIZE = NBINS div 2 ^ BINMAPSHIFT"

definition idx2block :: "nat \<Rightarrow> nat" where "idx2block i = drop_bit BINMAPSHIFT i"
definition idx2bit :: "nat \<Rightarrow> 32 word" where "idx2bit i = push_bit (i AND (2 ^ BINMAPSHIFT - 1)) 1"

definition fastbin_index :: "u64 \<Rightarrow> nat" where
  "fastbin_index sz = unat (drop_bit 3 (ucast sz :: 32 word) - 2)"

definition MAX_FAST_SIZE :: u64 where "MAX_FAST_SIZE = 80"
definition NFASTBINS :: nat where "NFASTBINS = fastbin_index (request2size MAX_FAST_SIZE) + 1"

definition DEFAULT_MXFAST :: u64 where "DEFAULT_MXFAST = 64"
definition DEFAULT_TRIM_THRESHOLD :: u64 where "DEFAULT_TRIM_THRESHOLD = 256 * 1024"
definition DEFAULT_TOP_PAD :: u64 where "DEFAULT_TOP_PAD = 0"
definition DEFAULT_MMAP_THRESHOLD :: u64 where "DEFAULT_MMAP_THRESHOLD = 256 * 1024"
definition DEFAULT_MMAP_MAX :: "32 word" where "DEFAULT_MMAP_MAX = 0"
definition FASTBIN_CONSOLIDATION_THRESHOLD :: u64 where
  "FASTBIN_CONSOLIDATION_THRESHOLD = drop_bit 1 DEFAULT_TRIM_THRESHOLD"
definition FIRST_SORTED_BIN_SIZE :: u64 where "FIRST_SORTED_BIN_SIZE = MIN_LARGE_SIZE"
definition malloc_getpagesize :: "32 word" where "malloc_getpagesize = 4096"
definition MORECORE_FAILURE :: u64 where "MORECORE_FAILURE = - 1"

section \<open>The state and the chunks\<close>

record malloc_state =
  max_fast :: u64
  fastbins :: "u64 list"
  top_chunk :: u64
  last_remainder :: u64
  bins_addr :: u64
  binmap :: "32 word list"
  trim_threshold :: u64
  top_pad :: u64
  mmap_threshold :: u64
  n_mmaps :: "32 word"
  n_mmaps_max :: "32 word"
  max_n_mmaps :: "32 word"
  pagesize :: "32 word"
  morecore_properties :: "32 word"
  mmapped_mem :: u64
  sbrked_mem :: u64
  max_sbrked_mem :: u64
  max_mmapped_mem :: u64
  max_total_mem :: u64
  store :: memory

text \<open>Double words of memory; the fields of a chunk.\<close>

definition ldw :: "u64 \<Rightarrow> malloc_state \<Rightarrow> u64" where "ldw a s = mem (store s) a"
definition stw :: "u64 \<Rightarrow> u64 \<Rightarrow> malloc_state \<Rightarrow> malloc_state" where
  "stw a v s = s\<lparr>store := (store s)\<lparr>mem := (mem (store s))(a := v)\<rparr>\<rparr>"

definition prev_size_addr :: "u64 \<Rightarrow> u64" where "prev_size_addr p = p"
definition size_addr :: "u64 \<Rightarrow> u64" where "size_addr p = p + 8"
definition fd_addr :: "u64 \<Rightarrow> u64" where "fd_addr p = p + 16"
definition bk_addr :: "u64 \<Rightarrow> u64" where "bk_addr p = p + 24"

abbreviation prev_size where "prev_size p s \<equiv> ldw (prev_size_addr p) s"
abbreviation chunk_size where "chunk_size p s \<equiv> ldw (size_addr p) s"
abbreviation fd where "fd p s \<equiv> ldw (fd_addr p) s"
abbreviation bk where "bk p s \<equiv> ldw (bk_addr p) s"
abbreviation set_fd where "set_fd p v s \<equiv> stw (fd_addr p) v s"
abbreviation set_bk where "set_bk p v s \<equiv> stw (bk_addr p) v s"

definition PREV_INUSE :: u64 where "PREV_INUSE = 1"
definition IS_MMAPPED :: u64 where "IS_MMAPPED = 2"
definition SIZE_BITS :: u64 where "SIZE_BITS = PREV_INUSE OR IS_MMAPPED"

definition prev_inuse :: "u64 \<Rightarrow> malloc_state \<Rightarrow> bool" where
  "prev_inuse p s \<longleftrightarrow> chunk_size p s AND PREV_INUSE \<noteq> 0"

definition chunk_is_mmapped :: "u64 \<Rightarrow> malloc_state \<Rightarrow> bool" where
  "chunk_is_mmapped p s \<longleftrightarrow> chunk_size p s AND IS_MMAPPED \<noteq> 0"

definition chunksize :: "u64 \<Rightarrow> malloc_state \<Rightarrow> u64" where
  "chunksize p s = chunk_size p s AND NOT SIZE_BITS"

definition inuse_bit_at_offset :: "u64 \<Rightarrow> u64 \<Rightarrow> malloc_state \<Rightarrow> bool" where
  "inuse_bit_at_offset p n s \<longleftrightarrow> chunk_size (p + n) s AND PREV_INUSE \<noteq> 0"

definition set_inuse_bit_at_offset :: "u64 \<Rightarrow> u64 \<Rightarrow> malloc_state \<Rightarrow> malloc_state" where
  "set_inuse_bit_at_offset p n s = stw (size_addr (p + n)) (chunk_size (p + n) s OR PREV_INUSE) s"

definition set_head :: "u64 \<Rightarrow> u64 \<Rightarrow> malloc_state \<Rightarrow> malloc_state" where
  "set_head p v s = stw (size_addr p) v s"

definition set_foot :: "u64 \<Rightarrow> u64 \<Rightarrow> malloc_state \<Rightarrow> malloc_state" where
  "set_foot p n s = stw (prev_size_addr (p + n)) n s"

definition bin_at :: "malloc_state \<Rightarrow> nat \<Rightarrow> u64" where
  "bin_at s i = bins_addr s + 8 * of_nat (2 * i) - 16"

definition next_bin :: "u64 \<Rightarrow> u64" where "next_bin b = b + 16"

definition unsorted_chunks :: "malloc_state \<Rightarrow> u64" where "unsorted_chunks s = bin_at s 1"
definition initial_top :: "malloc_state \<Rightarrow> u64" where "initial_top s = unsorted_chunks s"

definition unlink :: "u64 \<Rightarrow> malloc_state \<Rightarrow> malloc_state" where
  "unlink p s = (let f = fd p s; b = bk p s in set_fd b f (set_bk f b s))"

definition mark_bin :: "nat \<Rightarrow> malloc_state \<Rightarrow> malloc_state" where
  "mark_bin i s = s\<lparr>binmap := (binmap s)[idx2block i := binmap s ! idx2block i OR idx2bit i]\<rparr>"

definition unmark_bin :: "nat \<Rightarrow> malloc_state \<Rightarrow> malloc_state" where
  "unmark_bin i s = s\<lparr>binmap := (binmap s)[idx2block i := binmap s ! idx2block i AND NOT (idx2bit i)]\<rparr>"

definition get_binmap :: "nat \<Rightarrow> malloc_state \<Rightarrow> bool" where
  "get_binmap i s \<longleftrightarrow> binmap s ! idx2block i AND idx2bit i \<noteq> 0"

definition ANYCHUNKS_BIT :: u64 where "ANYCHUNKS_BIT = 1"
definition FASTCHUNKS_BIT :: u64 where "FASTCHUNKS_BIT = 2"

definition have_anychunks :: "malloc_state \<Rightarrow> bool" where
  "have_anychunks s \<longleftrightarrow> max_fast s AND ANYCHUNKS_BIT \<noteq> 0"
definition set_anychunks :: "malloc_state \<Rightarrow> malloc_state" where
  "set_anychunks s = s\<lparr>max_fast := max_fast s OR ANYCHUNKS_BIT\<rparr>"
definition have_fastchunks :: "malloc_state \<Rightarrow> bool" where
  "have_fastchunks s \<longleftrightarrow> max_fast s AND FASTCHUNKS_BIT \<noteq> 0"
definition set_fastchunks :: "malloc_state \<Rightarrow> malloc_state" where
  "set_fastchunks s = s\<lparr>max_fast := max_fast s OR (FASTCHUNKS_BIT OR ANYCHUNKS_BIT)\<rparr>"
definition clear_fastchunks :: "malloc_state \<Rightarrow> malloc_state" where
  "clear_fastchunks s = s\<lparr>max_fast := max_fast s AND NOT FASTCHUNKS_BIT\<rparr>"

definition set_max_fast :: "u64 \<Rightarrow> malloc_state \<Rightarrow> malloc_state" where
  "set_max_fast n s =
     s\<lparr>max_fast := (if n = 0 then of_nat SMALLBIN_WIDTH else request2size n) OR
       (max_fast s AND (FASTCHUNKS_BIT OR ANYCHUNKS_BIT))\<rparr>"

definition MORECORE_CONTIGUOUS_BIT :: "32 word" where "MORECORE_CONTIGUOUS_BIT = 1"
definition contiguous :: "malloc_state \<Rightarrow> bool" where
  "contiguous s \<longleftrightarrow> morecore_properties s AND MORECORE_CONTIGUOUS_BIT \<noteq> 0"
definition set_contiguous :: "malloc_state \<Rightarrow> malloc_state" where
  "set_contiguous s = s\<lparr>morecore_properties := morecore_properties s OR MORECORE_CONTIGUOUS_BIT\<rparr>"
definition set_noncontiguous :: "malloc_state \<Rightarrow> malloc_state" where
  "set_noncontiguous s = s\<lparr>morecore_properties := morecore_properties s AND NOT MORECORE_CONTIGUOUS_BIT\<rparr>"

definition MORECORE :: "u64 \<Rightarrow> malloc_state \<Rightarrow> u64 \<times> malloc_state" where
  "MORECORE n s = (case sbrk (sint n) (store s) of (p, m) \<Rightarrow> (p, s\<lparr>store := m\<rparr>))"

section \<open>Sizes of chunks\<close>

lemma malloc_constants [simp]:
  "SIZE_SZ = 8" "MALLOC_ALIGNMENT = 16" "MALLOC_ALIGN_MASK = 15" "MINSIZE = 32" "SIZE_BITS = 3"
  by (simp_all add: SIZE_SZ_def MALLOC_ALIGNMENT_def MALLOC_ALIGN_MASK_def MINSIZE_def MIN_CHUNK_SIZE_def
      SIZE_BITS_def PREV_INUSE_def IS_MMAPPED_def)

lemma and_not_mask: "w AND NOT (mask n) = w - take_bit n w" for w :: "'a::len word"
proof -
  have "(w AND mask n) + (w AND NOT (mask n)) = (w AND mask n) OR (w AND NOT (mask n))"
    by (rule disjunctive_add_eq_or) (simp add: bit_eq_iff bit_simps)
  also have "\<dots> = w" by (auto simp add: bit_eq_iff bit_simps)
  finally show ?thesis by (simp add: take_bit_eq_mask algebra_simps)
qed

lemma uint_and_not_mask: "uint (w AND NOT (mask n)) = uint w div 2 ^ n * 2 ^ n" for w :: "'a::len word"
proof -
  have t: "uint (take_bit n w) = uint w mod 2 ^ n" by (simp only: unsigned_take_bit_eq) (simp add: take_bit_eq_mod)
  then have "uint (take_bit n w) \<le> uint w" by (simp add: zmod_le_nonneg_dividend)
  then have "uint (w - take_bit n w) = uint w - uint w mod 2 ^ n"
    using uint_sub_lem [of "take_bit n w" w] t by simp
  then show ?thesis by (simp add: and_not_mask minus_mod_eq_div_mult)
qed

lemma uint_add_lt: "uint a + uint b < 2 ^ 64 \<Longrightarrow> uint (a + b) = uint a + uint b" for a b :: u64
  using uint_add_lem [of a b] by simp

lemma uint_sub_le: "uint b \<le> uint a \<Longrightarrow> uint (a - b) = uint a - uint b" for a b :: u64
  using uint_sub_lem [of b a] by simp

lemma align16: "uint (w AND NOT 15) = uint w div 16 * 16" for w :: u64
  using uint_and_not_mask [of w 4] by (simp add: mask_eq_exp_minus_1)

lemma align_page: "uint (w AND NOT 4095) = uint w div 4096 * 4096" for w :: u64
  using uint_and_not_mask [of w 12] by (simp add: mask_eq_exp_minus_1)

text \<open>
  The size of the chunk for a request: a multiple of sixteen, at least 32, and the least such
  size with eight bytes more than the request.
\<close>

lemma in_range_iff: "\<not> REQUEST_OUT_OF_RANGE req \<longleftrightarrow> uint req < 2 ^ 64 - 64"
  by (simp add: REQUEST_OUT_OF_RANGE_def word_le_def not_le)

lemma request2size_uint:
  assumes "\<not> REQUEST_OUT_OF_RANGE req"
  shows "uint (request2size req) = max 32 ((uint req + 23) div 16 * 16)"
proof -
  have r: "uint req < 2 ^ 64 - 64" using assms by (simp add: in_range_iff)
  have "uint (req + 8 + 15) = uint req + 23"
    using r uint_add_lt [of req 23] by (simp add: add.assoc)
  then show ?thesis using align16 [of "req + 8 + 15"]
    by (auto simp: request2size_def word_less_def)
qed

lemma request2size_room:
  assumes "\<not> REQUEST_OUT_OF_RANGE req"
  shows "uint (request2size req) mod 16 = 0" "32 \<le> uint (request2size req)"
    "uint req + 8 \<le> uint (request2size req)" "uint (request2size req) < 2 ^ 64 - 32"
    "uint (request2size req) \<le> max 32 (uint req + 23)"
  using assms unfolding request2size_uint [OF assms] in_range_iff by (auto simp: max_def)

section \<open>Indices of bins\<close>

lemma unat_drop: "unat (drop_bit n x) = unat x div 2 ^ n" for x :: "32 word"
  by (simp only: unat_drop_bit_eq) (simp add: drop_bit_eq_div)

lemma borrow_bits:
  fixes x c :: "32 word"
  assumes "unat x < 2 ^ 16" "unat c \<le> 2 ^ 16"
  shows "drop_bit 16 (x - c) = (if unat x < unat c then 0xFFFF else 0)"
proof -
  have n: "uint x = int (unat x)" "uint c = int (unat c)" by (simp_all only: uint_nat)
  have u: "uint (drop_bit 16 (x - c)) = uint (x - c) div 2 ^ 16"
    by (simp only: uint_nat unat_drop zdiv_int) simp
  have "uint (x - c) = (if unat c \<le> unat x then int (unat x) - int (unat c)
      else int (unat x) - int (unat c) + 2 ^ 32)"
    using uint_sub_if' [of x c] by (simp only: n of_nat_le_iff len_num1 len_bit0) simp
  then have "uint (x - c) div 2 ^ 16 = (if unat x < unat c then 0xFFFF else 0)"
    using assms by (auto simp del: of_nat_unat)
  then show ?thesis using u by (simp add: word_uint_eq_iff)
qed

lemma unat_push: "unat x * 2 ^ n < 2 ^ 32 \<Longrightarrow> unat (push_bit n x) = unat x * 2 ^ n" for x :: "32 word"
  by (simp only: unsigned_push_bit_eq) (simp add: push_bit_eq_mult take_bit_eq_mod)


fun log2 :: "nat \<Rightarrow> nat" where
  "log2 n = (if n < 2 then 0 else Suc (log2 (n div 2)))"

declare log2.simps [simp del]

lemma log2_eqI: "2 ^ k \<le> n \<Longrightarrow> n < 2 ^ (k + 1) \<Longrightarrow> log2 n = k"
proof (induction k arbitrary: n)
  case (Suc k)
  then have "log2 (n div 2) = k" by (intro Suc.IH) auto
  moreover have "2 \<le> n" using Suc.prems(1) by (metis le_trans le_add1 mult_2 one_le_numeral one_le_power power_Suc mult_le_mono2 nat_mult_1_right)
  ultimately show ?case by (subst log2.simps) simp
qed (simp add: log2.simps)

lemma highest_bit_log2:
  assumes "0 < unat x" "unat x < 2 ^ 16"
  shows "unat (highest_bit x) = log2 (unat x)"
proof -
  define n1 :: "32 word" where "n1 = (if unat x < 2 ^ 8 then 8 else 0)"
  define x1 where "x1 = push_bit (unat n1) x"
  have 1: "drop_bit 16 (x - 0x100) AND 8 = n1" using borrow_bits [of x "0x100"] assms by (simp add: n1_def)
  have x1: "unat x1 = unat x * 2 ^ unat n1" "2 ^ 8 \<le> unat x1" "unat x1 < 2 ^ 16"
    using assms unat_push [of x 8] unat_push [of x 0] by (auto simp: x1_def n1_def)
  define n2 :: "32 word" where "n2 = (if unat x1 < 2 ^ 12 then 4 else 0)"
  define x2 where "x2 = push_bit (unat n2) x1"
  have 2: "drop_bit 16 (x1 - 0x1000) AND 4 = n2" using borrow_bits [of x1 "0x1000"] x1 by (simp add: n2_def)
  have x2: "unat x2 = unat x1 * 2 ^ unat n2" "2 ^ 12 \<le> unat x2" "unat x2 < 2 ^ 16"
    using x1 unat_push [of x1 4] unat_push [of x1 0] by (auto simp: x2_def n2_def)
  define n3 :: "32 word" where "n3 = (if unat x2 < 2 ^ 14 then 2 else 0)"
  define x3 where "x3 = push_bit (unat n3) x2"
  have 3: "drop_bit 16 (x2 - 0x4000) AND 2 = n3" using borrow_bits [of x2 "0x4000"] x2 by (simp add: n3_def)
  have x3: "unat x3 = unat x2 * 2 ^ unat n3" "2 ^ 14 \<le> unat x3" "unat x3 < 2 ^ 16"
    using x2 unat_push [of x2 2] unat_push [of x2 0] by (auto simp: x3_def n3_def)
  define d where "d = drop_bit 14 x3"
  have d: "unat d = unat x3 div 2 ^ 14" by (simp add: d_def unat_drop)
  then have "unat d \<in> {1, 2, 3}" using x3(2,3) by auto
  then have "d = 1 \<or> d = 2 \<or> d = 3" by (auto simp: word_unat_eq_iff)
  then have e: "d AND NOT (drop_bit 1 d) = (if unat x3 < 2 ^ 15 then 1 else 2)"
    using d x3(2,3) by (auto simp: div_less_iff_less_mult)
  have h: "highest_bit x = 13 - (n1 + n2 + n3) + (d AND NOT (drop_bit 1 d))"
    by (simp only: highest_bit_def Let_def 1 x1_def [symmetric] 2 x2_def [symmetric] 3 x3_def [symmetric] d_def)
  show ?thesis unfolding h e
    by (rule sym, rule log2_eqI)
      (use x1 x2 x3 in \<open>auto simp: n1_def n2_def n3_def split: if_splits\<close>)
qed

text \<open>
  The reference: sizes below 256 have a bin for every eight bytes; above, the bins of a power of two
  are its four quarters, up to the last bin for all that is larger.
\<close>

definition bin_of_size :: "nat \<Rightarrow> nat" where
  "bin_of_size n =
     (if n < 256 then n div 8
      else if n < 2 ^ 24 then let m = log2 n in 4 * m + n div 2 ^ (m - 2) - 4
      else 95)"

lemma log2_bounds: "0 < n \<Longrightarrow> 2 ^ log2 n \<le> n \<and> n < 2 ^ (log2 n + 1)"
proof (induction n rule: log2.induct)
  case (1 n)
  show ?case
  proof (cases "n < 2")
    case False
    then have "2 ^ log2 (n div 2) \<le> n div 2 \<and> n div 2 < 2 ^ (log2 (n div 2) + 1)" using 1 by simp
    then show ?thesis using False by (subst (1 2) log2.simps) auto
  qed (use 1 in \<open>simp add: log2.simps\<close>)
qed

lemma log2_div_256: "256 \<le> n \<Longrightarrow> log2 (n div 256) = log2 n - 8 \<and> 8 \<le> log2 n"
proof -
  assume n: "256 \<le> n"
  have b: "2 ^ log2 n \<le> n" "n < 2 ^ (log2 n + 1)" using log2_bounds [of n] n by auto
  have "2 ^ 8 < (2::nat) ^ (log2 n + 1)" using n b(2) by simp
  then have 8: "8 \<le> log2 n" using power_less_imp_less_exp [of "2::nat" 8 "log2 n + 1"] by simp
  then have p: "(2::nat) ^ log2 n = 256 * 2 ^ (log2 n - 8)"
    using power_add [of "2::nat" 8 "log2 n - 8"] by simp
  have "log2 (n div 256) = log2 n - 8"
    by (rule log2_eqI) (use b p in \<open>auto simp: less_mult_imp_div_less div_le_mono\<close>)
  with 8 show ?thesis by simp
qed

lemma quarter:
  assumes "256 \<le> n"
  shows "4 \<le> n div 2 ^ (log2 n - 2)" "n div 2 ^ (log2 n - 2) < 8"
proof -
  have "2 \<le> log2 n" using log2_div_256 [OF assms] by simp
  then obtain k where k: "log2 n = 2 + k" using le_Suc_ex by blast
  have p: "(2::nat) ^ log2 n = 4 * 2 ^ (log2 n - 2)" by (simp add: k)
  have b: "2 ^ log2 n \<le> n" "n < 2 ^ (log2 n + 1)" using log2_bounds [of n] assms by auto
  show "4 \<le> n div 2 ^ (log2 n - 2)" using b(1) p by (simp add: less_eq_div_iff_mult_less_eq)
  show "n div 2 ^ (log2 n - 2) < 8" using b(2) p by (simp add: div_less_iff_less_mult)
qed

lemma log2_mono: "0 < n \<Longrightarrow> n \<le> n' \<Longrightarrow> log2 n \<le> log2 n'"
proof -
  assume a: "0 < n" "n \<le> n'"
  have "2 ^ log2 n < (2::nat) ^ (log2 n' + 1)" using log2_bounds [of n] log2_bounds [of n'] a by linarith
  then show ?thesis using power_less_imp_less_exp [of "2::nat" "log2 n" "log2 n' + 1"] by simp
qed

lemma bin_of_size_large:
  assumes "256 \<le> n" "n < 2 ^ 24"
  shows "32 \<le> bin_of_size n" "bin_of_size n \<le> 95"
proof -
  have "8 \<le> log2 n" using log2_div_256 [OF assms(1)] by simp
  moreover have "(2::nat) ^ log2 n < 2 ^ 24" using log2_bounds [of n] assms by linarith
  then have "log2 n < 24" using power_less_imp_less_exp [of "2::nat" "log2 n" 24] by simp
  ultimately show "32 \<le> bin_of_size n" "bin_of_size n \<le> 95"
    using assms quarter [OF assms(1)] by (simp_all add: bin_of_size_def Let_def)
qed

lemma bin_of_size_mono: "n \<le> n' \<Longrightarrow> bin_of_size n \<le> bin_of_size n'"
proof -
  assume le: "n \<le> n'"
  consider "n' < 256" | "n < 256" "256 \<le> n'" | "2 ^ 24 \<le> n'" "256 \<le> n" | "256 \<le> n" "n' < 2 ^ 24" by linarith
  then show ?thesis
  proof cases
    case 2
    then have "bin_of_size n \<le> 31" "32 \<le> bin_of_size n'"
      using bin_of_size_large [of n'] by (auto simp: bin_of_size_def)
    then show ?thesis by simp
  next
    case 3
    then show ?thesis using bin_of_size_large [of n] by (auto simp: bin_of_size_def)
  next
    case 4
    have m: "log2 n \<le> log2 n'" using log2_mono [of n n'] 4 le by simp
    show ?thesis
    proof (cases "log2 n = log2 n'")
      case True
      then show ?thesis using 4 le div_le_mono [of n n' "2 ^ (log2 n' - 2)"]
        by (simp add: bin_of_size_def Let_def)
    next
      case False
      then show ?thesis using 4 le m quarter [of n] quarter [of n'] by (simp add: bin_of_size_def Let_def)
    qed
  qed (use le in \<open>simp add: bin_of_size_def div_le_mono\<close>)
qed

text \<open>
  \<open>bin_index\<close> is the reference for sizes of 32 bits: the computation of the highest bit and the wrapped
  differences in it are right.
\<close>

lemma bin_index_reference:
  assumes "uint sz < 2 ^ 32"
  shows "bin_index sz = bin_of_size (unat sz)"
proof -
  have "sz < 0x100000000" using assms by (simp add: word_less_def)
  then have "unat sz < 2 ^ 32" by (simp add: word_less_nat_alt)
  then have c: "unat (ucast sz :: 32 word) = unat sz" by (simp add: unsigned_ucast_eq take_bit_eq_mod)
  show ?thesis
  proof (cases "unat sz < 256")
    case True
    then show ?thesis
      by (simp add: bin_index_def in_smallbin_range_def MIN_LARGE_SIZE_def word_less_nat_alt
          smallbin_index_def unat_drop c bin_of_size_def)
  next
    case False
    define z where "z = (ucast sz :: 32 word)"
    define x where "x = drop_bit 8 z"
    have x: "unat x = unat sz div 256" by (simp add: x_def z_def unat_drop c)
    have big: "x \<ge> 0x10000 \<longleftrightarrow> 2 ^ 24 \<le> unat sz"
      by (simp add: word_le_nat_alt x less_eq_div_iff_mult_less_eq)
    have i: "bin_index sz = (if x \<ge> 0x10000 then 95 else unat (32 + push_bit 2 (highest_bit x) +
        (drop_bit (unat (highest_bit x + 6)) z AND 3)))"
      using False by (simp add: bin_index_def in_smallbin_range_def MIN_LARGE_SIZE_def word_less_nat_alt
          largebin_index_def Let_def SMALLBIN_WIDTH_def NSMALLBINS_def NBINS_def z_def [symmetric] x_def)
    show ?thesis
    proof (cases "2 ^ 24 \<le> unat sz")
      case True
      then show ?thesis using False big i by (simp add: bin_of_size_def)
    next
      case small: False
      have h: "unat (highest_bit x) = log2 (unat sz) - 8" "8 \<le> log2 (unat sz)"
        using highest_bit_log2 [of x] log2_div_256 [of "unat sz"] False small
        by (auto simp: x div_less_iff_less_mult)
      have "(2::nat) ^ log2 (unat sz) < 2 ^ 24" using log2_bounds [of "unat sz"] False small by linarith
      then have l: "log2 (unat sz) < 24" using power_less_imp_less_exp [of "2::nat" "log2 (unat sz)" 24] by simp
      have 6: "unat (highest_bit x + 6) = log2 (unat sz) - 2" using h l by (simp add: unat_word_ariths)
      have a: "unat (w AND 3) = unat w mod 4" for w :: "32 word"
      proof -
        have "w AND 3 = take_bit 2 w" by (simp only: take_bit_eq_mask mask_eq_exp_minus_1) simp
        then show ?thesis by (simp only: unsigned_take_bit_eq) (simp add: take_bit_eq_mod)
      qed
      have q: "unat (drop_bit (unat (highest_bit x + 6)) z AND 3) = unat sz div 2 ^ (log2 (unat sz) - 2) - 4"
        using quarter [of "unat sz"] False by (simp add: a unat_drop 6 z_def c mod_if)
      have p: "unat (push_bit 2 (highest_bit x)) = 4 * (log2 (unat sz) - 8)"
        using unat_push [of "highest_bit x" 2] h l by simp
      show ?thesis using i big small False h l p q quarter [of "unat sz"]
        by (simp add: bin_of_size_def Let_def unat_word_ariths, linarith)
    qed
  qed
qed

text \<open>So a chunk in a bin behind the bin of a size is larger than this size.\<close>

lemma larger_bin_larger_chunk:
  assumes "uint sz < 2 ^ 32" "uint sz' < 2 ^ 32" "bin_index sz < bin_index sz'"
  shows "sz < sz'"
proof (rule ccontr)
  assume "\<not> sz < sz'"
  then have "unat sz' \<le> unat sz" by (simp add: word_less_nat_alt)
  from bin_of_size_mono [OF this] show False using assms by (simp add: bin_index_reference)
qed

lemma bin_index_bounds: "uint sz < 2 ^ 32 \<Longrightarrow> bin_index sz < NBINS"
  using bin_of_size_large [of "unat sz"]
  by (auto simp: bin_index_reference NBINS_def bin_of_size_def)



section \<open>The map of bins\<close>

lemma block_bit: "i = 32 * idx2block i + i mod 32" "idx2bit i = push_bit (i mod 32) 1" "idx2block i = i div 32"
proof -
  have "i AND 31 = i mod 32" using take_bit_eq_mask [of 5 i] by (simp add: mask_eq_exp_minus_1 take_bit_eq_mod)
  then show "idx2bit i = push_bit (i mod 32) 1" by (simp add: idx2bit_def BINMAPSHIFT_def)
  show "idx2block i = i div 32" "i = 32 * idx2block i + i mod 32"
    by (simp_all add: idx2block_def BINMAPSHIFT_def drop_bit_eq_div)
qed

text \<open>The map is a set of bins: marking adds one bin, unmarking removes one.\<close>

lemma binmap_set:
  assumes "length (binmap s) = BINMAPSIZE + 1" "i < NBINS" "j < NBINS"
  shows "get_binmap j (mark_bin i s) \<longleftrightarrow> j = i \<or> get_binmap j s"
    "get_binmap j (unmark_bin i s) \<longleftrightarrow> j \<noteq> i \<and> get_binmap j s"
proof -
  have l: "idx2block i < length (binmap s)" "idx2block j < length (binmap s)"
    using assms by (simp_all add: block_bit(3) BINMAPSIZE_def NBINS_def BINMAPSHIFT_def)
  have g: "get_binmap k t \<longleftrightarrow> bit (binmap t ! idx2block k) (k mod 32)" for k t
    by (simp add: get_binmap_def block_bit(2) bit_iff_and_push_bit_not_eq_0)
  have b: "bit (idx2bit i) (j mod 32) \<longleftrightarrow> i mod 32 = j mod 32"
    by (auto simp: block_bit(2) bit_simps)
  have e: "i = j \<longleftrightarrow> idx2block i = idx2block j \<and> i mod 32 = j mod 32"
    using block_bit(1) [of i] block_bit(1) [of j] by metis
  show "get_binmap j (mark_bin i s) \<longleftrightarrow> j = i \<or> get_binmap j s"
    using l e by (auto simp: g mark_bin_def nth_list_update bit_or_iff b)
  show "get_binmap j (unmark_bin i s) \<longleftrightarrow> j \<noteq> i \<and> get_binmap j s"
    using l e by (auto simp: g unmark_bin_def nth_list_update bit_and_iff bit_not_iff b)
qed

end
