(* ===== verification/Heap_Names.thy ===== *)
theory Heap_Names
  imports Process_Api Malloc_Chunk
begin

text \<open>
  The process names of \<open>kernel/process/process_api.c\<close> in blocks of the real allocator: a chunk for \<open>n\<close>
  bytes has \<open>request2size n\<close> bytes, of which eight hold its size; its last eight bytes are the first
  field of the next chunk, which is the block's as long as it is in use.
\<close>

definition malloc_usable :: "nat \<Rightarrow> nat" where
  "malloc_usable n = unat (request2size (of_nat n)) - 8"

lemma malloc_usable_eq: "n < 2 ^ 63 \<Longrightarrow> malloc_usable n = max 24 ((n + 23) div 16 * 16 - 8)"
proof -
  assume n: "n < 2 ^ 63"
  have "n mod 2 ^ 64 = n" using n by (intro mod_less) simp
  then have u: "unat (of_nat n :: u64) = n" by (simp add: unsigned_of_nat take_bit_eq_mod)
  then have i: "uint (of_nat n :: u64) = int n" by (simp only: uint_nat)
  have "uint (request2size (of_nat n)) = max 32 ((int n + 23) div 16 * 16)"
    using request2size_uint [of "of_nat n"] n by (simp add: in_range_iff i)
  also have "\<dots> = int (max 32 ((n + 23) div 16 * 16))" 
    by (simp only: of_nat_max zdiv_int of_nat_mult of_nat_add of_nat_numeral)
  finally have "unat (request2size (of_nat n)) = max 32 ((n + 23) div 16 * 16)"
    by (simp only: unat_eq_nat_uint nat_int)
  then show ?thesis unfolding malloc_usable_def by linarith
qed

lemma one_byte_too_few: "n < 2 ^ 63 \<Longrightarrow> malloc_usable n \<le> n \<longleftrightarrow> 24 \<le> n \<and> n mod 16 = 8"
proof -
  assume n: "n < 2 ^ 63"
  define k r where "k = n div 16" and "r = n mod 16"
  have nkr: "n = 16 * k + r" "r < 16" by (simp_all add: k_def r_def)
  have "(n + 23) div 16 = k + (r + 23) div 16" unfolding nkr(1) by (simp add: add.assoc)
  moreover have "(r + 23) div 16 = (if r \<le> 8 then 1 else 2)" using nkr(2) by auto
  ultimately have "malloc_usable n = max 24 (16 * k + (if r \<le> 8 then 8 else 24))"
    using malloc_usable_eq [OF n] by (auto simp: algebra_simps)
  then show ?thesis using nkr by (auto simp: r_def [symmetric])
qed



end
