(* ===== verification/Malloc.thy ===== *)
theory Malloc
  imports Malloc_Chunk
begin

text \<open>
  The operations of the allocator (\<open>src/lib/stdlib/malloc.c\<close>): \<open>mALLOc\<close>, \<open>fREe\<close>, the consolidation of
  the fast bins, extension and trimming of the heap, and the defensive wrapper \<open>mem_alloc\<close> and
  \<open>mem_free\<close>.
\<close>

unbundle bit_operations_syntax

section \<open>Initialisation and consolidation\<close>

definition malloc_init_state :: "malloc_state \<Rightarrow> malloc_state" where
  "malloc_init_state s =
     (let s1 = fold (\<lambda>i s. let b = bin_at s i in set_fd b b (set_bk b b s)) [1..<NBINS] s;
          s2 = set_contiguous (s1\<lparr>top_pad := DEFAULT_TOP_PAD, n_mmaps_max := DEFAULT_MMAP_MAX,
            mmap_threshold := DEFAULT_MMAP_THRESHOLD, trim_threshold := DEFAULT_TRIM_THRESHOLD\<rparr>);
          s3 = set_max_fast DEFAULT_MXFAST s2
      in s3\<lparr>top_chunk := initial_top s3, pagesize := malloc_getpagesize\<rparr>)"

text \<open>One chunk of a fast bin: it is joined with its free neighbours.\<close>

definition consolidate_chunk :: "u64 \<Rightarrow> malloc_state \<Rightarrow> malloc_state" where
  "consolidate_chunk p s =
     (let sz = chunk_size p s AND NOT PREV_INUSE;
          nextchunk = p + sz;
          nextsize = chunksize nextchunk s;
          (p, sz, s) =
            (if \<not> prev_inuse p s
             then let prevsize = prev_size p s; p' = p - prevsize in (p', sz + prevsize, unlink p' s)
             else (p, sz, s))
      in if nextchunk \<noteq> top_chunk s then
           let nextinuse = inuse_bit_at_offset nextchunk nextsize s;
               s = set_head nextchunk nextsize s;
               (sz, s) = (if \<not> nextinuse then (sz + nextsize, unlink nextchunk s) else (sz, s));
               unsorted_bin = unsorted_chunks s;
               first_unsorted = fd unsorted_bin s;
               s = set_bk first_unsorted p (set_fd unsorted_bin p s);
               s = set_head p (sz OR PREV_INUSE) s
           in set_foot p sz (set_fd p first_unsorted (set_bk p unsorted_bin s))
         else let sz = sz + nextsize in (set_head p (sz OR PREV_INUSE) s)\<lparr>top_chunk := p\<rparr>)"

partial_function (option) consolidate_list :: "u64 \<Rightarrow> malloc_state \<Rightarrow> malloc_state option" where
  "consolidate_list p s =
     (let nextp = fd p s; s' = consolidate_chunk p s in
      if nextp \<noteq> 0 then consolidate_list nextp s' else Some s')"

definition consolidate_bin :: "nat \<Rightarrow> malloc_state \<Rightarrow> malloc_state option" where
  "consolidate_bin i s =
     (let p = fastbins s ! i in
      if p \<noteq> 0 then consolidate_list p (s\<lparr>fastbins := (fastbins s)[i := 0]\<rparr>) else Some s)"

fun consolidate_bins :: "nat list \<Rightarrow> malloc_state \<Rightarrow> malloc_state option" where
  "consolidate_bins [] s = Some s"
| "consolidate_bins (i # is) s = do { s' \<leftarrow> consolidate_bin i s; consolidate_bins is s' }"

definition malloc_consolidate :: "malloc_state \<Rightarrow> malloc_state option" where
  "malloc_consolidate s =
     (if max_fast s \<noteq> 0
      then let s1 = clear_fastchunks s in consolidate_bins [0..<fastbin_index (max_fast s1) + 1] s1
      else Some (malloc_init_state s))"

section \<open>Trimming and freeing\<close>

definition sYSTRIm :: "u64 \<Rightarrow> malloc_state \<Rightarrow> int \<times> malloc_state" where
  "sYSTRIm pad s =
     (let pagesz = ucast (pagesize s) :: u64;
          top_size = chunksize (top_chunk s) s;
          extra = ((top_size - pad - MINSIZE + (pagesz - 1)) div pagesz - 1) * pagesz
      in if sint extra > 0 then
           case MORECORE 0 s of (current_brk, s1) \<Rightarrow>
             if current_brk = top_chunk s1 + top_size then
               case MORECORE (- extra) s1 of (r, s2) \<Rightarrow>
               case MORECORE 0 s2 of (new_brk, s3) \<Rightarrow>
                 if new_brk \<noteq> MORECORE_FAILURE then
                   let released = current_brk - new_brk in
                   if released \<noteq> 0 then
                     (1, set_head (top_chunk s3) ((top_size - released) OR PREV_INUSE)
                           (s3\<lparr>sbrked_mem := sbrked_mem s3 - released\<rparr>))
                   else (0, s3)
                 else (0, s3)
             else (0, s1)
         else (0, s))"

text \<open>The part of \<open>fREe\<close> that joins a chunk with its neighbours; the size of the result is returned.\<close>

definition free_chunk :: "u64 \<Rightarrow> u64 \<Rightarrow> malloc_state \<Rightarrow> u64 \<times> malloc_state" where
  "free_chunk p sz s =
     (let s = set_anychunks s;
          nextchunk = p + sz;
          nextsize = chunksize nextchunk s;
          (p, sz, s) =
            (if \<not> prev_inuse p s
             then let prevsize = prev_size p s; p' = p - prevsize in (p', sz + prevsize, unlink p' s)
             else (p, sz, s))
      in if nextchunk \<noteq> top_chunk s then
           let nextinuse = inuse_bit_at_offset nextchunk nextsize s;
               s = set_head nextchunk nextsize s;
               (sz, s) = (if \<not> nextinuse then (sz + nextsize, unlink nextchunk s) else (sz, s));
               bck = unsorted_chunks s;
               fwd = fd bck s;
               s = set_fd p fwd (set_bk p bck s);
               s = set_bk fwd p (set_fd bck p s)
           in (sz, set_foot p sz (set_head p (sz OR PREV_INUSE) s))
         else let sz = sz + nextsize in (sz, (set_head p (sz OR PREV_INUSE) s)\<lparr>top_chunk := p\<rparr>))"

definition fREe :: "u64 \<Rightarrow> malloc_state \<Rightarrow> malloc_state option" where
  "fREe m s =
     (if m \<noteq> 0 then
        let p = mem2chunk m; sz = chunksize p s in
        if sz \<le> max_fast s then
          let s = set_fastchunks s; i = fastbin_index sz in
          Some ((set_fd p (fastbins s ! i) s)\<lparr>fastbins := (fastbins s)[i := p]\<rparr>)
        else if \<not> chunk_is_mmapped p s then
          case free_chunk p sz s of (sz, s) \<Rightarrow>
            if sz \<ge> FASTBIN_CONSOLIDATION_THRESHOLD then
              do {
                s \<leftarrow> (if have_fastchunks s then malloc_consolidate s else Some s);
                Some (if chunksize (top_chunk s) s \<ge> trim_threshold s then snd (sYSTRIm (top_pad s) s) else s)
              }
            else Some s
        else Some s
      else Some s)"

section \<open>Extending the heap\<close>

text \<open>The chunk at the end of the heap gives the memory, if it is large enough.\<close>

definition split_top :: "u64 \<Rightarrow> malloc_state \<Rightarrow> (u64 \<times> malloc_state) option" where
  "split_top nb s =
     (let victim = top_chunk s; sz = chunksize victim s in
      if sz \<ge> nb + MINSIZE then
        let remainder_size = sz - nb; remainder = victim + nb;
            s = s\<lparr>top_chunk := remainder\<rparr>
        in Some (chunk2mem victim,
             set_head remainder (remainder_size OR PREV_INUSE) (set_head victim (nb OR PREV_INUSE) s))
      else None)"

text \<open>The new memory follows the old top: the top grows.  Otherwise a new top is made, as follows.\<close>

definition new_top :: "u64 \<Rightarrow> u64 \<Rightarrow> u64 \<Rightarrow> u64 \<Rightarrow> u64 \<Rightarrow> malloc_state \<Rightarrow> malloc_state option" where
  "new_top old_top old_size brk sz pagemask s =
     (let old_end = old_top + old_size;
          s = (if contiguous s \<and> old_size \<noteq> 0 \<and> brk < old_end then set_noncontiguous s else s);
          (aligned_brk, correction, snd_brk, s) =
            (if contiguous s then
               let s = (if old_size \<noteq> 0 then s\<lparr>sbrked_mem := sbrked_mem s + (brk - old_end)\<rparr> else s);
                   front_misalign = chunk2mem brk AND MALLOC_ALIGN_MASK;
                   correction = (if front_misalign > 0 then MALLOC_ALIGNMENT - front_misalign else 0);
                   aligned_brk = brk + correction;
                   correction = correction + old_size;
                   end_misalign = brk + sz + correction;
                   correction = correction +
                     (((end_misalign + pagemask) AND NOT pagemask) - end_misalign)
               in (case MORECORE correction s of (snd_brk, s) \<Rightarrow>
                     if snd_brk = MORECORE_FAILURE then
                       (case MORECORE 0 s of (snd_brk, s) \<Rightarrow> (aligned_brk, 0, snd_brk, s))
                     else if snd_brk < brk then (aligned_brk, 0, brk + sz, set_noncontiguous s)
                     else (aligned_brk, correction, snd_brk, s))
             else
               (case MORECORE 0 s of (snd_brk, s) \<Rightarrow>
                  (brk, 0, snd_brk, s\<lparr>sbrked_mem := sbrked_mem s + (snd_brk - brk - sz)\<rparr>)))
      in if snd_brk \<noteq> MORECORE_FAILURE then
           let s = s\<lparr>top_chunk := aligned_brk\<rparr>;
               s = set_head aligned_brk ((snd_brk - aligned_brk + correction) OR PREV_INUSE) s;
               s = s\<lparr>sbrked_mem := sbrked_mem s + correction\<rparr>
           in if old_size \<noteq> 0 then
                let old_size = (old_size - 3 * SIZE_SZ) AND NOT MALLOC_ALIGN_MASK;
                    s = set_head old_top (old_size OR PREV_INUSE) s;
                    s = stw (size_addr (old_top + old_size)) (SIZE_SZ OR PREV_INUSE) s;
                    s = stw (size_addr (old_top + (old_size + SIZE_SZ))) (SIZE_SZ OR PREV_INUSE) s
                in if old_size \<ge> MINSIZE then
                     let tt = trim_threshold s in
                     map_option (\<lambda>s. s\<lparr>trim_threshold := tt\<rparr>)
                       (fREe (chunk2mem old_top) (s\<lparr>trim_threshold := - 1\<rparr>))
                   else Some s
              else Some s
         else Some s)"

definition update_statistics :: "malloc_state \<Rightarrow> malloc_state" where
  "update_statistics s =
     (let sum = sbrked_mem s;
          s = (if sum > max_sbrked_mem s then s\<lparr>max_sbrked_mem := sum\<rparr> else s);
          sum = sum + mmapped_mem s
      in if sum > max_total_mem s then s\<lparr>max_total_mem := sum\<rparr> else s)"

text \<open>\<open>sYSMALLOc\<close> behind its test for chunks in the fast bins; \<open>long\<close> numbers are kept as words.\<close>

definition sys_extend :: "u64 \<Rightarrow> malloc_state \<Rightarrow> (u64 \<times> malloc_state) option" where
  "sys_extend nb s =
     (let pagemask = ucast (pagesize s - 1) :: u64;
          old_top = top_chunk s;
          old_size = chunksize old_top s;
          old_end = old_top + old_size;
          sz = nb + top_pad s + MINSIZE;
          sz = (if contiguous s then sz - old_size else sz);
          sz = (sz + pagemask) AND NOT pagemask
      in case (if sint sz > 0 then MORECORE sz s else (MORECORE_FAILURE, s)) of (brk, s) \<Rightarrow>
        if brk \<noteq> MORECORE_FAILURE then
          do {
            let s = s\<lparr>sbrked_mem := sbrked_mem s + sz\<rparr>;
            s \<leftarrow> (if brk = old_end then Some (set_head old_top ((sz + old_size) OR PREV_INUSE) s)
              else new_top old_top old_size brk sz pagemask s);
            let s = update_statistics s;
            (case split_top nb s of Some r \<Rightarrow> Some r | None \<Rightarrow> Some (0, s))
          }
        else Some (0, s))"

section \<open>Allocation\<close>

text \<open>The place of a chunk in a sorted bin.\<close>

partial_function (option) sorted_place :: "u64 \<Rightarrow> u64 \<Rightarrow> malloc_state \<Rightarrow> u64 option" where
  "sorted_place sz fwd s = (if sz < chunk_size fwd s then sorted_place sz (fd fwd s) s else Some fwd)"

definition place_in_bin :: "u64 \<Rightarrow> u64 \<Rightarrow> malloc_state \<Rightarrow> malloc_state option" where
  "place_in_bin victim sz s =
     do {
       let victim_index = bin_index sz;
       let bck = bin_at s victim_index;
       let fwd = fd bck s;
       (bck, fwd) \<leftarrow>
         (if in_smallbin_range sz \<or> fwd = bck then Some (bck, fwd)
          else if sz < chunk_size (bk bck s) s then Some (bk bck s, bck)
          else if sz \<ge> FIRST_SORTED_BIN_SIZE
          then map_option (\<lambda>fwd. (bk fwd s, fwd)) (sorted_place (sz OR PREV_INUSE) fwd s)
          else Some (bck, fwd));
       let s = mark_bin victim_index s;
       Some (set_fd bck victim (set_bk fwd victim (set_fd victim fwd (set_bk victim bck s))))
     }"

text \<open>The rest of a split chunk becomes the only unsorted chunk.\<close>

definition split_chunk :: "u64 \<Rightarrow> u64 \<Rightarrow> u64 \<Rightarrow> bool \<Rightarrow> malloc_state \<Rightarrow> malloc_state" where
  "split_chunk victim sz nb remember s =
     (let remainder_size = sz - nb;
          remainder = victim + nb;
          u = unsorted_chunks s;
          s = set_bk u remainder (set_fd u remainder s);
          s = (if remember then s\<lparr>last_remainder := remainder\<rparr> else s);
          s = set_bk remainder u (set_fd remainder u s);
          s = set_head victim (nb OR PREV_INUSE) s;
          s = set_head remainder (remainder_size OR PREV_INUSE) s
      in set_foot remainder remainder_size s)"

text \<open>The loops return the memory they found, or \<open>Inr\<close> the state to go on with.\<close>

partial_function (option) unsorted_loop :: "u64 \<Rightarrow> malloc_state \<Rightarrow> (u64 \<times> malloc_state + malloc_state) option" where
  "unsorted_loop nb s =
     (let u = unsorted_chunks s; victim = bk u s in
      if victim = u then Some (Inr s)
      else let bck = bk victim s; sz = chunksize victim s in
        if in_smallbin_range nb \<and> bck = u \<and> victim = last_remainder s \<and> sz > nb + MINSIZE
        then Some (Inl (chunk2mem victim, split_chunk victim sz nb True s))
        else let s1 = set_fd bck u (set_bk u bck s) in
          if sz = nb then Some (Inl (chunk2mem victim, set_inuse_bit_at_offset victim sz s1))
          else do { s2 \<leftarrow> place_in_bin victim sz s1; unsorted_loop nb s2 })"

partial_function (option) large_scan :: "u64 \<Rightarrow> u64 \<Rightarrow> u64 \<Rightarrow> malloc_state \<Rightarrow> (u64 \<times> malloc_state) option option" where
  "large_scan nb bin victim s =
     (if victim = bin then Some None
      else let sz = chunksize victim s in
        if sz \<ge> nb then
          let s1 = unlink victim s in
          Some (Some (chunk2mem victim,
            if sz - nb < MINSIZE then set_inuse_bit_at_offset victim sz s1
            else split_chunk victim sz nb False s1))
        else large_scan nb bin (bk victim s) s)"

text \<open>The next block of the map with a bit, behind the block that is used up.\<close>

fun next_block :: "32 word list \<Rightarrow> nat \<Rightarrow> (nat \<times> 32 word) option" where
  "next_block [] k = None"
| "next_block (w # ws) k = (if w = 0 then next_block ws (k + 1) else Some (k, w))"

partial_function (option) to_set_bit :: "32 word \<Rightarrow> u64 \<Rightarrow> 32 word \<Rightarrow> (u64 \<times> 32 word) option" where
  "to_set_bit word bin b = (if b AND word = 0 then to_set_bit word (next_bin bin) (push_bit 1 b) else Some (bin, b))"

partial_function (option) bin_scan ::
    "u64 \<Rightarrow> u64 \<Rightarrow> nat \<Rightarrow> 32 word \<Rightarrow> 32 word \<Rightarrow> malloc_state \<Rightarrow> (u64 \<times> malloc_state + malloc_state) option" where
  "bin_scan nb bin block word b s =
     (case (if b > word \<or> b = 0
            then map_option (\<lambda>(k, w). (bin_at s (push_bit BINMAPSHIFT k), k, w, 1))
              (next_block (take (BINMAPSIZE - (block + 1)) (drop (block + 1) (binmap s))) (block + 1))
            else Some (bin, block, word, b)) of
        None \<Rightarrow> Some (Inr s)
      | Some (bin, block, word, b) \<Rightarrow> do {
          (bin, b) \<leftarrow> to_set_bit word bin b;
          let victim = bk bin s;
          if victim = bin then
            let word = word AND NOT b in
            bin_scan nb (next_bin bin) block word (push_bit 1 b) (s\<lparr>binmap := (binmap s)[block := word]\<rparr>)
          else
            let sz = chunksize victim s; bck = bk victim s; s1 = set_fd bck bin (set_bk bin bck s) in
            Some (Inl (chunk2mem victim,
              if sz - nb < MINSIZE then set_inuse_bit_at_offset victim sz s1
              else split_chunk victim sz nb (in_smallbin_range nb) s1))
        })"

text \<open>The search in the bins, behind the fast and the small bin of the size.\<close>

definition search_bins :: "u64 \<Rightarrow> malloc_state \<Rightarrow> (u64 \<times> malloc_state + malloc_state) option" where
  "search_bins nb s =
     do {
       let idx = bin_index nb;
       s \<leftarrow> (if \<not> in_smallbin_range nb \<and> have_fastchunks s then malloc_consolidate s else Some s);
       r \<leftarrow> unsorted_loop nb s;
       (case r of
          Inl found \<Rightarrow> Some (Inl found)
        | Inr s \<Rightarrow> do {
            l \<leftarrow> (if in_smallbin_range nb then Some None
              else large_scan nb (bin_at s idx) (bk (bin_at s idx) s) s);
            (case l of
               Some found \<Rightarrow> Some (Inl found)
             | None \<Rightarrow> bin_scan nb (bin_at s (idx + 1)) (idx2block (idx + 1)) (binmap s ! idx2block (idx + 1))
                 (idx2bit (idx + 1)) s) })
     }"

text \<open>\<open>mALLOc\<close> up to the label \<open>use_top\<close>: the memory, or the state in which the top is used.\<close>

definition malloc_search :: "u64 \<Rightarrow> malloc_state \<Rightarrow> (u64 \<times> malloc_state + malloc_state) option" where
  "malloc_search nb s =
     (if \<not> have_anychunks s then map_option Inr (if max_fast s = 0 then malloc_consolidate s else Some s)
      else if nb \<le> max_fast s \<and> fastbins s ! fastbin_index nb \<noteq> 0 then
        let i = fastbin_index nb; victim = fastbins s ! i in
        Some (Inl (chunk2mem victim, s\<lparr>fastbins := (fastbins s)[i := fd victim s]\<rparr>))
      else
        let b = bin_at s (smallbin_index nb); victim = bk b s in
        if in_smallbin_range nb \<and> victim \<noteq> b then
          let bck = bk victim s; s = set_inuse_bit_at_offset victim nb s in
          Some (Inl (chunk2mem victim, set_fd bck b (set_bk b bck s)))
        else search_bins nb s)"

text \<open>
  \<open>mALLOc\<close> and \<open>sYSMALLOc\<close> call each other: when fast bins have chunks left, \<open>sYSMALLOc\<close> consolidates
  them and starts again.
\<close>

partial_function (option) mALLOc :: "u64 \<Rightarrow> malloc_state \<Rightarrow> (u64 \<times> malloc_state) option" where
  "mALLOc bytes s =
     (if REQUEST_OUT_OF_RANGE bytes then Some (0, s)
      else let nb = request2size bytes in
        do {
          r \<leftarrow> malloc_search nb s;
          (case r of
             Inl found \<Rightarrow> Some found
           | Inr s \<Rightarrow>
               (case split_top nb s of
                  Some found \<Rightarrow> Some found
                | None \<Rightarrow>
                    if have_fastchunks s
                    then do { s \<leftarrow> malloc_consolidate s; mALLOc (nb - MALLOC_ALIGN_MASK) s }
                    else sys_extend nb s))
        })"

definition sYSMALLOc :: "u64 \<Rightarrow> malloc_state \<Rightarrow> (u64 \<times> malloc_state) option" where
  "sYSMALLOc nb s =
     (if have_fastchunks s
      then do { s \<leftarrow> malloc_consolidate s; mALLOc (nb - MALLOC_ALIGN_MASK) s }
      else sys_extend nb s)"

definition public_mALLOc :: "u64 \<Rightarrow> malloc_state \<Rightarrow> (u64 \<times> malloc_state) option" where
  "public_mALLOc bytes s = mALLOc bytes s"

definition public_fREe :: "u64 \<Rightarrow> malloc_state \<Rightarrow> malloc_state option" where
  "public_fREe m s = fREe m s"

section \<open>The defensive wrapper\<close>

text \<open>
  A block of \<open>mem_alloc\<close> lies between two double words before and two behind it.  \<open>mem_bug\<close> writes to
  the address 0, which stops the machine.
\<close>

definition zone_words :: "u64 \<Rightarrow> u64" where
  "zone_words len = (len + 8 - 1) div 8 + 4"

text \<open>\<open>memset\<close> to zero of a number of double words.\<close>

definition clear_words :: "u64 \<Rightarrow> nat \<Rightarrow> malloc_state \<Rightarrow> malloc_state" where
  "clear_words a n s = fold (\<lambda>i s. stw (a + 8 * of_nat i) 0 s) [0..<n] s"

definition mem_alloc :: "u64 \<Rightarrow> malloc_state \<Rightarrow> (u64 \<times> malloc_state) option" where
  "mem_alloc len s =
     (let l = zone_words len; l2 = l * 8 in
      if len = 0 then Some (0, s)
      else if l2 \<le> len then Some (0, s)
      else do {
        (p, s) \<leftarrow> public_mALLOc l2 s;
        if p = 0 then Some (0, s)
        else
          let s = stw p len s;
              s = stw (p + 8) 0xa51234ab s;
              s = stw (p + 8 * (l - 2)) 0xdeadfedc s;
              s = stw (p + 8 * (l - 1)) p s;
              p = p + 16
          in Some (p, clear_words p (unat ((l2 - 4 * 8) div 8)) s)
      })"

definition mem_free :: "u64 \<Rightarrow> u64 \<Rightarrow> malloc_state \<Rightarrow> malloc_state option" where
  "mem_free zone len s =
     (let l = zone_words len in
      if len = 0 then Some s
      else let p = zone - 16 in
        if ldw (p + 8) s \<noteq> 0xa51234ab then None
        else if ldw p s \<noteq> len then None
        else if ldw (p + 8 * (l - 2)) s \<noteq> 0xdeadfedc then None
        else if ldw (p + 8 * (l - 1)) s \<noteq> p then None
        else public_fREe p (clear_words p (unat l) s))"

definition mem_free_nolength :: "u64 \<Rightarrow> malloc_state \<Rightarrow> malloc_state option" where
  "mem_free_nolength zone s = mem_free zone (ldw (zone - 16) s) s"

end
