(* ===== verification/Malloc_Blocks.thy ===== *)
theory Malloc_Blocks
  imports Malloc
begin

text \<open>
  What sequences of calls of the allocator give.  From power on, as long as nothing is freed, the
  memory comes from the chunk at the end of the heap, which \<open>sbrk\<close> extends: the blocks are aligned,
  large enough, inside the heap and disjoint, no call changes a block given out before, and a call fails
  only when the heap is used up.  A small block that was freed is the next one of its size to be given out.
\<close>

unbundle bit_operations_syntax

section \<open>Memory and chunks\<close>

lemma ldw_stw [simp]: "ldw a (stw b v s) = (if a = b then v else ldw a s)"
  by (simp add: ldw_def stw_def)

lemma stw_fields [simp]:
  "max_fast (stw a v s) = max_fast s" "fastbins (stw a v s) = fastbins s" "top_chunk (stw a v s) = top_chunk s"
  "bins_addr (stw a v s) = bins_addr s" "top_pad (stw a v s) = top_pad s" "pagesize (stw a v s) = pagesize s"
  "morecore_properties (stw a v s) = morecore_properties s" "binmap (stw a v s) = binmap s"
  "curptr (store (stw a v s)) = curptr (store s)" "heap_end (store (stw a v s)) = heap_end (store s)"
  by (simp_all add: stw_def)

lemma low_bits:
  fixes v :: u64
  assumes "uint v mod 16 = 0" "n < 4"
  shows "\<not> bit v n"
proof -
  have "take_bit 4 (uint v) = 0" using assms(1) by (simp add: take_bit_eq_mod)
  then have "\<not> bit (uint v) n" using assms(2) by (metis bit_0_eq bit_take_bit_iff bot_apply bot_bool_def)
  then show ?thesis using assms(2) by (simp add: bit_uint_iff)
qed

lemma head_size:
  fixes v :: u64
  assumes "uint v mod 16 = 0"
  shows "(v OR 1) AND NOT 3 = v" "(v OR 1) AND 1 \<noteq> 0"
proof -
  note b = low_bits [OF assms]
  have 1: "bit (1 :: u64) n \<longleftrightarrow> n = 0" for n by (simp add: bit_1_iff)
  have 3: "bit (3 :: u64) n \<longleftrightarrow> n < 2" for n
    using bit_mask_iff [of 2 n, where 'a = u64] by (auto simp add: mask_eq_exp_minus_1)
  show "(v OR 1) AND NOT 3 = v"
  proof (rule bit_word_eqI)
    fix n
    assume "n < LENGTH(64)"
    then show "bit ((v OR 1) AND NOT 3) n = bit v n"
      unfolding bit_and_iff bit_or_iff bit_not_iff 1 3 using b [of n] by auto
  qed
  show "(v OR 1) AND 1 \<noteq> 0" by (metis 1 bit_0_eq bit_and_iff bit_or_iff bot_apply bot_bool_def)
qed

section \<open>The heap before the first free\<close>

text \<open>The bins lie below the heap, in the data of the kernel; the heap starts at a page.\<close>

definition heap_layout :: "u64 \<Rightarrow> malloc_state \<Rightarrow> bool" where
  "heap_layout lo s \<longleftrightarrow>
     16 \<le> uint (bins_addr s) \<and> uint (bins_addr s) + 16 * 96 \<le> uint lo \<and> uint lo mod 4096 = 0 \<and>
     uint lo \<le> uint (curptr (store s)) \<and> uint (curptr (store s)) mod 4096 = 0 \<and>
     uint (curptr (store s)) \<le> uint (heap_end (store s)) \<and> uint (heap_end (store s)) < 2 ^ 63"

text \<open>At power on the structure is zero.\<close>

definition fresh :: "u64 \<Rightarrow> malloc_state \<Rightarrow> bool" where
  "fresh lo s \<longleftrightarrow>
     heap_layout lo s \<and> max_fast s = 0 \<and> ldw (bins_addr s + 8) s = 0 \<and> curptr (store s) = lo"

text \<open>
  Where the last chunk begins that is not given out, or will begin, and its size.
\<close>

definition frontier :: "u64 \<Rightarrow> malloc_state \<Rightarrow> int" where
  "frontier lo s = (if top_chunk s = initial_top s then uint lo else uint (top_chunk s))"

definition heap_inv :: "u64 \<Rightarrow> malloc_state \<Rightarrow> bool" where
  "heap_inv lo s \<longleftrightarrow>
     heap_layout lo s \<and> max_fast s = 80 \<and> contiguous s \<and> pagesize s = 4096 \<and> top_pad s = 0 \<and>
     (if top_chunk s = initial_top s then chunk_size (top_chunk s) s = 0 \<and> curptr (store s) = lo
      else \<exists>sz. chunk_size (top_chunk s) s = sz OR 1 \<and> uint sz mod 16 = 0 \<and>
        uint lo \<le> uint (top_chunk s) \<and> uint (top_chunk s) + uint sz = uint (curptr (store s)))"

lemma initial_top_eq: "initial_top s = bins_addr s"
  by (simp add: initial_top_def unsorted_chunks_def bin_at_def)

lemma heap_layout_stw [simp]: "heap_layout lo (stw a v s) = heap_layout lo s"
  by (simp add: heap_layout_def)

lemma initial_top_stw [simp]: "initial_top (stw a v s) = initial_top s"
  by (simp add: initial_top_eq)

lemma contiguous_stw [simp]: "contiguous (stw a v s) = contiguous s"
  by (simp add: contiguous_def)

lemma update_statistics_fields [simp]:
  "max_fast (update_statistics s) = max_fast s" "top_chunk (update_statistics s) = top_chunk s"
  "bins_addr (update_statistics s) = bins_addr s" "top_pad (update_statistics s) = top_pad s"
  "pagesize (update_statistics s) = pagesize s" "store (update_statistics s) = store s"
  "morecore_properties (update_statistics s) = morecore_properties s"
  by (simp_all add: update_statistics_def Let_def)

lemma heap_inv_cong:
  assumes "max_fast t = max_fast s" "top_chunk t = top_chunk s" "bins_addr t = bins_addr s"
    "top_pad t = top_pad s" "pagesize t = pagesize s" "store t = store s"
    "morecore_properties t = morecore_properties s"
  shows "heap_inv lo t = heap_inv lo s" "frontier lo t = frontier lo s"
  using assms by (simp_all add: heap_inv_def heap_layout_def contiguous_def initial_top_eq ldw_def frontier_def)

lemma page16: "x mod 4096 = 0 \<Longrightarrow> x mod 16 = 0" for x :: int
  using dvd_trans [of 16 4096 x] by (simp add: dvd_eq_mod_eq_0)

lemma frontier_bounds:
  assumes "heap_inv lo s"
  shows "uint lo \<le> frontier lo s" "frontier lo s \<le> uint (curptr (store s))" "frontier lo s mod 16 = 0"
proof -
  have c: "uint (curptr (store s)) mod 16 = 0" "uint lo mod 16 = 0"
    using assms page16 by (auto simp: heap_inv_def heap_layout_def)
  show "uint lo \<le> frontier lo s" using assms by (auto simp: heap_inv_def frontier_def)
  show "frontier lo s \<le> uint (curptr (store s))" using assms
    by (auto simp: heap_inv_def heap_layout_def frontier_def split: if_splits) (metis le_add_same_cancel1 uint_ge_0)
  show "frontier lo s mod 16 = 0" using assms c
    by (auto simp: heap_inv_def frontier_def split: if_splits) presburger
qed

text \<open>Below \<open>2 ^ 63\<close> the bytes of the last chunk are counted without overflow.\<close>

lemma chunksize_top:
  assumes "heap_inv lo s"
  shows "uint (chunksize (top_chunk s) s) = uint (curptr (store s)) - frontier lo s"
proof (cases "top_chunk s = initial_top s")
  case True
  then show ?thesis using assms by (simp add: heap_inv_def chunksize_def frontier_def)
next
  case False
  then obtain sz where sz: "chunk_size (top_chunk s) s = sz OR 1" "uint sz mod 16 = 0"
    "uint (top_chunk s) + uint sz = uint (curptr (store s))"
    using assms by (auto simp: heap_inv_def)
  then show ?thesis using False head_size(1) [OF sz(2)] by (simp add: chunksize_def frontier_def)
qed

section \<open>One call\<close>

text \<open>
  What a call leaves alone: the heap below the frontier and the header of the chunk there.
\<close>

definition keeps_blocks :: "u64 \<Rightarrow> malloc_state \<Rightarrow> malloc_state \<Rightarrow> bool" where
  "keeps_blocks lo s s' \<longleftrightarrow>
     bins_addr s' = bins_addr s \<and> heap_end (store s') = heap_end (store s) \<and>
     (\<forall>a. uint lo \<le> uint a \<longrightarrow> uint a < frontier lo s + 8 \<longrightarrow> ldw a s' = ldw a s)"

lemma keeps_blocks_refl [simp]: "keeps_blocks lo s s"
  by (simp add: keeps_blocks_def)

lemma split_top_None:
  assumes "heap_inv lo s" "uint nb + 32 < 2 ^ 64" "uint (curptr (store s)) - frontier lo s < uint nb + 32"
  shows "split_top nb s = None"
proof -
  have "uint (nb + 32) = uint nb + 32" using assms(2) uint_add_lt [of nb 32] by simp
  then show ?thesis using assms(3) chunksize_top [OF assms(1)]
    by (simp add: split_top_def Let_def word_le_def not_le)
qed

lemma split_top_Some:
  assumes inv: "heap_inv lo s" and nb: "uint nb mod 16 = 0" "32 \<le> uint nb" "uint nb + 32 < 2 ^ 64"
    and room: "uint nb + 32 \<le> uint (curptr (store s)) - frontier lo s"
  shows "\<exists>p s'. split_top nb s = Some (p, s') \<and> uint p = frontier lo s + 16 \<and> heap_inv lo s' \<and>
    frontier lo s' = frontier lo s + uint nb \<and> curptr (store s') = curptr (store s) \<and> keeps_blocks lo s s' \<and>
    chunk_size (mem2chunk p) s' = nb OR 1"
proof -
  let ?t = "top_chunk s"
  have new: "?t \<noteq> initial_top s"
  proof
    assume i: "?t = initial_top s"
    then have "curptr (store s) = lo" using inv by (simp add: heap_inv_def)
    then show False using room nb i by (simp add: frontier_def)
  qed
  then obtain sz where sz: "chunk_size ?t s = sz OR 1" "uint sz mod 16 = 0" "uint lo \<le> uint ?t"
    "uint ?t + uint sz = uint (curptr (store s))" using inv by (auto simp: heap_inv_def)
  have f: "frontier lo s = uint ?t" using new by (simp add: frontier_def)
  have lay: "heap_layout lo s" using inv by (simp add: heap_inv_def)
  then have c: "uint (curptr (store s)) < 2 ^ 63" by (simp add: heap_layout_def)
  have cs: "chunksize ?t s = sz" using head_size(1) [OF sz(2)] sz(1) by (simp add: chunksize_def)
  have n: "uint (nb + 32) = uint nb + 32" using nb(3) uint_add_lt [of nb 32] by simp
  have ge: "nb + 32 \<le> sz" using room f sz(4) n by (simp add: word_le_def)
  have r: "uint (sz - nb) = uint sz - uint nb" using room f sz(4) by (intro uint_sub_le) simp
  have t': "uint (?t + nb) = uint ?t + uint nb" using room f sz(4) c by (intro uint_add_lt) simp
  have t8: "uint (?t + nb + 8) = uint ?t + uint nb + 8" "uint (?t + 8) = uint ?t + 8" "uint (?t + 16) = uint ?t + 16"
    using uint_add_lt [of "?t + nb" 8] uint_add_lt [of ?t 8] uint_add_lt [of ?t 16] t' room f sz(4) c nb by simp_all
  have ni: "?t + nb \<noteq> bins_addr s"
  proof
    assume "?t + nb = bins_addr s"
    then show False using t' sz(3) lay nb(2) by (simp add: heap_layout_def)
  qed
  define s' where "s' = set_head (?t + nb) ((sz - nb) OR PREV_INUSE) (set_head ?t (nb OR PREV_INUSE)
      (s\<lparr>top_chunk := ?t + nb\<rparr>))"
  have sp: "split_top nb s = Some (?t + 16, s')"
    using ge by (simp add: split_top_def Let_def cs s'_def chunk2mem_def)
  have m: "(uint sz - uint nb) mod 16 = 0" "uint lo \<le> uint ?t + uint nb" using sz(2,3) nb(1,2) by presburger+
  have inv': "heap_inv lo s'" using inv sz ni r t' room f nb(1) m
    by (simp add: heap_inv_def s'_def set_head_def initial_top_eq heap_layout_def contiguous_def size_addr_def PREV_INUSE_def)
      (intro exI [of _ "sz - nb"], simp)
  have fr: "frontier lo s' = frontier lo s + uint nb"
    using ni t' f by (simp add: frontier_def s'_def set_head_def initial_top_eq)
  have kb: "keeps_blocks lo s s'"
    unfolding keeps_blocks_def
  proof (intro conjI allI impI)
    fix a :: u64
    assume "uint lo \<le> uint a" "uint a < frontier lo s + 8"
    then have "a \<noteq> ?t + 8" "a \<noteq> ?t + nb + 8" using t8 f nb(2) by auto
    then show "ldw a s' = ldw a s" by (simp add: s'_def set_head_def size_addr_def) (simp add: ldw_def)
  qed (simp_all add: s'_def set_head_def)
  have "uint (?t + nb + 8) \<noteq> uint (?t + 8)" using t8 nb(2) by simp
  then have "?t + nb + 8 \<noteq> ?t + 8" by metis
  then have "chunk_size (mem2chunk (?t + 16)) s' = nb OR 1"
    by (simp add: s'_def set_head_def size_addr_def mem2chunk_def PREV_INUSE_def)
  moreover have "curptr (store s') = curptr (store s)" by (simp add: s'_def set_head_def)
  ultimately show ?thesis using sp inv' fr kb t8(3) f by auto
qed

lemma MORECORE_eq:
  assumes "uint (curptr (store s)) \<le> uint (heap_end (store s))" "0 \<le> sint n"
  shows "MORECORE n s =
    (if uint (curptr (store s)) + uint n \<le> uint (heap_end (store s))
     then (curptr (store s), s\<lparr>store := (store s)\<lparr>curptr := curptr (store s) + n\<rparr>\<rparr>) else (- 1, s))"
proof -
  let ?c = "curptr (store s)"
  have w: "word_of_int (sint n) = n" by simp
  have "?c + n < ?c \<or> heap_end (store s) < ?c + n \<longleftrightarrow> uint (heap_end (store s)) < uint ?c + uint n"
  proof (cases "uint ?c + uint n < 2 ^ 64")
    case True
    then show ?thesis using uint_add_lt [of ?c n] assms(1) by (auto simp: word_less_def)
  next
    case False
    then have "uint (?c + n) = uint ?c + uint n - 2 ^ 64" using uint_plus_if' [of ?c n] by simp
    then show ?thesis using False assms(1) uint_lt2p [of n] uint_lt2p [of "heap_end (store s)"]
      by (simp add: word_less_def)
  qed
  then show ?thesis by (auto simp: MORECORE_def sbrk_def Let_def w split: if_splits)
qed

text \<open>The size asked of the system, in whole pages, and whether the heap has it.\<close>

definition pages :: "int \<Rightarrow> int" where
  "pages n = (n + 4095) div 4096 * 4096"

lemma pages_bounds: "n \<le> pages n" "pages n < n + 4096" "pages n mod 4096 = 0"
  by (simp_all add: pages_def)

lemma pages_shift: "c mod 4096 = 0 \<Longrightarrow> c + pages n = pages (c + n)"
proof -
  assume "c mod 4096 = 0"
  then obtain k where c: "c = 4096 * k" by (metis dvdE mod_0_imp_dvd)
  have "(4096 * k + n + 4095) div 4096 = k + (n + 4095) div 4096"
    using div_mult_self4 [of 4096 k "n + 4095"] by (simp add: algebra_simps)
  then show ?thesis by (simp add: pages_def c algebra_simps)
qed

lemma sint_cases: "sint w = (if uint w < 2 ^ 63 then uint w else uint w - 2 ^ 64)" for w :: u64
proof -
  have b: "0 \<le> uint w" "uint w < 2 ^ 64" using uint_lt2p [of w] by simp_all
  have "sint w = (uint w + 2 ^ 63) mod 2 ^ 64 - 2 ^ 63" using int_word_sint [of "uint w", where 'a = 64] by simp
  moreover have "(uint w + 2 ^ 63) mod 2 ^ 64 = uint w + 2 ^ 63 - 2 ^ 64" if "2 ^ 63 \<le> uint w"
    using b that mod_pos_pos_trivial [of "uint w + 2 ^ 63 - 2 ^ 64" "2 ^ 64 :: int"]
      minus_mod_self2 [of "uint w + 2 ^ 63" "2 ^ 64 :: int"] by simp
  ultimately show ?thesis using b by auto
qed

lemma ask_size:
  fixes old nb :: u64
  assumes "uint old < uint nb + 32" "uint nb + 32 < 2 ^ 64"
  defines "x \<equiv> uint nb + 32 - uint old" and "w \<equiv> (nb + 32 - old + 4095) AND NOT 4095"
  shows "pages x < 2 ^ 63 \<Longrightarrow> uint w = pages x \<and> 0 < sint w" "2 ^ 63 \<le> pages x \<Longrightarrow> sint w \<le> 0"
proof -
  have "uint (nb + 32) = uint nb + 32" using assms(2) uint_add_lt [of nb 32] by simp
  then have x: "uint (nb + 32 - old) = x" using assms(1) uint_sub_le [of old "nb + 32"] by (simp add: x_def)
  have b: "0 < x" "x < 2 ^ 64" unfolding x_def using assms(1,2) uint_ge_0 [of old] by linarith+
  have w: "uint w = uint (nb + 32 - old + 4095) div 4096 * 4096" by (simp only: w_def align_page)
  have p: "x \<le> pages x" by (rule pages_bounds)
  have s: "uint w = (if x + 4095 < 2 ^ 64 then pages x else 0)"
  proof (cases "x + 4095 < 2 ^ 64")
    case True
    then show ?thesis using w x uint_add_lt [of "nb + 32 - old" 4095] by (simp add: pages_def)
  next
    case False
    then have "uint (nb + 32 - old + 4095) = x + 4095 - 2 ^ 64"
      using uint_plus_if' [of "nb + 32 - old" 4095] x by simp
    then show ?thesis using False w b by simp
  qed
  show "uint w = pages x \<and> 0 < sint w" if "pages x < 2 ^ 63"
    using that s p b by (simp add: sint_cases)
  show "sint w \<le> 0" if "2 ^ 63 \<le> pages x"
    using that s p b uint_lt2p [of w] by (simp add: sint_cases split: if_splits)
qed

text \<open>The state after a successful \<open>sbrk\<close>: the last chunk reaches to the new end.\<close>

lemma grow_old_top:
  fixes m :: u64
  assumes inv: "heap_inv lo s" and old: "top_chunk s \<noteq> initial_top s"
    and sz: "uint sz mod 4096 = 0" "uint (curptr (store s)) + uint sz \<le> uint (heap_end (store s))"
  defines "s1 \<equiv> s\<lparr>store := (store s)\<lparr>curptr := curptr (store s) + sz\<rparr>, sbrked_mem := m\<rparr>"
  defines "s2 \<equiv> set_head (top_chunk s) ((sz + chunksize (top_chunk s) s) OR PREV_INUSE) s1"
  shows "heap_inv lo s2" "frontier lo s2 = frontier lo s" "keeps_blocks lo s s2"
    "uint (curptr (store s2)) = uint (curptr (store s)) + uint sz"
proof -
  let ?t = "top_chunk s" and ?c = "curptr (store s)"
  obtain v where v: "chunk_size ?t s = v OR 1" "uint v mod 16 = 0" "uint lo \<le> uint ?t"
    "uint ?t + uint v = uint ?c" using inv old by (auto simp: heap_inv_def)
  have lay: "heap_layout lo s" using inv by (simp add: heap_inv_def)
  have h: "uint (heap_end (store s)) < 2 ^ 63" using lay by (simp add: heap_layout_def)
  have cs: "chunksize ?t s = v" using head_size(1) [OF v(2)] v(1) by (simp add: chunksize_def)
  have c: "uint (?c + sz) = uint ?c + uint sz" using sz(2) h by (intro uint_add_lt) simp
  have "uint sz + uint v \<le> uint (heap_end (store s))" using sz(2) v(4) uint_ge_0 [of ?t] by linarith
  then have sv: "uint (sz + v) = uint sz + uint v" using h by (intro uint_add_lt) simp
  have m4: "(uint ?c + uint sz) mod 4096 = 0" using lay sz(1) by (simp add: heap_layout_def mod_add_eq [symmetric])
  have m16: "(uint sz + uint v) mod 16 = 0" using v(2) page16 [OF sz(1)] by (simp add: mod_add_eq [symmetric])
  have t8: "uint (?t + 8) = uint ?t + 8"
  proof -
    have "uint ?t \<le> uint (heap_end (store s))" using v(4) sz(2) uint_ge_0 [of v] uint_ge_0 [of sz] by linarith
    then show ?thesis using h uint_add_lt [of ?t 8] by simp
  qed
  have "uint lo \<le> uint ?c" using lay by (simp add: heap_layout_def)
  then have "uint lo \<le> uint ?c + uint sz" using uint_ge_0 [of sz] by linarith
  then have lay1: "heap_layout lo s1" using lay sz(2) m4 c by (auto simp: heap_layout_def s1_def)
  have hd: "chunk_size ?t s2 = (sz + v) OR 1"
    by (simp add: s2_def set_head_def cs PREV_INUSE_def)
  show "uint (curptr (store s2)) = uint ?c + uint sz" by (simp add: s2_def s1_def set_head_def c)
  show "frontier lo s2 = frontier lo s"
    by (simp add: frontier_def s2_def s1_def set_head_def initial_top_eq)
  show "heap_inv lo s2"
  proof -
    have "heap_layout lo s2" using lay1 by (simp add: s2_def set_head_def)
    moreover have "max_fast s2 = 80" "contiguous s2" "pagesize s2 = 4096" "top_pad s2 = 0"
      "top_chunk s2 = ?t" "initial_top s2 = initial_top s"
      using inv by (simp_all add: s2_def s1_def set_head_def heap_inv_def contiguous_def initial_top_eq)
    moreover have "uint ?t + uint (sz + v) = uint (curptr (store s2))"
      using sv v(4) c by (simp add: s2_def s1_def set_head_def)
    ultimately show ?thesis using hd m16 sv v(3) old by (auto simp: heap_inv_def)
  qed
  show "keeps_blocks lo s s2" unfolding keeps_blocks_def
  proof (intro conjI allI impI)
    fix a :: u64
    assume "uint lo \<le> uint a" "uint a < frontier lo s + 8"
    then have "a \<noteq> ?t + 8" using t8 old by (auto simp: frontier_def)
    then show "ldw a s2 = ldw a s" by (simp add: s2_def s1_def set_head_def size_addr_def) (simp add: ldw_def)
  qed (simp_all add: s2_def s1_def set_head_def)
qed

lemma page_round: "uint w mod 4096 = 0 \<Longrightarrow> uint w < 2 ^ 63 \<Longrightarrow> (w + 4095) AND NOT 4095 = w" for w :: u64
proof -
  assume w: "uint w mod 4096 = 0" "uint w < 2 ^ 63"
  have "uint (w + 4095) = uint w + 4095" using w(2) uint_add_lt [of w 4095] by simp
  then have "uint ((w + 4095) AND NOT 4095) = (uint w + 4095) div 4096 * 4096" by (simp only: align_page)
  also have "\<dots> = uint w" using w(1) by auto
  finally show ?thesis by (rule word_uint_eqI)
qed

lemma page_aligned: "uint w mod 4096 = 0 \<Longrightarrow> uint w < 2 ^ 63 \<Longrightarrow> chunk2mem w AND 15 = 0" for w :: u64
proof -
  assume w: "uint w mod 4096 = 0" "uint w < 2 ^ 63"
  have "uint (w + 16) = uint w + 16" using w(2) uint_add_lt [of w 16] by simp
  then have "uint (take_bit 4 (w + 16)) = (uint w + 16) mod 16"
    by (simp only: unsigned_take_bit_eq) (simp add: take_bit_eq_mod)
  also have "\<dots> = 0" using page16 [OF w(1)] by simp
  finally have "take_bit 4 (w + 16) = 0" by (simp add: uint_0_iff)
  then show ?thesis by (simp add: chunk2mem_def take_bit_eq_mask mask_eq_exp_minus_1)
qed

text \<open>The first time a new top is made, at the start of the heap.\<close>

lemma first_top:
  fixes m pm :: u64
  assumes inv: "heap_inv lo s" and old: "top_chunk s = initial_top s" and pm: "pm = 4095"
    and sz: "uint sz mod 4096 = 0" "uint (curptr (store s)) + uint sz \<le> uint (heap_end (store s))"
  defines "s1 \<equiv> s\<lparr>store := (store s)\<lparr>curptr := lo + sz\<rparr>, sbrked_mem := m\<rparr>"
  shows "new_top (initial_top s) 0 lo sz pm s1 =
    Some (set_head lo (sz OR PREV_INUSE) (s1\<lparr>top_chunk := lo\<rparr>))"
proof -
  have lay: "heap_layout lo s" and c: "curptr (store s) = lo" and cont: "contiguous s"
    using inv old by (simp_all add: heap_inv_def)
  have h: "uint (heap_end (store s)) < 2 ^ 63" using lay by (simp add: heap_layout_def)
  have u: "uint (lo + sz) = uint lo + uint sz" using sz(2) h c by (intro uint_add_lt) simp
  have al: "chunk2mem lo AND 15 = 0" using page_aligned [of lo] lay c h by (simp add: heap_layout_def)
  have m4: "uint (lo + sz) mod 4096 = 0" using lay sz(1) u by (simp add: heap_layout_def mod_add_eq [symmetric])
  have pg: "(lo + sz + pm) AND NOT pm = lo + sz"
    unfolding pm by (rule page_round [OF m4]) (use u sz(2) h c in simp)
  have mc: "MORECORE 0 s1 = (lo + sz, s1)"
    using MORECORE_eq [of s1 0] u sz(2) c by (simp add: s1_def)
  have ne: "lo + sz \<noteq> - 1"
  proof
    assume "lo + sz = - 1"
    then have "uint (lo + sz) = 2 ^ 64 - 1" by (simp add: unsigned_minus_1_eq_mask mask_eq_exp_minus_1)
    then show False using u sz(2) h c by simp
  qed
  have ge: "\<not> lo + sz < lo" using u by (simp add: word_less_def)
  have cont1: "contiguous s1" using cont by (simp add: s1_def contiguous_def)
  show ?thesis
    by (simp add: new_top_def Let_def cont1 al pg mc ne ge MORECORE_FAILURE_def)
qed

lemma first_top_inv:
  fixes m :: u64
  assumes inv: "heap_inv lo s" and old: "top_chunk s = initial_top s"
    and sz: "uint sz mod 4096 = 0" "uint (curptr (store s)) + uint sz \<le> uint (heap_end (store s))"
  defines "s1 \<equiv> s\<lparr>store := (store s)\<lparr>curptr := lo + sz\<rparr>, sbrked_mem := m\<rparr>"
  defines "s2 \<equiv> set_head lo (sz OR PREV_INUSE) (s1\<lparr>top_chunk := lo\<rparr>)"
  shows "heap_inv lo s2" "frontier lo s2 = frontier lo s" "keeps_blocks lo s s2"
    "uint (curptr (store s2)) = uint (curptr (store s)) + uint sz"
proof -
  have lay: "heap_layout lo s" and c: "curptr (store s) = lo"
    using inv old by (simp_all add: heap_inv_def)
  have h: "uint (heap_end (store s)) < 2 ^ 63" using lay by (simp add: heap_layout_def)
  have u: "uint (lo + sz) = uint lo + uint sz" using sz(2) h c by (intro uint_add_lt) simp
  have m4: "(uint lo + uint sz) mod 4096 = 0" using lay sz(1) by (simp add: heap_layout_def mod_add_eq [symmetric])
  have ne: "lo \<noteq> bins_addr s" using lay by (auto simp: heap_layout_def)
  have lay1: "heap_layout lo s1" using lay sz(2) m4 u c by (auto simp: heap_layout_def s1_def)
  have hd: "chunk_size lo s2 = sz OR 1" by (simp add: s2_def set_head_def PREV_INUSE_def)
  have lo8: "uint (lo + 8) = uint lo + 8"
    using h lay c uint_add_lt [of lo 8] by (simp add: heap_layout_def)
  show "uint (curptr (store s2)) = uint (curptr (store s)) + uint sz"
    by (simp add: s2_def s1_def set_head_def c u)
  show "frontier lo s2 = frontier lo s"
    using ne old by (simp add: frontier_def s2_def s1_def set_head_def initial_top_eq)
  have "heap_layout lo s2" using lay1 by (simp add: s2_def set_head_def heap_layout_def)
  moreover have "max_fast s2 = 80" "contiguous s2" "pagesize s2 = 4096" "top_pad s2 = 0"
    "top_chunk s2 = lo" "initial_top s2 = bins_addr s" "curptr (store s2) = lo + sz"
    using inv by (simp_all add: s2_def s1_def set_head_def heap_inv_def contiguous_def initial_top_eq)
  ultimately show "heap_inv lo s2" using hd page16 [OF sz(1)] u ne by (auto simp: heap_inv_def)
  show "keeps_blocks lo s s2" unfolding keeps_blocks_def
  proof (intro conjI allI impI)
    fix a :: u64
    assume "uint lo \<le> uint a" "uint a < frontier lo s + 8"
    then have "a \<noteq> lo + 8" using lo8 old by (auto simp: frontier_def)
    then show "ldw a s2 = ldw a s" by (simp add: s2_def s1_def set_head_def size_addr_def) (simp add: ldw_def)
  qed (simp_all add: s2_def s1_def set_head_def)
qed

text \<open>Asking the system: it fails, or the last chunk has the room that is needed.\<close>

lemma sys_extend_step:
  assumes inv: "heap_inv lo s" and nb: "32 \<le> uint nb" "uint nb + 32 < 2 ^ 64"
    and small: "uint (curptr (store s)) - frontier lo s < uint nb + 32"
  defines "x \<equiv> pages (uint nb + 32 - (uint (curptr (store s)) - frontier lo s))"
  shows "uint (heap_end (store s)) < uint (curptr (store s)) + x \<Longrightarrow> sys_extend nb s = Some (0, s)"
    "uint (curptr (store s)) + x \<le> uint (heap_end (store s)) \<Longrightarrow>
      \<exists>s2. sys_extend nb s = (case split_top nb s2 of Some r \<Rightarrow> Some r | None \<Rightarrow> Some (0, s2)) \<and>
        heap_inv lo s2 \<and> frontier lo s2 = frontier lo s \<and> keeps_blocks lo s s2 \<and>
        uint (curptr (store s2)) = uint (curptr (store s)) + x"
proof -
  let ?c = "curptr (store s)"
  define old where "old = chunksize (top_chunk s) s"
  define pm :: u64 where "pm = ucast (pagesize s - 1)"
  define sz where "sz = (nb + 32 - old + pm) AND NOT pm"
  have lay: "heap_layout lo s" and cont: "contiguous s" and tp: "top_pad s = 0" and pg: "pagesize s = 4096"
    using inv by (simp_all add: heap_inv_def)
  have pm: "pm = 4095" by (simp add: pm_def pg)
  have o: "uint old = uint ?c - frontier lo s" using chunksize_top [OF inv] by (simp add: old_def)
  have x: "x = pages (uint nb + 32 - uint old)" by (simp add: x_def o)
  have h: "uint ?c \<le> uint (heap_end (store s))" "uint (heap_end (store s)) < 2 ^ 63"
    using lay by (simp_all add: heap_layout_def)
  have E: "sys_extend nb s =
      (case (if 0 < sint sz then MORECORE sz s else (MORECORE_FAILURE, s)) of (brk, s1) \<Rightarrow>
        if brk \<noteq> MORECORE_FAILURE then
          (if brk = top_chunk s + old
           then Some (set_head (top_chunk s) ((sz + old) OR PREV_INUSE) (s1\<lparr>sbrked_mem := sbrked_mem s1 + sz\<rparr>))
           else new_top (top_chunk s) old brk sz pm (s1\<lparr>sbrked_mem := sbrked_mem s1 + sz\<rparr>)) \<bind>
          (\<lambda>s2. case split_top nb (update_statistics s2) of
             Some r \<Rightarrow> Some r | None \<Rightarrow> Some (0, update_statistics s2))
        else Some (0, s1))"
    unfolding sys_extend_def Let_def sz_def old_def pm_def using cont tp by (simp split: prod.split)
  have ask: "x < 2 ^ 63 \<Longrightarrow> uint sz = x \<and> 0 < sint sz" "2 ^ 63 \<le> x \<Longrightarrow> sint sz \<le> 0"
    using ask_size [of old nb] small o nb(2) unfolding x sz_def pm by auto
  show "sys_extend nb s = Some (0, s)" if "uint (heap_end (store s)) < uint ?c + x"
    using that ask MORECORE_eq [OF h(1), of sz] by (cases "x < 2 ^ 63") (simp_all add: E MORECORE_FAILURE_def)
  assume room: "uint ?c + x \<le> uint (heap_end (store s))"
  then have "x < 2 ^ 63" using h uint_ge_0 [of ?c] by linarith
  then have sz: "uint sz = x" "0 < sint sz" using ask by auto
  have x4: "x mod 4096 = 0" unfolding x by (rule pages_bounds)
  define s1 where "s1 = s\<lparr>store := (store s)\<lparr>curptr := ?c + sz\<rparr>, sbrked_mem := sbrked_mem s + sz\<rparr>"
  have ne: "?c \<noteq> - 1"
  proof
    assume "?c = - 1"
    then have "uint ?c = 2 ^ 64 - 1" by (simp add: unsigned_minus_1_eq_mask mask_eq_exp_minus_1)
    then show False using h by simp
  qed
  have M: "MORECORE sz s = (?c, s\<lparr>store := (store s)\<lparr>curptr := ?c + sz\<rparr>\<rparr>)"
    using MORECORE_eq [OF h(1), of sz] sz room by simp
  have hyp: "uint sz mod 4096 = 0" "uint ?c + uint sz \<le> uint (heap_end (store s))" using sz x4 room by simp_all
  let ?goal = "\<lambda>s2. heap_inv lo s2 \<and> frontier lo s2 = frontier lo s \<and> keeps_blocks lo s s2 \<and>
      uint (curptr (store s2)) = uint ?c + x"
  have "\<exists>s2. (if ?c = top_chunk s + old then Some (set_head (top_chunk s) ((sz + old) OR PREV_INUSE) s1)
      else new_top (top_chunk s) old ?c sz pm s1) = Some s2 \<and> ?goal s2"
  proof (cases "top_chunk s = initial_top s")
    case True
    then have c: "?c = lo" and z: "old = 0" using inv by (simp_all add: heap_inv_def old_def chunksize_def)
    have "lo \<noteq> top_chunk s" using True lay by (auto simp: heap_layout_def initial_top_eq)
    then show ?thesis
      using first_top [OF inv True pm hyp, of "sbrked_mem s + sz"] first_top_inv [OF inv True hyp, of "sbrked_mem s + sz"]
      by (simp add: c z True s1_def sz(1))
  next
    case False
    then have "frontier lo s = uint (top_chunk s)" by (simp add: frontier_def)
    then have "uint (top_chunk s + old) = uint ?c" using o h uint_add_lt [of "top_chunk s" old] by simp
    then have e: "?c = top_chunk s + old" by (metis word_uint_eqI)
    show ?thesis unfolding if_P [OF e]
      using grow_old_top [OF inv False hyp, of "sbrked_mem s + sz", folded old_def s1_def] sz(1) by auto
  qed
  then obtain s2 where s2: "(if ?c = top_chunk s + old then Some (set_head (top_chunk s) ((sz + old) OR PREV_INUSE) s1)
      else new_top (top_chunk s) old ?c sz pm s1) = Some s2" "?goal s2" by blast
  have "sys_extend nb s =
      (if ?c = top_chunk s + old then Some (set_head (top_chunk s) ((sz + old) OR PREV_INUSE) s1)
       else new_top (top_chunk s) old ?c sz pm s1) \<bind>
      (\<lambda>s2. case split_top nb (update_statistics s2) of
         Some r \<Rightarrow> Some r | None \<Rightarrow> Some (0, update_statistics s2))"
    using sz(2) ne by (simp add: E M MORECORE_FAILURE_def s1_def)
  then have "sys_extend nb s = (case split_top nb (update_statistics s2) of
      Some r \<Rightarrow> Some r | None \<Rightarrow> Some (0, update_statistics s2))"
    by (simp only: s2(1)) simp
  moreover have "?goal (update_statistics s2)"
    using s2(2) heap_inv_cong [of "update_statistics s2" s2 lo] by (simp add: keeps_blocks_def ldw_def)
  ultimately show "\<exists>s2. sys_extend nb s = (case split_top nb s2 of Some r \<Rightarrow> Some r | None \<Rightarrow> Some (0, s2)) \<and>
      ?goal s2" by blast
qed

text \<open>A call on the initialised heap.\<close>

definition needed :: "u64 \<Rightarrow> u64 \<Rightarrow> malloc_state \<Rightarrow> int" where
  "needed lo req s = frontier lo s + uint (request2size req) + 32"

lemma mALLOc_step:
  assumes inv: "heap_inv lo s" and req: "\<not> REQUEST_OUT_OF_RANGE req"
  shows "mALLOc req s = Some (0, s) \<and> uint (heap_end (store s)) < pages (needed lo req s) \<or>
    (\<exists>p s'. mALLOc req s = Some (p, s') \<and> uint p = frontier lo s + 16 \<and> heap_inv lo s' \<and>
      frontier lo s' = frontier lo s + uint (request2size req) \<and> keeps_blocks lo s s' \<and>
      frontier lo s' + 32 \<le> uint (curptr (store s')) \<and> chunk_size (mem2chunk p) s' = request2size req OR 1)"
proof -
  define nb where "nb = request2size req"
  let ?c = "uint (curptr (store s))" and ?f = "frontier lo s"
  have nb: "uint nb mod 16 = 0" "32 \<le> uint nb" "uint nb + 32 < 2 ^ 64"
    using request2size_room [OF req] by (simp_all add: nb_def)
  have mf: "max_fast s = 80" using inv by (simp add: heap_inv_def)
  have M: "mALLOc req s = (case split_top nb s of Some r \<Rightarrow> Some r | None \<Rightarrow> sys_extend nb s)"
    unfolding nb_def using req by (subst mALLOc.simps)
      (simp add: malloc_search_def have_anychunks_def have_fastchunks_def ANYCHUNKS_BIT_def FASTCHUNKS_BIT_def mf
        Let_def)
  show ?thesis
  proof (cases "uint nb + 32 \<le> ?c - ?f")
    case True
    from split_top_Some [OF inv nb this] obtain p s' where "split_top nb s = Some (p, s')"
      "uint p = ?f + 16" "heap_inv lo s'" "frontier lo s' = ?f + uint nb" "keeps_blocks lo s s'"
      "curptr (store s') = curptr (store s)" "chunk_size (mem2chunk p) s' = nb OR 1" by blast
    then show ?thesis using nb_def True by (auto simp: M)
  next
    case False
    then have small: "?c - ?f < uint nb + 32" by simp
    have N: "split_top nb s = None" by (rule split_top_None [OF inv nb(3) small])
    have "?c mod 4096 = 0" using inv by (simp add: heap_inv_def heap_layout_def)
    then have pg: "?c + pages (uint nb + 32 - (?c - ?f)) = pages (needed lo req s)"
      using pages_shift [of ?c "uint nb + 32 - (?c - ?f)"] by (simp add: needed_def nb_def algebra_simps)
    show ?thesis
    proof (cases "pages (needed lo req s) \<le> uint (heap_end (store s))")
      case True
      with pg have "?c + pages (uint nb + 32 - (?c - ?f)) \<le> uint (heap_end (store s))" by simp
      from sys_extend_step(2) [OF inv nb(2,3) small this] obtain s2 where s2:
        "sys_extend nb s = (case split_top nb s2 of Some r \<Rightarrow> Some r | None \<Rightarrow> Some (0, s2))"
        "heap_inv lo s2" "frontier lo s2 = ?f" "keeps_blocks lo s s2"
        "uint (curptr (store s2)) = ?c + pages (uint nb + 32 - (?c - ?f))" by blast
      have room: "uint nb + 32 \<le> uint (curptr (store s2)) - frontier lo s2"
        using s2(3,5) pages_bounds(1) [of "uint nb + 32 - (?c - ?f)"] by simp
      from split_top_Some [OF s2(2) nb this] obtain p s' where r: "split_top nb s2 = Some (p, s')"
        "uint p = frontier lo s2 + 16" "heap_inv lo s'" "frontier lo s' = frontier lo s2 + uint nb"
        "keeps_blocks lo s2 s'" "curptr (store s') = curptr (store s2)" "chunk_size (mem2chunk p) s' = nb OR 1" by blast
      have "mALLOc req s = Some (p, s')" by (simp add: M N s2(1) r(1))
      moreover have "keeps_blocks lo s s'" using s2(3,4) r(5) by (auto simp: keeps_blocks_def)
      ultimately show ?thesis using r(2-4,6,7) s2(3) nb_def room by auto
    next
      case False
      then show ?thesis using sys_extend_step(1) [OF inv nb(2,3) small] pg by (simp add: M N)
    qed
  qed
qed

section \<open>The first call\<close>

definition init_bin :: "nat \<Rightarrow> malloc_state \<Rightarrow> malloc_state" where
  "init_bin i s = (let b = bin_at s i in set_fd b b (set_bk b b s))"

lemma init_bins:
  "bins_addr (fold init_bin is s) = bins_addr s" "max_fast (fold init_bin is s) = max_fast s"
  "curptr (store (fold init_bin is s)) = curptr (store s)"
  "heap_end (store (fold init_bin is s)) = heap_end (store s)"
  "\<forall>i\<in>set is. a \<noteq> bins_addr s + 16 * of_nat i \<and> a \<noteq> bins_addr s + 16 * of_nat i + 8 \<Longrightarrow>
    ldw a (fold init_bin is s) = ldw a s"
  by (induction "is" arbitrary: s)
    (auto simp: init_bin_def bin_at_def fd_addr_def bk_addr_def Let_def)

lemma bin_addresses:
  assumes "heap_layout lo s" "1 \<le> i" "i < 96"
  shows "uint (bins_addr s + 16 * of_nat i) = uint (bins_addr s) + 16 * int i"
    "uint (bins_addr s + 16 * of_nat i + 8) = uint (bins_addr s) + 16 * int i + 8"
    "uint (bins_addr s + 8) = uint (bins_addr s) + 8"
proof -
  have b: "uint (bins_addr s) + 16 * 96 < 2 ^ 64" using assms(1) by (simp add: heap_layout_def)
  have n: "uint (16 * of_nat i :: u64) = 16 * int i"
    using assms(3) by (simp add: uint_word_ariths unsigned_of_nat take_bit_eq_mod)
  show 1: "uint (bins_addr s + 16 * of_nat i) = uint (bins_addr s) + 16 * int i"
    using uint_add_lt [of "bins_addr s" "16 * of_nat i"] n b assms(3) by simp
  show "uint (bins_addr s + 16 * of_nat i + 8) = uint (bins_addr s) + 16 * int i + 8"
    using uint_add_lt [of "bins_addr s + 16 * of_nat i" 8] 1 b assms(3) by simp
  show "uint (bins_addr s + 8) = uint (bins_addr s) + 8"
    using uint_add_lt [of "bins_addr s" 8] b by simp
qed

lemma init_state_inv:
  assumes f: "fresh lo s"
  shows "heap_inv lo (malloc_init_state s)" "frontier lo (malloc_init_state s) = uint lo"
    "heap_end (store (malloc_init_state s)) = heap_end (store s)"
    "uint lo \<le> uint a \<Longrightarrow> ldw a (malloc_init_state s) = ldw a s"
proof -
  let ?g = "fold init_bin [1..<96] s" and ?s = "malloc_init_state s"
  have lay: "heap_layout lo s" and c: "curptr (store s) = lo" and mf: "max_fast s = 0"
    and z: "ldw (bins_addr s + 8) s = 0" using f by (simp_all add: fresh_def)
  have m: "request2size 64 = 80" by (simp add: request2size_def)
  have s: "?s = (set_max_fast DEFAULT_MXFAST (set_contiguous (?g\<lparr>top_pad := 0, n_mmaps_max := DEFAULT_MMAP_MAX,
      mmap_threshold := DEFAULT_MMAP_THRESHOLD, trim_threshold := DEFAULT_TRIM_THRESHOLD\<rparr>)))
      \<lparr>top_chunk := bins_addr s, pagesize := 4096\<rparr>"
    by (simp add: malloc_init_state_def init_bin_def [abs_def] Let_def NBINS_def DEFAULT_TOP_PAD_def
        malloc_getpagesize_def initial_top_eq set_max_fast_def set_contiguous_def)
      (simp add: init_bins [unfolded init_bin_def [abs_def] Let_def])
  have mem: "store ?s = store ?g" by (simp add: s set_max_fast_def set_contiguous_def)
  have fields: "bins_addr ?s = bins_addr s" "top_chunk ?s = bins_addr s" "max_fast ?s = 80" "pagesize ?s = 4096"
    "top_pad ?s = 0" "contiguous ?s"
    by (simp_all add: s set_max_fast_def set_contiguous_def init_bins m DEFAULT_MXFAST_def mf contiguous_def
        MORECORE_CONTIGUOUS_BIT_def)
  have "ldw (bins_addr s + 8) ?g = ldw (bins_addr s + 8) s"
  proof (rule init_bins(5), intro ballI)
    fix i
    assume "i \<in> set [1..<96]"
    then have i: "1 \<le> i" "i < 96" by auto
    note u = bin_addresses [OF lay i]
    have "uint (bins_addr s + 8) \<noteq> uint (bins_addr s + 16 * of_nat i)"
      "uint (bins_addr s + 8) \<noteq> uint (bins_addr s + 16 * of_nat i + 8)" unfolding u using i by linarith+
    then show "bins_addr s + 8 \<noteq> bins_addr s + 16 * of_nat i \<and> bins_addr s + 8 \<noteq> bins_addr s + 16 * of_nat i + 8"
      by metis
  qed
  then have "ldw (bins_addr s + 8) ?s = 0" using z mem by (simp add: ldw_def)
  then show "heap_inv lo ?s"
    using lay c fields mem by (simp add: heap_inv_def initial_top_eq heap_layout_def init_bins size_addr_def)
  show "frontier lo ?s = uint lo" using fields by (simp add: frontier_def initial_top_eq)
  have "ldw a ?g = ldw a s" if a: "uint lo \<le> uint a"
  proof (rule init_bins(5), intro ballI)
    fix i
    assume "i \<in> set [1..<96]"
    then have i: "1 \<le> i" "i < 96" by auto
    note u = bin_addresses [OF lay i]
    show "a \<noteq> bins_addr s + 16 * of_nat i \<and> a \<noteq> bins_addr s + 16 * of_nat i + 8"
      using u i a lay by (auto simp: heap_layout_def)
  qed
  then show "uint lo \<le> uint a \<Longrightarrow> ldw a ?s = ldw a s" using mem by (simp add: ldw_def)
  show "heap_end (store ?s) = heap_end (store s)" using mem by (simp add: init_bins)
qed

lemma first_call:
  assumes "fresh lo s" "\<not> REQUEST_OUT_OF_RANGE req"
  shows "mALLOc req s = mALLOc req (malloc_init_state s)"
proof -
  have mf: "max_fast s = 0" "max_fast (malloc_init_state s) = 80"
    using assms(1) init_state_inv(1) [OF assms(1)] by (simp_all add: fresh_def heap_inv_def)
  have "malloc_search nb s = Some (Inr (malloc_init_state s))"
    "malloc_search nb (malloc_init_state s) = Some (Inr (malloc_init_state s))" for nb
    using mf by (simp_all add: malloc_search_def have_anychunks_def ANYCHUNKS_BIT_def malloc_consolidate_def)
  then show ?thesis using assms(2) by (subst (1 2) mALLOc.simps) (simp add: Let_def)
qed

text \<open>The two kinds of states together.\<close>

definition heap_ok :: "u64 \<Rightarrow> malloc_state \<Rightarrow> bool" where
  "heap_ok lo s \<longleftrightarrow> fresh lo s \<or> heap_inv lo s"

definition front :: "u64 \<Rightarrow> malloc_state \<Rightarrow> int" where
  "front lo s = (if max_fast s = 0 then uint lo else frontier lo s)"

lemma mALLOc_inv:
  assumes inv: "heap_inv lo s"
  shows "\<exists>p s'. mALLOc req s = Some (p, s') \<and> heap_inv lo s' \<and> keeps_blocks lo s s' \<and>
    (p = 0 \<and> frontier lo s' = frontier lo s \<and>
       (REQUEST_OUT_OF_RANGE req \<or> uint (heap_end (store s)) < pages (needed lo req s)) \<or>
     p \<noteq> 0 \<and> uint p = frontier lo s + 16 \<and> uint p + uint req \<le> frontier lo s' + 8 \<and>
       frontier lo s' = frontier lo s + uint (request2size req) \<and>
       frontier lo s' + 32 \<le> uint (heap_end (store s)))"
proof (cases "REQUEST_OUT_OF_RANGE req")
  case True
  then show ?thesis using inv by (subst mALLOc.simps) simp
next
  case False
  show ?thesis
  proof (rule disjE [OF mALLOc_step [OF inv False]])
    assume "mALLOc req s = Some (0, s) \<and> uint (heap_end (store s)) < pages (needed lo req s)"
    then show ?thesis using inv by simp
  next
    assume "\<exists>p s'. mALLOc req s = Some (p, s') \<and> uint p = frontier lo s + 16 \<and> heap_inv lo s' \<and>
      frontier lo s' = frontier lo s + uint (request2size req) \<and> keeps_blocks lo s s' \<and>
      frontier lo s' + 32 \<le> uint (curptr (store s')) \<and> chunk_size (mem2chunk p) s' = request2size req OR 1"
    then obtain p s' where r: "mALLOc req s = Some (p, s')" "uint p = frontier lo s + 16" "heap_inv lo s'"
      "frontier lo s' = frontier lo s + uint (request2size req)" "keeps_blocks lo s s'"
      "frontier lo s' + 32 \<le> uint (curptr (store s'))" by blast
    have "uint (curptr (store s')) \<le> uint (heap_end (store s'))" using r(3) by (simp add: heap_inv_def heap_layout_def)
    then have h: "frontier lo s' + 32 \<le> uint (heap_end (store s))" using r(5,6) by (simp add: keeps_blocks_def)
    have "0 < uint p" using r(2) frontier_bounds(1) [OF inv] uint_ge_0 [of lo] by linarith
    then have "p \<noteq> 0" by auto
    moreover have "uint p + uint req \<le> frontier lo s' + 8"
      using r(2,4) request2size_room(3) [OF False] by simp
    ultimately show ?thesis using r h by blast
  qed
qed

lemma mALLOc_call:
  assumes "heap_ok lo s"
  shows "\<exists>p s'. mALLOc req s = Some (p, s') \<and> heap_ok lo s' \<and> heap_end (store s') = heap_end (store s) \<and>
    (\<forall>a. uint lo \<le> uint a \<longrightarrow> uint a < front lo s + 8 \<longrightarrow> ldw a s' = ldw a s) \<and>
    (p = 0 \<and> front lo s' = front lo s \<and>
       (REQUEST_OUT_OF_RANGE req \<or>
        uint (heap_end (store s)) < pages (front lo s + uint (request2size req) + 32)) \<or>
     p \<noteq> 0 \<and> uint p = front lo s + 16 \<and> uint p + uint req \<le> front lo s' + 8 \<and>
       front lo s' = front lo s + uint (request2size req) \<and> front lo s' + 32 \<le> uint (heap_end (store s)))"
proof (cases "fresh lo s")
  case False
  then have inv: "heap_inv lo s" using assms by (simp add: heap_ok_def)
  obtain p s' where r: "mALLOc req s = Some (p, s')" "heap_inv lo s'" "keeps_blocks lo s s'"
    "p = 0 \<and> frontier lo s' = frontier lo s \<and>
       (REQUEST_OUT_OF_RANGE req \<or> uint (heap_end (store s)) < pages (needed lo req s)) \<or>
     p \<noteq> 0 \<and> uint p = frontier lo s + 16 \<and> uint p + uint req \<le> frontier lo s' + 8 \<and>
       frontier lo s' = frontier lo s + uint (request2size req) \<and>
       frontier lo s' + 32 \<le> uint (heap_end (store s))"
    using mALLOc_inv [OF inv, of req] by blast
  have "front lo s = frontier lo s" "front lo s' = frontier lo s'"
    using inv r(2) by (simp_all add: front_def heap_inv_def)
  then show ?thesis using r by (auto simp: heap_ok_def keeps_blocks_def needed_def)
next
  case True
  show ?thesis
  proof (cases "REQUEST_OUT_OF_RANGE req")
    case out: True
    then have "mALLOc req s = Some (0, s)" by (subst mALLOc.simps) simp
    then show ?thesis using out assms by auto
  next
    case False
    let ?i = "malloc_init_state s"
    note i = init_state_inv [OF True]
    obtain p s' where r: "mALLOc req s = Some (p, s')" "heap_inv lo s'" "keeps_blocks lo ?i s'"
      "p = 0 \<and> frontier lo s' = frontier lo ?i \<and> uint (heap_end (store ?i)) < pages (needed lo req ?i) \<or>
       p \<noteq> 0 \<and> uint p = frontier lo ?i + 16 \<and> uint p + uint req \<le> frontier lo s' + 8 \<and>
         frontier lo s' = frontier lo ?i + uint (request2size req) \<and>
         frontier lo s' + 32 \<le> uint (heap_end (store ?i))"
      using mALLOc_inv [OF i(1), of req] False unfolding first_call [OF True False, symmetric] by blast
    have f: "front lo s = uint lo" "front lo s' = frontier lo s'"
      using True r(2) by (simp_all add: front_def heap_inv_def fresh_def)
    have "ldw a s' = ldw a s" if "uint lo \<le> uint a" "uint a < uint lo + 8" for a
      using that r(3) i(2) i(4) [of a] by (simp add: keeps_blocks_def)
    then show ?thesis using r f i(2,3) by (auto simp: heap_ok_def keeps_blocks_def needed_def)
  qed
qed

section \<open>A client of the heap\<close>

text \<open>
  A client allocates blocks and stores double words in the blocks it got.  The abstract heap is a
  list of blocks, \<open>None\<close> for a request that failed, and what was stored in each.
\<close>

datatype client_op = Alloc u64 | Put nat nat u64

type_synonym spec_heap = "u64 option list \<times> (nat \<times> nat \<rightharpoonup> u64)"

definition writable :: "u64 option list \<Rightarrow> nat \<Rightarrow> nat \<Rightarrow> bool" where
  "writable ns i k \<longleftrightarrow>
     i < length ns \<and> (case ns ! i of None \<Rightarrow> False | Some n \<Rightarrow> 8 * int k + 8 \<le> uint n)"

inductive spec_step :: "client_op \<Rightarrow> spec_heap \<Rightarrow> spec_heap \<Rightarrow> bool" where
  gets: "spec_step (Alloc n) (ns, h) (ns @ [Some n], h)"
| fails: "spec_step (Alloc n) (ns, h) (ns @ [None], h)"
| puts: "writable ns i k \<Longrightarrow> spec_step (Put i k v) (ns, h) (ns, h((i, k) \<mapsto> v))"
| ignores: "\<not> writable ns i k \<Longrightarrow> spec_step (Put i k v) (ns, h) (ns, h)"

inductive spec_run :: "client_op list \<Rightarrow> spec_heap \<Rightarrow> spec_heap \<Rightarrow> bool" where
  stops: "spec_run [] x x"
| steps: "spec_step c x y \<Longrightarrow> spec_run cs y z \<Longrightarrow> spec_run (c # cs) x z"

text \<open>The same on the allocator, with the addresses and sizes of the blocks.\<close>

definition outcome :: "u64 \<times> u64 \<Rightarrow> u64 option" where
  "outcome b = (if fst b = 0 then None else Some (snd b))"

definition word_addr :: "(u64 \<times> u64) list \<Rightarrow> nat \<Rightarrow> nat \<Rightarrow> u64" where
  "word_addr bs i k = fst (bs ! i) + 8 * of_nat k"

fun client_step :: "client_op \<Rightarrow> (u64 \<times> u64) list \<times> malloc_state \<Rightarrow> ((u64 \<times> u64) list \<times> malloc_state) option" where
  "client_step (Alloc n) (bs, s) = do { (p, s') \<leftarrow> mALLOc n s; Some (bs @ [(p, n)], s') }"
| "client_step (Put i k v) (bs, s) =
     Some (bs, if writable (map outcome bs) i k then stw (word_addr bs i k) v s else s)"

fun client_run :: "client_op list \<Rightarrow> (u64 \<times> u64) list \<times> malloc_state \<Rightarrow> ((u64 \<times> u64) list \<times> malloc_state) option" where
  "client_run [] x = Some x"
| "client_run (c # cs) x = do { y \<leftarrow> client_step c x; client_run cs y }"

text \<open>The blocks are aligned, in the heap, and each lies behind the ones before it.\<close>

definition blocks_ok :: "u64 \<Rightarrow> (u64 \<times> u64) list \<Rightarrow> int \<Rightarrow> bool" where
  "blocks_ok lo bs e \<longleftrightarrow>
     (\<forall>i<length bs. fst (bs ! i) \<noteq> 0 \<longrightarrow>
       uint (fst (bs ! i)) mod 16 = 0 \<and> uint lo \<le> uint (fst (bs ! i)) \<and>
       uint (fst (bs ! i)) + uint (snd (bs ! i)) \<le> e \<and>
       (\<forall>j<i. fst (bs ! j) \<noteq> 0 \<longrightarrow> uint (fst (bs ! j)) + uint (snd (bs ! j)) \<le> uint (fst (bs ! i))))"

definition client_rel :: "u64 \<Rightarrow> int \<Rightarrow> (u64 \<times> u64) list \<times> malloc_state \<Rightarrow> spec_heap \<Rightarrow> bool" where
  "client_rel lo hi = (\<lambda>(bs, s) (ns, h).
     heap_ok lo s \<and> uint (heap_end (store s)) = hi \<and> ns = map outcome bs \<and>
     blocks_ok lo bs (front lo s + 8) \<and> blocks_ok lo bs hi \<and>
     (\<forall>i k v. h (i, k) = Some v \<longrightarrow> writable ns i k \<and> ldw (word_addr bs i k) s = v))"

lemma front_mod: "heap_ok lo s \<Longrightarrow> front lo s mod 16 = 0 \<and> uint lo \<le> front lo s \<and> front lo s < 2 ^ 63"
proof -
  assume ok: "heap_ok lo s"
  then have "uint lo \<le> uint (curptr (store s))" "uint (curptr (store s)) < 2 ^ 63" "uint lo mod 16 = 0"
    using page16 [of "uint lo"] by (auto simp: heap_ok_def fresh_def heap_inv_def heap_layout_def)
  note u = this
  show ?thesis
  proof (cases "fresh lo s")
    case True
    then show ?thesis using u by (simp add: front_def fresh_def)
  next
    case False
    then have inv: "heap_inv lo s" using ok by (simp add: heap_ok_def)
    then have "max_fast s = 80" by (simp add: heap_inv_def)
    then show ?thesis using u frontier_bounds [OF inv] by (simp add: front_def)
  qed
qed

lemma blocks_before:
  "blocks_ok lo bs e \<Longrightarrow> j < i \<Longrightarrow> i < length bs \<Longrightarrow> fst (bs ! i) \<noteq> 0 \<Longrightarrow> fst (bs ! j) \<noteq> 0 \<Longrightarrow>
   uint (fst (bs ! j)) + uint (snd (bs ! j)) \<le> uint (fst (bs ! i))"
  by (simp add: blocks_ok_def)

lemma writable_addr:
  assumes "writable (map outcome bs) i k" "blocks_ok lo bs e" "e < 2 ^ 64"
  shows "i < length bs" "fst (bs ! i) \<noteq> 0" "uint (word_addr bs i k) = uint (fst (bs ! i)) + 8 * int k"
    "8 * int k + 8 \<le> uint (snd (bs ! i))"
proof -
  show i: "i < length bs" "fst (bs ! i) \<noteq> 0" and k: "8 * int k + 8 \<le> uint (snd (bs ! i))"
    using assms(1) by (auto simp: writable_def outcome_def split: if_splits)
  have e: "uint (fst (bs ! i)) + uint (snd (bs ! i)) \<le> e" using assms(2) i by (simp add: blocks_ok_def)
  then have "8 * int k < 2 ^ 64" using k assms(3) uint_ge_0 [of "fst (bs ! i)"] by linarith
  then have "uint (8 * of_nat k :: u64) = 8 * int k"
    by (simp add: uint_word_ariths unsigned_of_nat take_bit_eq_mod)
  then show "uint (word_addr bs i k) = uint (fst (bs ! i)) + 8 * int k"
    unfolding word_addr_def using uint_add_lt [of "fst (bs ! i)" "8 * of_nat k"] e k assms(3) by simp
qed

text \<open>Different double words of the blocks have different addresses.\<close>

lemma word_addr_inj:
  assumes "writable (map outcome bs) i k" "writable (map outcome bs) j l" "blocks_ok lo bs e" "e < 2 ^ 64"
    "word_addr bs i k = word_addr bs j l"
  shows "i = j \<and> k = l"
proof -
  note a = writable_addr [OF assms(1,3,4)] and b = writable_addr [OF assms(2,3,4)]
  have e: "uint (fst (bs ! i)) + 8 * int k = uint (fst (bs ! j)) + 8 * int l" using a(3) b(3) assms(5) by simp
  have "\<not> i < j"
  proof
    assume "i < j"
    from blocks_before [OF assms(3) this b(1,2) a(2)] show False using a(4) e of_nat_0_le_iff [of l] by linarith
  qed
  moreover have "\<not> j < i"
  proof
    assume "j < i"
    from blocks_before [OF assms(3) this a(1,2) b(2)] show False using b(4) e of_nat_0_le_iff [of k] by linarith
  qed
  ultimately show ?thesis using e by simp
qed

lemma heap_end_bound: "heap_ok lo s \<Longrightarrow> uint (heap_end (store s)) < 2 ^ 63"
  by (auto simp: heap_ok_def fresh_def heap_inv_def heap_layout_def)

text \<open>A new block comes behind all others.\<close>

lemma blocks_ok_mono: "blocks_ok lo bs e \<Longrightarrow> e \<le> e' \<Longrightarrow> blocks_ok lo bs e'"
  by (force simp: blocks_ok_def)

lemma blocks_ok_snoc:
  assumes "blocks_ok lo bs e" "blocks_ok lo bs e'"
    "p \<noteq> 0 \<Longrightarrow> uint p mod 16 = 0 \<and> uint lo \<le> uint p \<and> e \<le> uint p \<and> uint p + uint n \<le> e'"
  shows "blocks_ok lo (bs @ [(p, n)]) e'"
proof -
  have old: "uint (fst (bs ! i)) + uint (snd (bs ! i)) \<le> e" if "i < length bs" "fst (bs ! i) \<noteq> 0" for i
    using assms(1) that by (simp add: blocks_ok_def)
  show ?thesis
    unfolding blocks_ok_def
  proof (intro allI impI)
    fix i
    assume i: "i < length (bs @ [(p, n)])" "fst ((bs @ [(p, n)]) ! i) \<noteq> 0"
    show "uint (fst ((bs @ [(p, n)]) ! i)) mod 16 = 0 \<and> uint lo \<le> uint (fst ((bs @ [(p, n)]) ! i)) \<and>
      uint (fst ((bs @ [(p, n)]) ! i)) + uint (snd ((bs @ [(p, n)]) ! i)) \<le> e' \<and>
      (\<forall>j<i. fst ((bs @ [(p, n)]) ! j) \<noteq> 0 \<longrightarrow>
        uint (fst ((bs @ [(p, n)]) ! j)) + uint (snd ((bs @ [(p, n)]) ! j)) \<le> uint (fst ((bs @ [(p, n)]) ! i)))"
    proof (cases "i < length bs")
      case True
      then show ?thesis using i assms(1,2) by (auto simp: nth_append blocks_ok_def)
    next
      case False
      then have "i = length bs" using i(1) by simp
      then show ?thesis using i(2) assms(3) old by (auto simp: nth_append) (meson order_trans)
    qed
  qed
qed

lemma client_alloc:
  assumes R: "client_rel lo hi (bs, s) (ns, h)"
  shows "\<exists>y z. client_step (Alloc n) (bs, s) = Some y \<and> spec_step (Alloc n) (ns, h) z \<and> client_rel lo hi y z"
proof -
  have ok: "heap_ok lo s" and hi: "uint (heap_end (store s)) = hi" and ns: "ns = map outcome bs"
    and b1: "blocks_ok lo bs (front lo s + 8)" and b2: "blocks_ok lo bs hi"
    and c: "\<And>i k v. h (i, k) = Some v \<Longrightarrow> writable ns i k \<and> ldw (word_addr bs i k) s = v"
    using R by (auto simp: client_rel_def)
  obtain p s' where r: "mALLOc n s = Some (p, s')" "heap_ok lo s'" "heap_end (store s') = heap_end (store s)"
    "\<forall>a. uint lo \<le> uint a \<longrightarrow> uint a < front lo s + 8 \<longrightarrow> ldw a s' = ldw a s"
    "p = 0 \<and> front lo s' = front lo s \<or> p \<noteq> 0 \<and> uint p = front lo s + 16 \<and> uint p + uint n \<le> front lo s' + 8 \<and>
       front lo s' + 32 \<le> uint (heap_end (store s))"
    using mALLOc_call [OF ok, of n] by blast
  note f = front_mod [OF ok]
  have e: "front lo s + 8 < 2 ^ 64" using f by simp
  have "front lo s + 8 \<le> front lo s' + 8" using r(5) uint_ge_0 [of n] by linarith
  then have b1': "blocks_ok lo (bs @ [(p, n)]) (front lo s' + 8)"
    using r(5) f by (intro blocks_ok_snoc [OF b1 blocks_ok_mono [OF b1]]) auto
  have b2': "blocks_ok lo (bs @ [(p, n)]) hi"
    using r(5) f hi by (intro blocks_ok_snoc [OF b1 b2]) auto
  have c': "ldw (word_addr bs i k) s' = v" "word_addr (bs @ [(p, n)]) i k = word_addr bs i k"
    "writable (ns @ [x]) i k" if "h (i, k) = Some v" for i k v x
  proof -
    have w: "writable (map outcome bs) i k" using c [OF that] ns by simp
    note a = writable_addr [OF w b1 e]
    have "uint (fst (bs ! i)) + uint (snd (bs ! i)) \<le> front lo s + 8" "uint lo \<le> uint (fst (bs ! i))"
      using b1 a(1,2) by (simp_all add: blocks_ok_def)
    then have "uint lo \<le> uint (word_addr bs i k)" "uint (word_addr bs i k) < front lo s + 8"
      using a(3,4) by simp_all
    then show "ldw (word_addr bs i k) s' = v" using r(4) c [OF that] by simp
    show "word_addr (bs @ [(p, n)]) i k = word_addr bs i k" using a(1) by (simp add: word_addr_def nth_append)
    show "writable (ns @ [x]) i k" using c [OF that] by (auto simp: writable_def nth_append)
  qed
  have "client_rel lo hi (bs @ [(p, n)], s') (ns @ [outcome (p, n)], h)"
    using r(2,3) hi ns b1' b2' c' by (auto simp: client_rel_def)
  moreover have "spec_step (Alloc n) (ns, h) (ns @ [outcome (p, n)], h)"
    by (cases "p = 0") (auto simp: outcome_def intro: spec_step.intros)
  moreover have "client_step (Alloc n) (bs, s) = Some (bs @ [(p, n)], s')" by (simp add: r(1))
  ultimately show ?thesis by blast
qed

lemma store_in_block:
  assumes ok: "heap_ok lo s" and a: "uint lo \<le> uint a" "uint a < front lo s + 8"
  shows "heap_ok lo (stw a v s)" "front lo (stw a v s) = front lo s"
proof -
  show f: "front lo (stw a v s) = front lo s" by (simp add: front_def frontier_def)
  have lay: "heap_layout lo s" using ok by (auto simp: heap_ok_def fresh_def heap_inv_def)
  have b: "uint (bins_addr s + 8) = uint (bins_addr s) + 8" using bin_addresses(3) [OF lay, of 1] by simp
  then have nb: "a \<noteq> bins_addr s + 8" using a(1) lay by (auto simp: heap_layout_def)
  show "heap_ok lo (stw a v s)"
  proof (cases "fresh lo s")
    case True
    then show ?thesis using nb by (simp add: heap_ok_def fresh_def)
  next
    case False
    then have inv: "heap_inv lo s" using ok by (simp add: heap_ok_def)
    have "a \<noteq> size_addr (top_chunk s)"
    proof (cases "top_chunk s = initial_top s")
      case True
      then show ?thesis using nb by (simp add: size_addr_def initial_top_eq)
    next
      case new: False
      have "front lo s = uint (top_chunk s)" using new inv by (simp add: front_def frontier_def heap_inv_def)
      moreover have "uint (top_chunk s + 8) = uint (top_chunk s) + 8"
        using front_mod [OF ok] calculation uint_add_lt [of "top_chunk s" 8] by simp
      ultimately show ?thesis using a(2) by (auto simp: size_addr_def)
    qed
    then have "heap_inv lo (stw a v s)" using inv by (auto simp: heap_inv_def split: if_splits)
    then show ?thesis by (simp add: heap_ok_def)
  qed
qed

lemma client_put:
  assumes R: "client_rel lo hi (bs, s) (ns, h)"
  shows "\<exists>y z. client_step (Put i k v) (bs, s) = Some y \<and> spec_step (Put i k v) (ns, h) z \<and> client_rel lo hi y z"
proof (cases "writable ns i k")
  case False
  then have "spec_step (Put i k v) (ns, h) (ns, h)" by (rule spec_step.ignores)
  moreover have "client_step (Put i k v) (bs, s) = Some (bs, s)"
    using False R by (simp add: client_rel_def)
  ultimately show ?thesis using R by blast
next
  case True
  have ok: "heap_ok lo s" and ns: "ns = map outcome bs"
    and b1: "blocks_ok lo bs (front lo s + 8)" and b2: "blocks_ok lo bs hi" and hi: "uint (heap_end (store s)) = hi"
    and c: "\<And>i k v. h (i, k) = Some v \<Longrightarrow> writable ns i k \<and> ldw (word_addr bs i k) s = v"
    using R by (auto simp: client_rel_def)
  have e: "front lo s + 8 < 2 ^ 64" using front_mod [OF ok] by simp
  let ?a = "word_addr bs i k"
  have w: "writable (map outcome bs) i k" using True ns by simp
  note a = writable_addr [OF w b1 e]
  have "uint (fst (bs ! i)) + uint (snd (bs ! i)) \<le> front lo s + 8" "uint lo \<le> uint (fst (bs ! i))"
    using b1 a(1,2) by (simp_all add: blocks_ok_def)
  then have "uint lo \<le> uint ?a" "uint ?a < front lo s + 8" using a(3,4) by simp_all
  note k = store_in_block [OF ok this, of v]
  have "ldw (word_addr bs j l) (stw ?a v s) = x" "writable ns j l" if "(h((i, k) \<mapsto> v)) (j, l) = Some x" for j l x
  proof -
    show wr: "writable ns j l" using that True c by (auto split: if_splits)
    have "word_addr bs j l = ?a \<longleftrightarrow> j = i \<and> l = k"
      using word_addr_inj [OF _ w b1 e, of j l] wr ns by auto
    then show "ldw (word_addr bs j l) (stw ?a v s) = x" using that c by (auto split: if_splits)
  qed
  then have "client_rel lo hi (bs, stw ?a v s) (ns, h((i, k) \<mapsto> v))"
    using k ns b1 b2 hi by (auto simp: client_rel_def simp del: fun_upd_apply)
  moreover have "spec_step (Put i k v) (ns, h) (ns, h((i, k) \<mapsto> v))" using True by (rule spec_step.puts)
  moreover have "client_step (Put i k v) (bs, s) = Some (bs, stw ?a v s)" using w by simp
  ultimately show ?thesis by blast
qed

lemma client_simulation:
  assumes "client_rel lo hi x z"
  shows "\<exists>y z'. client_run cs x = Some y \<and> spec_run cs z z' \<and> client_rel lo hi y z'"
  using assms
proof (induction cs arbitrary: x z)
  case Nil
  then show ?case by (metis client_run.simps(1) spec_run.stops)
next
  case (Cons c cs)
  obtain bs s ns h where xz: "x = (bs, s)" "z = (ns, h)" by (cases x, cases z)
  have R: "client_rel lo hi (bs, s) (ns, h)" using Cons.prems by (simp add: xz)
  have "\<exists>y z1. client_step c x = Some y \<and> spec_step c z z1 \<and> client_rel lo hi y z1"
  proof (cases c)
    case (Alloc n)
    then show ?thesis using client_alloc [OF R, of n] by (simp only: xz)
  next
    case (Put i k v)
    then show ?thesis using client_put [OF R, of i k v] by (simp only: xz)
  qed
  then obtain y z1 where s: "client_step c x = Some y" "spec_step c z z1" "client_rel lo hi y z1" by blast
  obtain y' z' where "client_run cs y = Some y'" "spec_run cs z1 z'" "client_rel lo hi y' z'"
    using Cons.IH [OF s(3)] by blast
  then have "client_run (c # cs) x = Some y'" "spec_run (c # cs) z z'" "client_rel lo hi y' z'"
    using s(1) spec_run.steps [OF s(2)] by simp_all
  then show ?case by blast
qed

text \<open>
  C10.  The heap is a heap of separate blocks.  From power on, whatever a client allocates and stores in
  its blocks, every call returns; the blocks are aligned to sixteen bytes, lie in the heap and do not
  overlap; and each double word holds what was last stored in it, as in a heap where blocks are objects
  of their own.
\<close>

theorem heap_of_separate_blocks:
  assumes "fresh lo s"
  shows "\<exists>bs s' ns h. client_run cs ([], s) = Some (bs, s') \<and> spec_run cs ([], Map.empty) (ns, h) \<and>
    ns = map outcome bs \<and> blocks_ok lo bs (uint (heap_end (store s))) \<and>
    (\<forall>i k v. h (i, k) = Some v \<longrightarrow> ldw (word_addr bs i k) s' = v)"
proof -
  have "client_rel lo (uint (heap_end (store s))) ([], s) ([], Map.empty)"
    using assms by (simp add: client_rel_def heap_ok_def blocks_ok_def)
  from client_simulation [OF this, of cs] show ?thesis by (fastforce simp: client_rel_def)
qed

text \<open>A heap of one megabyte at power on.\<close>

definition demo_heap :: malloc_state where
  "demo_heap = \<lparr>max_fast = 0, fastbins = replicate NFASTBINS 0, top_chunk = 0, last_remainder = 0,
     bins_addr = 0x1000, binmap = replicate (BINMAPSIZE + 1) 0, trim_threshold = 0, top_pad = 0,
     mmap_threshold = 0, n_mmaps = 0, n_mmaps_max = 0, max_n_mmaps = 0, pagesize = 0, morecore_properties = 0,
     mmapped_mem = 0, sbrked_mem = 0, max_sbrked_mem = 0, max_mmapped_mem = 0, max_total_mem = 0,
     store = \<lparr>mem = \<lambda>_. 0, mem_ptr = 0, free_memory_start = 0, memory_end = 0, curptr = 0x10000,
       heap_end = 0x110000\<rparr>\<rparr>"

lemma demo_heap_fresh: "fresh 0x10000 demo_heap"
  by (simp add: fresh_def heap_layout_def demo_heap_def ldw_def)

theorem heap_of_separate_blocks_witness:
  "fresh 0x10000 demo_heap \<and>
   (\<exists>bs s' ns h. client_run [Alloc 24, Alloc 100, Put 0 1 7, Put 1 2 9] ([], demo_heap) = Some (bs, s') \<and>
     spec_run [Alloc 24, Alloc 100, Put 0 1 7, Put 1 2 9] ([], Map.empty) (ns, h) \<and>
     ns = map outcome bs \<and> blocks_ok 0x10000 bs (uint (heap_end (store demo_heap))) \<and>
     (\<forall>i k v. h (i, k) = Some v \<longrightarrow> ldw (word_addr bs i k) s' = v))"
  using demo_heap_fresh heap_of_separate_blocks [OF demo_heap_fresh] by blast

section \<open>Enough memory\<close>

fun mallocs :: "u64 list \<Rightarrow> malloc_state \<Rightarrow> (u64 list \<times> malloc_state) option" where
  "mallocs [] s = Some ([], s)"
| "mallocs (n # reqs) s =
     do { (p, s1) \<leftarrow> mALLOc n s; (ps, s2) \<leftarrow> mallocs reqs s1; Some (p # ps, s2) }"

lemma pages_mono: "a \<le> b \<Longrightarrow> pages a \<le> pages b"
  by (simp add: pages_def zdiv_mono1)

text \<open>As long as the chunks and 32 bytes more fit in the heap, in whole pages, no request fails.\<close>

lemma mallocs_succeed:
  "heap_ok lo s \<Longrightarrow> \<forall>n\<in>set reqs. \<not> REQUEST_OUT_OF_RANGE n \<Longrightarrow>
   pages (front lo s + (\<Sum>n\<leftarrow>reqs. uint (request2size n)) + 32) \<le> uint (heap_end (store s)) \<Longrightarrow>
   \<exists>ps s'. mallocs reqs s = Some (ps, s') \<and> length ps = length reqs \<and> 0 \<notin> set ps"
proof (induction reqs arbitrary: s)
  case (Cons n reqs)
  let ?sum = "\<Sum>n\<leftarrow>reqs. uint (request2size n)"
  have "0 \<le> (\<Sum>n\<leftarrow>rs. uint (request2size n))" for rs by (induction rs) simp_all
  then have "0 \<le> ?sum" .
  then have "pages (front lo s + uint (request2size n) + 32) \<le> uint (heap_end (store s))"
    using Cons.prems(3) pages_mono [of "front lo s + uint (request2size n) + 32"
        "front lo s + (uint (request2size n) + ?sum) + 32"] by simp
  then obtain p s1 where r: "mALLOc n s = Some (p, s1)" "heap_ok lo s1" "heap_end (store s1) = heap_end (store s)"
    "p \<noteq> 0" "front lo s1 = front lo s + uint (request2size n)"
    using mALLOc_call [OF Cons.prems(1), of n] Cons.prems(2) by auto
  have "pages (front lo s1 + ?sum + 32) \<le> uint (heap_end (store s1))"
    using Cons.prems(3) r(3,5) by (simp add: add.assoc)
  then obtain ps s2 where "mallocs reqs s1 = Some (ps, s2)" "length ps = length reqs" "0 \<notin> set ps"
    using Cons.IH [OF r(2)] Cons.prems(2) by auto
  then show ?case using r(1,4) by auto
qed simp

section \<open>Reuse\<close>

text \<open>
  A block whose chunk is small goes to its fast bin when it is freed, and is what the next request of its
  size gets; meanwhile only its first double word is changed.
\<close>

lemma fast_sizes:
  assumes "\<not> REQUEST_OUT_OF_RANGE n" "request2size n \<le> 80"
  shows "fastbin_index (request2size n) < NFASTBINS"
proof -
  have u: "uint (request2size n) mod 16 = 0" "32 \<le> uint (request2size n)" "uint (request2size n) \<le> 80"
    using request2size_room [OF assms(1)] assms(2) by (simp_all add: word_le_def)
  then have "uint (request2size n) = 32 \<or> uint (request2size n) = 48 \<or> uint (request2size n) = 64 \<or>
      uint (request2size n) = 80" by presburger
  then have "request2size n \<in> {32, 48, 64, 80}" by (auto simp: word_uint_eq_iff)
  moreover have "request2size 80 = 96" by (simp add: request2size_def)
  ultimately show ?thesis by (auto simp: NFASTBINS_def MAX_FAST_SIZE_def fastbin_index_def)
qed

lemma freed_block_is_reused:
  assumes m: "m \<noteq> 0" "mem2chunk m \<noteq> 0" and n: "\<not> REQUEST_OUT_OF_RANGE n" "request2size n \<le> 80"
    and s: "chunk_size (mem2chunk m) s = request2size n OR 1" "80 \<le> max_fast s" "length (fastbins s) = NFASTBINS"
  shows "\<exists>s1 s2. fREe m s = Some s1 \<and> mALLOc n s1 = Some (m, s2) \<and> fastbins s2 = fastbins s \<and>
    (\<forall>a. a \<noteq> m \<longrightarrow> ldw a s2 = ldw a s)"
proof -
  let ?p = "mem2chunk m" and ?nb = "request2size n"
  let ?i = "fastbin_index ?nb"
  have c: "chunksize ?p s = ?nb" using head_size(1) [OF request2size_room(1) [OF n(1)]] s(1) by (simp add: chunksize_def)
  have le: "?nb \<le> max_fast s" using n(2) s(2) by simp
  have fd: "fd_addr ?p = m" "chunk2mem ?p = m" by (simp_all add: fd_addr_def chunk2mem_def mem2chunk_def)
  define s1 where "s1 = (set_fd ?p (fastbins s ! ?i) (set_fastchunks s))\<lparr>fastbins := (fastbins s)[?i := ?p]\<rparr>"
  have f: "fREe m s = Some s1"
    using m(1) le by (simp add: fREe_def Let_def c s1_def set_fastchunks_def)
  have i: "?i < length (fastbins s)" using fast_sizes [OF n] s(3) by simp
  have mf: "max_fast s1 = max_fast s OR 3"
    by (simp add: s1_def set_fastchunks_def FASTCHUNKS_BIT_def ANYCHUNKS_BIT_def)
  have any: "have_anychunks s1"
  proof -
    have "bit ((max_fast s OR 3) AND 1) 0" by (simp only: bit_and_iff bit_or_iff) (simp add: bit_0)
    then show ?thesis unfolding have_anychunks_def ANYCHUNKS_BIT_def mf by (metis bit_0_eq bot_apply bot_bool_def)
  qed
  have "max_fast s \<le> max_fast s1" unfolding mf by (simp add: word_le_def unsigned_or_eq or_greater_eq)
  then have le1: "?nb \<le> max_fast s1" using le by simp
  have v: "fastbins s1 ! ?i = ?p" using i by (simp add: s1_def)
  have old: "ldw m s1 = fastbins s ! ?i" by (simp add: s1_def ldw_def stw_def fd)
  have "malloc_search ?nb s1 = Some (Inl (m, s1\<lparr>fastbins := (fastbins s1)[?i := fastbins s ! ?i]\<rparr>))"
    using any le1 m(2) by (simp add: malloc_search_def Let_def v old fd)
  then have a: "mALLOc n s1 = Some (m, s1\<lparr>fastbins := (fastbins s1)[?i := fastbins s ! ?i]\<rparr>)"
    using n(1) by (subst mALLOc.simps) (simp add: Let_def)
  have "fastbins (s1\<lparr>fastbins := (fastbins s1)[?i := fastbins s ! ?i]\<rparr>) = fastbins s"
    by (simp add: s1_def)
  moreover have "ldw a (s1\<lparr>fastbins := (fastbins s1)[?i := fastbins s ! ?i]\<rparr>) = ldw a s" if "a \<noteq> m" for a
    using that by (simp add: s1_def ldw_def stw_def fd set_fastchunks_def)
  ultimately show ?thesis using f a by blast
qed

end
