(* ===== verification/Malloc_Entry.thy ===== *)
theory Malloc_Entry
  imports Malloc
begin

text \<open>
  The other entry points of the allocator (\<open>src/lib/stdlib/malloc.c\<close>): \<open>rEALLOc\<close>, \<open>mEMALIGn\<close>, \<open>cALLOc\<close>, the
  independent allocations, \<open>vALLOc\<close>, \<open>pVALLOc\<close>, \<open>mTRIm\<close>, \<open>mUSABLe\<close>, \<open>mALLINFo\<close>, \<open>mSTATs\<close> and \<open>mALLOPt\<close>.
  \<open>MALLOC_COPY\<close> and \<open>MALLOC_ZERO\<close> are \<open>memcpy\<close> and \<open>memset\<close>, on whole double words.
\<close>

unbundle bit_operations_syntax

section \<open>realloc\<close>

definition inuse :: "u64 \<Rightarrow> malloc_state \<Rightarrow> bool" where
  "inuse p s \<longleftrightarrow> chunk_size (p + (chunk_size p s AND NOT PREV_INUSE)) s AND PREV_INUSE \<noteq> 0"

definition set_head_size :: "u64 \<Rightarrow> u64 \<Rightarrow> malloc_state \<Rightarrow> malloc_state" where
  "set_head_size p n s = stw (size_addr p) ((chunk_size p s AND PREV_INUSE) OR n) s"

definition MALLOC_COPY :: "u64 \<Rightarrow> u64 \<Rightarrow> nat \<Rightarrow> malloc_state \<Rightarrow> malloc_state" where
  "MALLOC_COPY d a n s = fold (\<lambda>i s. stw (d + 8 * of_nat i) (ldw (a + 8 * of_nat i) s) s) [0..<n] s"

text \<open>The copy and the clearing of at most nine words are unrolled; the words of a block are odd in number.\<close>

definition unrolled_words :: "nat \<Rightarrow> nat" where
  "unrolled_words n = (if n > 4 then if n > 6 then if n > 8 then 9 else 7 else 5 else 3)"

definition realloc_copy :: "u64 \<Rightarrow> u64 \<Rightarrow> u64 \<Rightarrow> malloc_state \<Rightarrow> malloc_state" where
  "realloc_copy d a oldsize s =
     (let copysize = oldsize - SIZE_SZ;
          ncopies = unat (ucast (copysize div 8) :: 32 word)
      in if ncopies > 9 then MALLOC_COPY d a (unat (copysize div 8)) s
         else MALLOC_COPY d a (unrolled_words ncopies) s)"

text \<open>The end of \<open>rEALLOc\<close>: extra space of the chunk is freed.\<close>

definition realloc_split :: "u64 \<Rightarrow> u64 \<Rightarrow> u64 \<Rightarrow> malloc_state \<Rightarrow> (u64 \<times> malloc_state) option" where
  "realloc_split newp newsize nb s =
     (let remainder_size = newsize - nb in
      if remainder_size < MINSIZE
      then Some (chunk2mem newp, set_inuse_bit_at_offset newp newsize (set_head_size newp newsize s))
      else
        let remainder = newp + nb;
            s = set_head_size newp nb s;
            s = set_head remainder (remainder_size OR PREV_INUSE) s;
            s = set_inuse_bit_at_offset remainder remainder_size s
        in do { s \<leftarrow> fREe (chunk2mem remainder) s; Some (chunk2mem newp, s) })"

definition rEALLOc :: "u64 \<Rightarrow> u64 \<Rightarrow> malloc_state \<Rightarrow> (u64 \<times> malloc_state) option" where
  "rEALLOc oldmem bytes s =
     (if oldmem = 0 then mALLOc bytes s
      else if REQUEST_OUT_OF_RANGE bytes then Some (0, s)
      else
        let nb = request2size bytes; oldp = mem2chunk oldmem; oldsize = chunksize oldp s in
        if \<not> chunk_is_mmapped oldp s then
          if oldsize \<ge> nb then realloc_split oldp oldsize nb s
          else
            let nxt = oldp + oldsize; newsize = oldsize + chunksize nxt s in
            if nxt = top_chunk s \<and> newsize \<ge> nb + MINSIZE then
              let s = (set_head_size oldp nb s)\<lparr>top_chunk := oldp + nb\<rparr> in
              Some (chunk2mem oldp, set_head (top_chunk s) ((newsize - nb) OR PREV_INUSE) s)
            else if nxt \<noteq> top_chunk s \<and> \<not> inuse nxt s \<and> newsize \<ge> nb
            then realloc_split oldp newsize nb (unlink nxt s)
            else do {
              (newmem, s) \<leftarrow> mALLOc (nb - MALLOC_ALIGN_MASK) s;
              if newmem = 0 then Some (0, s)
              else
                let newp = mem2chunk newmem; newsize = chunksize newp s in
                if newp = nxt then realloc_split oldp (newsize + oldsize) nb s
                else do {
                  s \<leftarrow> fREe oldmem (realloc_copy newmem oldmem oldsize s);
                  Some (chunk2mem newp, s)
                }
            }
        else Some (0, s))"

section \<open>memalign\<close>

partial_function (option) power_from :: "u64 \<Rightarrow> u64 \<Rightarrow> u64 option" where
  "power_from a alignment = (if a < alignment then power_from (push_bit 1 a) alignment else Some a)"

text \<open>The chunk moved to an aligned place; the space in front of it is freed.\<close>

definition align_chunk :: "u64 \<Rightarrow> u64 \<Rightarrow> malloc_state \<Rightarrow> (u64 \<times> malloc_state) option" where
  "align_chunk p alignment s =
     (let brk = mem2chunk ((chunk2mem p + alignment - 1) AND - alignment);
          brk = (if brk - p < MINSIZE then brk + alignment else brk);
          newp = brk;
          leadsize = brk - p;
          newsize = chunksize p s - leadsize;
          s = set_head newp (newsize OR PREV_INUSE) s;
          s = set_inuse_bit_at_offset newp newsize s;
          s = set_head_size p leadsize s
      in do { s \<leftarrow> fREe (chunk2mem p) s; Some (newp, s) })"

definition trim_chunk :: "u64 \<Rightarrow> u64 \<Rightarrow> malloc_state \<Rightarrow> malloc_state option" where
  "trim_chunk p nb s =
     (if \<not> chunk_is_mmapped p s \<and> chunksize p s > nb + MINSIZE then
        let remainder_size = chunksize p s - nb;
            remainder = p + nb;
            s = set_head remainder (remainder_size OR PREV_INUSE) s;
            s = set_head_size p nb s
        in fREe (chunk2mem remainder) s
      else Some s)"

definition mEMALIGn :: "u64 \<Rightarrow> u64 \<Rightarrow> malloc_state \<Rightarrow> (u64 \<times> malloc_state) option" where
  "mEMALIGn alignment bytes s =
     (if alignment \<le> MALLOC_ALIGNMENT then mALLOc bytes s
      else do {
        let alignment = (if alignment < MINSIZE then MINSIZE else alignment);
        alignment \<leftarrow> (if alignment AND (alignment - 1) \<noteq> 0 then power_from (MALLOC_ALIGNMENT * 2) alignment
          else Some alignment);
        if REQUEST_OUT_OF_RANGE bytes then Some (0, s)
        else do {
          let nb = request2size bytes;
          (m, s) \<leftarrow> mALLOc (nb + alignment + MINSIZE) s;
          if m = 0 then Some (0, s)
          else
            let p = mem2chunk m in
            if m mod alignment \<noteq> 0 \<and> chunk_is_mmapped p s then
              let brk = mem2chunk ((m + alignment - 1) AND - alignment);
                  newp = (if brk - p < MINSIZE then brk + alignment else brk);
                  leadsize = newp - p;
                  newsize = chunksize p s - leadsize;
                  s = stw (prev_size_addr newp) (prev_size p s + leadsize) s
              in Some (chunk2mem newp, set_head newp (newsize OR IS_MMAPPED) s)
            else do {
              (p, s) \<leftarrow> (if m mod alignment \<noteq> 0 then align_chunk p alignment s else Some (p, s));
              s \<leftarrow> trim_chunk p nb s;
              Some (chunk2mem p, s)
            }
        }
      })"

text \<open>The first call sets the state up.\<close>

definition ensure_init :: "malloc_state \<Rightarrow> malloc_state option" where
  "ensure_init s = (if max_fast s = 0 then malloc_consolidate s else Some s)"

definition vALLOc :: "u64 \<Rightarrow> malloc_state \<Rightarrow> (u64 \<times> malloc_state) option" where
  "vALLOc bytes s = do { s \<leftarrow> ensure_init s; mEMALIGn (ucast (pagesize s)) bytes s }"

definition pVALLOc :: "u64 \<Rightarrow> malloc_state \<Rightarrow> (u64 \<times> malloc_state) option" where
  "pVALLOc bytes s =
     do {
       s \<leftarrow> ensure_init s;
       let pagesz = (ucast (pagesize s) :: u64);
       mEMALIGn pagesz ((bytes + pagesz - 1) AND NOT (pagesz - 1)) s
     }"

section \<open>calloc and the independent allocations\<close>

definition cALLOc :: "u64 \<Rightarrow> u64 \<Rightarrow> malloc_state \<Rightarrow> (u64 \<times> malloc_state) option" where
  "cALLOc n_elements elem_size s =
     do {
       (m, s) \<leftarrow> mALLOc (n_elements * elem_size) s;
       if m \<noteq> 0 then
         let p = mem2chunk m in
         if \<not> chunk_is_mmapped p s then
           let nclears = unat ((chunksize p s - SIZE_SZ) div 8) in
           Some (m, clear_words m (if nclears > 9 then nclears else unrolled_words nclears) s)
         else Some (m, clear_words m (unat ((chunksize p s - 2 * SIZE_SZ) div 8)) s)
       else Some (m, s)
     }"

definition cFREe :: "u64 \<Rightarrow> malloc_state \<Rightarrow> malloc_state option" where
  "cFREe m s = fREe m s"

text \<open>The elements are split off one by one; the last one keeps the rest.\<close>

fun split_elements :: "u64 \<Rightarrow> (nat \<Rightarrow> u64) \<Rightarrow> nat \<Rightarrow> nat \<Rightarrow> u64 \<Rightarrow> u64 \<Rightarrow> malloc_state \<Rightarrow> malloc_state" where
  "split_elements marray sz i 0 p rest s =
     set_head p (rest OR PREV_INUSE) (stw (marray + 8 * of_nat i) (chunk2mem p) s)"
| "split_elements marray sz i (Suc k) p rest s =
     split_elements marray sz (i + 1) k (p + sz i) (rest - sz i)
       (set_head p (sz i OR PREV_INUSE) (stw (marray + 8 * of_nat i) (chunk2mem p) s))"

text \<open>The array of sizes belongs to the caller and is given by its contents.\<close>

definition iALLOc :: "u64 \<Rightarrow> (nat \<Rightarrow> u64) \<Rightarrow> 32 word \<Rightarrow> u64 \<Rightarrow> malloc_state \<Rightarrow> (u64 \<times> malloc_state) option" where
  "iALLOc n_elements sizes opts chunks s =
     do {
       s \<leftarrow> ensure_init s;
       if n_elements = 0 then (if chunks \<noteq> 0 then Some (chunks, s) else mALLOc 0 s)
       else do {
         let array_size = (if chunks \<noteq> 0 then 0 else request2size (n_elements * 8));
         let element_size = (if opts AND 1 \<noteq> 0 then request2size (sizes 0) else 0);
         let contents_size = (if opts AND 1 \<noteq> 0 then n_elements * element_size
           else \<Sum>i\<leftarrow>[0..<unat n_elements]. request2size (sizes i));
         let sz = contents_size + array_size - MALLOC_ALIGN_MASK;
         let mmx = n_mmaps_max s;
         (m, s) \<leftarrow> mALLOc sz (s\<lparr>n_mmaps_max := 0\<rparr>);
         let s = s\<lparr>n_mmaps_max := mmx\<rparr>;
         if m = 0 then Some (0, s)
         else
           let p = mem2chunk m;
               remainder_size = chunksize p s;
               s = (if opts AND 2 \<noteq> 0
                 then clear_words m (unat ((remainder_size - SIZE_SZ - array_size) div 8)) s else s);
               array_chunk = p + contents_size;
               (marray, rest, s) =
                 (if chunks = 0
                  then (chunk2mem array_chunk, contents_size,
                    set_head array_chunk ((remainder_size - contents_size) OR PREV_INUSE) s)
                  else (chunks, remainder_size, s));
               esize = (\<lambda>i. if element_size \<noteq> 0 then element_size else request2size (sizes i))
           in Some (marray, split_elements marray esize 0 (unat (n_elements - 1)) p rest s)
       }
     }"

definition iCALLOc :: "u64 \<Rightarrow> u64 \<Rightarrow> u64 \<Rightarrow> malloc_state \<Rightarrow> (u64 \<times> malloc_state) option" where
  "iCALLOc n_elements elem_size chunks s = iALLOc n_elements (\<lambda>_. elem_size) 3 chunks s"

definition iCOMALLOc :: "u64 \<Rightarrow> (nat \<Rightarrow> u64) \<Rightarrow> u64 \<Rightarrow> malloc_state \<Rightarrow> (u64 \<times> malloc_state) option" where
  "iCOMALLOc n_elements sizes chunks s = iALLOc n_elements sizes 0 chunks s"

section \<open>Trimming, statistics and parameters\<close>

definition mTRIm :: "u64 \<Rightarrow> malloc_state \<Rightarrow> (int \<times> malloc_state) option" where
  "mTRIm pad s = do { s \<leftarrow> malloc_consolidate s; Some (sYSTRIm pad s) }"

definition mUSABLe :: "u64 \<Rightarrow> malloc_state \<Rightarrow> u64" where
  "mUSABLe m s =
     (if m \<noteq> 0 then
        let p = mem2chunk m in
        if chunk_is_mmapped p s then chunksize p s - 2 * SIZE_SZ
        else if inuse p s then chunksize p s - SIZE_SZ
        else 0
      else 0)"

record mallinfo =
  arena :: "32 word"
  ordblks :: "32 word"
  smblks :: "32 word"
  hblks :: "32 word"
  hblkhd :: "32 word"
  usmblks :: "32 word"
  fsmblks :: "32 word"
  uordblks :: "32 word"
  fordblks :: "32 word"
  keepcost :: "32 word"

text \<open>The chunks of a list and their bytes are counted up.\<close>

partial_function (option) count_fastbin :: "malloc_state \<Rightarrow> u64 \<Rightarrow> 32 word \<Rightarrow> u64 \<Rightarrow> (32 word \<times> u64) option" where
  "count_fastbin s p n avail =
     (if p = 0 then Some (n, avail) else count_fastbin s (fd p s) (n + 1) (avail + chunksize p s))"

partial_function (option) count_bin :: "malloc_state \<Rightarrow> u64 \<Rightarrow> u64 \<Rightarrow> 32 word \<Rightarrow> u64 \<Rightarrow> (32 word \<times> u64) option" where
  "count_bin s b p n avail =
     (if p = b then Some (n, avail) else count_bin s b (bk p s) (n + 1) (avail + chunksize p s))"

fun count_fastbins :: "malloc_state \<Rightarrow> nat list \<Rightarrow> 32 word \<Rightarrow> u64 \<Rightarrow> (32 word \<times> u64) option" where
  "count_fastbins s [] n avail = Some (n, avail)"
| "count_fastbins s (i # is) n avail =
     do { (n, avail) \<leftarrow> count_fastbin s (fastbins s ! i) n avail; count_fastbins s is n avail }"

fun count_bins :: "malloc_state \<Rightarrow> nat list \<Rightarrow> 32 word \<Rightarrow> u64 \<Rightarrow> (32 word \<times> u64) option" where
  "count_bins s [] n avail = Some (n, avail)"
| "count_bins s (i # is) n avail =
     do { (n, avail) \<leftarrow> count_bin s (bin_at s i) (bk (bin_at s i) s) n avail; count_bins s is n avail }"

definition mALLINFo :: "malloc_state \<Rightarrow> (mallinfo \<times> malloc_state) option" where
  "mALLINFo s =
     do {
       s \<leftarrow> (if top_chunk s = 0 then malloc_consolidate s else Some s);
       (nfastblocks, fastavail) \<leftarrow> count_fastbins s [0..<NFASTBINS] 0 0;
       (nblocks, avail) \<leftarrow> count_bins s [1..<NBINS] 1 (chunksize (top_chunk s) s + fastavail);
       Some (\<lparr>arena = ucast (sbrked_mem s), ordblks = nblocks, smblks = nfastblocks, hblks = n_mmaps s,
         hblkhd = ucast (mmapped_mem s), usmblks = ucast (max_total_mem s), fsmblks = ucast fastavail,
         uordblks = ucast (sbrked_mem s - avail), fordblks = ucast avail,
         keepcost = ucast (chunksize (top_chunk s) s)\<rparr>, s)
     }"

text \<open>The numbers \<open>mSTATs\<close> prints, converted from \<open>int\<close> to \<open>unsigned long\<close>, in order.\<close>

definition mSTATs :: "malloc_state \<Rightarrow> (u64 list \<times> malloc_state) option" where
  "mSTATs s =
     do {
       (mi, s) \<leftarrow> mALLINFo s;
       Some ([scast (usmblks mi), scast (arena mi + hblkhd mi), scast (uordblks mi + hblkhd mi)], s)
     }"

definition M_MXFAST :: int where "M_MXFAST = 1"
definition M_TRIM_THRESHOLD :: int where "M_TRIM_THRESHOLD = - 1"
definition M_TOP_PAD :: int where "M_TOP_PAD = - 2"
definition M_MMAP_THRESHOLD :: int where "M_MMAP_THRESHOLD = - 3"
definition M_MMAP_MAX :: int where "M_MMAP_MAX = - 4"

definition mALLOPt :: "int \<Rightarrow> int \<Rightarrow> malloc_state \<Rightarrow> (int \<times> malloc_state) option" where
  "mALLOPt param_number value s =
     do {
       s \<leftarrow> malloc_consolidate s;
       Some (if param_number = M_MXFAST then
               if value \<ge> 0 \<and> value \<le> uint MAX_FAST_SIZE then (1, set_max_fast (word_of_int value) s) else (0, s)
             else if param_number = M_TRIM_THRESHOLD then (1, s\<lparr>trim_threshold := word_of_int value\<rparr>)
             else if param_number = M_TOP_PAD then (1, s\<lparr>top_pad := word_of_int value\<rparr>)
             else if param_number = M_MMAP_THRESHOLD then (1, s\<lparr>mmap_threshold := word_of_int value\<rparr>)
             else if param_number = M_MMAP_MAX then
               if value \<noteq> 0 then (0, s) else (1, s\<lparr>n_mmaps_max := word_of_int value\<rparr>)
             else (0, s))
     }"

end
