(* ===== verification/Malloc_Free.thy ===== *)
theory Malloc_Free
  imports Malloc_Blocks Malloc_Entry
begin

text \<open>
  Giving memory back: the block at the end of the heap, what trimming does with the \<open>sbrk\<close> of the
  kernel, the checks of the defensive wrapper, and what \<open>cALLOc\<close> and \<open>rEALLOc\<close> write.
\<close>

unbundle bit_operations_syntax

section \<open>The two functions that call each other\<close>

lemma mALLOc_sYSMALLOc:
  "mALLOc bytes s =
     (if REQUEST_OUT_OF_RANGE bytes then Some (0, s)
      else Option.bind (malloc_search (request2size bytes) s) (\<lambda>r. case r of
          Inl found \<Rightarrow> Some found
        | Inr s' \<Rightarrow> (case split_top (request2size bytes) s' of
            Some found \<Rightarrow> Some found
          | None \<Rightarrow> sYSMALLOc (request2size bytes) s')))"
  unfolding sYSMALLOc_def by (subst mALLOc.simps) (simp only: Let_def)

text \<open>When \<open>sYSMALLOc\<close> starts again, the size it passes gives the same chunk.\<close>

lemma restart_same_size:
  assumes lt: "uint req < 2 ^ 63"
  shows "request2size (request2size req - MALLOC_ALIGN_MASK) = request2size req"
    "\<not> REQUEST_OUT_OF_RANGE (request2size req - MALLOC_ALIGN_MASK)"
proof -
  let ?nb = "request2size req"
  have req: "\<not> REQUEST_OUT_OF_RANGE req" using lt by (simp add: in_range_iff)
  note nb = request2size_room [OF req]
  have u: "uint (?nb - MALLOC_ALIGN_MASK) = uint ?nb - 15" using uint_sub_le [of 15 ?nb] nb(2) by simp
  show r: "\<not> REQUEST_OUT_OF_RANGE (?nb - MALLOC_ALIGN_MASK)" using u nb(5) lt by (auto simp: in_range_iff max_def split: if_splits)
  have "(8 + uint ?nb) div 16 * 16 = uint ?nb" using nb(1) by presburger
  then have "uint (request2size (?nb - MALLOC_ALIGN_MASK)) = uint ?nb"
    using request2size_uint [OF r] u nb(2) by simp
  then show "request2size (?nb - MALLOC_ALIGN_MASK) = ?nb" by (simp add: word_uint_eq_iff)
qed

section \<open>Trimming\<close>

text \<open>\<open>sbrk\<close> refuses to shrink the heap, so \<open>sYSTRIm\<close> releases nothing and changes nothing.\<close>

lemma MORECORE_negative:
  assumes "uint (curptr (store s)) \<le> uint (heap_end (store s))" "uint (heap_end (store s)) < 2 ^ 63" "0 < sint n"
  shows "MORECORE (- n) s = (- 1, s)"
proof -
  let ?c = "curptr (store s)"
  have n: "0 < uint n" "uint n < 2 ^ 63"
    using assms(3) uint_lt2p [of n] by (auto simp: sint_cases split: if_splits)
  have "word_of_int (sint (- n)) = - n" by simp
  moreover have "?c - n < ?c \<or> heap_end (store s) < ?c - n"
  proof (cases "uint n \<le> uint ?c")
    case True
    then show ?thesis using n uint_sub_le [of n ?c] by (simp add: word_less_def)
  next
    case False
    then have "uint (?c - n) = uint ?c - uint n + 2 ^ 64" using uint_sub_if' [of ?c n] by simp
    then have "uint (heap_end (store s)) < uint (?c - n)" using assms(2) n by simp (use uint_ge_0 [of ?c] in linarith)
    then show ?thesis by (simp add: word_less_def)
  qed
  ultimately show ?thesis by (simp add: MORECORE_def sbrk_def Let_def del: of_int_sint)
qed

lemma trim_releases_nothing:
  assumes "uint (curptr (store s)) \<le> uint (heap_end (store s))" "uint (heap_end (store s)) < 2 ^ 63"
  shows "sYSTRIm pad s = (0, s)"
proof -
  have z: "MORECORE 0 s = (curptr (store s), s)" using MORECORE_eq [of s 0] assms(1) by simp
  show ?thesis using MORECORE_negative [OF assms]
    by (simp add: sYSTRIm_def Let_def z)
qed

section \<open>The last block\<close>

text \<open>
  A block in front of the last chunk, too large for the fast bins, is joined with it when it is freed.
  The size of the result may reach both thresholds; there is nothing to consolidate or to trim then.
\<close>

lemma not_mmapped:
  fixes v :: u64
  assumes "uint v mod 16 = 0"
  shows "(v OR 1) AND 2 = 0"
proof -
  have 1: "bit (1 :: u64) n \<longleftrightarrow> n = 0" for n by (simp add: bit_1_iff)
  have 2: "bit (2 :: u64) n \<longleftrightarrow> n = 1" for n using bit_push_bit_iff [of 1 "1 :: u64" n] by (auto simp: 1)
  show ?thesis
  proof (rule bit_word_eqI)
    fix n
    show "bit ((v OR 1) AND 2) n = bit 0 n"
      unfolding bit_and_iff bit_or_iff 1 2 using low_bits [OF assms, of 1] by auto
  qed
qed

lemma free_last_block:
  assumes inv: "heap_inv lo s" and p: "mem2chunk m = p" "m \<noteq> 0" "uint lo \<le> uint p"
    and nb: "chunk_size p s = nb OR 1" "uint nb mod 16 = 0" "80 < uint nb" "uint p + uint nb = frontier lo s"
    and top: "frontier lo s + 32 \<le> uint (curptr (store s))"
  defines "s' \<equiv> (set_head p ((nb + chunksize (top_chunk s) s) OR PREV_INUSE) (set_anychunks s))\<lparr>top_chunk := p\<rparr>"
  shows "fREe m s = Some s'" "heap_inv lo (s'\<lparr>max_fast := 80\<rparr>)" "frontier lo s' = uint p"
proof -
  let ?t = "top_chunk s"
  have lay: "heap_layout lo s" and mf: "max_fast s = 80" using inv by (simp_all add: heap_inv_def)
  have new: "?t \<noteq> initial_top s"
    using inv top uint_ge_0 [of lo] by (auto simp: heap_inv_def frontier_def)
  then obtain sz where sz: "chunk_size ?t s = sz OR 1" "uint sz mod 16 = 0" "uint lo \<le> uint ?t"
    "uint ?t + uint sz = uint (curptr (store s))" using inv by (auto simp: heap_inv_def)
  have f: "frontier lo s = uint ?t" using new by (simp add: frontier_def)
  have c: "uint (curptr (store s)) < 2 ^ 63" using lay by (simp add: heap_layout_def)
  have ct: "chunksize ?t s = sz" using head_size(1) [OF sz(2)] sz(1) by (simp add: chunksize_def)
  have cp: "chunksize p s = nb" using head_size(1) [OF nb(2)] nb(1) by (simp add: chunksize_def)
  have pn: "p + nb = ?t" using nb(4) f uint_add_lt [of p nb] uint_lt2p [of ?t] by (simp add: word_uint_eq_iff)
  have sum: "uint (nb + sz) = uint nb + uint sz" using nb(4) f c sz(4) uint_add_lt [of nb sz] uint_ge_0 [of p] by simp
  have A: "mem (store (set_anychunks s)) = mem (store s)" "top_chunk (set_anychunks s) = ?t"
    by (simp_all add: set_anychunks_def)
  have l: "ldw a (set_anychunks s) = ldw a s" for a by (simp add: ldw_def A)
  have inuse: "prev_inuse p (set_anychunks s)"
    using head_size(2) [OF nb(2)] nb(1) by (simp add: prev_inuse_def l PREV_INUSE_def)
  have fc: "free_chunk p nb s = (nb + sz, s')"
    using inuse ct by (simp add: free_chunk_def Let_def pn A s'_def chunksize_def l)
  have mm: "\<not> chunk_is_mmapped p s"
    using not_mmapped [OF nb(2)] nb(1) by (simp add: chunk_is_mmapped_def IS_MMAPPED_def)
  have fl: "max_fast s' = 81" by (simp add: s'_def set_head_def set_anychunks_def mf ANYCHUNKS_BIT_def)
  then have nf: "\<not> have_fastchunks s'" by (simp add: have_fastchunks_def FASTCHUNKS_BIT_def)
  have st: "curptr (store s') = curptr (store s)" "heap_end (store s') = heap_end (store s)"
    by (simp_all add: s'_def set_head_def set_anychunks_def)
  have tr: "sYSTRIm pad s' = (0, s')" for pad
    using lay by (intro trim_releases_nothing) (simp_all add: st heap_layout_def)
  have big: "\<not> nb \<le> max_fast s" using nb(3) by (simp add: mf word_le_def)
  show "fREe m s = Some s'"
    using p(2) big mm nf by (simp add: fREe_def Let_def p(1) cp fc tr)
  have np: "p \<noteq> bins_addr s" using p(3) lay by (auto simp: heap_layout_def)
  have "uint p + (uint nb + uint sz) = uint (curptr (store s))" "(uint nb + uint sz) mod 16 = 0"
    using nb(2,4) sz(2,4) f by presburger+
  then show "heap_inv lo (s'\<lparr>max_fast := 80\<rparr>)"
    using inv np p(3) sum ct
    by (simp add: heap_inv_def s'_def set_head_def set_anychunks_def initial_top_eq heap_layout_def contiguous_def
        size_addr_def PREV_INUSE_def ldw_def stw_def) (intro exI [of _ "nb + sz"], simp)
  show "frontier lo s' = uint p"
    using np by (simp add: frontier_def s'_def set_head_def set_anychunks_def initial_top_eq)
qed

text \<open>
  Freeing undoes allocating.  A block that was just taken from the end of the heap, too large for
  the fast bins, goes back there when it is freed: the end of the heap begins where it did before, the heap
  is in order again, but for the flag that says that something was freed, and the blocks given out before hold what they held.
\<close>

lemma free_returns_last_block:
  assumes "heap_inv lo s" "mALLOc n s = Some (m, s1)" "m \<noteq> 0" "80 < uint (request2size n)"
  shows "\<exists>s2. fREe m s1 = Some s2 \<and> frontier lo s2 = frontier lo s \<and> heap_inv lo (s2\<lparr>max_fast := 80\<rparr>) \<and>
    max_fast s2 = 81 \<and> (\<forall>a. uint lo \<le> uint a \<longrightarrow> uint a < frontier lo s + 8 \<longrightarrow> ldw a s2 = ldw a s)"
proof -
  have req: "\<not> REQUEST_OUT_OF_RANGE n" using assms(2,3) by (subst (asm) mALLOc.simps) (auto split: if_splits)
  let ?p = "mem2chunk m"
  have r: "uint m = frontier lo s + 16" "heap_inv lo s1" "frontier lo s1 = frontier lo s + uint (request2size n)"
    "keeps_blocks lo s s1" "frontier lo s1 + 32 \<le> uint (curptr (store s1))" "chunk_size ?p s1 = request2size n OR 1"
    using mALLOc_step [OF assms(1) req] assms(2,3) by auto
  note f = frontier_bounds [OF assms(1)]
  have p: "uint ?p = frontier lo s"
    using r(1) f(1) uint_sub_le [of 16 m] uint_ge_0 [of lo] by (simp add: mem2chunk_def)
  let ?s2 = "(set_head ?p ((request2size n + chunksize (top_chunk s1) s1) OR PREV_INUSE)
      (set_anychunks s1))\<lparr>top_chunk := ?p\<rparr>"
  have "fREe m s1 = Some ?s2" and inv: "heap_inv lo (?s2\<lparr>max_fast := 80\<rparr>)" and fr: "frontier lo ?s2 = uint ?p"
    using free_last_block [OF r(2) refl assms(3) _ r(6) request2size_room(1) [OF req] assms(4) _ r(5)] p f(1) r(3)
    by simp_all
  moreover have "max_fast ?s2 = 81" using r(2) by (simp add: set_head_def set_anychunks_def heap_inv_def ANYCHUNKS_BIT_def)
  moreover have "ldw a ?s2 = ldw a s" if a: "uint lo \<le> uint a" "uint a < frontier lo s + 8" for a
  proof -
    have "frontier lo s + 8 < 2 ^ 64" using f(2) assms(1) by (simp add: heap_inv_def heap_layout_def)
    then have "uint (?p + 8) = frontier lo s + 8" using p uint_add_lt [of ?p 8] by simp
    then have "a \<noteq> ?p + 8" using a(2) by auto
    then show ?thesis using a r(4)
      by (simp add: keeps_blocks_def set_head_def size_addr_def set_anychunks_def ldw_def stw_def)
  qed
  ultimately show ?thesis using p by auto
qed

section \<open>The defensive wrapper\<close>

text \<open>A zone of \<open>L\<close> double words: two in front of the block and two behind it are guards.\<close>

definition zone_length :: "u64 \<Rightarrow> nat" where
  "zone_length len = (unat len + 7) div 8 + 4"

definition zone_word :: "u64 \<Rightarrow> nat \<Rightarrow> u64" where
  "zone_word q i = q + 8 * of_nat i"

definition guard_words :: "u64 \<Rightarrow> u64 \<Rightarrow> (nat \<times> u64) list" where
  "guard_words len q =
     (let l = zone_length len in [(0, len), (1, 0xa51234ab), (l - 2, 0xdeadfedc), (l - 1, q)])"

lemma zone_word_first [simp]: "zone_word q 0 = q" "zone_word q (Suc 0) = q + 8"
  by (simp_all add: zone_word_def)

lemma zone_word_inj: "i < 2 ^ 61 \<Longrightarrow> j < 2 ^ 61 \<Longrightarrow> zone_word q i = zone_word q j \<longleftrightarrow> i = j"
proof -
  assume ij: "i < 2 ^ 61" "j < 2 ^ 61"
  have u: "unat (8 * of_nat k :: u64) = 8 * k" if "k < 2 ^ 61" for k
    using that by (simp add: unat_word_ariths unsigned_of_nat take_bit_eq_mod)
  show ?thesis using u [OF ij(1)] u [OF ij(2)] unfolding zone_word_def
    by (metis add_left_cancel mult_left_cancel zero_neq_numeral)
qed

lemma zone_words_length:
  assumes "unat len < 2 ^ 60"
  shows "zone_words len = of_nat (zone_length len)" "unat (zone_words len) = zone_length len"
    "zone_length len < 2 ^ 61" "4 \<le> zone_length len"
proof -
  have 1: "unat (len + 7) = unat len + 7" using assms by (simp add: unat_word_ariths)
  have "unat ((len + 7) div 8) = (unat len + 7) div 8" by (simp add: unat_div 1)
  then have "unat (zone_words len) = zone_length len" using assms
    by (simp add: zone_words_def zone_length_def unat_word_ariths)
  then show "unat (zone_words len) = zone_length len" "zone_words len = of_nat (zone_length len)"
    by (simp, metis of_nat_unat ucast_id)
  show "zone_length len < 2 ^ 61" "4 \<le> zone_length len" using assms by (simp_all add: zone_length_def)
qed

lemma clear_words_upto:
  "ldw a (clear_words q n s) = (if \<exists>i<n. a = zone_word q i then 0 else ldw a s)"
proof (induction n)
  case (Suc n)
  have "clear_words q (Suc n) s = stw (zone_word q n) 0 (clear_words q n s)"
    by (simp add: clear_words_def zone_word_def)
  then show ?case using Suc by (auto simp: less_Suc_eq)
qed (simp add: clear_words_def)

lemma mem_free_guarded:
  assumes "len \<noteq> 0" "unat len < 2 ^ 60"
  shows "mem_free (q + 16) len s =
    (if \<forall>(i, v)\<in>set (guard_words len q). ldw (zone_word q i) s = v
     then public_fREe q (clear_words q (zone_length len) s) else None)"
proof -
  note z = zone_words_length [OF assms(2)]
  have w: "q + 8 * (zone_words len - 2) = zone_word q (zone_length len - 2)"
    "q + 8 * (zone_words len - 1) = zone_word q (zone_length len - 1)"
    using z(4) by (simp_all add: z(1) zone_word_def)
  have q: "q + 16 - 16 = q" by simp
  show ?thesis unfolding mem_free_def Let_def q w z(2) using assms(1) by (simp add: guard_words_def Let_def)
qed

lemma mem_alloc_zone:
  assumes len: "len \<noteq> 0" "unat len < 2 ^ 60" and a: "mem_alloc len s = Some (p, s')" "p \<noteq> 0"
  shows "\<exists>q. p = q + 16 \<and> q \<noteq> 0 \<and> (\<forall>(i, v)\<in>set (guard_words len q). ldw (zone_word q i) s' = v) \<and>
    (\<forall>i. 2 \<le> i \<longrightarrow> i < zone_length len - 2 \<longrightarrow> ldw (zone_word q i) s' = 0)"
proof -
  let ?L = "zone_length len"
  note z = zone_words_length [OF len(2)]
  have "unat (zone_words len * 8) = 8 * ?L" using z(2,3) by (simp add: unat_word_ariths)
  moreover have "unat len \<le> 8 * ((unat len + 7) div 8)" by presburger
  ultimately have big: "\<not> zone_words len * 8 \<le> len" "unat ((zone_words len * 8 - 32) div 8) = ?L - 4"
    using z(4) by (simp_all add: word_le_nat_alt zone_length_def unat_div unat_sub_if')
  obtain q t where m: "public_mALLOc (zone_words len * 8) s = Some (q, t)" "q \<noteq> 0"
    using a len(1) big by (auto simp: mem_alloc_def Let_def split: bind_splits if_splits)
  have w: "q + 8 * (zone_words len - 2) = zone_word q (?L - 2)" "q + 8 * (zone_words len - 1) = zone_word q (?L - 1)"
    using z(4) by (simp_all add: z(1) zone_word_def)
  define g where "g = stw (zone_word q (?L - 1)) q (stw (zone_word q (?L - 2)) 0xdeadfedc
      (stw (q + 8) 0xa51234ab (stw q len t)))"
  have r: "p = q + 16" "s' = clear_words (q + 16) (?L - 4) g"
  proof -
    have "mem_alloc len s = Some (q + 16, clear_words (q + 16) (?L - 4)
        (stw (q + 8 * (zone_words len - 1)) q (stw (q + 8 * (zone_words len - 2)) 0xdeadfedc
          (stw (q + 8) 0xa51234ab (stw q len t)))))"
      using len(1) big m by (simp add: mem_alloc_def Let_def)
    then show "p = q + 16" "s' = clear_words (q + 16) (?L - 4) g" using a(1) unfolding w g_def by simp_all
  qed
  have c: "ldw (zone_word q j) s' = (if 2 \<le> j \<and> j < ?L - 2 then 0 else ldw (zone_word q j) g)" if "j < 2 ^ 61" for j
  proof -
    have "zone_word (q + 16) i = zone_word q (i + 2)" for i by (simp add: zone_word_def)
    then have "zone_word q j = zone_word (q + 16) i \<longleftrightarrow> j = i + 2" if "i < ?L - 4" for i
      using that \<open>j < 2 ^ 61\<close> z(3) by (simp add: zone_word_inj)
    then have "(\<exists>i<?L - 4. zone_word q j = zone_word (q + 16) i) \<longleftrightarrow> (\<exists>i<?L - 4. j = i + 2)" by blast
    also have "\<dots> \<longleftrightarrow> 2 \<le> j \<and> j < ?L - 2" by presburger
    finally show ?thesis unfolding r(2) clear_words_upto by simp
  qed
  have 5: "5 \<le> ?L" using len(1) by (simp add: zone_length_def unat_gt_0 less_eq_div_iff_mult_less_eq)
      (metis Suc_leI unat_eq_zero neq0_conv)
  have "ldw q s' = ldw q g" "ldw (q + 8) s' = ldw (q + 8) g" using c [of 0] c [of "Suc 0"] by simp_all
  then show ?thesis using 5 m(2) r(1) z(3) c zone_word_inj [of 0 _ q] zone_word_inj [of 1 _ q]
    by (auto simp: guard_words_def Let_def g_def zone_word_inj)
qed

text \<open>A client of the wrapper stores double words by their place in the zone.\<close>

definition store_words :: "u64 \<Rightarrow> (nat \<times> u64) list \<Rightarrow> malloc_state \<Rightarrow> malloc_state" where
  "store_words q = fold (\<lambda>(i, v). stw (zone_word q i) v)"

lemma store_words_other:
  "\<forall>(i, v)\<in>set ws. zone_word q i \<noteq> a \<Longrightarrow> ldw a (store_words q ws s) = ldw a s"
  by (induction ws arbitrary: s) (auto simp: store_words_def)

lemma guard_words_places:
  "len \<noteq> 0 \<Longrightarrow> (i, g) \<in> set (guard_words len q) \<Longrightarrow> i < zone_length len \<and> \<not> (2 \<le> i \<and> i < zone_length len - 2)"
  by (auto simp: guard_words_def Let_def zone_length_def)

text \<open>
  C34.  The guard words.  A block of \<open>mem_alloc\<close> comes cleared; \<open>mem_free\<close> accepts it after any stores
  inside the block, and stops the machine when one of the double words around the block was changed.
\<close>

theorem guards_catch_overrun:
  assumes "len \<noteq> 0" "unat len < 2 ^ 60" "mem_alloc len s = Some (p, s')" "p \<noteq> 0"
    and "\<forall>(i, v)\<in>set ws. 2 \<le> i \<and> i < zone_length len - 2"
  shows "(\<forall>i. 2 \<le> i \<longrightarrow> i < zone_length len - 2 \<longrightarrow> ldw (zone_word (p - 16) i) s' = 0) \<and>
    (let q = p - 16; t = store_words q ws s' in
     mem_free p len t = public_fREe q (clear_words q (zone_length len) t) \<and>
     (\<forall>(i, g)\<in>set (guard_words len q). \<forall>v. v \<noteq> g \<longrightarrow> mem_free p len (stw (zone_word q i) v t) = None))"
proof -
  obtain q where q: "p = q + 16" "\<forall>(i, v)\<in>set (guard_words len q). ldw (zone_word q i) s' = v"
    "\<forall>i. 2 \<le> i \<longrightarrow> i < zone_length len - 2 \<longrightarrow> ldw (zone_word q i) s' = 0"
    using mem_alloc_zone [OF assms(1-4)] by blast
  note z = zone_words_length(3) [OF assms(2)]
  let ?t = "store_words q ws s'"
  have "ldw (zone_word q i) ?t = g" if g: "(i, g) \<in> set (guard_words len q)" for i g
  proof -
    note i = guard_words_places [OF assms(1) g]
    have "zone_word q j \<noteq> zone_word q i" if "(j, v) \<in> set ws" for j v
      using that assms(5) i z zone_word_inj [of j i q] by fastforce
    then show ?thesis using q(2) g store_words_other [of ws q "zone_word q i" s'] by fastforce
  qed
  then have "mem_free (q + 16) len ?t = public_fREe q (clear_words q (zone_length len) ?t)"
    by (auto simp: mem_free_guarded [OF assms(1,2)])
  moreover have "mem_free (q + 16) len (stw (zone_word q i) v ?t) = None"
    if "(i, g) \<in> set (guard_words len q)" "v \<noteq> g" for i g v
    using that by (auto simp: mem_free_guarded [OF assms(1,2)])
  ultimately show ?thesis using q(1,3) by (auto simp: Let_def)
qed

theorem guards_catch_overrun_witness:
  "\<exists>p s'. mem_alloc 20 demo_heap = Some (p, s') \<and> p \<noteq> 0 \<and> zone_length 20 = 7 \<and>
     mem_free p 20 (store_words (p - 16) [(2, 8), (4, 9)] s') =
       public_fREe (p - 16) (clear_words (p - 16) 7 (store_words (p - 16) [(2, 8), (4, 9)] s')) \<and>
     mem_free p 20 (stw (zone_word (p - 16) 5) 9 (store_words (p - 16) [(2, 8), (4, 9)] s')) = None"
proof -
  have "heap_ok 0x10000 demo_heap" using demo_heap_fresh by (simp add: heap_ok_def)
  moreover have "pages (front 0x10000 demo_heap + uint (request2size 56) + 32) \<le> uint (heap_end (store demo_heap))"
    "front 0x10000 demo_heap = 0x10000"
    by (simp_all add: front_def demo_heap_def request2size_def pages_def)
  ultimately obtain q t where m: "mALLOc 56 demo_heap = Some (q, t)" "q \<noteq> 0" "uint q = 0x10000 + 16"
    using mALLOc_call [of "0x10000" demo_heap 56] by (auto simp: REQUEST_OUT_OF_RANGE_def)
  then have "q = 0x10010" by (simp add: word_uint_eq_iff)
  then obtain p s' where a: "mem_alloc 20 demo_heap = Some (p, s')" "p \<noteq> 0"
    using m(1) by (auto simp: mem_alloc_def zone_words_def Let_def public_mALLOc_def)
  have z: "zone_length 20 = 7" "(20 :: u64) \<noteq> 0" "unat (20 :: u64) < 2 ^ 60" by (simp_all add: zone_length_def)
  have g: "(5, 0xdeadfedc) \<in> set (guard_words 20 (p - 16))" by (simp add: guard_words_def z(1))
  have w: "\<forall>(i, v)\<in>set [(2, 8), (4, 9)]. 2 \<le> i \<and> i < zone_length 20 - 2" by (simp add: z(1))
  show ?thesis using guards_catch_overrun [OF z(2,3) a w] a z(1) g by (fastforce simp: Let_def)
qed

section \<open>Clearing and copying\<close>

text \<open>The words of a block are odd in number, at least three: the unrolled code misses none and writes no other.\<close>

lemma unrolled_words_exact: "odd n \<Longrightarrow> 3 \<le> n \<Longrightarrow> n \<le> 9 \<Longrightarrow> unrolled_words n = n"
proof -
  assume "odd n" "3 \<le> n" "n \<le> 9"
  then have "n = 3 \<or> n = 5 \<or> n = 7 \<or> n = 9" by presburger
  then show ?thesis by (auto simp: unrolled_words_def)
qed

lemma block_words:
  fixes sz :: u64
  assumes "uint sz mod 16 = 0" "32 \<le> uint sz"
  shows "unat ((sz - 8) div 8) = unat sz div 8 - 1" "odd (unat sz div 8 - 1)" "3 \<le> unat sz div 8 - 1"
proof -
  have n: "int (unat sz) mod 16 = 0" "32 \<le> int (unat sz)" using assms by (simp_all add: uint_nat [symmetric])
  then have m: "unat sz mod 16 = 0" "32 \<le> unat sz" by presburger+
  have "unat (sz - 8) = unat sz - 8" using m(2) by (simp add: unat_sub_if')
  then show "unat ((sz - 8) div 8) = unat sz div 8 - 1" using m by (simp add: unat_div)
  show "odd (unat sz div 8 - 1)" "3 \<le> unat sz div 8 - 1" using m by presburger+
qed

text \<open>\<open>cALLOc\<close> clears the whole block and nothing else.\<close>

lemma calloc_clears:
  assumes m: "mALLOc (n * e) s = Some (m, s1)" "m \<noteq> 0"
    and c: "chunk_size (mem2chunk m) s1 = sz OR 1" "uint sz mod 16 = 0" "32 \<le> uint sz"
  shows "\<exists>s2. cALLOc n e s = Some (m, s2) \<and>
    (\<forall>a. ldw a s2 = (if \<exists>i<unat sz div 8 - 1. a = m + 8 * of_nat i then 0 else ldw a s1))"
proof -
  let ?k = "unat sz div 8 - 1"
  have cs: "chunksize (mem2chunk m) s1 = sz" using head_size(1) [OF c(2)] c(1) by (simp add: chunksize_def)
  have mm: "\<not> chunk_is_mmapped (mem2chunk m) s1"
    using not_mmapped [OF c(2)] c(1) by (simp add: chunk_is_mmapped_def IS_MMAPPED_def)
  have "9 < ?k \<or> unrolled_words ?k = ?k"
    using block_words [OF c(2,3)] unrolled_words_exact [of ?k] by linarith
  then have "cALLOc n e s = Some (m, clear_words m ?k s1)"
    using m mm block_words(1) [OF c(2,3)] by (auto simp: cALLOc_def cs Let_def)
  then show ?thesis using clear_words_upto [of _ m ?k s1] by (auto simp: zone_word_def)
qed

text \<open>
  The product of the two arguments of \<open>cALLOc\<close> is not checked: a table of \<open>2 ^ 32\<close> elements of
  \<open>2 ^ 32\<close> bytes is given the smallest block.
\<close>

lemma calloc_size_wraps: "cALLOc 0x100000000 0x100000000 s = cALLOc 0 0 s"
proof -
  have "(0x100000000 * 0x100000000 :: u64) = 0 * 0" by (simp add: word_uint_eq_iff)
  then show ?thesis unfolding cALLOc_def by (simp only:)
qed

text \<open>The copy of \<open>rEALLOc\<close>, between blocks that do not overlap.\<close>

lemma MALLOC_COPY_words:
  assumes "\<forall>i<n. \<forall>j<n. d + 8 * of_nat i \<noteq> a + 8 * of_nat j" "n < 2 ^ 61"
  shows "ldw x (MALLOC_COPY d a n s) =
    (if \<exists>i<n. x = zone_word d i then ldw (a + (x - d)) s else ldw x s)"
  using assms
proof (induction n arbitrary: x)
  case (Suc n)
  let ?s = "MALLOC_COPY d a n s"
  have c: "MALLOC_COPY d a (Suc n) s = stw (zone_word d n) (ldw (zone_word a n) ?s) ?s"
    by (simp add: MALLOC_COPY_def zone_word_def)
  have IH: "ldw x ?s = (if \<exists>i<n. x = zone_word d i then ldw (a + (x - d)) s else ldw x s)" for x
    by (rule Suc.IH) (use Suc.prems in auto)
  have "\<not> (\<exists>i<n. zone_word a n = zone_word d i)" 
  proof (clarsimp simp: zone_word_def)
    fix i
    assume "i < n" "a + 8 * of_nat n = d + 8 * of_nat i"
    then show False using Suc.prems(1) [rule_format, of i n] by simp
  qed
  then have "ldw (zone_word a n) ?s = ldw (zone_word a n) s" using IH [of "zone_word a n"] by (metis (no_types, lifting))
  moreover have "a + (zone_word d n - d) = zone_word a n" by (simp add: zone_word_def)
  ultimately show ?case using IH [of x] unfolding c by (auto simp: less_Suc_eq)
qed (simp add: MALLOC_COPY_def)

lemma realloc_copies_block:
  assumes sz: "uint sz mod 16 = 0" "32 \<le> uint sz" "uint sz < 2 ^ 32"
    and sep: "\<forall>i<unat sz div 8 - 1. \<forall>j<unat sz div 8 - 1. d + 8 * of_nat i \<noteq> a + 8 * of_nat j"
    and i: "i < unat sz div 8 - 1"
  shows "ldw (d + 8 * of_nat i) (realloc_copy d a sz s) = ldw (a + 8 * of_nat i) s"
proof -
  let ?k = "unat sz div 8 - 1"
  have "int (unat sz) < int (2 ^ 32)" using sz(3) by (simp only: uint_nat) simp
  then have k: "unat sz < 2 ^ 32" by (simp only: of_nat_less_iff)
  have w: "unat ((sz - 8) div 8) = ?k" by (rule block_words [OF sz(1,2)])
  then have u: "unat (ucast ((sz - 8) div 8) :: 32 word) = ?k"
    using k by (simp add: unsigned_ucast_eq take_bit_eq_mod)
  have "realloc_copy d a sz s = MALLOC_COPY d a ?k s"
    using block_words [OF sz(1,2)] unrolled_words_exact [of ?k] by (simp add: realloc_copy_def Let_def u)
  moreover have "?k < 2 ^ 61" using k by simp
  ultimately show ?thesis
    using MALLOC_COPY_words [OF sep, of "d + 8 * of_nat i" s] i by (auto simp: zone_word_def)
qed

end
