(* ===== verification/Spec2Isabelle.thy ===== *)
theory Spec2Isabelle
  imports Prio_Queue Hash_Table Boot Shared_Pages Machine_Info Boards Shell Snake Test_Math Queue_Lock Queue_Test
    Round_Robin Isolation_Run Heap_Names Malloc_Free
begin

text \<open>
  \<^bold>\<open>Verification of the XiNul kernel.\<close>

  XiNul is a preemptive multitasking kernel for 64-bit RISC-V.  It boots in machine mode, maps
  itself and each process with Sv39 page tables, schedules processes by priority, and offers
  system calls for processes, semaphores, message queues, shared memory, time and the console.
  All paths below are relative to \<open>src/src\<close> of the repository.

  \<^bold>\<open>Parts and theories.\<close>
  \<^item> \<open>Prelude\<close>: machine types, two's complement storage, C's truncating division, the predicate
    \<open>post\<close> for computations that may stop the machine, the collection \<open>keeps\<close>.
  \<^item> \<open>Prio_Queue\<close> (\<open>lib/include/queue.h\<close>): the intrusive doubly linked priority queues, on a heap of
    links.  The kernel theories use the queues as lists of pointers; that this is what the links
    implement is the interpretation of the locale of that theory.
  \<^item> \<open>Hash_Table\<close> (\<open>lib/hash/hash.c\<close>): open addressing with perturbation and tombstones.  The kernel
    theories use the tables as maps, which the refinement theorem of that theory justifies.
  \<^item> \<open>C_String\<close> (\<open>lib/string\<close>), \<open>Stdio\<close> (\<open>lib/stdio\<close>, \<open>lib/stdlib/strtol.c\<close>), \<open>Ring_Buffer\<close>
    (\<open>lib/include/buf.h\<close>, and the interface of bounded queues that \<open>Msg_Queue\<close> implements as well).
  \<^item> \<open>Frame_Alloc\<close> (\<open>kernel/memory/frame_dist.c\<close>, \<open>mem.c\<close>): the free list of physical frames.
    \<open>Page_Table\<close> (\<open>kernel/memory/pages.c\<close>, \<open>virtual_memory.c\<close>): entries as 64-bit words, the base
    directory, and the Sv39 walk of the privileged specification as reference.
  \<^item> \<open>Kernel_State\<close> (\<open>kernel/process/process.h\<close>, \<open>helperfunc.c\<close>, \<open>kernel/userspace_apps.c\<close>): the
    structures and the global variables as records, the accessors, and the invariant of the
    process queues.
  \<^item> \<open>Proc_Memory\<close> and \<open>Shared_Memory\<close> (\<open>kernel/process/process_memory.c\<close>, \<open>memory_api.c\<close>);
    \<open>Shared_Pages\<close>: the usage counts of shared pages.  \<open>Isolation\<close>, \<open>Frame_Return\<close> and \<open>Isolation_Run\<close>: what the
    address spaces of processes reach, and what the end of a process gives back.
  \<^item> \<open>Scheduler\<close> (\<open>kernel/process/scheduler.c\<close>, \<open>timer_api.c\<close>, \<open>kernel/timer.c\<close>), \<open>Semaphore\<close>
    (\<open>semaphore_api.c\<close>), \<open>Process_Api\<close> (\<open>process_api.c\<close>, \<open>process.c\<close>), \<open>Msg_Queue\<close>
    (\<open>kernel/msgqueue.c\<close>), \<open>Console\<close> (\<open>kernel/drivers/console.c\<close>, \<open>kernel/input-output\<close>).  \<open>Round_Robin\<close>:
    the scheduler over sequences of timer interrupts.
  \<^item> \<open>Trap\<close> (\<open>kernel/traps\<close>): dispatch of interrupts, exceptions and system calls, and the kernel as a
    transition system.  \<open>Boot\<close> (\<open>kernel/boot/common/boot.c\<close>, \<open>kernel/start.c\<close>): from power on to
    the first process.  \<open>Drivers\<close> (\<open>kernel/drivers\<close>, \<open>lib/include/riscv/atomic.h\<close>): what the drivers
    write to the registers of the devices, and the spin lock as a transition system.  \<open>Boards\<close>
    (\<open>kernel/drivers/sifive_u\<close>, the timers of the boards): the other boards.  \<open>Font\<close> and \<open>Screen\<close>
    (\<open>kernel/drivers/font.c\<close>, \<open>vga.c\<close>, \<open>splash.c\<close>): the fonts and the splash screens in the frame buffer.
    \<open>Machine_Info\<close> (\<open>kernel/bios/info.c\<close>): what is printed about the processor.
  \<^item> \<open>Malloc_Chunk\<close>, \<open>Malloc\<close> and \<open>Malloc_Entry\<close> (\<open>lib/stdlib/malloc.c\<close>): sizes, bins and chunks of the
    allocator, its state as a record over the memory of \<open>Frame_Alloc\<close>, and its operations.  \<open>Malloc_Blocks\<close> and
    \<open>Malloc_Free\<close>: what sequences of calls give; \<open>Heap_Names\<close>: the names of processes in its blocks.
  \<^item> \<open>Shell\<close> (\<open>user/shell/shell.c\<close>, \<open>user/ulib/sbrk.c\<close>), \<open>Snake\<close> (\<open>user/snake\<close>) and \<open>Test_Math\<close>
    (\<open>user/tests/tlib/math.c\<close>): user programs.  \<open>Philosophers\<close>
    (\<open>user/tests/test20\<close>, \<open>user/tests/tlib/xlock.c\<close>): the dining philosophers as concurrent processes over
    locks; \<open>Queue_Lock\<close>: that the message queues of the kernel are these locks; \<open>Queue_Test\<close>
    (\<open>kernel/tests/test10.c\<close>): a message queue as storage.

  \<^bold>\<open>State and operations.\<close>  The record \<open>kernel\<close> holds the global variables: the process
  structures by address, the process table, the queues, semaphores, message queues, shared pages,
  the physical memory, the console, and the registers the code reads and writes.  An operation is
  a function on it, with the result \<open>None\<close> when the machine stops: a failed assertion, which calls
  \<open>exit\<close>, an access through \<open>NULL\<close> or to freed memory, or a loop that does not end.  A system call
  that may switch to another process does not return a value; it leaves in \<open>kont (cpu s)\<close> what the
  processor goes on with (the continuation of the process that runs now, saved with its
  context when it was switched away).  \<open>context_switch\<close> and \<open>direct_context_swap\<close>, assembly in the
  repository, save and load these records.  \<open>syscall_return\<close> is the way back to user mode.

  \<^bold>\<open>The allocator.\<close>  The theories of the kernel use the allocator through its contract, as parameters:
  which allocations fail (\<open>alloc_fails\<close>), how many bytes a block really has (\<open>usable_size\<close>), what fresh
  memory contains (\<open>junk\<close>).  A block has an address that was never given out before.  The code of the allocator is
  modelled on its own, in the configuration of the file (no \<open>mmap\<close>, checks compiled away, memory from the
  \<open>sbrk\<close> of \<open>kernel/memory/mem.c\<close>): it gives separate blocks, and \<open>Heap_Names\<close> puts its sizes in place of the
  parameter.

  \<^bold>\<open>What the lemmas show.\<close>
  \<^item> Isolation: creating a process stops at no assertion, takes only free frames and writes only to them;
    its end gives back exactly these frames; in every run of creations, user-mode writes and ends the
    Sv39 walk leads no two processes to the same frame, and no process to a page directory or to a
    free frame.
  \<^item> Concurrency: the dining philosophers never deadlock, exclude each other and all finish, in every
    interleaving; the timer interrupts share the processor in turn among the processes of the highest
    priority.
  \<^item> Invariants: no process is in two queues or in one its links do not name, and the ready queue
    is sorted, from power on and over every run (\<open>Boot\<close>, \<open>Trap\<close>, by the rules in \<open>keeps\<close>, one per
    operation); frames in use and free frames never overlap; the count of a semaphore tells how
    many processes wait; the usage count of a shared page is at least the number of its users;
    consumers wait only on empty and producers only on full message queues;
    the snake stays on its board; the spin lock excludes.
  \<^item> Refinement and equivalence: priority queue, hash table, message ring and circular buffer
    against lists and maps; the allocator against a heap of separate blocks, as long as nothing is freed,
    and the index of a bin against its definition by powers of two; a message queue against the lock the tests make of it; the scheduler under
    timer interrupts against a round-robin machine; \<open>vsnprintf\<close> against the text of a format, \<open>div64\<close> against division,
    page tables against the Sv39 walk.
  \<^item> Functional behaviour: the scheduler runs a process of the highest priority; \<open>waitpid\<close>, \<open>wait\<close>, \<open>signal\<close>, \<open>psend\<close>, the wake-up of sleepers, the loading of a program,
    the line a user types, the commands of the shell, the pictures of the splash screens and the text about the
    processor; what freeing a block of the heap gives back, and the guard words around a block.
  \<^item> Round trips, termination and bounds of the library routines; and error behaviour, among it the
    theorems behind the reported defects.

  \<^bold>\<open>Interfaces.\<close>  \<open>sched_inv\<close> (\<open>Scheduler\<close>): what an invariant has to satisfy to be kept by the
  scheduler; interpreted for the queues, the semaphores and the message queues.  \<open>bounded_fifo\<close>
  (\<open>Ring_Buffer\<close>): interpreted for the buffer of \<open>buf.h\<close> and for the message ring.  \<open>prio_fifo\<close>
  (\<open>Prio_Queue\<close>) and \<open>map_impl\<close> (\<open>Hash_Table\<close>): interpreted on the links and on the table of slots.
  \<open>polled_uart\<close> (\<open>Boards\<close>): interpreted for the three serial ports.

  \<^bold>\<open>Bounds.\<close>  \<open>awake_loop\<close>, \<open>free_dead_loop\<close> and the deletion loops of the console take the number
  of elements as their bound, since each turn removes one; \<open>eol_loop\<close> takes the size of the buffer,
  after which it is back where it started.  The probing loop of the hash table, the scan loops of
  the queues, \<open>div64_scale\<close> and the loops of the allocator over lists of chunks are partial functions, whose
  termination is proved where it holds.
  Integers are kept at their width where the code can overflow them.

  \<^bold>\<open>Configuration.\<close>  \<open>USER_PROCESSES_ON\<close>; the symbol \<open>VIRTMACHINE\<close> is the argument \<open>virt\<close>.

  \<^bold>\<open>Not modelled.\<close>  The assembly entry and exit code of traps and contexts; the devices behind the
  registers; the blue screen and the dumps of structures, which only print; the code of the allocator for \<open>mmap\<close> and
  for other systems, which is not compiled; what the allocator gives after arbitrary
  sequences of \<open>free\<close>, for which the operations are modelled but only the cases above are proved; the other test
  programs, which call the modelled system calls with fixed arguments, and the copies of \<open>lib/string\<close> and
  \<open>lib/stdio\<close> in their library; the small user programs that only print or make one system call; and the
  examples outside \<open>src/src\<close>.
\<close>

end
